(* ===== verification/Prelude.thy ===== *)
theory Prelude
  imports
    Complex_Main
    "HOL-Library.AList"
    "HOL-Library.Sublist"
    "HOL-Library.Char_ord"
    "HOL-Library.List_Lexorder"
begin

text \<open>
  Shared vocabulary of the development: the Python data the components use (insertion-ordered
  dicts as association lists, \<open>str.split\<close> and \<open>str.join\<close>), the interface of a keyed store as a
  locale, and the generic lemmas on lists, options and results that every component uses.

  Strings are lists of characters, ordered as Python orders them (lexicographically by code
  point: \<open>Char_ord\<close> and \<open>List_Lexorder\<close>). A fallible operation returns \<open>'e + 'a\<close>, with
  \<open>Inl\<close> for the exception it raises.
\<close>

named_theorems dict_simps "lookups after dict updates"
named_theorems path_simps "lookups after path updates"

section \<open>Strings\<close>

text \<open>\<open>str.split(c)\<close> for a one-character separator, and \<open>c.join(parts)\<close>.\<close>

fun split_on :: "char \<Rightarrow> string \<Rightarrow> string list" where
  "split_on c [] = [[]]"
| "split_on c (x # xs) =
     (if x = c then [] # split_on c xs
      else (case split_on c xs of [] \<Rightarrow> [[x]] | p # ps \<Rightarrow> (x # p) # ps))"

fun join_on :: "char \<Rightarrow> string list \<Rightarrow> string" where
  "join_on c [] = []"
| "join_on c [p] = p"
| "join_on c (p # q # ps) = p @ c # join_on c (q # ps)"

lemma split_on_not_Nil [simp]: "split_on c s \<noteq> []"
  by (induction s) (auto split: list.splits)

lemma join_on_Cons: "ps \<noteq> [] \<Longrightarrow> join_on c (p # ps) = p @ c # join_on c ps"
  by (cases ps) auto

lemma join_on_Cons_char: "join_on c ((x # p) # ps) = x # join_on c (p # ps)"
  by (cases ps) auto

lemma join_split_on: "join_on c (split_on c s) = s"
proof (induction s)
  case Nil
  show ?case by simp
next
  case (Cons x xs)
  show ?case
  proof (cases "x = c")
    case True
    with Cons show ?thesis by (simp add: join_on_Cons)
  next
    case False
    then show ?thesis
      using Cons by (auto simp: join_on_Cons_char split: list.splits)
  qed
qed

lemma split_on_no_sep: "c \<notin> set s \<Longrightarrow> split_on c s = [s]"
  by (induction s) auto

lemma split_on_append_sep: "c \<notin> set p \<Longrightarrow> split_on c (p @ c # s) = p # split_on c s"
  by (induction p) auto

lemma split_join_on:
  "ps \<noteq> [] \<Longrightarrow> \<forall>p \<in> set ps. c \<notin> set p \<Longrightarrow> split_on c (join_on c ps) = ps"
  by (induction c ps rule: join_on.induct) (auto simp: split_on_no_sep split_on_append_sep)

lemma split_on_parts: "p \<in> set (split_on c s) \<Longrightarrow> c \<notin> set p"
proof (induction s arbitrary: p)
  case Nil
  then show ?case by simp
next
  case (Cons x xs)
  then show ?case
    by (cases "split_on c xs") (auto split: if_splits)
qed

lemma prefix_sep_inject:
  fixes c :: char
  assumes "c \<notin> set n" "c \<notin> set m" "prefix (n @ [c]) (m @ c # r)"
  shows "n = m"
proof -
  from assms(3) obtain z where "m @ c # r = n @ c # z"
    by (auto simp: prefix_def)
  then have "hd (split_on c (m @ c # r)) = hd (split_on c (n @ c # z))" by simp
  with assms(1,2) show ?thesis by (simp add: split_on_append_sep)
qed

section \<open>Dictionaries\<close>

text \<open>
  A Python \<open>dict\<close> iterates in insertion order: assigning an existing key keeps its position,
  a new key goes to the end, \<open>del\<close> removes it. That is an association list under the
  library's \<open>AList.update\<close> and \<open>AList.delete\<close>.
\<close>

type_synonym ('k, 'v) dict = "('k \<times> 'v) list"

abbreviation dget :: "('k, 'v) dict \<Rightarrow> 'k \<Rightarrow> 'v option" where
  "dget d k \<equiv> map_of d k"

abbreviation dset :: "('k, 'v) dict \<Rightarrow> 'k \<Rightarrow> 'v \<Rightarrow> ('k, 'v) dict" where
  "dset d k v \<equiv> AList.update k v d"

abbreviation ddel :: "('k, 'v) dict \<Rightarrow> 'k \<Rightarrow> ('k, 'v) dict" where
  "ddel d k \<equiv> AList.delete k d"

abbreviation dkeys :: "('k, 'v) dict \<Rightarrow> 'k list" where
  "dkeys d \<equiv> map fst d"

abbreviation dwf :: "('k, 'v) dict \<Rightarrow> bool" where
  "dwf d \<equiv> distinct (map fst d)"

text \<open>The interface the components rely on: what a lookup returns after a store or a delete.\<close>

locale keyed_store =
  fixes get :: "'d \<Rightarrow> 'k \<Rightarrow> 'v option"
    and put :: "'d \<Rightarrow> 'k \<Rightarrow> 'v \<Rightarrow> 'd"
    and del :: "'d \<Rightarrow> 'k \<Rightarrow> 'd"
    and ok :: "'d \<Rightarrow> bool"
  assumes get_put: "get (put d k v) k' = (if k' = k then Some v else get d k')"
    and get_del: "get (del d k) k' = (if k' = k then None else get d k')"
    and ok_put: "ok d \<Longrightarrow> ok (put d k v)"
    and ok_del: "ok d \<Longrightarrow> ok (del d k)"
begin

text \<open>A run of stores: the last store of a key wins, a key not stored keeps its value.\<close>

lemma get_fold_put:
  "get (fold (\<lambda>(k, v) d. put d k v) kvs d) k =
     (case map_of (rev kvs) k of Some v \<Rightarrow> Some v | None \<Rightarrow> get d k)"
proof (induction kvs arbitrary: d)
  case Nil
  show ?case by simp
next
  case (Cons p kvs)
  then show ?case
    by (cases p) (auto simp: get_put map_add_def split: option.splits)
qed

lemma ok_fold_put: "ok d \<Longrightarrow> ok (fold (\<lambda>(k, v) d. put d k v) kvs d)"
  by (induction kvs arbitrary: d) (auto simp: ok_put)

lemma get_fold_del:
  "get (fold (\<lambda>k d. del d k) ks d) k = (if k \<in> set ks then None else get d k)"
  by (induction ks arbitrary: d) (auto simp: get_del)

lemma ok_fold_del: "ok d \<Longrightarrow> ok (fold (\<lambda>k d. del d k) ks d)"
  by (induction ks arbitrary: d) (auto simp: ok_del)

end

interpretation pydict: keyed_store map_of "\<lambda>d k v. AList.update k v d" "\<lambda>d k. AList.delete k d"
  "\<lambda>d. distinct (map fst d)"
  by unfold_locales
    (auto simp: update_conv' delete_conv' fun_upd_def intro: distinct_update distinct_delete)

declare pydict.get_put [simp, dict_simps] pydict.get_del [simp, dict_simps]

lemmas dwf_dset = pydict.ok_put and dwf_ddel = pydict.ok_del

lemma dkeys_dset: "dkeys (dset d k v) = (if k \<in> set (dkeys d) then dkeys d else dkeys d @ [k])"
  by (rule update_keys)

lemma set_ddel: "set (ddel d k) = {p \<in> set d. fst p \<noteq> k}"
  by (induction d) auto

lemma set_dset_subset: "set (dset d k v) \<subseteq> insert (k, v) (set d)"
  by (induction d) auto

lemma dset_mem_iff:
  assumes "dwf d"
  shows "(k', v') \<in> set (dset d k v) \<longleftrightarrow> (if k' = k then v' = v else (k', v') \<in> set d)"
proof -
  have "(k', v') \<in> set (dset d k v) \<longleftrightarrow> dget (dset d k v) k' = Some v'"
    by (rule map_of_eq_Some_iff [symmetric]) (rule dwf_dset [OF assms])
  also have "\<dots> \<longleftrightarrow> (if k' = k then v' = v else dget d k' = Some v')"
    by auto
  also have "\<dots> \<longleftrightarrow> (if k' = k then v' = v else (k', v') \<in> set d)"
    using map_of_eq_Some_iff [OF assms] by simp
  finally show ?thesis .
qed

lemma ddel_dset_new: "dget d k = None \<Longrightarrow> ddel (dset d k v) k = d"
  by (induction d) (auto simp: delete_id split: if_splits)

lemma ddel_dset: "ddel (dset (ddel d k) k v) k = ddel d k"
  by (rule ddel_dset_new) simp

lemma dget_mem: "dget d k = Some v \<Longrightarrow> (k, v) \<in> set d"
  by (rule map_of_SomeD)

lemma dget_None_iff: "dget d k = None \<longleftrightarrow> k \<notin> set (dkeys d)"
  by (simp add: map_of_eq_None_iff)

lemma dkey_iff: "k \<in> fst ` set d \<longleftrightarrow> dget d k \<noteq> None"
  using dget_None_iff [of d k] by auto

section \<open>Results\<close>

text \<open>Reading a chain of guards or of fallible calls backwards from its success.\<close>

lemma guard_Inr [simp]: "(if c then Inl e else x) = Inr y \<longleftrightarrow> \<not> c \<and> x = Inr y"
  by simp

lemma guard_or_Inr: "(if c then Inr a else if d then Inr a else Inl e) = Inr y \<longleftrightarrow> (c \<or> d) \<and> y = a"
  by auto

lemma case_sum_Inr: "(case x of Inl e \<Rightarrow> Inl (g e) | Inr a \<Rightarrow> f a) = Inr y \<longleftrightarrow> (\<exists>a. x = Inr a \<and> f a = Inr y)"
  by (cases x) auto

text \<open>And forwards to its failure: the guard that failed.\<close>

lemma guard_Inl: "(if c then Inl a else x) = Inl e \<longleftrightarrow> c \<and> e = a \<or> \<not> c \<and> x = Inl e"
  by auto

lemma guard_Inr_Inl: "(if c then Inr a else x) = Inl e \<longleftrightarrow> \<not> c \<and> x = Inl e"
  by auto

lemma case_sum_Inl:
  "(case r of Inl a \<Rightarrow> Inl (g a) | Inr b \<Rightarrow> f b) = Inl e \<longleftrightarrow> (\<exists>a. r = Inl a \<and> e = g a) \<or> (\<exists>b. r = Inr b \<and> f b = Inl e)"
  by (cases r) auto

section \<open>Traces of durable writes\<close>

text \<open>
  An operation on durable state returns the list of states its writes make durable, in order,
  beside its result. The state it leaves is the last one; a process killed on the way leaves one
  of the earlier ones.
\<close>

named_theorems safe_intros "states an operation makes durable"

type_synonym ('w, 'e, 'a) op = "'w \<Rightarrow> 'w list \<times> ('e + 'a)"

definition final :: "'w \<Rightarrow> 'w list \<Rightarrow> 'w" where
  "final w ws = last (w # ws)"

lemma final_Nil [simp]: "final w [] = w"
  by (simp add: final_def)

lemma final_append [simp]: "final w (xs @ ys) = final (final w xs) ys"
  by (simp add: final_def last_append)

lemma final_Cons [simp]: "final w (x # xs) = final x xs"
  by (simp add: final_def)

lemma final_in: "final w ws \<in> set (w # ws)"
  by (simp add: final_def)

definition ret :: "'a \<Rightarrow> ('w, 'e, 'a) op" where
  "ret a = (\<lambda>w. ([], Inr a))"

definition raise :: "'e \<Rightarrow> ('w, 'e, 'a) op" where
  "raise e = (\<lambda>w. ([], Inl e))"

text \<open>A test that may raise, as an operation that writes nothing.\<close>

definition check :: "('e + 'a) \<Rightarrow> ('w, 'e, 'a) op" where
  "check r = (\<lambda>w. ([], r))"

definition and_then :: "('w, 'e, 'a) op \<Rightarrow> ('a \<Rightarrow> ('w, 'e, 'b) op) \<Rightarrow> ('w, 'e, 'b) op" where
  "and_then f g = (\<lambda>w. case f w of
      (t, Inl e) \<Rightarrow> (t, Inl e)
    | (t, Inr a) \<Rightarrow> (case g a (final w t) of (u, r) \<Rightarrow> (t @ u, r)))"

text \<open>Run an operation on the state it is given, the state itself being its argument.\<close>

definition on_state :: "('w \<Rightarrow> ('w, 'e, 'a) op) \<Rightarrow> ('w, 'e, 'a) op" where
  "on_state f = (\<lambda>w. f w w)"

text \<open>
  One atomic write: it succeeds, fails before the replacement of the file, or is interrupted after
  it (a signal during the directory sync), so that it raises although the write is durable.
\<close>

datatype wout = WriteOk | FailBefore | FailAfter

definition durable :: "'e \<Rightarrow> wout \<Rightarrow> ('w \<Rightarrow> 'w) \<Rightarrow> ('w, 'e, unit) op" where
  "durable e out f = (\<lambda>w. case out of
      WriteOk \<Rightarrow> ([f w], Inr ()) | FailBefore \<Rightarrow> ([], Inl e) | FailAfter \<Rightarrow> ([f w], Inl e))"

text \<open>\<open>try: f() except: h(); raise\<close>, with a handler that never raises.\<close>

definition on_failure :: "('w, 'e, 'a) op \<Rightarrow> ('w, 'e, 'b) op \<Rightarrow> ('w, 'e, 'a) op" where
  "on_failure f h = (\<lambda>w. case f w of
      (t, Inr a) \<Rightarrow> (t, Inr a)
    | (t, Inl e) \<Rightarrow> (t @ fst (h (final w t)), Inl e))"

text \<open>\<open>try: f() finally: g()\<close>: an exception of \<open>g\<close> replaces the outcome of \<open>f\<close>.\<close>

definition ensuring :: "('w, 'e, 'a) op \<Rightarrow> ('w, 'e, unit) op \<Rightarrow> ('w, 'e, 'a) op" where
  "ensuring f g = (\<lambda>w. case f w of (t, r) \<Rightarrow> (case g (final w t) of
      (u, Inl e) \<Rightarrow> (t @ u, Inl e) | (u, Inr _) \<Rightarrow> (t @ u, r)))"

text \<open>\<open>try: f() except ...: return h\<close>: the handler turns some exceptions into a value.\<close>

definition rescue :: "('w, 'e, 'a) op \<Rightarrow> ('e \<Rightarrow> 'a option) \<Rightarrow> ('w, 'e, 'a) op" where
  "rescue f h = (\<lambda>w. case f w of
      (t, Inr a) \<Rightarrow> (t, Inr a)
    | (t, Inl e) \<Rightarrow> (t, case h e of None \<Rightarrow> Inl e | Some a \<Rightarrow> Inr a))"

lemmas op_defs = ret_def raise_def check_def on_state_def

lemma ret_simps [simp]: "ret a w = ([], Inr a)" "raise e w = ([], Inl e)" "check r w = ([], r)"
  "on_state f w = f w w"
  by (simp_all add: op_defs)

lemma and_then_Inr:
  "snd (and_then f g w) = Inr b \<longleftrightarrow>
     (\<exists>a. snd (f w) = Inr a \<and> snd (g a (final w (fst (f w)))) = Inr b)"
  by (auto simp: and_then_def split: prod.splits sum.splits)

lemma and_then_mem:
  "w' \<in> set (fst (and_then f g w)) \<longleftrightarrow>
     w' \<in> set (fst (f w)) \<or>
     (\<exists>a. snd (f w) = Inr a \<and> w' \<in> set (fst (g a (final w (fst (f w))))))"
  by (auto simp: and_then_def split: prod.splits sum.splits)

lemma and_then_final:
  "snd (f w) = Inr a \<Longrightarrow>
     final w (fst (and_then f g w)) = final (final w (fst (f w))) (fst (g a (final w (fst (f w)))))"
  by (auto simp: and_then_def split: prod.splits sum.splits)

lemma on_failure_result [simp]: "snd (on_failure f h w) = snd (f w)"
  by (auto simp: on_failure_def split: prod.splits sum.splits)

lemma on_failure_mem:
  "w' \<in> set (fst (on_failure f h w)) \<longleftrightarrow>
     w' \<in> set (fst (f w)) \<or>
     (\<exists>e. snd (f w) = Inl e \<and> w' \<in> set (fst (h (final w (fst (f w))))))"
  by (auto simp: on_failure_def split: prod.splits sum.splits)

lemma on_failure_ok: "snd (f w) = Inr a \<Longrightarrow> on_failure f h w = f w"
  by (auto simp: on_failure_def split: prod.splits sum.splits)

lemma and_then_fail: "snd (f w) = Inl e \<Longrightarrow> and_then f g w = (fst (f w), Inl e)"
  by (auto simp: and_then_def split: prod.splits sum.splits)

lemma and_then_check [simp]:
  "and_then (check (Inr a)) g w = g a w" "and_then (check (Inl e)) g w = ([], Inl e)"
  "and_then (ret a) g w = g a w" "and_then (raise e) g w = ([], Inl e)"
  by (simp_all add: and_then_def op_defs)

lemma durable_simps [simp]:
  "durable e WriteOk f w = ([f w], Inr ())" "durable e FailBefore f w = ([], Inl e)"
  "durable e FailAfter f w = ([f w], Inl e)"
  by (simp_all add: durable_def)

lemma durable_mem: "w' \<in> set (fst (durable e out f w)) \<Longrightarrow> w' = f w"
  by (cases out) simp_all

lemma durable_Inr: "snd (durable e out f w) = Inr u \<longleftrightarrow> out = WriteOk"
  by (cases out) simp_all

text \<open>
  Reasoning about an operation from a given state: every state it makes durable satisfies \<open>P\<close>
  (\<open>safe\<close>), and a success with value \<open>a\<close> leaves a state that satisfies \<open>Q a\<close> (\<open>yields\<close>).
\<close>

definition safe :: "('w \<Rightarrow> bool) \<Rightarrow> ('w, 'e, 'a) op \<Rightarrow> 'w \<Rightarrow> bool" where
  "safe P f w \<longleftrightarrow> (\<forall>w' \<in> set (fst (f w)). P w')"

definition yields :: "('a \<Rightarrow> 'w \<Rightarrow> bool) \<Rightarrow> ('w, 'e, 'a) op \<Rightarrow> 'w \<Rightarrow> bool" where
  "yields Q f w \<longleftrightarrow> (\<forall>a. snd (f w) = Inr a \<longrightarrow> Q a (final w (fst (f w))))"

lemma safe_ret [simp, safe_intros]: "safe P (ret a) w" "safe P (raise e) w" "safe P (check r) w"
  by (simp_all add: safe_def)

lemma safe_on_state [simp]: "safe P (on_state f) w = safe P (f w) w"
  by (simp add: safe_def)

lemma and_then_on_state [simp]: "and_then (on_state f) g w = and_then (f w) g w"
  by (simp add: and_then_def)

lemma safe_and_then_on_state [simp]: "safe P (and_then (on_state f) g) w = safe P (and_then (f w) g) w"
  by (simp add: safe_def)

lemma safe_and_then_ret [simp]: "safe P (and_then (ret a) g) w = safe P (g a) w"
  by (simp add: safe_def)

lemma safe_check: "safe P (and_then (check r) g) w \<longleftrightarrow> (\<forall>a. r = Inr a \<longrightarrow> safe P (g a) w)"
  by (cases r) (simp_all add: safe_def)

lemma safe_and_then:
  "safe P f w \<Longrightarrow> (\<And>a. snd (f w) = Inr a \<Longrightarrow> safe P (g a) (final w (fst (f w)))) \<Longrightarrow> safe P (and_then f g) w"
  by (auto simp: safe_def and_then_mem)

lemma safe_durable: "(out \<noteq> FailBefore \<Longrightarrow> P (f w)) \<Longrightarrow> safe P (durable e out f) w"
  by (cases out) (simp_all add: safe_def)

lemma safe_durable_then:
  assumes "out \<noteq> FailBefore \<Longrightarrow> P (f w)" "out = WriteOk \<Longrightarrow> safe P (g ()) (f w)"
  shows "safe P (and_then (durable e out f) g) w"
  using assms by (cases out) (simp_all add: safe_def and_then_def split: prod.splits)

lemma safe_on_failure:
  "safe P f w \<Longrightarrow> (\<And>e. snd (f w) = Inl e \<Longrightarrow> safe P h (final w (fst (f w)))) \<Longrightarrow> safe P (on_failure f h) w"
  by (auto simp: safe_def on_failure_mem)

lemma safe_final: "safe P f w \<Longrightarrow> P w \<Longrightarrow> P (final w (fst (f w)))"
  using final_in [of w "fst (f w)"] by (auto simp: safe_def)

lemma safe_mono: "safe P f w \<Longrightarrow> (\<And>w. P w \<Longrightarrow> Q w) \<Longrightarrow> safe Q f w"
  by (auto simp: safe_def)

lemma safe_if: "(c \<Longrightarrow> safe P f w) \<Longrightarrow> (\<not> c \<Longrightarrow> safe P g w) \<Longrightarrow> safe P (if c then f else g) w"
  by simp

lemma safe_ensuring:
  "safe P f w \<Longrightarrow> safe P g (final w (fst (f w))) \<Longrightarrow> safe P (ensuring f g) w"
  by (auto simp: safe_def ensuring_def split: prod.splits sum.splits)

lemma rescue_trace [simp]: "fst (rescue f h w) = fst (f w)"
  by (auto simp: rescue_def split: prod.splits sum.splits)

lemma rescue_result:
  "snd (rescue f h w) = (case snd (f w) of Inr a \<Rightarrow> Inr a
     | Inl e \<Rightarrow> (case h e of None \<Rightarrow> Inl e | Some a \<Rightarrow> Inr a))"
  by (auto simp: rescue_def split: prod.splits sum.splits)

lemma safe_rescue [simp]: "safe P (rescue f h) w = safe P f w"
  by (simp add: safe_def)

lemma and_then_check_eq:
  "and_then (check r) g w = (case r of Inl e \<Rightarrow> ([], Inl e) | Inr a \<Rightarrow> g a w)"
  by (cases r) simp_all

end
