(* ===== verification/Json.thy ===== *)
theory Json
  imports Prelude
begin

text \<open>
  JSON values as \<open>json.load\<close> returns them to Python: \<open>None\<close>, \<open>bool\<close>, \<open>int\<close>, \<open>float\<close> (its exact
  rational value), \<open>str\<close>, \<open>list\<close> and \<open>dict\<close>; the Python tests the components make of them
  (truthiness, \<open>isinstance\<close>, equality with an integer); lookup, store and delete along a path
  of keys; and the five ways a state file can be on disk.
\<close>

datatype json =
    JNull
  | JBool bool
  | JInt int
  | JFloat rat
  | JStr string
  | JList "json list"
  | JObj "(string \<times> json) list"

type_synonym jobj = "(string, json) dict"

section \<open>Python's view of a value\<close>

text \<open>\<open>if v:\<close>\<close>

fun truthy :: "json \<Rightarrow> bool" where
  "truthy JNull = False"
| "truthy (JBool b) = b"
| "truthy (JInt i) = (i \<noteq> 0)"
| "truthy (JFloat r) = (r \<noteq> 0)"
| "truthy (JStr s) = (s \<noteq> [])"
| "truthy (JList xs) = (xs \<noteq> [])"
| "truthy (JObj d) = (d \<noteq> [])"

text \<open>\<open>v == n\<close> for an integer \<open>n\<close>: \<open>True == 1\<close> and \<open>1.0 == 1\<close> hold in Python.\<close>

fun eq_int :: "json \<Rightarrow> int \<Rightarrow> bool" where
  "eq_int (JInt i) n = (i = n)"
| "eq_int (JBool b) n = ((if b then 1 else 0) = n)"
| "eq_int (JFloat r) n = (r = of_int n)"
| "eq_int _ n = False"

fun is_str :: "json \<Rightarrow> bool" where
  "is_str (JStr s) = True"
| "is_str _ = False"

fun is_obj :: "json \<Rightarrow> bool" where
  "is_obj (JObj d) = True"
| "is_obj _ = False"

text \<open>\<open>isinstance(v, int)\<close> holds of a bool too.\<close>

fun is_int :: "json \<Rightarrow> bool" where
  "is_int (JInt i) = True"
| "is_int (JBool b) = True"
| "is_int _ = False"

fun as_obj :: "json \<Rightarrow> jobj option" where
  "as_obj (JObj d) = Some d"
| "as_obj _ = None"

fun as_str :: "json \<Rightarrow> string option" where
  "as_str (JStr s) = Some s"
| "as_str _ = None"

text \<open>\<open>d.get(k)\<close>, with \<open>None\<close> for a missing key.\<close>

definition jget :: "jobj \<Rightarrow> string \<Rightarrow> json" where
  "jget d k = (case dget d k of Some v \<Rightarrow> v | None \<Rightarrow> JNull)"

text \<open>\<open>x if isinstance(x := d.get(k), dict) else None\<close>, the guard before every nested access.\<close>

definition obj_at :: "jobj \<Rightarrow> string \<Rightarrow> jobj option" where
  "obj_at d k = as_obj (jget d k)"

definition str_at :: "jobj \<Rightarrow> string \<Rightarrow> string option" where
  "str_at d k = as_str (jget d k)"

lemma as_obj_Some_iff [simp]: "as_obj v = Some d \<longleftrightarrow> v = JObj d"
  by (cases v) auto

lemma as_str_Some_iff [simp]: "as_str v = Some s \<longleftrightarrow> v = JStr s"
  by (cases v) auto

lemma is_obj_iff: "is_obj v \<longleftrightarrow> (\<exists>d. v = JObj d)"
  by (cases v) auto

lemma is_str_iff: "is_str v \<longleftrightarrow> (\<exists>s. v = JStr s)"
  by (cases v) auto

lemma jget_dset [simp, dict_simps]: "jget (dset d k v) k' = (if k' = k then v else jget d k')"
  by (simp add: jget_def)

lemma jget_ddel [simp, dict_simps]: "jget (ddel d k) k' = (if k' = k then JNull else jget d k')"
  by (simp add: jget_def)

lemma obj_at_dset [simp, dict_simps]: "obj_at (dset d k v) k' = (if k' = k then as_obj v else obj_at d k')"
  by (simp add: obj_at_def)

lemma obj_at_ddel [simp, dict_simps]: "obj_at (ddel d k) k' = (if k' = k then None else obj_at d k')"
  by (simp add: obj_at_def)

lemma obj_at_Some: "obj_at d k = Some e \<longleftrightarrow> dget d k = Some (JObj e)"
  by (auto simp: obj_at_def jget_def split: option.splits)

lemma str_at_Some: "str_at d k = Some s \<longleftrightarrow> dget d k = Some (JStr s)"
  by (auto simp: str_at_def jget_def split: option.splits)

text \<open>Every dict inside the value has distinct keys, as every Python dict has.\<close>

fun jwf :: "json \<Rightarrow> bool" where
  "jwf (JList xs) = (\<forall>x \<in> set xs. jwf x)"
| "jwf (JObj d) = (dwf d \<and> (\<forall>p \<in> set d. jwf (snd p)))"
| "jwf _ = True"

section \<open>Paths\<close>

text \<open>The value at a path, or nothing when a step is missing or is not a dict.\<close>

fun get_path :: "json \<Rightarrow> string list \<Rightarrow> json option" where
  "get_path v [] = Some v"
| "get_path (JObj d) (k # ks) = (case dget d k of None \<Rightarrow> None | Some v \<Rightarrow> get_path v ks)"
| "get_path _ (k # ks) = None"

lemma get_path_nonobj: "\<not> is_obj v \<Longrightarrow> ks \<noteq> [] \<Longrightarrow> get_path v ks = None"
  by (cases v; cases ks) auto

lemma get_path_append:
  "get_path v (ks @ ls) = (case get_path v ks of None \<Rightarrow> None | Some u \<Rightarrow> get_path u ls)"
  by (induction v ks rule: get_path.induct) (auto split: option.splits)

section \<open>Files\<close>

text \<open>
  A state file is missing, holds bytes that are not UTF-8 (opening it as text and reading raises
  \<open>UnicodeDecodeError\<close>, a \<open>ValueError\<close> that is neither a \<open>JSONDecodeError\<close> nor an \<open>OSError\<close>),
  holds text that is not JSON, cannot be read (\<open>OSError\<close>), or holds a JSON value.
\<close>

datatype state_file = Missing | Undecodable | Unparsable | Unreadable | Holds json

fun is_file :: "state_file \<Rightarrow> bool" where
  "is_file Missing = False"
| "is_file _ = True"

lemma is_file_iff: "is_file f \<longleftrightarrow> f \<noteq> Missing"
  by (cases f) auto

end
