(* ===== verification/Names.thy ===== *)
theory Names
  imports Json
begin

text \<open>
  Session names and index keys: \<open>session/validation.py\<close> (\<open>validate_name\<close>) and
  \<open>session/identity.py\<close> (the scoped key \<open>name|digest\<close> and its two resolvers), with the
  exceptions of \<open>session/exceptions.py\<close> that the session components raise.

  The digest \<open>hashlib.sha256(root).hexdigest()\<close> enters as the argument \<open>hex\<close>: the code relies
  only on it being a function of the root.
\<close>

datatype err =
    InvalidSessionName string
  | SessionNotFound string
  | SessionExists string
  | AmbiguousSession string "string list"
  | UuidAlreadyBound string string
  | IndexCorrupted string
  | IndexUnreadable
  | SessionFileNotFound
  | ManifestCorrupted string
  | ManifestUnreadable
  | ManifestValidation "string list"
  | ManifestChanged
  | InvalidOverrideKey string string
  | InvalidOverrideValue string
  | ValueErr string
  | OsErr
  | TypeErr
  | AttributeErr
  | LockTimeout

section \<open>validation.py\<close>

text \<open>\<open>UnicodeDecodeError\<close> is a \<open>ValueError\<close>.\<close>

abbreviation decode_error :: err where
  "decode_error \<equiv> ValueErr ''UnicodeDecodeError''"

abbreviation newline :: char where
  "newline \<equiv> CHR 0x0A"

definition min_name_length :: nat where
  "min_name_length = 2"

definition max_name_length :: nat where
  "max_name_length = 64"

definition lower_alnum :: "char \<Rightarrow> bool" where
  "lower_alnum c \<longleftrightarrow> c \<in> set ''abcdefghijklmnopqrstuvwxyz0123456789''"

text \<open>The body \<open>[a-z0-9]([a-z0-9-]*[a-z0-9])?\<close> of the pattern, matched against a whole string.\<close>

definition name_body :: "string \<Rightarrow> bool" where
  "name_body s \<longleftrightarrow> s \<noteq> [] \<and> lower_alnum (hd s) \<and> lower_alnum (last s) \<and>
     list_all (\<lambda>c. lower_alnum c \<or> c = CHR ''-'') s"

text \<open>
  \<open>_NAME_PATTERN.match\<close>: the anchor \<open>$\<close> of Python's \<open>re\<close> also matches just before a newline
  that ends the string.
\<close>

definition name_pattern_match :: "string \<Rightarrow> bool" where
  "name_pattern_match s \<longleftrightarrow> name_body s \<or> (s \<noteq> [] \<and> last s = newline \<and> name_body (butlast s))"

definition validate_name :: "string \<Rightarrow> err + unit" where
  "validate_name name =
     (if length name < min_name_length then Inl (InvalidSessionName ''name must be at least 2 characters'')
      else if length name > max_name_length then Inl (InvalidSessionName ''name must be at most 64 characters'')
      else if \<not> name_pattern_match name
        then Inl (InvalidSessionName ''name must be lowercase alphanumeric with hyphens, starting and ending with alphanumeric'')
      else if sublist ''--'' name then Inl (InvalidSessionName ''name cannot contain consecutive hyphens'')
      else Inr ())"

text \<open>What the docstring promises of a valid name.\<close>

definition documented_name :: "string \<Rightarrow> bool" where
  "documented_name s \<longleftrightarrow> 2 \<le> length s \<and> length s \<le> 64 \<and> name_body s \<and> \<not> sublist ''--'' s"

lemma name_body_chars: "name_body s \<Longrightarrow> c \<in> set s \<Longrightarrow> lower_alnum c \<or> c = CHR ''-''"
  by (auto simp: name_body_def list_all_iff)

lemma newline_not_body: "name_body s \<Longrightarrow> newline \<notin> set s"
  by (auto dest!: name_body_chars simp: lower_alnum_def)

lemma validate_name_iff:
  "validate_name s = Inr () \<longleftrightarrow>
     2 \<le> length s \<and> length s \<le> 64 \<and> name_pattern_match s \<and> \<not> sublist ''--'' s"
  by (simp add: validate_name_def min_name_length_def max_name_length_def not_less)

lemma sublist_hyphens_newline: "sublist ''--'' (s @ [newline]) \<longleftrightarrow> sublist ''--'' s"
proof
  assume "sublist ''--'' (s @ [newline])"
  then obtain ps ss where eq: "s @ [newline] = ps @ ''--'' @ ss"
    by (auto simp: sublist_def)
  show "sublist ''--'' s"
  proof (cases ss rule: rev_cases)
    case Nil
    with eq have "s @ [newline] = (ps @ ''-'') @ ''-''" by simp
    then show ?thesis by (simp only: append1_eq_conv) simp
  next
    case (snoc zs z)
    with eq have "s @ [newline] = (ps @ ''--'' @ zs) @ [z]" by simp
    then have "s = ps @ ''--'' @ zs" by (simp only: append1_eq_conv)
    then show ?thesis by (auto simp: sublist_def)
  qed
next
  assume "sublist ''--'' s"
  then obtain ps ss where "s = ps @ ''--'' @ ss"
    by (auto simp: sublist_def)
  then have "s @ [newline] = ps @ ''--'' @ (ss @ [newline])" by simp
  then show "sublist ''--'' (s @ [newline])" unfolding sublist_def by blast
qed

section \<open>identity.py\<close>

abbreviation key_sep :: char where
  "key_sep \<equiv> CHR ''|''"

definition hash_len :: nat where
  "hash_len = 12"

definition session_name_from_key :: "string \<Rightarrow> string" where
  "session_name_from_key key = hd (split_on key_sep key)"

definition make_scoped_key :: "(string \<Rightarrow> string) \<Rightarrow> string \<Rightarrow> string \<Rightarrow> string" where
  "make_scoped_key hex name forge_root = name @ key_sep # take hash_len (hex forge_root)"

text \<open>\<open>root_of\<close> reads the root an ambiguity message names from an entry.\<close>

definition resolve_key_strict ::
  "(string \<Rightarrow> string) \<Rightarrow> ('v \<Rightarrow> string) \<Rightarrow> (string, 'v) dict \<Rightarrow> string \<Rightarrow> string option \<Rightarrow> err + string option" where
  "resolve_key_strict hex root_of sessions name forge_root =
     (case forge_root of
        Some r \<Rightarrow> (let key = make_scoped_key hex name r
                  in Inr (if key \<in> set (dkeys sessions) then Some key else None))
      | None \<Rightarrow>
          (let matches = filter (\<lambda>k. prefix (name @ [key_sep]) k) (dkeys sessions)
           in (case matches of
                 [] \<Rightarrow> Inr None
               | [k] \<Rightarrow> Inr (Some k)
               | _ \<Rightarrow> Inl (AmbiguousSession name
                        (map (\<lambda>k. case dget sessions k of Some e \<Rightarrow> root_of e | None \<Rightarrow> ''?'') matches)))))"

definition resolve_key_best_effort ::
  "(string \<Rightarrow> string) \<Rightarrow> (string, 'v) dict \<Rightarrow> string \<Rightarrow> string option \<Rightarrow> string option" where
  "resolve_key_best_effort hex sessions name forge_root =
     (case forge_root of
        Some r \<Rightarrow> (let key = make_scoped_key hex name r
                  in if key \<in> set (dkeys sessions) then Some key else None)
      | None \<Rightarrow> find (\<lambda>k. prefix (name @ [key_sep]) k) (dkeys sessions))"

lemma name_no_sep: "validate_name s = Inr () \<Longrightarrow> key_sep \<notin> set s"
proof
  assume "validate_name s = Inr ()" and mem: "key_sep \<in> set s"
  then consider "name_body s" | "s \<noteq> []" "last s = newline" "name_body (butlast s)"
    by (auto simp: validate_name_iff name_pattern_match_def)
  then show False
  proof cases
    case 1
    with mem show False
      by (auto dest!: name_body_chars simp: lower_alnum_def)
  next
    case 2
    then obtain t where "s = t @ [newline]" by (cases s rule: rev_cases) auto
    with 2(3) mem have "name_body t" "key_sep \<in> set t" by auto
    then show False
      by (auto dest!: name_body_chars simp: lower_alnum_def)
  qed
qed

lemma session_name_from_scoped_key:
  "key_sep \<notin> set n \<Longrightarrow> session_name_from_key (make_scoped_key hex n r) = n"
  by (simp add: session_name_from_key_def make_scoped_key_def split_on_append_sep)

lemma prefix_scoped_key:
  assumes "key_sep \<notin> set n" "key_sep \<notin> set m"
  shows "prefix (n @ [key_sep]) (make_scoped_key hex m r) \<longleftrightarrow> n = m"
  using prefix_sep_inject [OF assms] by (auto simp: make_scoped_key_def prefix_def)

lemma resolve_key_strict_mem:
  "resolve_key_strict hex ro d n r = Inr (Some k) \<Longrightarrow> k \<in> set (dkeys d)"
proof -
  assume a: "resolve_key_strict hex ro d n r = Inr (Some k)"
  show ?thesis
  proof (cases r)
    case None
    with a have "filter (\<lambda>k. prefix (n @ [key_sep]) k) (dkeys d) = [k]"
      by (auto simp: resolve_key_strict_def Let_def split: list.splits)
    then have "k \<in> set (filter (\<lambda>k. prefix (n @ [key_sep]) k) (dkeys d))" by simp
    then show ?thesis by (simp only: set_filter mem_Collect_eq)
  next
    case (Some x)
    with a show ?thesis
      by (auto simp: resolve_key_strict_def Let_def split: if_splits)
  qed
qed

lemma resolve_key_strict_unscoped_name:
  assumes "key_sep \<notin> set n" "resolve_key_strict hex ro d n None = Inr (Some k)"
  shows "session_name_from_key k = n"
proof -
  from assms(2) have "filter (\<lambda>k. prefix (n @ [key_sep]) k) (dkeys d) = [k]"
    by (auto simp: resolve_key_strict_def Let_def split: list.splits)
  then have "k \<in> set (filter (\<lambda>k. prefix (n @ [key_sep]) k) (dkeys d))" by simp
  then have "prefix (n @ [key_sep]) k" by (simp only: set_filter mem_Collect_eq)
  then obtain z where "k = n @ key_sep # z" by (auto simp: prefix_def)
  with assms(1) show ?thesis by (simp add: session_name_from_key_def split_on_append_sep)
qed

lemma resolve_key_strict_dget:
  "resolve_key_strict hex ro d n r = Inr (Some k) \<Longrightarrow> \<exists>e. dget d k = Some e"
  by (metis resolve_key_strict_mem dget_None_iff not_None_eq)

lemma resolve_key_best_effort_mem:
  "resolve_key_best_effort hex d n r = Some k \<Longrightarrow> k \<in> set (dkeys d)"
  by (auto simp: resolve_key_best_effort_def Let_def find_Some_iff split: option.splits if_splits)

lemma resolve_key_scoped [simp]:
  "resolve_key_strict hex ro d n (Some r) = Inr (if make_scoped_key hex n r \<in> set (dkeys d)
     then Some (make_scoped_key hex n r) else None)"
  by (simp add: resolve_key_strict_def Let_def)

section \<open>Properties\<close>

text \<open>A key holds a row of the session \<open>n\<close>.\<close>

definition key_of :: "string \<Rightarrow> string \<Rightarrow> bool" where
  "key_of n k \<longleftrightarrow> key_sep \<in> set k \<and> session_name_from_key k = n"

lemma key_of_prefix:
  assumes "key_sep \<notin> set n"
  shows "prefix (n @ [key_sep]) k \<longleftrightarrow> key_of n k"
proof
  assume "prefix (n @ [key_sep]) k"
  then obtain z where "k = n @ key_sep # z" by (auto simp: prefix_def)
  with assms show "key_of n k" by (simp add: key_of_def session_name_from_key_def split_on_append_sep)
next
  assume k: "key_of n k"
  then obtain a b where ab: "k = a @ key_sep # b" "key_sep \<notin> set a"
    unfolding key_of_def by (meson split_list_first)
  with k have "a = n" by (simp add: key_of_def session_name_from_key_def split_on_append_sep)
  with ab show "prefix (n @ [key_sep]) k" by (auto simp: prefix_def)
qed

lemma distinct_filter_two:
  "distinct xs \<Longrightarrow> filter P xs = a # b # r \<Longrightarrow> a \<noteq> b \<and> a \<in> set xs \<and> b \<in> set xs \<and> P a \<and> P b"
proof -
  assume d: "distinct xs" and f: "filter P xs = a # b # r"
  have "set (a # b # r) \<subseteq> {x \<in> set xs. P x}" "distinct (a # b # r)"
    using d f [symmetric] by (simp_all del: filter_eq_Cons_iff)
  then show ?thesis by auto
qed

lemma find_filter: "find P xs = (case filter P xs of [] \<Rightarrow> None | x # _ \<Rightarrow> Some x)"
  by (induction xs) auto

text \<open>
  What \<open>validate_name\<close> accepts: exactly the names its docstring describes, and besides them,
  because the pattern's \<open>$\<close> also matches before a final newline, such a string with a newline
  at its end (whose length counts towards the bounds). No accepted name contains the key separator.
\<close>

lemma validate_name_accepts:
  "validate_name s = Inr () \<longleftrightarrow>
     documented_name s \<or>
     (\<exists>t. s = t @ [newline] \<and> name_body t \<and> \<not> sublist ''--'' t \<and> 1 \<le> length t \<and> length t \<le> 63)"
proof (cases "\<exists>t. s = t @ [newline]")
  case True
  then obtain t where t: "s = t @ [newline]" by blast
  have "\<not> name_body s" using t newline_not_body [of s] by auto
  then have "\<not> documented_name s" by (simp add: documented_name_def)
  with \<open>\<not> name_body s\<close> show ?thesis
    using sublist_hyphens_newline [of t] by (auto simp: validate_name_iff name_pattern_match_def t)
next
  case False
  then have "\<not> (s \<noteq> [] \<and> last s = newline)"
    by (metis append_butlast_last_id)
  with False show ?thesis by (auto simp: validate_name_iff name_pattern_match_def documented_name_def)
qed

text \<open>
  A scoped key gives its session name back, and two sessions share a key only when they have
  the same name and their roots the same twelve leading digits of digest.
\<close>

lemma scoped_key_roundtrip:
  assumes "validate_name n = Inr ()" "validate_name m = Inr ()"
  shows "session_name_from_key (make_scoped_key hex n r) = n \<and>
    (make_scoped_key hex n r = make_scoped_key hex m q \<longleftrightarrow>
       n = m \<and> take hash_len (hex r) = take hash_len (hex q))"
proof -
  note sep = name_no_sep [OF assms(1)] name_no_sep [OF assms(2)]
  have "make_scoped_key hex n r = make_scoped_key hex m q \<Longrightarrow> n = m"
    using session_name_from_scoped_key [OF sep(1), of hex r] session_name_from_scoped_key [OF sep(2), of hex q] by simp
  then show ?thesis
    using session_name_from_scoped_key [OF sep(1)] by (auto simp: make_scoped_key_def)
qed

text \<open>
  Strict resolution without a root: it finds nothing exactly when no row is the session's,
  it returns a row only when that is the session's one row, which is then also the row the
  best-effort resolver picks, and it fails as ambiguous exactly when the session has two rows.
\<close>

lemma resolve_strict_correct:
  assumes "validate_name n = Inr ()" "dwf d"
  shows "case resolve_key_strict hex root_of d n None of
      Inr None \<Rightarrow> \<forall>k \<in> set (dkeys d). \<not> key_of n k
    | Inr (Some k) \<Rightarrow> k \<in> set (dkeys d) \<and> key_of n k \<and> (\<forall>k' \<in> set (dkeys d). key_of n k' \<longrightarrow> k' = k) \<and>
        resolve_key_best_effort hex d n None = Some k
    | Inl e \<Rightarrow> (\<exists>k \<in> set (dkeys d). \<exists>k' \<in> set (dkeys d). k \<noteq> k' \<and> key_of n k \<and> key_of n k') \<and>
        (\<exists>roots. e = AmbiguousSession n roots)"
proof -
  let ?ms = "filter (key_of n) (dkeys d)"
  have eq: "(\<lambda>k. prefix (n @ [key_sep]) k) = key_of n"
    using key_of_prefix [OF name_no_sep [OF assms(1)]] by blast
  show ?thesis
  proof (cases ?ms rule: list.exhaust [case_names Nil Cons])
    case Nil
    then have "\<forall>k \<in> set (dkeys d). \<not> key_of n k" by (simp only: filter_empty_conv)
    moreover have "resolve_key_strict hex root_of d n None = Inr None"
      unfolding resolve_key_strict_def Let_def eq Nil by simp
    ultimately show ?thesis by simp
  next
    case one: (Cons k ks)
    show ?thesis
    proof (cases ks)
      case Nil
      have "set ?ms = {k}" unfolding one Nil by simp
      then have mem: "\<And>x. x \<in> set (dkeys d) \<and> key_of n x \<longleftrightarrow> x = k" by auto
      have "resolve_key_strict hex root_of d n None = Inr (Some k)"
        unfolding resolve_key_strict_def Let_def eq one Nil by simp
      moreover have "resolve_key_best_effort hex d n None = Some k"
        unfolding resolve_key_best_effort_def eq by (simp only: option.case find_filter one list.case)
      ultimately show ?thesis using mem by auto
    next
      case (Cons k' r)
      from distinct_filter_two [OF assms(2) one [unfolded Cons]]
      have two: "k \<noteq> k' \<and> k \<in> set (dkeys d) \<and> k' \<in> set (dkeys d) \<and> key_of n k \<and> key_of n k'" .
      have "\<exists>roots. resolve_key_strict hex root_of d n None = Inl (AmbiguousSession n roots)"
        unfolding resolve_key_strict_def Let_def eq one Cons by simp
      then obtain roots where r: "resolve_key_strict hex root_of d n None = Inl (AmbiguousSession n roots)" ..
      show ?thesis unfolding r sum.case using two by blast
    qed
  qed
qed

lemma resolve_strict_correct_witness:
  "case resolve_key_strict (\<lambda>r. r) (\<lambda>v. ''?'') [(''ab|1'', ()), (''ab|2'', ())] ''ab'' None of
      Inl e \<Rightarrow> True | Inr _ \<Rightarrow> False"
proof -
  have v: "validate_name ''ab'' = Inr ()" by code_simp
  have w: "dwf [(''ab|1'', ()), (''ab|2'', ())]" by code_simp
  from resolve_strict_correct [OF v w, of "\<lambda>r. r" "\<lambda>v. ''?''"] show ?thesis
    by (auto split: sum.splits option.splits simp: key_of_def session_name_from_key_def)
qed

end
