(* ===== verification/Overrides.thy ===== *)
theory Overrides
  imports Names
begin

text \<open>
  Session overrides: the key schema \<open>session/overrides.py\<close> reads off the \<open>SessionIntent\<close> dataclass
  tree of \<open>session/models.py\<close>, key validation, wildcard expansion, \<open>set_override\<close> and
  \<open>delete_override\<close>; the merge of overrides into intent of \<open>session/effective.py\<close>; and the
  lifecycle-owned paths of \<open>session/derived_overrides.py\<close>.

  An operation that mutates the overrides dict in place returns the dict it leaves beside its
  outcome, so that a raise part-way is visible. The hint strings that decorate an exception are
  left out.
\<close>

abbreviation dot :: char where
  "dot \<equiv> CHR ''.''"

abbreviation parts_of :: "string \<Rightarrow> string list" where
  "parts_of \<equiv> split_on dot"

section \<open>The dataclass tree of SessionIntent\<close>

text \<open>
  A field's type after \<open>unwrap_optional\<close>: a dataclass with its fields, a \<open>dict[...]\<close>, or anything
  else.
\<close>

datatype ftype = TLeaf | TDict | TClass "(string \<times> ftype) list"

type_synonym fields = "(string \<times> ftype) list"

abbreviation leaves :: "string list \<Rightarrow> fields" where
  "leaves ns \<equiv> map (\<lambda>n. (n, TLeaf)) ns"

definition proxy_intent_fields :: fields where
  "proxy_intent_fields = leaves [''template'', ''base_url'']"

definition system_prompt_fields :: fields where
  "system_prompt_fields = leaves [''mode'', ''file'']"

definition sidecar_launch_fields :: fields where
  "sidecar_launch_fields = leaves [''mounts'', ''image'']"

definition model_route_fields :: fields where
  "model_route_fields = leaves [''requested_model'', ''selected_tier'', ''kind'', ''source_id'']"

definition launch_intent_fields :: fields where
  "launch_intent_fields =
     [(''mode'', TLeaf), (''sidecar'', TClass sidecar_launch_fields), (''direct_model'', TLeaf),
      (''model_route'', TClass model_route_fields), (''runtime'', TLeaf)]"

definition authority_fields :: fields where
  "authority_fields = leaves [''role'', ''tier'']"

definition memory_writer_fields :: fields where
  "memory_writer_fields = leaves [''enabled'', ''mode'', ''proxy'', ''direct'', ''min_turns'', ''effort'']"

definition memory_intent_fields :: fields where
  "memory_intent_fields =
     leaves [''auto_recall'', ''tags'', ''strategy'', ''max_chars'']
     @ [(''auto_update'', TClass memory_writer_fields)]"

definition native_source_fields :: fields where
  "native_source_fields =
     leaves [''runtime'', ''thread_id'', ''home'', ''rollout_path'', ''source_cwd'', ''header_digest'',
             ''managed_session'', ''managed_root'']"

definition supervisor_config_fields :: fields where
  "supervisor_config_fields =
     leaves [''auth_mode'', ''review_trigger'', ''supervisor_model'', ''resume_id'']
     @ [(''native_source'', TClass native_source_fields)]
     @ leaves [''proxy'', ''direct'', ''base_url'', ''forge_root'', ''timeout_seconds'',
               ''throttle_seconds'', ''fork_session'', ''suspended'', ''plan_override_path'', ''cascade'',
               ''checker_model'', ''checker_provider'', ''checker_budget_tokens'', ''checker_effort'',
               ''supervisor_effort'', ''shadow_sample_rate'', ''shadow_max_per_session'', ''shadow_seed'']"

definition team_supervisor_fields :: fields where
  "team_supervisor_fields =
     leaves [''enabled'', ''tagger_model'', ''resume_id'', ''proxy'', ''direct'', ''base_url'',
             ''timeout_seconds'', ''throttle_seconds'', ''max_blocks_per_task'', ''effort'']"

definition policy_intent_fields :: fields where
  "policy_intent_fields =
     [(''enabled'', TLeaf), (''fail_mode'', TLeaf), (''bundles'', TLeaf), (''bundle_config'', TDict),
      (''supervisor'', TClass supervisor_config_fields),
      (''team_supervisor'', TClass team_supervisor_fields)]"

definition verification_fields :: fields where
  "verification_fields =
     leaves [''type'', ''promise'', ''max_iterations'', ''max_minutes'', ''bypass'', ''on_incomplete'',
             ''re_inject_prompt'', ''test_timeout_seconds'']"

definition lane_record_fields :: fields where
  "lane_record_fields = leaves [''runtime_id'', ''backend_id'', ''model'']"

definition consumer_lane_intent_fields :: fields where
  "consumer_lane_intent_fields =
     map (\<lambda>n. (n, TClass lane_record_fields))
       [''supervisor'', ''memory_writer'', ''shadow_curation'', ''team_supervisor'']"

definition session_intent_fields :: fields where
  "session_intent_fields =
     [(''agent'', TLeaf), (''proxy'', TClass proxy_intent_fields), (''subprocess_proxy'', TLeaf),
      (''launch'', TClass launch_intent_fields), (''authority'', TClass authority_fields),
      (''system_prompt'', TClass system_prompt_fields), (''memory'', TClass memory_intent_fields),
      (''policy'', TClass policy_intent_fields), (''verification'', TClass verification_fields),
      (''consumer_lanes'', TClass consumer_lane_intent_fields)]"

lemmas intent_schema_defs =
  proxy_intent_fields_def system_prompt_fields_def sidecar_launch_fields_def model_route_fields_def
  launch_intent_fields_def authority_fields_def memory_writer_fields_def memory_intent_fields_def
  native_source_fields_def supervisor_config_fields_def team_supervisor_fields_def
  policy_intent_fields_def verification_fields_def lane_record_fields_def
  consumer_lane_intent_fields_def session_intent_fields_def

fun collect_paths :: "ftype \<Rightarrow> string \<Rightarrow> string list"
  and collect_fields :: "fields \<Rightarrow> string \<Rightarrow> string list" where
  "collect_paths (TClass fs) pre = collect_fields fs pre"
| "collect_paths TLeaf pre = []"
| "collect_paths TDict pre = []"
| "collect_fields [] pre = []"
| "collect_fields ((n, t) # fs) pre =
     (if prefix ''_'' n then collect_fields fs pre
      else (pre @ n) # collect_paths t (pre @ n @ ''.'') @ collect_fields fs pre)"

definition valid_intent_paths :: "string list" where
  "valid_intent_paths = collect_paths (TClass session_intent_fields) []"

text \<open>The field a key path names.\<close>

fun schema_at :: "ftype \<Rightarrow> string list \<Rightarrow> ftype option" where
  "schema_at t [] = Some t"
| "schema_at (TClass fs) (k # ks) = (case map_of fs k of None \<Rightarrow> None | Some t \<Rightarrow> schema_at t ks)"
| "schema_at _ (k # ks) = None"

fun plain_schema :: "ftype \<Rightarrow> bool" and plain_fields :: "fields \<Rightarrow> bool" where
  "plain_schema (TClass fs) = (dwf fs \<and> plain_fields fs)"
| "plain_schema TLeaf = True"
| "plain_schema TDict = True"
| "plain_fields [] = True"
| "plain_fields ((n, t) # fs) =
     (n \<noteq> [] \<and> dot \<notin> set n \<and> \<not> prefix ''_'' n \<and> n \<noteq> ''custom'' \<and> plain_schema t \<and> plain_fields fs)"

lemma plain_intent_schema: "plain_schema (TClass session_intent_fields)"
  by (simp add: intent_schema_defs)

lemma plain_fields_lookup:
  "plain_fields fs \<Longrightarrow> (n, t) \<in> set fs \<Longrightarrow>
     n \<noteq> [] \<and> dot \<notin> set n \<and> \<not> prefix ''_'' n \<and> n \<noteq> ''custom'' \<and> plain_schema t"
  by (induction fs) auto

lemma collect_iff:
  "plain_schema t \<Longrightarrow> p \<in> set (collect_paths t pre) \<longleftrightarrow>
     (\<exists>ks. ks \<noteq> [] \<and> schema_at t ks \<noteq> None \<and> p = pre @ join_on dot ks)"
  "dwf fs \<Longrightarrow> plain_fields fs \<Longrightarrow> p \<in> set (collect_fields fs pre) \<longleftrightarrow>
     (\<exists>ks. ks \<noteq> [] \<and> schema_at (TClass fs) ks \<noteq> None \<and> p = pre @ join_on dot ks)"
proof (induction t pre and fs pre rule: collect_paths_collect_fields.induct)
  case (1 fs pre)
  then show ?case by simp
next
  case (2 pre)
  then show ?case by (auto simp: neq_Nil_conv)
next
  case (3 pre)
  then show ?case by (auto simp: neq_Nil_conv)
next
  case (4 pre)
  then show ?case by (auto simp: neq_Nil_conv)
next
  case (5 n t fs pre)
  have sub: "p \<in> set (collect_paths t (pre @ n @ ''.'')) \<longleftrightarrow>
      (\<exists>ks. ks \<noteq> [] \<and> schema_at t ks \<noteq> None \<and> p = pre @ n @ ''.'' @ join_on dot ks)"
    using 5 by simp
  have rest: "p \<in> set (collect_fields fs pre) \<longleftrightarrow>
      (\<exists>ks. ks \<noteq> [] \<and> schema_at (TClass fs) ks \<noteq> None \<and> p = pre @ join_on dot ks)"
    using 5 by simp
  have new: "dget fs n = None" using 5 by (simp add: dget_None_iff)
  show ?case (is "?L \<longleftrightarrow> ?R")
  proof
    assume ?L
    with 5(4,5) consider "p = pre @ n" | "p \<in> set (collect_paths t (pre @ n @ ''.''))"
      | "p \<in> set (collect_fields fs pre)" by auto
    then show ?R
    proof cases
      case 1
      then show ?thesis by (intro exI [of _ "[n]"]) simp
    next
      case 2
      then obtain ks where "ks \<noteq> []" "schema_at t ks \<noteq> None" "p = pre @ n @ ''.'' @ join_on dot ks"
        using sub by blast
      then show ?thesis by (intro exI [of _ "n # ks"]) (simp add: join_on_Cons)
    next
      case 3
      then obtain k ks where "schema_at (TClass fs) (k # ks) \<noteq> None" "p = pre @ join_on dot (k # ks)"
        using rest by (metis neq_Nil_conv)
      moreover from this new have "k \<noteq> n" by auto
      ultimately show ?thesis by (intro exI [of _ "k # ks"]) simp
    qed
  next
    assume ?R
    then obtain k ks where at: "schema_at (TClass ((n, t) # fs)) (k # ks) \<noteq> None"
      and p: "p = pre @ join_on dot (k # ks)" by (metis neq_Nil_conv)
    show ?L
    proof (cases "k = n")
      case True
      with at p sub 5(5) show ?thesis
        by (cases "ks = []") (auto simp: join_on_Cons)
    next
      case False
      with at have "schema_at (TClass fs) (k # ks) \<noteq> None" by simp
      with p rest have "p \<in> set (collect_fields fs pre)" by blast
      with 5(5) show ?thesis by auto
    qed
  qed
qed

lemma schema_at_prefix: "schema_at t (ks @ ls) \<noteq> None \<Longrightarrow> schema_at t ks \<noteq> None"
  by (induction t ks rule: schema_at.induct) (auto split: option.splits)

lemma schema_at_plain:
  "plain_schema t \<Longrightarrow> schema_at t ks \<noteq> None \<Longrightarrow> \<forall>k \<in> set ks. k \<noteq> [] \<and> dot \<notin> set k"
  by (induction t ks rule: schema_at.induct) (auto split: option.splits dest: plain_fields_lookup)

lemma valid_intent_path_iff:
  "key \<in> set valid_intent_paths \<longleftrightarrow> schema_at (TClass session_intent_fields) (parts_of key) \<noteq> None"
proof -
  let ?t = "TClass session_intent_fields"
  have "key \<in> set valid_intent_paths \<longleftrightarrow> (\<exists>ks. ks \<noteq> [] \<and> schema_at ?t ks \<noteq> None \<and> key = join_on dot ks)"
    using collect_iff(1) [OF plain_intent_schema] by (simp add: valid_intent_paths_def)
  also have "\<dots> \<longleftrightarrow> schema_at ?t (parts_of key) \<noteq> None" (is "?E \<longleftrightarrow> ?S")
  proof
    assume ?E
    then obtain ks where ks: "ks \<noteq> []" "schema_at ?t ks \<noteq> None" "key = join_on dot ks" by blast
    then have "parts_of key = ks"
      using schema_at_plain [OF plain_intent_schema ks(2)] by (simp add: split_join_on)
    with ks show ?S by simp
  next
    assume ?S
    then show ?E by (intro exI [of _ "parts_of key"]) (simp add: join_split_on)
  qed
  finally show ?thesis .
qed


section \<open>overrides.py: key validation\<close>

definition manifest_fields :: "string list" where
  "manifest_fields =
     [''schema_version'', ''name'', ''created_at'', ''last_accessed_at'', ''parent_session'', ''is_fork'',
      ''is_incognito'', ''worktree'', ''intent'', ''overrides'', ''confirmed'']"

definition is_launch_model_route_path :: "string \<Rightarrow> bool" where
  "is_launch_model_route_path key \<longleftrightarrow>
     key = ''launch.model_route'' \<or>
     (prefix ''launch.model_route.'' key \<and> key \<in> set valid_intent_paths)"

definition is_native_supervisor_source_path :: "string \<Rightarrow> bool" where
  "is_native_supervisor_source_path key \<longleftrightarrow>
     key = ''policy.supervisor.native_source'' \<or>
     (prefix ''policy.supervisor.native_source.'' key \<and> key \<in> set valid_intent_paths)"

definition reject_launch_runtime :: "string \<Rightarrow> err" where
  "reject_launch_runtime key = InvalidOverrideKey key ''runtime is immutable launch identity''"

definition reject_launch_model_route :: "string \<Rightarrow> err" where
  "reject_launch_model_route key =
     InvalidOverrideKey key ''model_route is resolved launch state, not an override surface''"

definition reject_native_source :: "string \<Rightarrow> err" where
  "reject_native_source key =
     InvalidOverrideKey key ''native_source is supervisor identity, not an override surface''"

definition reject_authority :: "string \<Rightarrow> err" where
  "reject_authority key =
     InvalidOverrideKey key ''authority is managed by the session authority control plane, not overrides''"

definition validate_key :: "string \<Rightarrow> err + string list" where
  "validate_key key =
     (if key = [] then Inl (InvalidOverrideKey key ''key cannot be empty'')
      else let parts = parts_of key; first_part = hd parts in
      if [] \<in> set parts then Inl (InvalidOverrideKey key ''empty segment in path'')
      else if first_part = ''intent'' then Inl (InvalidOverrideKey key ''keys should be relative to intent'')
      else if first_part = ''confirmed'' then Inl (InvalidOverrideKey key ''cannot override confirmed.* fields'')
      else if first_part \<in> set manifest_fields
        then Inl (InvalidOverrideKey key ''manifest field, not an intent field'')
      else if first_part = ''custom'' then Inl (InvalidOverrideKey key ''custom.* is not supported'')
      else if first_part = ''authority'' then Inl (reject_authority key)
      else if key = ''launch.runtime'' then Inl (reject_launch_runtime key)
      else if is_launch_model_route_path key then Inl (reject_launch_model_route key)
      else if is_native_supervisor_source_path key then Inl (reject_native_source key)
      else if first_part = ''consumer_lanes''
        then Inl (InvalidOverrideKey key ''consumer lanes are set via resolving commands, not overrides'')
      else if CHR ''*'' \<in> set key
        then Inl (InvalidOverrideKey key ''use expand_wildcard() for wildcard patterns'')
      else if key \<in> set valid_intent_paths then Inr parts
      else if \<exists>p \<in> set valid_intent_paths. prefix (key @ ''.'') p then Inr parts
      else Inl (InvalidOverrideKey key ''unknown field''))"

definition expand_wildcard :: "string \<Rightarrow> string list \<Rightarrow> err + string list" where
  "expand_wildcard pattern valid_paths =
     (if CHR ''*'' \<notin> set pattern then Inl (InvalidOverrideKey pattern ''not a wildcard pattern'')
      else let parts = parts_of pattern in
      if length parts \<noteq> 2 \<or> parts ! 1 \<noteq> ''*''
        then Inl (InvalidOverrideKey pattern ''unsupported wildcard format'')
      else let prefix' = hd parts in
      if prefix' = ''authority'' then Inl (reject_authority pattern)
      else if prefix' = ''custom'' then Inl (InvalidOverrideKey pattern ''custom.* is not supported'')
      else let matching = filter (\<lambda>p. prefix (prefix' @ ''.'') p) valid_paths in
      if matching = [] then
        (if prefix' \<notin> set valid_paths then Inl (InvalidOverrideKey pattern ''unknown field'')
         else Inl (InvalidOverrideKey pattern ''no nested fields to expand''))
      else Inr (sort matching))"

section \<open>overrides.py: writing and deleting\<close>

fun set_path :: "jobj \<Rightarrow> string list \<Rightarrow> json \<Rightarrow> jobj" where
  "set_path d [] v = d"
| "set_path d [k] v = dset d k v"
| "set_path d (k # ks) v =
     dset d k (JObj (set_path (case dget d k of Some (JObj e) \<Rightarrow> e | _ \<Rightarrow> []) ks v))"

text \<open>The flag says whether something was deleted.\<close>

fun delete_path :: "jobj \<Rightarrow> string list \<Rightarrow> jobj \<times> bool" where
  "delete_path d [] = (d, False)"
| "delete_path d [k] = (if k \<in> set (dkeys d) then (ddel d k, True) else (d, False))"
| "delete_path d (k # ks) =
     (case dget d k of
        Some (JObj e) \<Rightarrow> (let (e', b) = delete_path e ks in if b then (dset d k (JObj e'), True) else (d, False))
      | _ \<Rightarrow> (d, False))"

fun validate_keys :: "string list \<Rightarrow> err + string list list" where
  "validate_keys [] = Inr []"
| "validate_keys (k # ks) =
     (case validate_key k of
        Inl e \<Rightarrow> Inl e
      | Inr p \<Rightarrow> (case validate_keys ks of Inl e \<Rightarrow> Inl e | Inr ps \<Rightarrow> Inr (p # ps)))"

text \<open>The object checks \<open>set_override\<close> makes of a dict value at \<open>launch\<close>, \<open>policy\<close> and \<open>policy.supervisor\<close>.\<close>

definition reject_owned_value :: "string \<Rightarrow> json \<Rightarrow> err option" where
  "reject_owned_value key v =
     (case v of
        JObj d \<Rightarrow>
          (if key = ''launch'' \<and> ''runtime'' \<in> set (dkeys d) then Some (reject_launch_runtime key)
           else if key = ''launch'' \<and> ''model_route'' \<in> set (dkeys d) then Some (reject_launch_model_route key)
           else if key = ''policy'' \<or> key = ''policy.supervisor'' then
             (case (if key = ''policy'' then jget d ''supervisor'' else v) of
                JObj sv \<Rightarrow> if ''native_source'' \<in> set (dkeys sv) then Some (reject_native_source key) else None
              | _ \<Rightarrow> None)
           else None)
      | _ \<Rightarrow> None)"

definition set_override :: "jobj \<Rightarrow> string \<Rightarrow> json \<Rightarrow> jobj \<times> (err + unit)" where
  "set_override ov key v =
     (if CHR ''*'' \<in> set key then
        (case expand_wildcard key valid_intent_paths of
           Inl e \<Rightarrow> (ov, Inl e)
         | Inr expanded \<Rightarrow>
             (if ''launch.runtime'' \<in> set expanded then (ov, Inl (reject_launch_runtime key))
              else (case validate_keys expanded of
                      Inl e \<Rightarrow> (ov, Inl e)
                    | Inr pss \<Rightarrow> (fold (\<lambda>ps d. set_path d ps v) pss ov, Inr ()))))
      else
        (case validate_key key of
           Inl e \<Rightarrow> (ov, Inl e)
         | Inr parts \<Rightarrow>
             (case reject_owned_value key v of
                Some e \<Rightarrow> (ov, Inl e)
              | None \<Rightarrow> (set_path ov parts v, Inr ()))))"

text \<open>
  A reset of a lifecycle-owned identity is allowed although writing it is not: it recovers from an
  override an older Forge stored.
\<close>

definition reset_parts :: "string \<Rightarrow> err + string list" where
  "reset_parts key =
     (if key = ''launch.runtime'' then Inr [''launch'', ''runtime'']
      else if is_launch_model_route_path key \<or> is_native_supervisor_source_path key
        then Inr (parts_of key)
      else validate_key key)"

definition delete_override :: "jobj \<Rightarrow> string \<Rightarrow> jobj \<times> (err + bool)" where
  "delete_override ov key =
     (if CHR ''*'' \<in> set key then
        (case expand_wildcard key valid_intent_paths of
           Inl e \<Rightarrow> (ov, Inl e)
         | Inr expanded \<Rightarrow>
             (let (ov', any) = fold (\<lambda>p (d, any). let (d', b) = delete_path d (parts_of p) in (d', any \<or> b))
                                 expanded (ov, False)
              in (ov', Inr any)))
      else
        (case reset_parts key of
           Inl e \<Rightarrow> (ov, Inl e)
         | Inr parts \<Rightarrow> (let (ov', b) = delete_path ov parts in (ov', Inr b))))"

definition clear_overrides :: "jobj \<Rightarrow> jobj" where
  "clear_overrides ov = []"

section \<open>derived_overrides.py: lifecycle-owned paths\<close>

definition lifecycle_paths :: "string list" where
  "lifecycle_paths =
     [''launch.runtime'', ''launch.model_route'', ''authority'', ''consumer_lanes'',
      ''policy.supervisor.native_source'']"

definition lifecycle_override :: "jobj \<Rightarrow> string option" where
  "lifecycle_override ov = find (\<lambda>p. get_path (JObj ov) (parts_of p) \<noteq> None) lifecycle_paths"

fun override_nodes :: "jobj \<Rightarrow> string \<Rightarrow> (string \<times> json) list" where
  "override_nodes [] pre = []"
| "override_nodes ((k, v) # d) pre =
     (let path = (if pre \<noteq> [] then pre @ ''.'' @ k else k)
      in (case v of JObj e \<Rightarrow> if e \<noteq> [] then override_nodes e path else [] | _ \<Rightarrow> [])
         @ [(path, v)] @ override_nodes d pre)"

section \<open>store.py: the schema of a stored overrides dict\<close>

fun check_overrides :: "fields \<Rightarrow> string \<Rightarrow> jobj \<Rightarrow> err + unit" where
  "check_overrides fs pre [] = Inr ()"
| "check_overrides fs pre ((k, v) # d) =
     (if k = ''custom'' then Inl (ManifestCorrupted ''overrides.custom is not supported'')
      else (case map_of fs k of
              None \<Rightarrow> Inl (ManifestCorrupted (''unknown override key: '' @ pre @ ''.'' @ k))
            | Some t \<Rightarrow>
                (case (case v of
                         JObj e \<Rightarrow>
                           (case t of
                              TClass fs' \<Rightarrow> check_overrides fs' (pre @ ''.'' @ k) e
                            | TDict \<Rightarrow> Inr ()
                            | TLeaf \<Rightarrow> Inl (ManifestCorrupted
                                 (pre @ ''.'' @ k @ '' does not support nested override keys'')))
                       | _ \<Rightarrow> Inr ()) of
                   Inl e \<Rightarrow> Inl e
                 | Inr _ \<Rightarrow> check_overrides fs pre d)))"

definition validate_overrides_schema :: "jobj \<Rightarrow> err + unit" where
  "validate_overrides_schema ov = check_overrides session_intent_fields ''overrides'' ov"

section \<open>effective.py: merging overrides into intent\<close>

fun apply_overrides :: "jobj \<Rightarrow> jobj \<Rightarrow> jobj" where
  "apply_overrides result [] = result"
| "apply_overrides result ((k, v) # ov) =
     apply_overrides
       (case v of
          JNull \<Rightarrow> dset result k JNull
        | JObj o' \<Rightarrow>
            (case dget result k of
               Some (JObj b) \<Rightarrow> dset result k (JObj (apply_overrides b o'))
             | _ \<Rightarrow> dset result k (JObj o'))
        | _ \<Rightarrow> dset result k v) ov"

text \<open>
  \<open>decode\<close> stands for the strict \<open>dacite.from_dict\<close> of \<open>SessionIntent\<close>, read back as a dict: the
  dict of the typed object, or the text of the error.
\<close>

definition compute_effective_intent ::
  "(jobj \<Rightarrow> string + jobj) \<Rightarrow> jobj \<Rightarrow> jobj \<Rightarrow> string option \<Rightarrow> err + jobj" where
  "compute_effective_intent decode intent ov override_key =
     (let merged = (if ov \<noteq> [] then apply_overrides intent ov else intent)
      in (case decode merged of
            Inl msg \<Rightarrow> Inl (InvalidOverrideValue
              (case override_key of Some k \<Rightarrow> (if k \<noteq> [] then k else ''unknown'') | None \<Rightarrow> ''unknown''))
          | Inr eff \<Rightarrow> Inr eff))"

definition get_effective_value ::
  "(jobj \<Rightarrow> string + jobj) \<Rightarrow> jobj \<Rightarrow> jobj \<Rightarrow> string \<Rightarrow> err + json" where
  "get_effective_value decode intent ov key =
     (if key = [] then Inl (InvalidOverrideKey key ''key cannot be empty'')
      else if [] \<in> set (parts_of key) then Inl (InvalidOverrideKey key ''empty segment in path'')
      else (case compute_effective_intent decode intent ov None of
              Inl e \<Rightarrow> Inl e
            | Inr eff \<Rightarrow> Inr (case get_path (JObj eff) (parts_of key) of None \<Rightarrow> JNull | Some v \<Rightarrow> v)))"


section \<open>Lemmas: paths\<close>

lemma set_path_Cons:
  "ks \<noteq> [] \<Longrightarrow> set_path d (k # ks) v =
     dset d k (JObj (set_path (case dget d k of Some (JObj e) \<Rightarrow> e | _ \<Rightarrow> []) ks v))"
  by (cases ks) auto

lemma get_path_set_below [path_simps]:
  "ks \<noteq> [] \<Longrightarrow> get_path (JObj (set_path d ks v)) (ks @ ls) = get_path v ls"
  by (induction d ks v rule: set_path.induct) auto

lemma get_path_set_same [path_simps]:
  "ks \<noteq> [] \<Longrightarrow> get_path (JObj (set_path d ks v)) ks = Some v"
  using get_path_set_below [of ks d v "[]"] by simp

lemma get_path_empty: "ls \<noteq> [] \<Longrightarrow> get_path (JObj []) ls = None"
  by (cases ls) auto

lemma get_path_set_indep [path_simps]:
  "\<not> prefix ks ls \<Longrightarrow> \<not> prefix ls ks \<Longrightarrow>
     get_path (JObj (set_path d ks v)) ls = get_path (JObj d) ls"
proof (induction d ks v arbitrary: ls rule: set_path.induct)
  case (1 d v)
  then show ?case by simp
next
  case (2 d k v)
  then show ?case by (cases ls) auto
next
  case (3 d k k2 ks v)
  then obtain l ls' where ls: "ls = l # ls'" by (cases ls) auto
  show ?case
  proof (cases "l = k")
    case True
    with ls 3(2,3) have "\<not> prefix (k2 # ks) ls'" "\<not> prefix ls' (k2 # ks)" by auto
    moreover from this have "ls' \<noteq> []" by auto
    ultimately show ?thesis
      using ls True 3(1) [of ls'] get_path_nonobj [of _ ls']
      by (auto simp: get_path_empty is_obj_iff split: option.splits json.splits)
  next
    case False
    with ls show ?thesis by simp
  qed
qed

lemma get_path_set_mem:
  assumes "ks \<noteq> []" "\<not> prefix ls ks" "\<And>r. ls = ks @ r \<Longrightarrow> get_path v r = None"
    and "get_path (JObj d) ls = None"
  shows "get_path (JObj (set_path d ks v)) ls = None"
proof (cases "prefix ks ls")
  case True
  with assms show ?thesis by (auto simp: prefix_def path_simps)
next
  case False
  with assms show ?thesis by (simp add: path_simps)
qed

lemma delete_path_flag: "snd (delete_path d ks) \<longleftrightarrow> ks \<noteq> [] \<and> get_path (JObj d) ks \<noteq> None"
proof (induction d ks rule: delete_path.induct)
  case (3 d k k2 ks)
  then show ?case
    by (auto simp: get_path_nonobj split: option.splits json.splits prod.splits if_splits)
qed (auto simp: dkey_iff split: option.splits)

lemma delete_path_unchanged: "\<not> snd (delete_path d ks) \<Longrightarrow> fst (delete_path d ks) = d"
  by (induction d ks rule: delete_path.induct)
    (auto split: option.splits json.splits prod.splits if_splits)

lemma get_path_delete_below [path_simps]:
  "ks \<noteq> [] \<Longrightarrow> get_path (JObj (fst (delete_path d ks))) (ks @ ls) = None"
proof (induction d ks rule: delete_path.induct)
  case (1 d)
  then show ?case by simp
next
  case (2 d k)
  then show ?case by (auto simp: dkey_iff split: option.splits)
next
  case (3 d k k2 ks)
  show ?case
  proof (cases "dget d k")
    case None
    then show ?thesis by simp
  next
    case (Some u)
    show ?thesis
    proof (cases u)
      case (JObj e)
      with 3 Some have "get_path (JObj (fst (delete_path e (k2 # ks)))) ((k2 # ks) @ ls) = None" by simp
      with Some JObj delete_path_unchanged [of e "k2 # ks"] show ?thesis
        by (auto split: prod.splits if_splits)
    qed (use Some in auto)
  qed
qed

lemma get_path_delete_indep [path_simps]:
  "\<not> prefix ks ls \<Longrightarrow> \<not> prefix ls ks \<Longrightarrow>
     get_path (JObj (fst (delete_path d ks))) ls = get_path (JObj d) ls"
proof (induction d ks arbitrary: ls rule: delete_path.induct)
  case (1 d)
  then show ?case by simp
next
  case (2 d k)
  then show ?case by (cases ls) auto
next
  case (3 d k k2 ks)
  then obtain l ls' where ls: "ls = l # ls'" by (cases ls) auto
  show ?case
  proof (cases "l = k")
    case True
    with ls 3(2,3) have "\<not> prefix (k2 # ks) ls'" "\<not> prefix ls' (k2 # ks)" by auto
    with ls True 3(1) [of _ _ ls'] show ?thesis
      by (auto split: option.splits json.splits prod.splits if_splits)
  next
    case False
    with ls show ?thesis by (auto split: option.splits json.splits prod.splits if_splits)
  qed
qed

lemma get_path_delete_None:
  "get_path (JObj d) ls = None \<Longrightarrow> get_path (JObj (fst (delete_path d ks))) ls = None"
proof (cases "ks = [] \<or> \<not> snd (delete_path d ks)")
  case True
  assume "get_path (JObj d) ls = None"
  with True show ?thesis by (auto simp: delete_path_unchanged)
next
  case False
  assume none: "get_path (JObj d) ls = None"
  from False have "get_path (JObj d) ks \<noteq> None" "ks \<noteq> []" by (auto simp: delete_path_flag)
  with none have "\<not> prefix ls ks" by (auto simp: prefix_def get_path_append)
  with none False show ?thesis
    by (cases "prefix ks ls") (auto simp: prefix_def path_simps)
qed

section \<open>Lemmas: accepted keys\<close>

lemma split_on_append_dot: "split_on c (s @ c # t) = split_on c s @ split_on c t"
  by (induction s) (auto split: list.splits)

lemma valid_prefix_path:
  assumes "p \<in> set valid_intent_paths" "prefix (key @ ''.'') p"
  shows "key \<in> set valid_intent_paths"
proof -
  from assms(2) obtain r where "p = key @ dot # r" by (auto simp: prefix_def)
  with assms(1) show ?thesis
    using schema_at_prefix [of _ "parts_of key" "parts_of r"]
    by (simp add: valid_intent_path_iff split_on_append_dot)
qed

text \<open>What a key has passed when it is accepted.\<close>

lemma validate_key_Inr:
  assumes "validate_key key = Inr ps"
  shows "ps = parts_of key" "schema_at (TClass session_intent_fields) ps \<noteq> None"
    "hd ps \<noteq> ''authority''" "hd ps \<noteq> ''consumer_lanes''"
    "key \<noteq> ''launch.runtime''" "\<not> is_launch_model_route_path key"
    "\<not> is_native_supervisor_source_path key" "CHR ''*'' \<notin> set key" "key \<in> set valid_intent_paths"
proof -
  note all = assms [unfolded validate_key_def Let_def guard_Inr guard_or_Inr]
  from all show ps: "ps = parts_of key" by (elim conjE)
  from all have "key \<in> set valid_intent_paths \<or> (\<exists>p \<in> set valid_intent_paths. prefix (key @ ''.'') p)"
    by (elim conjE)
  then show key: "key \<in> set valid_intent_paths" by (elim disjE bexE) (assumption, rule valid_prefix_path)
  from key ps show "schema_at (TClass session_intent_fields) ps \<noteq> None"
    by (simp add: valid_intent_path_iff)
  from all show "hd ps \<noteq> ''authority''" by (elim conjE) (simp only: simp_thms)
  from all show "hd ps \<noteq> ''consumer_lanes''" by (elim conjE) (simp only: simp_thms)
  from all show "key \<noteq> ''launch.runtime''" by (elim conjE)
  from all show "\<not> is_launch_model_route_path key" by (elim conjE)
  from all show "\<not> is_native_supervisor_source_path key" by (elim conjE)
  from all show "CHR ''*'' \<notin> set key" by (elim conjE)
qed

lemma validate_keys_Inr:
  "validate_keys ks = Inr pss \<Longrightarrow> list_all2 (\<lambda>k ps. validate_key k = Inr ps) ks pss"
  by (induction ks arbitrary: pss) (auto split: sum.splits)


text \<open>An accepted path never reaches a lifecycle-owned path or anything under one.\<close>

lemma schema_leaf_end:
  "schema_at t (ks @ ls) \<noteq> None \<Longrightarrow> schema_at t ks = Some TLeaf \<Longrightarrow> ls = []"
  by (induction t ks rule: schema_at.induct) (auto split: option.splits elim: schema_at.elims)

lemma lifecycle_cases:
  assumes "p \<in> set lifecycle_paths"
  obtains (runtime) "p = ''launch.runtime''" "parts_of p = [''launch'', ''runtime'']"
  | (route) "p = ''launch.model_route''" "parts_of p = [''launch'', ''model_route'']"
  | (authority) "p = ''authority''" "parts_of p = [''authority'']"
  | (lanes) "p = ''consumer_lanes''" "parts_of p = [''consumer_lanes'']"
  | (native) "p = ''policy.supervisor.native_source''"
      "parts_of p = [''policy'', ''supervisor'', ''native_source'']"
proof -
  from assms have "p = ''launch.runtime'' \<or> p = ''launch.model_route'' \<or> p = ''authority'' \<or>
      p = ''consumer_lanes'' \<or> p = ''policy.supervisor.native_source''"
    by (simp add: lifecycle_paths_def)
  then show thesis by (elim disjE) (simp_all add: that)
qed

lemma accepted_not_under_lifecycle:
  assumes acc: "validate_key key = Inr ps" and p: "p \<in> set lifecycle_paths"
  shows "\<not> prefix (parts_of p) ps"
proof
  assume pre: "prefix (parts_of p) ps"
  note acc = validate_key_Inr [OF acc]
  have key: "key = join_on dot ps" using acc(1) by (simp add: join_split_on)
  from pre obtain r where r: "ps = parts_of p @ r" by (auto simp: prefix_def)
  from p show False
  proof (cases rule: lifecycle_cases)
    case runtime
    have "schema_at (TClass session_intent_fields) [''launch'', ''runtime''] = Some TLeaf"
      by (simp add: intent_schema_defs)
    with acc(2) r runtime(2) have "r = []" using schema_leaf_end by metis
    with r runtime(2) key acc(5) show False by simp
  next
    case route
    then have "key = ''launch.model_route'' \<or> prefix ''launch.model_route.'' key"
      using r key by (cases r) simp_all
    with acc(6,9) show False by (simp only: is_launch_model_route_path_def) blast
  next
    case native
    then have "key = ''policy.supervisor.native_source'' \<or> prefix ''policy.supervisor.native_source.'' key"
      using r key by (cases r) simp_all
    with acc(7,9) show False by (simp only: is_native_supervisor_source_path_def) blast
  qed (use r acc(3,4) in simp_all)
qed

lemma accepted_above_lifecycle:
  assumes acc: "validate_key key = Inr ps" and p: "p \<in> set lifecycle_paths" and pre: "parts_of p = ps @ r"
  obtains (runtime) "key = ''launch''" "r = [''runtime'']"
  | (route) "key = ''launch''" "r = [''model_route'']"
  | (policy) "key = ''policy''" "r = [''supervisor'', ''native_source'']"
  | (supervisor) "key = ''policy.supervisor''" "r = [''native_source'']"
proof -
  note ps = validate_key_Inr(1) [OF acc]
  have key: "key = join_on dot ps" using ps by (simp add: join_split_on)
  have r: "r \<noteq> []" and ne: "ps \<noteq> []"
    using accepted_not_under_lifecycle [OF acc p] pre ps by auto
  then obtain k ks where k: "ps = k # ks" by (cases ps) auto
  from p show thesis
  proof (cases rule: lifecycle_cases)
    case runtime
    with pre r k have "ps = [''launch'']" "r = [''runtime'']" by (cases ks; simp)+
    with key that(1) show thesis by simp
  next
    case route
    with pre r k have "ps = [''launch'']" "r = [''model_route'']" by (cases ks; simp)+
    with key that(2) show thesis by simp
  next
    case authority
    with pre r k have False by simp
    then show thesis ..
  next
    case lanes
    with pre r k have False by simp
    then show thesis ..
  next
    case native
    with pre k have "[''policy'', ''supervisor'', ''native_source''] = (k # ks) @ r" by simp
    then have "ks = [] \<and> k = ''policy'' \<and> r = [''supervisor'', ''native_source''] \<or>
        ks = [''supervisor''] \<and> k = ''policy'' \<and> r = [''native_source'']"
      using r by (cases ks) (simp, case_tac list, simp_all)
    then show thesis
    proof (elim disjE conjE)
      assume "ks = []" "k = ''policy''" "r = [''supervisor'', ''native_source'']"
      with key k that(3) show thesis by simp
    next
      assume "ks = [''supervisor'']" "k = ''policy''" "r = [''native_source'']"
      with key k that(4) show thesis by simp
    qed
  qed
qed

lemma set_path_keeps_lifecycle:
  assumes "validate_key key = Inr ps" "p \<in> set lifecycle_paths"
    and "get_path (JObj d) (parts_of p) = None"
    and "\<And>r. parts_of p = ps @ r \<Longrightarrow> get_path v r = None"
  shows "get_path (JObj (set_path d ps v)) (parts_of p) = None"
  using assms accepted_not_under_lifecycle [OF assms(1,2)] validate_key_Inr(1) [OF assms(1)]
  by (intro get_path_set_mem) auto

lemma reject_owned_value_None:
  assumes none: "reject_owned_value key v = None" and acc: "validate_key key = Inr ps"
    and p: "p \<in> set lifecycle_paths" and r: "parts_of p = ps @ r"
  shows "get_path v r = None"
proof (cases v)
  case (JObj d)
  from acc p r show ?thesis
  proof (cases rule: accepted_above_lifecycle)
    case runtime
    then show ?thesis using none JObj by (simp add: reject_owned_value_def dkey_iff split: if_splits)
  next
    case route
    then show ?thesis using none JObj by (simp add: reject_owned_value_def dkey_iff split: if_splits)
  next
    case policy
    then show ?thesis using none JObj
      by (simp add: reject_owned_value_def jget_def dkey_iff split: if_splits option.splits json.splits)
  next
    case supervisor
    then show ?thesis using none JObj by (simp add: reject_owned_value_def dkey_iff split: if_splits)
  qed
qed (use accepted_not_under_lifecycle [OF acc p] r in \<open>cases r; simp\<close>)+

lemma lifecycle_override_None_iff:
  "lifecycle_override ov = None \<longleftrightarrow> (\<forall>p \<in> set lifecycle_paths. get_path (JObj ov) (parts_of p) = None)"
  by (auto simp: lifecycle_override_def find_None_iff)

text \<open>A wildcard whose expansion passed validation contains no path above a lifecycle-owned one.\<close>

lemma wildcard_expansion:
  "expand_wildcard pat V = Inr es \<Longrightarrow> \<exists>pre. set es = {p \<in> set V. prefix (pre @ ''.'') p}"
  by (auto simp: expand_wildcard_def Let_def split: if_splits)

lemma accepted_expansion_not_above:
  assumes exp: "expand_wildcard pat valid_intent_paths = Inr es" and ok: "validate_keys es = Inr pss"
    and noruntime: "''launch.runtime'' \<notin> set es"
    and k: "key \<in> set es" "validate_key key = Inr ps" and p: "p \<in> set lifecycle_paths"
  shows "\<not> prefix ps (parts_of p)"
proof
  assume "prefix ps (parts_of p)"
  then obtain r where r: "parts_of p = ps @ r" by (auto simp: prefix_def)
  from wildcard_expansion [OF exp] obtain pre where
    es: "set es = {p \<in> set valid_intent_paths. prefix (pre @ ''.'') p}" ..
  then have "dot \<in> set key" using k(1) by (auto simp: prefix_def)
  have rejected: "''policy.supervisor.native_source'' \<in> set es \<Longrightarrow> False"
  proof -
    assume "''policy.supervisor.native_source'' \<in> set es"
    with validate_keys_Inr [OF ok] obtain qs where
      "validate_key ''policy.supervisor.native_source'' = Inr qs"
      by (auto simp: list_all2_conv_all_nth in_set_conv_nth)
    from validate_key_Inr(7) [OF this] show False
      by (simp add: is_native_supervisor_source_path_def)
  qed
  from k(2) p r show False
  proof (cases rule: accepted_above_lifecycle)
    case supervisor
    have "''policy.supervisor.native_source'' \<in> set valid_intent_paths"
      by (simp add: valid_intent_path_iff intent_schema_defs)
    moreover have "prefix (pre @ ''.'') ''policy.supervisor.native_source''"
    proof -
      have "prefix (pre @ ''.'') key" using k(1) es by blast
      then have "prefix (pre @ ''.'') ''policy.supervisor''" by (simp only: supervisor(1))
      then show ?thesis by (rule prefix_order.trans) (simp add: prefix_def)
    qed
    ultimately have "''policy.supervisor.native_source'' \<in> set es" using es by blast
    with rejected show False .
  qed (use \<open>dot \<in> set key\<close> in simp_all)
qed

lemma fold_set_path_keeps_lifecycle:
  assumes "list_all2 (\<lambda>k ps. validate_key k = Inr ps) es pss"
    and "\<forall>k \<in> set es. \<forall>ps. validate_key k = Inr ps \<longrightarrow> \<not> prefix ps (parts_of p)"
    and "p \<in> set lifecycle_paths" "get_path (JObj d) (parts_of p) = None"
  shows "get_path (JObj (fold (\<lambda>ps d. set_path d ps v) pss d)) (parts_of p) = None"
  using assms
proof (induction es pss arbitrary: d rule: list_all2_induct)
  case Nil
  then show ?case by simp
next
  case (Cons k ks ps pss)
  then have "get_path (JObj (set_path d ps v)) (parts_of p) = None"
    by (intro set_path_keeps_lifecycle [of k]) (auto simp: prefix_def)
  with Cons show ?case by simp
qed

section \<open>Lemmas: the merge\<close>

definition merged_value :: "json option \<Rightarrow> json \<Rightarrow> json" where
  "merged_value old v =
     (case v of
        JObj o' \<Rightarrow> (case old of Some (JObj b) \<Rightarrow> JObj (apply_overrides b o') | _ \<Rightarrow> JObj o')
      | _ \<Rightarrow> v)"

lemma apply_overrides_Cons:
  "apply_overrides d ((k, v) # ov) = apply_overrides (dset d k (merged_value (dget d k) v)) ov"
  by (auto simp: merged_value_def split: json.splits option.splits)

lemma apply_overrides_lookup:
  "dwf ov \<Longrightarrow> dget (apply_overrides d ov) k =
     (case dget ov k of None \<Rightarrow> dget d k | Some v \<Rightarrow> Some (merged_value (dget d k) v))"
proof (induction ov arbitrary: d)
  case Nil
  then show ?case by simp
next
  case (Cons p ov)
  obtain j v where p: "p = (j, v)" by (cases p)
  from Cons.prems p have "dget ov j = None" by (simp add: dget_None_iff)
  with Cons p show ?case
    by (auto simp: apply_overrides_Cons simp del: apply_overrides.simps split: option.splits)
qed

lemma dset_noop: "dget d k = Some v \<Longrightarrow> dset d k v = d"
  by (induction d) (auto split: if_splits)

text \<open>A dict that already holds every merged value is left as it is.\<close>

lemma apply_overrides_absorb:
  "dwf ov \<Longrightarrow> \<forall>k v. dget ov k = Some v \<longrightarrow> dget d k = Some (merged_value (dget d k) v) \<Longrightarrow>
     apply_overrides d ov = d"
proof (induction ov arbitrary: d)
  case Nil
  then show ?case by simp
next
  case (Cons p ov)
  obtain j v where p: "p = (j, v)" by (cases p)
  from Cons.prems p have new: "dget ov j = None" by (simp add: dget_None_iff)
  have "\<forall>k v. dget ov k = Some v \<longrightarrow> dget d k = Some (merged_value (dget d k) v)"
  proof (intro allI impI)
    fix k w
    assume k: "dget ov k = Some w"
    with new have "dget (p # ov) k = Some w" using p by auto
    with Cons.prems(2) show "dget d k = Some (merged_value (dget d k) w)" by blast
  qed
  moreover from Cons.prems(2) p have "dget d j = Some (merged_value (dget d j) v)" by simp
  ultimately show ?case
    using Cons p by (simp add: apply_overrides_Cons dset_noop del: apply_overrides.simps)
qed

lemma jwf_mem: "jwf (JObj ov) \<Longrightarrow> dget ov k = Some v \<Longrightarrow> jwf v"
  by (auto dest: dget_mem)

lemma size_mem_obj: "(k, v) \<in> set d \<Longrightarrow> size v < size (JObj d)"
proof (induction d)
  case (Cons p d)
  then show ?case by (cases p) auto
qed simp

lemma apply_overrides_self: "jwf (JObj ov) \<Longrightarrow> apply_overrides ov ov = ov"
proof (induction "size (JObj ov)" arbitrary: ov rule: less_induct)
  case less
  show ?case
  proof (rule apply_overrides_absorb, use less.prems in simp, intro allI impI)
    fix k v
    assume k: "dget ov k = Some v"
    have "apply_overrides o' o' = o'" if "v = JObj o'" for o'
      using less.hyps [of o'] size_mem_obj [OF dget_mem [OF k]] jwf_mem [OF less.prems k] that by simp
    with k show "dget ov k = Some (merged_value (dget ov k) v)"
      by (auto simp: merged_value_def split: json.splits)
  qed
qed

lemma apply_overrides_twice:
  "jwf (JObj ov) \<Longrightarrow> apply_overrides (apply_overrides d ov) ov = apply_overrides d ov"
proof (induction "size (JObj ov)" arbitrary: d ov rule: less_induct)
  case less
  note wf = less.prems
  show ?case
  proof (rule apply_overrides_absorb, use wf in simp, intro allI impI)
    fix k v
    assume k: "dget ov k = Some v"
    have IH: "apply_overrides (apply_overrides b o') o' = apply_overrides b o'"
      and self: "apply_overrides o' o' = o'" if "v = JObj o'" for b o'
      using less.hyps [of o' b] size_mem_obj [OF dget_mem [OF k]] jwf_mem [OF wf k] that
        apply_overrides_self [of o'] by simp_all
    show "dget (apply_overrides d ov) k =
        Some (merged_value (dget (apply_overrides d ov) k) v)"
      using k wf IH self
      by (auto simp: apply_overrides_lookup merged_value_def split: json.splits option.splits)
  qed
qed

text \<open>
  At a path: an override that is not a dict shows through the merge; a path the overrides do not
  touch reads the intent.
\<close>

lemma get_path_apply_leaf:
  "jwf (JObj ov) \<Longrightarrow> ks \<noteq> [] \<Longrightarrow> get_path (JObj ov) ks = Some v \<Longrightarrow> \<not> is_obj v \<Longrightarrow>
     get_path (JObj (apply_overrides d ov)) ks = Some v"
proof (induction ks arbitrary: d ov)
  case Nil
  then show ?case by simp
next
  case (Cons k ks)
  then obtain u where u: "dget ov k = Some u" "get_path u ks = Some v"
    by (auto split: option.splits)
  show ?case
  proof (cases "ks = []")
    case True
    with u Cons.prems show ?thesis
      by (cases v) (auto simp: apply_overrides_lookup merged_value_def)
  next
    case False
    with u obtain o' where o': "u = JObj o'" using get_path_nonobj [of u ks] by (auto simp: is_obj_iff)
    with u Cons.prems have "jwf (JObj o')" using jwf_mem by blast
    with Cons.IH [of o'] False u o' Cons.prems show ?thesis
      by (auto simp: apply_overrides_lookup merged_value_def split: option.splits json.splits)
  qed
qed

fun untouched :: "jobj \<Rightarrow> string list \<Rightarrow> bool" where
  "untouched ov [] = False"
| "untouched ov (k # ks) =
     (case dget ov k of None \<Rightarrow> True | Some (JObj o') \<Rightarrow> untouched o' ks | Some _ \<Rightarrow> False)"

lemma get_path_apply_untouched:
  "jwf (JObj ov) \<Longrightarrow> untouched ov ks \<Longrightarrow>
     get_path (JObj (apply_overrides d ov)) ks = get_path (JObj d) ks"
proof (induction ks arbitrary: d ov)
  case Nil
  then show ?case by simp
next
  case (Cons k ks)
  show ?case
  proof (cases "dget ov k")
    case None
    with Cons.prems show ?thesis by (simp add: apply_overrides_lookup)
  next
    case (Some u)
    with Cons.prems obtain o' where o': "u = JObj o'" "untouched o' ks" by (auto split: json.splits)
    with Some Cons.prems have wf: "jwf (JObj o')" using jwf_mem by blast
    have none: "get_path (JObj o') ks = None" using o'(2)
      by (induction o' ks rule: untouched.induct) (auto split: option.splits json.splits)
    have ne: "ks \<noteq> []" using o'(2) by auto
    show ?thesis
      using Some o' Cons.prems(1) Cons.IH [OF wf o'(2)] none ne
      by (auto simp: apply_overrides_lookup merged_value_def get_path_nonobj
          split: option.splits json.splits)
  qed
qed

lemma jwf_dset: "jwf (JObj d) \<Longrightarrow> jwf v \<Longrightarrow> jwf (JObj (dset d k v))"
  using set_dset_subset [where d = d and k = k and v = v] by (auto simp: dwf_dset)

lemma jwf_ddel: "jwf (JObj d) \<Longrightarrow> jwf (JObj (ddel d k))"
  by (auto simp: set_ddel dwf_ddel)

lemma jwf_set_path: "jwf (JObj d) \<Longrightarrow> jwf v \<Longrightarrow> jwf (JObj (set_path d ks v))"
proof (induction d ks v rule: set_path.induct)
  case (3 d k k2 ks v)
  have "jwf (JObj (case dget d k of Some (JObj e) \<Rightarrow> e | _ \<Rightarrow> []))"
    using 3(2) jwf_mem by (auto split: option.splits json.splits)
  with 3 show ?case by (simp only: set_path.simps) (intro jwf_dset, auto)
qed (auto simp del: jwf.simps intro: jwf_dset)

lemma jwf_delete_path: "jwf (JObj d) \<Longrightarrow> jwf (JObj (fst (delete_path d ks)))"
proof (induction d ks rule: delete_path.induct)
  case (3 d k k2 ks)
  have "jwf (JObj e)" if "dget d k = Some (JObj e)" for e
    using 3(2) jwf_mem that by blast
  with 3 show ?case
    by (auto simp del: jwf.simps intro: jwf_dset split: option.splits json.splits prod.splits)
qed (auto simp del: jwf.simps intro: jwf_ddel)

lemma delete_path_untouched:
  "ks \<noteq> [] \<Longrightarrow> snd (delete_path d ks) \<Longrightarrow> untouched (fst (delete_path d ks)) ks"
proof (induction d ks rule: delete_path.induct)
  case (3 d k k2 ks)
  then show ?case by (auto split: option.splits json.splits prod.splits if_splits)
qed auto

section \<open>Lemmas: the stored schema\<close>

fun conforms :: "fields \<Rightarrow> jobj \<Rightarrow> bool" where
  "conforms fs [] = True"
| "conforms fs ((k, v) # d) =
     (k \<noteq> ''custom'' \<and>
      (case map_of fs k of
         None \<Rightarrow> False
       | Some t \<Rightarrow>
           (case v of
              JObj e \<Rightarrow> (case t of TClass fs' \<Rightarrow> conforms fs' e | TDict \<Rightarrow> True | TLeaf \<Rightarrow> False)
            | _ \<Rightarrow> True)) \<and>
      conforms fs d)"

lemma unit_result: "(r :: err + unit) = Inr () \<longleftrightarrow> (\<forall>e. r \<noteq> Inl e)"
  by (cases r) auto

lemma check_overrides_conforms: "check_overrides fs pre d = Inr () \<longleftrightarrow> conforms fs d"
proof (induction fs pre d rule: check_overrides.induct)
  case (1 fs pre)
  then show ?case by simp
next
  case (2 fs pre k v d)
  show ?case
  proof (cases "k = ''custom'' \<or> map_of fs k = None")
    case True
    then show ?thesis by auto
  next
    case False
    then obtain t where t: "map_of fs k = Some t" "k \<noteq> ''custom''" by auto
    define r where "r = (case v of
                         JObj e \<Rightarrow>
                           (case t of
                              TClass fs' \<Rightarrow> check_overrides fs' (pre @ ''.'' @ k) e
                            | TDict \<Rightarrow> Inr ()
                            | TLeaf \<Rightarrow> Inl (ManifestCorrupted
                                 (pre @ ''.'' @ k @ '' does not support nested override keys'')))
                       | _ \<Rightarrow> Inr ())"
    have "r = Inr () \<longleftrightarrow> (case v of
              JObj e \<Rightarrow> (case t of TClass fs' \<Rightarrow> conforms fs' e | TDict \<Rightarrow> True | TLeaf \<Rightarrow> False)
            | _ \<Rightarrow> True)"
      using 2(1) [OF t(2) t(1)] unfolding r_def by (cases v; cases t) simp_all
    moreover have "check_overrides fs pre ((k, v) # d) =
        (case r of Inl e \<Rightarrow> Inl e | Inr _ \<Rightarrow> check_overrides fs pre d)"
      using t by (simp add: r_def)
    moreover have "r = Inr () \<Longrightarrow> check_overrides fs pre d = Inr () \<longleftrightarrow> conforms fs d"
      using 2(2) [OF t(2) t(1)] unfolding r_def by simp
    ultimately show ?thesis
      using t by (cases r) (auto simp: unit_result)
  qed
qed

lemma conforms_mem: "conforms fs d \<Longrightarrow> (k, JObj e) \<in> set d \<Longrightarrow> map_of fs k = Some (TClass fs') \<Longrightarrow> conforms fs' e"
  by (induction d) (auto split: option.splits json.splits ftype.splits)

lemma conforms_dset:
  assumes "conforms fs d" "conforms fs [(k, v)]"
  shows "conforms fs (dset d k v)"
  using assms(1)
proof (induction d)
  case Nil
  then show ?case using assms(2) by simp
next
  case (Cons p d)
  obtain j u where "p = (j, u)" by (cases p)
  with Cons assms(2) show ?case by auto
qed

lemma conforms_ddel: "conforms fs d \<Longrightarrow> conforms fs (ddel d k)"
  by (induction d) auto

lemma conforms_set_path:
  "conforms fs d \<Longrightarrow> plain_fields fs \<Longrightarrow> dwf fs \<Longrightarrow> schema_at (TClass fs) ks \<noteq> None \<Longrightarrow> \<not> is_obj v \<Longrightarrow>
     conforms fs (set_path d ks v)"
proof (induction d ks v arbitrary: fs rule: set_path.induct)
  case (1 d v)
  then show ?case by simp
next
  case (2 d k v)
  then obtain t where t: "map_of fs k = Some t" by (auto split: option.splits)
  then have "k \<noteq> ''custom''" using plain_fields_lookup [OF 2(2) dget_mem] by blast
  with t 2(5) have "conforms fs [(k, v)]" by (cases v) simp_all
  with 2(1) show ?case by (simp add: conforms_dset)
next
  case (3 d k k2 ks v)
  from 3(5) obtain t where t: "map_of fs k = Some t" "schema_at t (k2 # ks) \<noteq> None"
    by (auto split: option.splits)
  from t(2) obtain fs' where fs': "t = TClass fs'" by (cases t) auto
  have plain: "k \<noteq> ''custom''" "plain_schema t"
    using 3(3) plain_fields_lookup [OF _ dget_mem [OF t(1)]] by blast+
  have old: "conforms fs' (case dget d k of Some (JObj e) \<Rightarrow> e | _ \<Rightarrow> [])"
    using conforms_mem [OF 3(2) dget_mem] t(1) fs' by (simp split: option.splits json.splits)
  have "conforms fs' (set_path (case dget d k of Some (JObj e) \<Rightarrow> e | _ \<Rightarrow> []) (k2 # ks) v)"
    using 3(1) [OF old] plain fs' t(2) 3(6) by simp
  then show ?case
    unfolding set_path.simps using 3(2) t(1) fs' plain by (intro conforms_dset) simp_all
qed

lemma conforms_delete_path: "conforms fs d \<Longrightarrow> conforms fs (fst (delete_path d ks))"
proof (induction d ks arbitrary: fs rule: delete_path.induct)
  case (3 d k k2 ks)
  show ?case
  proof (cases "\<exists>e. dget d k = Some (JObj e) \<and> snd (delete_path e (k2 # ks))")
    case False
    then have "fst (delete_path d (k # k2 # ks)) = d"
      by (intro delete_path_unchanged) (auto split: option.splits json.splits prod.splits)
    with 3 show ?thesis by simp
  next
    case True
    then obtain e where e: "dget d k = Some (JObj e)" "snd (delete_path e (k2 # ks))" by blast
    then have "fst (delete_path d (k # k2 # ks)) = dset d k (JObj (fst (delete_path e (k2 # ks))))"
      by (cases "delete_path e (k2 # ks)") simp
    moreover have "conforms fs [(k, JObj (fst (delete_path e (k2 # ks))))]"
    proof -
      from 3(2) dget_mem [OF e(1)] have "conforms fs [(k, JObj e)]"
        by (induction d) (auto split: if_splits)
      with 3(1) [OF e(1)] show ?thesis by (auto split: option.splits ftype.splits)
    qed
    ultimately show ?thesis using 3(2) conforms_dset by simp
  qed
qed (auto intro: conforms_ddel)

lemma conforms_fold_set_path:
  "list_all2 (\<lambda>k ps. validate_key k = Inr ps) es pss \<Longrightarrow> conforms session_intent_fields d \<Longrightarrow> \<not> is_obj v \<Longrightarrow>
     conforms session_intent_fields (fold (\<lambda>ps d. set_path d ps v) pss d)"
proof (induction es pss arbitrary: d rule: list_all2_induct)
  case Nil
  then show ?case by simp
next
  case (Cons k ks ps pss)
  have "conforms session_intent_fields (set_path d ps v)"
    using Cons validate_key_Inr(2) plain_intent_schema by (intro conforms_set_path) auto
  with Cons show ?case by simp
qed

lemma conforms_delete_all:
  "conforms fs d \<Longrightarrow>
     conforms fs (fst (fold (\<lambda>p (d, any). let (d', b) = delete_path d (parts_of p) in (d', any \<or> b)) es (d, a)))"
proof (induction es arbitrary: d a)
  case (Cons e es)
  obtain d' b where d': "delete_path d (parts_of e) = (d', b)" by fastforce
  with Cons.prems have "conforms fs d'"
    using conforms_delete_path [of fs d "parts_of e"] by simp
  with Cons.IH [of d'] d' show ?case by simp
qed simp

text \<open>The dict a reset leaves is that of a run of path deletions.\<close>

lemma delete_override_cases:
  obtains (refused) "fst (delete_override ov key) = ov"
  | (wild) es where "fst (delete_override ov key) =
      fst (fold (\<lambda>p (d, any). let (d', b) = delete_path d (parts_of p) in (d', any \<or> b)) es (ov, False))"
  | (plain) ps where "fst (delete_override ov key) = fst (delete_path ov ps)"
proof (cases "CHR ''*'' \<in> set key")
  case True
  then show thesis
    using refused wild by (cases "expand_wildcard key valid_intent_paths")
      (simp_all add: delete_override_def case_prod_unfold Let_def)
next
  case False
  then show thesis
    using refused plain by (cases "reset_parts key")
      (simp_all add: delete_override_def case_prod_unfold Let_def)
qed

text \<open>How \<open>set_override\<close> can succeed.\<close>

lemma set_override_cases:
  assumes "set_override ov key v = (ov', Inr ())"
  obtains (wild) es pss where "expand_wildcard key valid_intent_paths = Inr es"
      "''launch.runtime'' \<notin> set es" "validate_keys es = Inr pss"
      "ov' = fold (\<lambda>ps d. set_path d ps v) pss ov" "CHR ''*'' \<in> set key"
  | (plain) ps where "CHR ''*'' \<notin> set key" "validate_key key = Inr ps" "reject_owned_value key v = None"
      "ov' = set_path ov ps v"
  using assms by (auto simp: set_override_def split: if_splits sum.splits option.splits)

section \<open>Properties\<close>

text \<open>
  C1. No sequence of accepted override writes can reach a lifecycle-owned path
  (\<open>launch.runtime\<close>, \<open>launch.model_route\<close>, \<open>authority\<close>, \<open>consumer_lanes\<close>,
  \<open>policy.supervisor.native_source\<close>): whatever the key, a wildcard or an enclosing object
  included, and whatever the value, overrides free of such a path stay free of it, and a refused
  write leaves the dict as it was.
\<close>

theorem set_override_keeps_lifecycle:
  assumes "lifecycle_override ov = None"
  shows "lifecycle_override (fst (set_override ov key v)) = None \<and>
    (snd (set_override ov key v) \<noteq> Inr () \<longrightarrow> fst (set_override ov key v) = ov)"
proof (cases "snd (set_override ov key v) = Inr ()")
  case True
  then obtain ov' where set: "set_override ov key v = (ov', Inr ())" by (metis prod.collapse)
  from set have "lifecycle_override ov' = None"
  proof (cases rule: set_override_cases)
    case (wild es pss)
    have "\<forall>k \<in> set es. \<forall>ps. validate_key k = Inr ps \<longrightarrow> \<not> prefix ps (parts_of p)"
      if "p \<in> set lifecycle_paths" for p
      using accepted_expansion_not_above [OF wild(1,3,2)] that by blast
    moreover note assms [unfolded lifecycle_override_None_iff]
    ultimately show ?thesis
      unfolding lifecycle_override_None_iff wild(4)
      using fold_set_path_keeps_lifecycle [OF validate_keys_Inr [OF wild(3)]] by (intro ballI) blast
  next
    case (plain ps)
    show ?thesis
      using assms set_path_keeps_lifecycle [OF plain(2)] reject_owned_value_None [OF plain(3,2)]
      unfolding lifecycle_override_None_iff plain(4) by (intro ballI) blast
  qed
  with set True show ?thesis by simp
next
  case False
  then have "fst (set_override ov key v) = ov"
    by (auto simp: set_override_def split: if_splits sum.splits option.splits)
  with assms False show ?thesis by simp
qed

theorem set_override_keeps_lifecycle_witness:
  "lifecycle_override (fst (set_override [(''agent'', JStr ''codex'')] ''launch'' (JObj [(''runtime'', JStr ''codex'')]))) = None"
  using set_override_keeps_lifecycle [of "[(''agent'', JStr ''codex'')]" "''launch''" "JObj [(''runtime'', JStr ''codex'')]"]
  by (simp add: lifecycle_override_def lifecycle_paths_def)

text \<open>
  The manifest reader accepts what the override writer produces: a value that is not an
  object, set under any accepted key or wildcard, keeps the overrides within the schema
  \<open>_validate_overrides_schema\<close> enforces on every read, and so does every reset.
\<close>

lemma override_writes_stay_readable:
  assumes "validate_overrides_schema ov = Inr ()"
  shows "(\<not> is_obj v \<longrightarrow> validate_overrides_schema (fst (set_override ov key v)) = Inr ()) \<and>
    validate_overrides_schema (fst (delete_override ov key)) = Inr ()"
proof (intro conjI impI)
  from assms have ok: "conforms session_intent_fields ov"
    by (simp add: validate_overrides_schema_def check_overrides_conforms)
  assume v: "\<not> is_obj v"
  have "conforms session_intent_fields (fst (set_override ov key v))"
  proof (cases "snd (set_override ov key v) = Inr ()")
    case True
    then obtain ov' where set: "set_override ov key v = (ov', Inr ())" by (metis prod.collapse)
    from set have "conforms session_intent_fields ov'"
    proof (cases rule: set_override_cases)
      case (wild es pss)
      then show ?thesis using conforms_fold_set_path validate_keys_Inr ok v by blast
    next
      case (plain ps)
      then show ?thesis
        using conforms_set_path [OF ok] validate_key_Inr(2) plain_intent_schema v by simp
    qed
    with set show ?thesis by simp
  next
    case False
    then have "fst (set_override ov key v) = ov"
      by (auto simp: set_override_def split: if_splits sum.splits option.splits)
    with ok show ?thesis by simp
  qed
  then show "validate_overrides_schema (fst (set_override ov key v)) = Inr ()"
    by (simp add: validate_overrides_schema_def check_overrides_conforms)
next
  from assms have ok: "conforms session_intent_fields ov"
    by (simp add: validate_overrides_schema_def check_overrides_conforms)
  have "conforms session_intent_fields (fst (delete_override ov key))"
    by (rule delete_override_cases [of ov key])
      (simp_all only: ok conforms_delete_all conforms_delete_path)
  then show "validate_overrides_schema (fst (delete_override ov key)) = Inr ()"
    by (simp add: validate_overrides_schema_def check_overrides_conforms)
qed

lemma override_writes_stay_readable_witness:
  "validate_overrides_schema (fst (set_override [] ''memory.auto_update.min_turns'' (JInt 9))) = Inr () \<and>
   validate_overrides_schema (fst (delete_override [] ''proxy.*'')) = Inr ()"
  using override_writes_stay_readable [of "[]" "JInt 9" "''memory.auto_update.min_turns''"]
    override_writes_stay_readable [of "[]" "JInt 9" "''proxy.*''"]
  by (simp add: validate_overrides_schema_def)



text \<open>
  Merging is idempotent and overrides win: applying the same overrides twice changes nothing,
  and a top-level key reads the override (merged into a dict of the intent when both are dicts,
  replaced otherwise, a null clearing it) or, where the overrides have no such key, the intent.
\<close>

lemma apply_overrides_merge:
  assumes "jwf (JObj ov)"
  shows "apply_overrides (apply_overrides d ov) ov = apply_overrides d ov \<and>
    dget (apply_overrides d ov) k =
      (case dget ov k of
         None \<Rightarrow> dget d k
       | Some (JObj o') \<Rightarrow>
           (case dget d k of
              Some (JObj b) \<Rightarrow> Some (JObj (apply_overrides b o'))
            | _ \<Rightarrow> Some (JObj o'))
       | Some v \<Rightarrow> Some v)"
  using assms
  by (auto simp: apply_overrides_twice apply_overrides_lookup merged_value_def
      split: option.splits json.splits)

lemma apply_overrides_merge_witness:
  "apply_overrides (apply_overrides [(''a'', JObj [(''x'', JInt 1)])] [(''a'', JObj [(''y'', JNull)]), (''b'', JNull)])
      [(''a'', JObj [(''y'', JNull)]), (''b'', JNull)] =
    [(''a'', JObj [(''x'', JInt 1), (''y'', JNull)]), (''b'', JNull)]"
  using apply_overrides_merge [of "[(''a'', JObj [(''y'', JNull)]), (''b'', JNull)]"
      "[(''a'', JObj [(''x'', JInt 1)])]" "''a''"]
  by simp

end
