(* ===== verification/Manifest.thy ===== *)
theory Manifest
  imports Overrides
begin

text \<open>
  The session manifest as data: the reading and writing half of \<open>session/store.py\<close> that works on
  the parsed JSON object (stripping retired fields, validating, upgrading schema v1/v2 in memory,
  choosing the schema version to write).

  A \<open>SessionState\<close> is its \<open>asdict\<close> object. The strict decoder \<open>dacite.from_dict\<close> is the argument
  \<open>decode\<close>, which returns the \<open>asdict\<close> object of the value it built.
  Where the code reads an attribute of a value that need not be a dict, or tests a value that need
  not be hashable, the exception Python raises is a branch.
\<close>

definition schema_version_supported :: "int list" where
  "schema_version_supported = [1, 2, 3, 4, 5]"

definition schema_version_current :: int where
  "schema_version_current = 5"

text \<open>The nested dict at a path, every step guarded by \<open>isinstance(..., dict)\<close>.\<close>

definition obj_path :: "jobj \<Rightarrow> string list \<Rightarrow> jobj option" where
  "obj_path d ks = (case get_path (JObj d) ks of Some (JObj e) \<Rightarrow> Some e | _ \<Rightarrow> None)"

definition has_key :: "string \<Rightarrow> jobj \<Rightarrow> bool" where
  "has_key k d \<longleftrightarrow> k \<in> set (dkeys d)"

text \<open>\<open>(d.get(k) or {})\<close>, on which the code then calls \<open>.get\<close>.\<close>

definition get_or_empty :: "jobj \<Rightarrow> string \<Rightarrow> err + jobj" where
  "get_or_empty d k =
     (let v = jget d k in
      if \<not> truthy v then Inr [] else (case v of JObj e \<Rightarrow> Inr e | _ \<Rightarrow> Inl AttributeErr))"

text \<open>\<open>v in {n, ...}\<close>: a list or a dict is not hashable.\<close>

fun hashable :: "json \<Rightarrow> bool" where
  "hashable (JList xs) = False"
| "hashable (JObj d) = False"
| "hashable _ = True"

section \<open>Retired fields\<close>

definition strip_removed_memory_generated_file :: "jobj \<Rightarrow> jobj" where
  "strip_removed_memory_generated_file data =
     (case obj_at data ''intent'' of
        None \<Rightarrow> data
      | Some intent \<Rightarrow>
          (case obj_at intent ''memory'' of
             None \<Rightarrow> data
           | Some memory \<Rightarrow>
               dset data ''intent'' (JObj (dset intent ''memory'' (JObj (ddel memory ''generated_file''))))))"

text \<open>One section of the loop; the flag is \<open>had_nonempty\<close>.\<close>

definition strip_docs_section :: "string \<Rightarrow> jobj \<times> bool \<Rightarrow> jobj \<times> bool" where
  "strip_docs_section section' = (\<lambda>(data, had_nonempty).
     (case obj_at data section' of
        None \<Rightarrow> (data, had_nonempty)
      | Some obj \<Rightarrow>
          (case obj_at obj ''memory'' of
             None \<Rightarrow> (data, had_nonempty)
           | Some mem \<Rightarrow>
               (if has_key ''designated_docs'' mem then
                  (dset data section' (JObj (dset obj ''memory'' (JObj (ddel mem ''designated_docs'')))),
                   had_nonempty \<or> truthy (jget mem ''designated_docs''))
                else (data, had_nonempty)))))"

definition strip_preview_memory_doc_lists :: "jobj \<Rightarrow> jobj \<times> bool" where
  "strip_preview_memory_doc_lists data =
     strip_docs_section ''overrides'' (strip_docs_section ''intent'' (data, False))"

definition strip_runtime_section :: "string \<Rightarrow> jobj \<times> bool \<Rightarrow> jobj \<times> bool" where
  "strip_runtime_section section' = (\<lambda>(data, had_nondefault).
     (case obj_path data [section', ''policy'', ''supervisor''] of
        None \<Rightarrow> (data, had_nondefault)
      | Some sv \<Rightarrow>
          (if has_key ''supervisor_runtime'' sv then
             (let value = jget sv ''supervisor_runtime''
              in (set_path data [section', ''policy'', ''supervisor''] (JObj (ddel sv ''supervisor_runtime'')),
                  had_nondefault \<or> (truthy value \<and> value \<noteq> JStr ''claude_code'')))
           else (data, had_nondefault))))"

definition strip_removed_supervisor_runtime :: "jobj \<Rightarrow> jobj \<times> bool" where
  "strip_removed_supervisor_runtime data =
     strip_runtime_section ''overrides'' (strip_runtime_section ''intent'' (data, False))"

section \<open>Validation\<close>

definition sup_path :: "string \<Rightarrow> string list" where
  "sup_path section' = [section', ''policy'', ''supervisor'']"

text \<open>\<open>validate_required\<close>: the leading checks, which collect the missing fields.\<close>

definition missing_required :: "jobj \<Rightarrow> string list" where
  "missing_required data =
     filter (\<lambda>k. \<not> has_key k data)
       [''schema_version'', ''overrides'', ''name'', ''created_at'', ''last_accessed_at'', ''intent'']"

definition missing_proxy :: "jobj \<Rightarrow> string list" where
  "missing_proxy intent =
     (case jget intent ''proxy'' of
        JObj proxy \<Rightarrow>
          (if has_key ''template'' proxy then [] else [''intent.proxy.template''])
          @ (if has_key ''base_url'' proxy then [] else [''intent.proxy.base_url''])
      | _ \<Rightarrow> [])"

definition version_in :: "json \<Rightarrow> int list \<Rightarrow> bool" where
  "version_in v ns \<longleftrightarrow> (\<exists>n \<in> set ns. eq_int v n)"

text \<open>The checks on the supervisor of the intent and of the overrides.\<close>

definition validate_supervisor :: "json \<Rightarrow> jobj option \<Rightarrow> jobj option \<Rightarrow> err + unit" where
  "validate_supervisor version supervisor override_supervisor =
     (let has = (\<lambda>k cfg. case cfg of Some d \<Rightarrow> has_key k d | None \<Rightarrow> False) in
      if supervisor \<noteq> None \<and>
         (\<exists>f \<in> set [''auth_mode'', ''supervisor_model''].
            version_in version [1, 2] \<and> has f supervisor \<or>
            version_in version [3, 4, 5] \<and> \<not> has f supervisor)
        then Inl (ManifestCorrupted ''supervisor auth fields do not match the schema version'')
      else if \<not> version_in version [5] \<and> (has ''native_source'' supervisor \<or> has ''native_source'' override_supervisor)
        then Inl (ManifestCorrupted ''Native supervisor source requires schema v5'')
      else if version_in version [5] \<and> supervisor \<noteq> None \<and> \<not> has ''native_source'' supervisor
        then Inl (ManifestCorrupted ''schema v5 requires supervisor.native_source'')
      else if version_in version [1, 2, 3] \<and> (has ''review_trigger'' supervisor \<or> has ''review_trigger'' override_supervisor)
        then Inl (ManifestCorrupted ''schema cannot contain supervisor.review_trigger'')
      else if version_in version [4, 5] \<and> supervisor \<noteq> None \<and> \<not> has ''review_trigger'' supervisor
        then Inl (ManifestCorrupted ''schema requires supervisor.review_trigger'')
      else Inr ())"

definition opt_str_ok :: "json \<Rightarrow> bool" where
  "opt_str_ok v \<longleftrightarrow> v = JNull \<or> is_str v"

definition validate_started_with_proxy :: "json \<Rightarrow> err + unit" where
  "validate_started_with_proxy swp =
     (case swp of
        JNull \<Rightarrow> Inr ()
      | JObj d \<Rightarrow>
          (if \<not> (is_str (jget d ''base_url'') \<and> truthy (jget d ''base_url''))
             then Inl (ManifestCorrupted ''confirmed.started_with_proxy.base_url is required'')
           else if \<not> opt_str_ok (jget d ''proxy_id'')
             then Inl (ManifestCorrupted ''confirmed.started_with_proxy.proxy_id must be a string'')
           else if \<not> opt_str_ok (jget d ''template'')
             then Inl (ManifestCorrupted ''confirmed.started_with_proxy.template must be a string'')
           else if \<not> (jget d ''port'' = JNull \<or> is_int (jget d ''port''))
             then Inl (ManifestCorrupted ''confirmed.started_with_proxy.port must be an integer'')
           else Inr ())
      | _ \<Rightarrow> Inl (ManifestCorrupted ''confirmed.started_with_proxy must be an object''))"

text \<open>\<open>data.get("confirmed", {})\<close>: the default only stands in for a missing key.\<close>

definition validate_confirmed :: "jobj \<Rightarrow> err + unit" where
  "validate_confirmed data =
     (case dget data ''confirmed'' of
        None \<Rightarrow> Inr ()
      | Some (JObj c) \<Rightarrow> validate_started_with_proxy (jget c ''started_with_proxy'')
      | Some _ \<Rightarrow> Inl (ManifestCorrupted ''confirmed must be an object''))"

text \<open>The intent object the later checks read: \<open>{}\<close> when the key is missing.\<close>

definition intent_or_empty :: "jobj \<Rightarrow> jobj" where
  "intent_or_empty data = (case obj_at data ''intent'' of Some i \<Rightarrow> i | None \<Rightarrow> [])"

definition validate_data :: "jobj \<Rightarrow> err + unit" where
  "validate_data data =
     (let version = jget data ''schema_version'';
          intent = intent_or_empty data;
          launch = obj_at intent ''launch'';
          overrides = obj_at data ''overrides'' in
      if has_key ''schema_version'' data \<and> \<not> hashable version then Inl TypeErr
      else if has_key ''schema_version'' data \<and> \<not> version_in version schema_version_supported
        then Inl (ManifestCorrupted ''incompatible schema version'')
      else if has_key ''overrides'' data \<and> overrides = None
        then Inl (ManifestCorrupted ''overrides must be an object'')
      else if has_key ''intent'' data \<and> obj_at data ''intent'' = None
        then Inl (ManifestCorrupted ''intent must be an object'')
      else if jget intent ''proxy'' \<noteq> JNull \<and> \<not> is_obj (jget intent ''proxy'')
        then Inl (ManifestCorrupted ''intent.proxy must be an object'')
      else if (case launch of Some l \<Rightarrow> eq_int version 1 \<and> has_key ''model_route'' l | None \<Rightarrow> False)
        then Inl (ManifestCorrupted ''schema v1 intent.launch cannot contain model_route'')
      else (case validate_supervisor version (obj_path data (sup_path ''intent''))
                   (obj_path data (sup_path ''overrides'')) of
              Inl e \<Rightarrow> Inl e
            | Inr _ \<Rightarrow>
      (case (case overrides of Some ov \<Rightarrow> validate_overrides_schema ov | None \<Rightarrow> Inr ()) of
         Inl e \<Rightarrow> Inl e
       | Inr _ \<Rightarrow>
      (case validate_confirmed data of
         Inl e \<Rightarrow> Inl e
       | Inr _ \<Rightarrow>
           (let missing = missing_required data @ missing_proxy intent
                @ (case launch of
                     Some l \<Rightarrow> if version_in version [2, 3, 4, 5] \<and> \<not> has_key ''model_route'' l
                               then [''intent.launch.model_route''] else []
                   | None \<Rightarrow> [])
            in if missing \<noteq> [] then Inl (ManifestValidation missing) else Inr ())))))"

section \<open>Upgrade on read\<close>

text \<open>\<open>lane\<close>: the frozen binding's lane, or the effective intent's when no binding is frozen.\<close>

definition supervisor_lane :: "jobj \<Rightarrow> jobj \<Rightarrow> err + json" where
  "supervisor_lane data effective =
     (case get_or_empty data ''confirmed'' of Inl e \<Rightarrow> Inl e
      | Inr confirmed \<Rightarrow>
     (case get_or_empty confirmed ''consumer_lanes'' of Inl e \<Rightarrow> Inl e
      | Inr lanes \<Rightarrow>
          (let binding = jget lanes ''supervisor'' in
           if truthy binding then
             (case binding of JObj b \<Rightarrow> Inr (jget b ''lane'') | _ \<Rightarrow> Inl AttributeErr)
           else (case get_or_empty effective ''consumer_lanes'' of Inl e \<Rightarrow> Inl e
                 | Inr chosen \<Rightarrow> Inr (jget chosen ''supervisor'')))))"

text \<open>The body of the loop over the two configurations.\<close>

definition clamp_timeout :: "jobj \<Rightarrow> jobj" where
  "clamp_timeout config =
     (case jget config ''timeout_seconds'' of
        JInt n \<Rightarrow> if n > 45 then dset config ''timeout_seconds'' (JInt 45) else config
      | _ \<Rightarrow> config)"

definition null_present :: "string list \<Rightarrow> jobj \<Rightarrow> jobj" where
  "null_present ks config = fold (\<lambda>k d. if has_key k d then dset d k JNull else d) ks config"

definition migrate_supervisor_config :: "json \<Rightarrow> jobj \<Rightarrow> err + jobj" where
  "migrate_supervisor_config lane config =
     (let config = clamp_timeout config in
      if \<not> truthy lane then Inr config
      else (case lane of
              JObj l \<Rightarrow> Inr (if jget l ''runtime_id'' = JStr ''codex''
                            then null_present [''proxy'', ''base_url''] config else config)
            | _ \<Rightarrow> Inl AttributeErr))"

definition migrate_section :: "json \<Rightarrow> string \<Rightarrow> jobj \<Rightarrow> err + jobj" where
  "migrate_section lane section' data =
     (case obj_path data (sup_path section') of
        None \<Rightarrow> Inr data
      | Some config \<Rightarrow>
          (case migrate_supervisor_config lane config of
             Inl e \<Rightarrow> Inl e
           | Inr config \<Rightarrow> Inr (set_path data (sup_path section') (JObj config))))"

text \<open>The fields a v1 or v2 manifest does not have.\<close>

definition add_new_fields :: "jobj \<Rightarrow> jobj" where
  "add_new_fields data =
     (let data = (if eq_int (jget data ''schema_version'') 1 \<and> obj_path data [''intent'', ''launch''] \<noteq> None
                  then set_path data [''intent'', ''launch'', ''model_route''] JNull else data)
      in (if obj_path data (sup_path ''intent'') \<noteq> None
          then set_path (set_path data (sup_path ''intent'' @ [''auth_mode'']) (JStr ''inherit''))
                 (sup_path ''intent'' @ [''supervisor_model'']) JNull
          else data))"

definition upgrade_manifest_for_read :: "jobj \<Rightarrow> err + jobj" where
  "upgrade_manifest_for_read data =
     (let version = jget data ''schema_version'' in
      if \<not> hashable version then Inl TypeErr
      else if \<not> version_in version [1, 2] then Inr data
      else
        (let data = add_new_fields data in
         (case get_or_empty data ''overrides'' of Inl e \<Rightarrow> Inl e
          | Inr overrides \<Rightarrow>
         (case supervisor_lane data (apply_overrides (intent_or_empty data) overrides) of Inl e \<Rightarrow> Inl e
          | Inr lane \<Rightarrow>
         (case get_or_empty overrides ''policy'' of Inl e \<Rightarrow> Inl e
          | Inr _ \<Rightarrow>
         (case migrate_section lane ''intent'' data of Inl e \<Rightarrow> Inl e
          | Inr data \<Rightarrow>
         (case migrate_section lane ''overrides'' data of Inl e \<Rightarrow> Inl e
          | Inr data \<Rightarrow> Inr (dset data ''schema_version'' (JInt 3)))))))))"

section \<open>The version a write chooses\<close>

text \<open>\<open>config.pop(field, None)\<close> on both configurations.\<close>

definition pop_sup_field :: "string \<Rightarrow> jobj \<Rightarrow> jobj" where
  "pop_sup_field f data =
     fst (delete_path (fst (delete_path data (sup_path ''intent'' @ [f]))) (sup_path ''overrides'' @ [f]))"

definition sup_says :: "(jobj \<Rightarrow> bool) \<Rightarrow> jobj option \<Rightarrow> bool" where
  "sup_says P cfg = (case cfg of Some d \<Rightarrow> P d | None \<Rightarrow> False)"

definition asks_stop :: "jobj \<Rightarrow> bool" where
  "asks_stop d \<longleftrightarrow>
     (case dget d ''review_trigger'' of Some v \<Rightarrow> v \<noteq> JStr ''pre-tool-use'' | None \<Rightarrow> False)"

definition stop_required :: "jobj \<Rightarrow> bool" where
  "stop_required data \<longleftrightarrow>
     sup_says asks_stop (obj_path data (sup_path ''intent'')) \<or>
     sup_says asks_stop (obj_path data (sup_path ''overrides''))"

definition native_required :: "jobj \<Rightarrow> bool" where
  "native_required data \<longleftrightarrow>
     sup_says (\<lambda>d. truthy (jget d ''native_source'')) (obj_path data (sup_path ''intent'')) \<or>
     sup_says (has_key ''native_source'') (obj_path data (sup_path ''overrides''))"

definition legacy_auth :: "jobj \<Rightarrow> bool" where
  "legacy_auth data \<longleftrightarrow>
     \<not> sup_says (\<lambda>d. d \<noteq> [] \<and> \<not> (jget d ''auth_mode'' = JStr ''inherit'' \<and> jget d ''supervisor_model'' = JNull))
         (obj_path data (sup_path ''intent'')) \<and>
     \<not> sup_says (\<lambda>d. has_key ''auth_mode'' d \<or> has_key ''supervisor_model'' d)
         (obj_path data (sup_path ''overrides''))"

definition write_version :: "jobj \<Rightarrow> int" where
  "write_version data =
     (if native_required data then schema_version_current
      else if stop_required data then 4 else if legacy_auth data then 2 else 3)"

definition manifest_for_write :: "jobj \<Rightarrow> err + jobj" where
  "manifest_for_write data =
     (case get_or_empty (case obj_at data ''overrides'' of Some ov \<Rightarrow> ov | None \<Rightarrow> []) ''policy'' of
        Inl e \<Rightarrow> Inl e
      | Inr _ \<Rightarrow>
          (let version = write_version data;
               d = (if native_required data then data else pop_sup_field ''native_source'' data);
               d = (if stop_required data \<or> native_required data then d else pop_sup_field ''review_trigger'' d);
               d = dset d ''schema_version'' (JInt version)
           in Inr (if version = 2
                   then fst (delete_path (fst (delete_path d (sup_path ''intent'' @ [''auth_mode''])))
                               (sup_path ''intent'' @ [''supervisor_model'']))
                   else d)))"

section \<open>SessionStore.read\<close>

definition read_manifest ::
  "(jobj \<Rightarrow> string + jobj) \<Rightarrow> string \<Rightarrow> state_file \<Rightarrow> err + jobj" where
  "read_manifest decode session_name content =
     (case content of
        Missing \<Rightarrow> Inl SessionFileNotFound
      | Undecodable \<Rightarrow> Inl decode_error
      | Unparsable \<Rightarrow> Inl (ManifestCorrupted ''invalid JSON'')
      | Unreadable \<Rightarrow> Inl ManifestUnreadable
      | Holds (JObj data) \<Rightarrow>
          (let data = strip_removed_memory_generated_file data;
               data = fst (strip_preview_memory_doc_lists data);
               data = fst (strip_removed_supervisor_runtime data)
           in (case validate_data data of Inl e \<Rightarrow> Inl e
               | Inr _ \<Rightarrow>
              (case upgrade_manifest_for_read data of Inl e \<Rightarrow> Inl e
               | Inr data \<Rightarrow>
              (case decode data of
                 Inl e \<Rightarrow> Inl (ManifestCorrupted (''deserialization error: '' @ e))
               | Inr manifest \<Rightarrow>
                   if jget manifest ''name'' = JStr session_name then Inr manifest
                   else Inl (ManifestCorrupted ''manifest names another session'')))))
      | Holds _ \<Rightarrow> Inl (ManifestCorrupted ''expected a JSON object''))"

text \<open>\<open>_write_unlocked\<close>: the name checks, then the file content.\<close>

definition write_content :: "string \<Rightarrow> jobj \<Rightarrow> err + jobj" where
  "write_content session_name manifest =
     (case jget manifest ''name'' of
        JStr name \<Rightarrow>
          (case validate_name name of Inl e \<Rightarrow> Inl e
           | Inr _ \<Rightarrow>
               if name \<noteq> session_name then Inl (ValueErr ''Manifest name does not match store session name'')
               else manifest_for_write manifest)
      | _ \<Rightarrow> Inl TypeErr)"

section \<open>Lemmas: nested dicts\<close>

lemma obj_path_iff: "obj_path d ks = Some e \<longleftrightarrow> get_path (JObj d) ks = Some (JObj e)"
  by (auto simp: obj_path_def split: option.splits json.splits)

lemma obj_path_Nil [simp]: "obj_path d [] = Some d"
  by (simp add: obj_path_def)

lemma obj_path_Cons: "obj_path d (k # ks) = (case obj_at d k of None \<Rightarrow> None | Some e \<Rightarrow> obj_path e ks)"
proof (cases "dget d k")
  case None
  then show ?thesis by (simp add: obj_path_def obj_at_def jget_def)
next
  case (Some v)
  then show ?thesis
    by (cases v; cases ks) (auto simp: obj_path_def obj_at_def jget_def)
qed

lemma has_key_iff: "has_key k d \<longleftrightarrow> dget d k \<noteq> None"
  by (simp add: has_key_def dkey_iff)

lemma has_key_dset [simp, dict_simps]: "has_key k (dset d j v) \<longleftrightarrow> k = j \<or> has_key k d"
  by (simp add: has_key_iff)

lemma has_key_ddel [simp, dict_simps]: "has_key k (ddel d j) \<longleftrightarrow> k \<noteq> j \<and> has_key k d"
  by (simp add: has_key_iff)

lemma has_key_jget: "jget d k \<noteq> JNull \<Longrightarrow> has_key k d"
  by (auto simp: has_key_iff jget_def split: option.splits)

lemma dget_of_jget: "has_key k d = has_key k e \<Longrightarrow> jget d k = jget e k \<Longrightarrow> dget d k = dget e k"
  by (auto simp: has_key_iff jget_def split: option.splits)

lemma delete_path_False: "delete_path d ks = (e, False) \<Longrightarrow> e = d"
  using delete_path_unchanged [of d ks] by simp

lemma delete_path_Cons:
  "ks \<noteq> [] \<Longrightarrow> dget (fst (delete_path d (k # ks))) j =
     (if j = k then (case dget d k of
                       Some (JObj e) \<Rightarrow> Some (JObj (fst (delete_path e ks))) | x \<Rightarrow> x)
      else dget d j)"
  by (cases ks) (auto split: option.splits json.splits prod.splits dest: delete_path_False)

lemma obj_at_delete_path:
  "ks \<noteq> [] \<Longrightarrow> obj_at (fst (delete_path d (k # ks))) j =
     (if j = k then map_option (\<lambda>e. fst (delete_path e ks)) (obj_at d k) else obj_at d j)"
  by (auto simp: obj_at_def jget_def delete_path_Cons split: option.splits json.splits)

lemma has_key_delete_path [simp]:
  "ks \<noteq> [] \<Longrightarrow> has_key j (fst (delete_path d (k # ks))) = has_key j d"
  by (auto simp: has_key_iff delete_path_Cons split: option.splits json.splits)

lemma jget_delete_path:
  "ks \<noteq> [] \<Longrightarrow> j \<noteq> k \<Longrightarrow> jget (fst (delete_path d (k # ks))) j = jget d j"
  by (simp add: jget_def delete_path_Cons)

lemma fst_delete_path_1 [simp]: "fst (delete_path d [k]) = ddel d k"
  by (auto simp: delete_id image_iff dest: sym)

lemma obj_path_delete:
  "obj_path (fst (delete_path d (ks @ [f]))) ks = map_option (\<lambda>e. ddel e f) (obj_path d ks)"
proof (induction ks arbitrary: d)
  case Nil
  show ?case by simp
next
  case (Cons k ks)
  then show ?case
    by (simp add: obj_path_Cons obj_at_delete_path split: option.splits)
qed


declare delete_path.simps(3) [simp del] set_path.simps(3) [simp del]

section \<open>Lemmas: the supervisor under a write\<close>

lemma sup_pop [simp]:
  assumes "s \<in> {''intent'', ''overrides''}"
  shows "obj_path (pop_sup_field f d) (sup_path s) = map_option (\<lambda>e. ddel e f) (obj_path d (sup_path s))"
proof -
  have other: "obj_path (fst (delete_path e (a # ks))) (b # ls) = obj_path e (b # ls)"
    if "a \<noteq> b" "ks \<noteq> []" for e a b ks ls
    using that by (simp add: obj_path_Cons obj_at_delete_path)
  from assms show ?thesis
    by (elim insertE emptyE)
      (simp_all add: pop_sup_field_def sup_path_def other
        obj_path_delete [of _ "[_, ''policy'', ''supervisor'']", simplified])
qed

lemma sup_dset_version [simp]:
  "obj_path (dset d ''schema_version'' v) (sup_path ''intent'') = obj_path d (sup_path ''intent'')"
  "obj_path (dset d ''schema_version'' v) (sup_path ''overrides'') = obj_path d (sup_path ''overrides'')"
  by (simp_all add: obj_path_Cons sup_path_def)

text \<open>What a write does to the rest of the object: nothing but the version.\<close>

definition same_rest :: "jobj \<Rightarrow> jobj \<Rightarrow> bool" where
  "same_rest d e \<longleftrightarrow>
     (\<forall>k. k \<noteq> ''schema_version'' \<longrightarrow> has_key k d = has_key k e) \<and>
     (\<forall>k. k \<notin> {''schema_version'', ''intent'', ''overrides''} \<longrightarrow> jget d k = jget e k) \<and>
     (\<forall>s \<in> {''intent'', ''overrides''}. \<forall>k. k \<noteq> ''policy'' \<longrightarrow>
        map_option (\<lambda>i. dget i k) (obj_at d s) = map_option (\<lambda>i. dget i k) (obj_at e s)) \<and>
     (\<forall>fs. conforms fs (case obj_at e ''overrides'' of Some ov \<Rightarrow> ov | None \<Rightarrow> []) \<longrightarrow>
        conforms fs (case obj_at d ''overrides'' of Some ov \<Rightarrow> ov | None \<Rightarrow> []))"

lemma same_rest_refl [simp]: "same_rest d d"
  by (simp add: same_rest_def)

lemma same_rest_trans: "same_rest d e \<Longrightarrow> same_rest e g \<Longrightarrow> same_rest d g"
  unfolding same_rest_def by fastforce

lemma same_rest_version: "same_rest (dset d ''schema_version'' v) d"
  by (auto simp: same_rest_def)

lemma same_rest_delete:
  assumes "s \<in> {''intent'', ''overrides''}" "ks \<noteq> []"
  shows "same_rest (fst (delete_path d (s # ''policy'' # ks))) d"
proof -
  have "map_option (\<lambda>i. dget i k) (obj_at (fst (delete_path d (s # ''policy'' # ks))) t)
        = map_option (\<lambda>i. dget i k) (obj_at d t)" if "k \<noteq> ''policy''" for t k
    using that assms(2)
    by (cases "obj_at d s") (auto simp: obj_at_delete_path delete_path_Cons)
  moreover have "conforms fs (case obj_at (fst (delete_path d (s # ''policy'' # ks))) ''overrides'' of Some ov \<Rightarrow> ov | None \<Rightarrow> [])"
    if "conforms fs (case obj_at d ''overrides'' of Some ov \<Rightarrow> ov | None \<Rightarrow> [])" for fs
    using that by (auto simp: obj_at_delete_path conforms_delete_path split: option.splits)
  ultimately show ?thesis
    using assms by (auto simp: same_rest_def jget_delete_path)
qed

lemma same_rest_pop: "same_rest (pop_sup_field f d) d"
  unfolding pop_sup_field_def sup_path_def append_Cons append_Nil
  by (rule same_rest_trans [OF same_rest_delete same_rest_delete]) auto


section \<open>Lemmas: what a write produces\<close>

text \<open>
  What \<open>asdict\<close> of a \<open>SessionState\<close> looks like: every field of the dataclasses is present, the
  overrides have passed the override schema, a recorded proxy has a URL.
\<close>

definition intent_shape :: "jobj \<Rightarrow> bool" where
  "intent_shape i \<longleftrightarrow>
     (case jget i ''proxy'' of JNull \<Rightarrow> True
        | JObj p \<Rightarrow> has_key ''template'' p \<and> has_key ''base_url'' p | _ \<Rightarrow> False) \<and>
     (case obj_at i ''launch'' of None \<Rightarrow> True | Some l \<Rightarrow> has_key ''model_route'' l)"

definition supervisor_shape :: "jobj \<Rightarrow> bool" where
  "supervisor_shape d \<longleftrightarrow>
     (\<forall>f \<in> set [''auth_mode'', ''supervisor_model'', ''native_source'', ''review_trigger'']. has_key f d) \<and>
     (jget d ''native_source'' = JNull \<or> truthy (jget d ''native_source''))"

definition manifest_shape :: "jobj \<Rightarrow> bool" where
  "manifest_shape st \<longleftrightarrow>
     (\<forall>k \<in> set [''schema_version'', ''overrides'', ''name'', ''created_at'', ''last_accessed_at'', ''intent''].
        has_key k st) \<and>
     (case obj_at st ''intent'' of None \<Rightarrow> False | Some i \<Rightarrow> intent_shape i) \<and>
     (case obj_path st (sup_path ''intent'') of None \<Rightarrow> True | Some d \<Rightarrow> supervisor_shape d) \<and>
     (case obj_at st ''overrides'' of None \<Rightarrow> False
      | Some ov \<Rightarrow> validate_overrides_schema ov = Inr () \<and> (case get_or_empty ov ''policy'' of Inl _ \<Rightarrow> False | Inr _ \<Rightarrow> True)) \<and>
     validate_confirmed st = Inr ()"

lemma manifest_shapeD:
  assumes "manifest_shape st"
  shows "\<forall>k \<in> set [''schema_version'', ''overrides'', ''name'', ''created_at'', ''last_accessed_at'', ''intent'']. has_key k st"
    and "case obj_path st (sup_path ''intent'') of None \<Rightarrow> True | Some d \<Rightarrow> supervisor_shape d"
    and "validate_confirmed st = Inr ()"
  using assms unfolding manifest_shape_def by blast+

lemma intent_shape_cong: "(\<And>k. k \<noteq> ''policy'' \<Longrightarrow> dget i k = dget j k) \<Longrightarrow> intent_shape i = intent_shape j"
  by (simp add: intent_shape_def jget_def obj_at_def)

lemma validate_confirmed_cong:
  "dget d ''confirmed'' = dget e ''confirmed'' \<Longrightarrow> validate_confirmed d = validate_confirmed e"
  by (simp add: validate_confirmed_def)

lemma version_in_JInt [simp]: "version_in (JInt n) ns \<longleftrightarrow> n \<in> set ns"
  by (auto simp: version_in_def)

lemma missing_proxy_shape: "intent_shape i \<Longrightarrow> missing_proxy i = []"
  by (auto simp: intent_shape_def missing_proxy_def split: json.splits)

text \<open>A version the supervisor fields of the object agree with.\<close>

definition version_fits :: "int \<Rightarrow> jobj option \<Rightarrow> jobj option \<Rightarrow> bool" where
  "version_fits n sv ov \<longleftrightarrow> n \<in> {2, 3, 4, 5} \<and>
     (n = 2 \<longrightarrow> \<not> sup_says (has_key ''auth_mode'') sv \<and> \<not> sup_says (has_key ''supervisor_model'') sv) \<and>
     (n \<noteq> 2 \<longrightarrow> \<not> sup_says (\<lambda>d. \<not> has_key ''auth_mode'' d \<or> \<not> has_key ''supervisor_model'' d) sv) \<and>
     (n \<noteq> 5 \<longrightarrow> \<not> sup_says (has_key ''native_source'') sv \<and> \<not> sup_says (has_key ''native_source'') ov) \<and>
     (n = 5 \<longrightarrow> \<not> sup_says (\<lambda>d. \<not> has_key ''native_source'' d) sv) \<and>
     (n \<in> {2, 3} \<longrightarrow> \<not> sup_says (has_key ''review_trigger'') sv \<and> \<not> sup_says (has_key ''review_trigger'') ov) \<and>
     (n \<in> {4, 5} \<longrightarrow> \<not> sup_says (\<lambda>d. \<not> has_key ''review_trigger'' d) sv)"

lemma validate_supervisor_fits:
  "version_fits n sv ov \<Longrightarrow> validate_supervisor (JInt n) sv ov = Inr ()"
  by (cases sv; cases ov) (auto simp: validate_supervisor_def version_fits_def sup_says_def Let_def)

text \<open>An object shaped like a state, but for the supervisor fields, under a version that fits.\<close>

lemma validate_data_fits:
  assumes keys: "\<forall>k \<in> set [''schema_version'', ''overrides'', ''name'', ''created_at'', ''last_accessed_at'', ''intent'']. has_key k d"
    and i: "obj_at d ''intent'' = Some i" "intent_shape i"
    and ov: "obj_at d ''overrides'' = Some ov" "validate_overrides_schema ov = Inr ()"
    and c: "validate_confirmed d = Inr ()"
    and v: "jget d ''schema_version'' = JInt n"
      "version_fits n (obj_path d (sup_path ''intent'')) (obj_path d (sup_path ''overrides''))"
  shows "validate_data d = Inr ()"
proof -
  have n: "n \<in> {2, 3, 4, 5}" using v(2) by (simp add: version_fits_def)
  have p: "jget i ''proxy'' = JNull \<or> is_obj (jget i ''proxy'')"
    using i(2) by (auto simp: intent_shape_def split: json.splits)
  have l: "\<And>l. obj_at i ''launch'' = Some l \<Longrightarrow> has_key ''model_route'' l"
    using i(2) by (auto simp: intent_shape_def)
  have m: "missing_required d = []" using keys by (simp add: missing_required_def)
  show ?thesis
    using n p l
    by (auto simp: validate_data_def Let_def intent_or_empty_def i(1) ov c v(1) m
        missing_proxy_shape [OF i(2)] validate_supervisor_fits [OF v(2)] schema_version_supported_def
        split: option.splits)
qed


text \<open>The fields a write leaves out, of both configurations and of the intent's alone.\<close>

definition popped :: "jobj \<Rightarrow> string list" where
  "popped st = (if native_required st then [] else [''native_source''])
     @ (if stop_required st \<or> native_required st then [] else [''review_trigger''])"

definition popped_intent :: "jobj \<Rightarrow> string list" where
  "popped_intent st = popped st @ (if write_version st = 2 then [''auth_mode'', ''supervisor_model''] else [])"

abbreviation drop_keys :: "string list \<Rightarrow> jobj \<Rightarrow> jobj" where
  "drop_keys fs e \<equiv> fold (\<lambda>f e. ddel e f) fs e"

lemma has_key_drop [simp]: "has_key k (drop_keys fs e) \<longleftrightarrow> k \<notin> set fs \<and> has_key k e"
  by (simp add: has_key_iff pydict.get_fold_del)

lemma sup_path_other:
  "obj_path (fst (delete_path d (sup_path ''intent'' @ [f]))) (sup_path ''overrides'') = obj_path d (sup_path ''overrides'')"
  by (simp add: obj_path_Cons obj_at_delete_path sup_path_def)

lemma manifest_for_write_Inr:
  assumes "manifest_for_write st = Inr d"
  shows "same_rest d st" "jget d ''schema_version'' = JInt (write_version st)"
    "obj_path d (sup_path ''intent'') = map_option (drop_keys (popped_intent st)) (obj_path st (sup_path ''intent''))"
    "obj_path d (sup_path ''overrides'') = map_option (drop_keys (popped st)) (obj_path st (sup_path ''overrides''))"
proof -
  define a where "a = (if native_required st then st else pop_sup_field ''native_source'' st)"
  define b where "b = (if stop_required st \<or> native_required st then a else pop_sup_field ''review_trigger'' a)"
  define c where "c = dset b ''schema_version'' (JInt (write_version st))"
  have d: "d = (if write_version st = 2
                then fst (delete_path (fst (delete_path c (sup_path ''intent'' @ [''auth_mode''])))
                            (sup_path ''intent'' @ [''supervisor_model'']))
                else c)"
    using assms by (auto simp: manifest_for_write_def Let_def a_def b_def c_def split: sum.splits)
  have "same_rest a st" "same_rest b a" "same_rest c b"
    by (simp_all add: a_def b_def c_def same_rest_pop same_rest_version)
  moreover have del: "same_rest (fst (delete_path e (sup_path ''intent'' @ [f]))) e" for e f
    using same_rest_delete [of "''intent''" "[''supervisor'', f]" e] by (simp add: sup_path_def)
  ultimately have "same_rest c st"
    by (blast intro: same_rest_trans)
  then show "same_rest d st"
    unfolding d by (simp only: same_rest_trans [OF del] simp_thms split: if_split)
  have "jget (fst (delete_path e (sup_path ''intent'' @ [f]))) ''schema_version'' = jget e ''schema_version''" for e f
    by (simp add: sup_path_def jget_delete_path)
  then show "jget d ''schema_version'' = JInt (write_version st)"
    by (simp add: d c_def)
  show "obj_path d (sup_path ''intent'') = map_option (drop_keys (popped_intent st)) (obj_path st (sup_path ''intent''))"
    by (simp add: d c_def b_def a_def obj_path_delete popped_intent_def popped_def option.map_comp o_def option.map_id0 option.map_ident)
  show "obj_path d (sup_path ''overrides'') = map_option (drop_keys (popped st)) (obj_path st (sup_path ''overrides''))"
    by (simp add: d c_def b_def a_def sup_path_other popped_def option.map_comp o_def option.map_id)
qed

lemma sup_says_map: "sup_says P (map_option f x) = sup_says (\<lambda>e. P (f e)) x"
  by (cases x) (auto simp: sup_says_def)

lemma sup_says_mono: "sup_says P x \<Longrightarrow> (\<And>e. P e \<Longrightarrow> Q e) \<Longrightarrow> sup_says Q x"
  by (cases x) (auto simp: sup_says_def)

lemma supervisor_shapeD:
  assumes "supervisor_shape d"
  shows "has_key ''auth_mode'' d" "has_key ''supervisor_model'' d" "has_key ''native_source'' d"
    "has_key ''review_trigger'' d"
    "jget d ''native_source'' = JNull \<or> truthy (jget d ''native_source'')"
  using assms by (simp_all add: supervisor_shape_def)

text \<open>The four versions a write chooses among, with the fields it leaves out.\<close>

lemma write_version_cases:
  obtains (v5) "native_required st" "write_version st = 5" "popped st = []" "popped_intent st = []"
  | (v4) "\<not> native_required st" "stop_required st" "write_version st = 4"
      "popped st = [''native_source'']" "popped_intent st = [''native_source'']"
  | (v3) "\<not> native_required st" "\<not> stop_required st" "\<not> legacy_auth st" "write_version st = 3"
      "popped st = [''native_source'', ''review_trigger'']" "popped_intent st = [''native_source'', ''review_trigger'']"
  | (v2) "\<not> native_required st" "\<not> stop_required st" "legacy_auth st" "write_version st = 2"
      "popped st = [''native_source'', ''review_trigger'']"
      "popped_intent st = [''native_source'', ''review_trigger'', ''auth_mode'', ''supervisor_model'']"
proof (cases "native_required st")
  case True
  then show ?thesis using v5 by (simp add: write_version_def popped_intent_def popped_def schema_version_current_def)
next
  case n: False
  show ?thesis
  proof (cases "stop_required st")
    case True
    with n show ?thesis using v4 by (simp add: write_version_def popped_intent_def popped_def)
  next
    case False
    with n show ?thesis using v2 v3
      by (cases "legacy_auth st") (simp_all add: write_version_def popped_intent_def popped_def)
  qed
qed

lemma sup_says_simps [simp]: "\<not> sup_says P None" "sup_says P (Some d) = P d"
  by (simp_all add: sup_says_def)

lemma write_version_fits:
  assumes "case obj_path st (sup_path ''intent'') of None \<Rightarrow> True | Some d \<Rightarrow> supervisor_shape d"
  shows "version_fits (write_version st)
     (map_option (drop_keys (popped_intent st)) (obj_path st (sup_path ''intent'')))
     (map_option (drop_keys (popped st)) (obj_path st (sup_path ''overrides'')))"
proof -
  let ?I = "obj_path st (sup_path ''intent'')" and ?O = "obj_path st (sup_path ''overrides'')"
  have n: "\<not> sup_says (\<lambda>d. \<not> has_key f d) ?I"
    if "f \<in> set [''auth_mode'', ''supervisor_model'', ''native_source'', ''review_trigger'']" for f
    using assms that by (cases ?I) (simp_all only: sup_says_simps option.case supervisor_shape_def not_not simp_thms, blast?)
  have a: "\<not> sup_says (\<lambda>d. \<not> has_key ''auth_mode'' d \<or> \<not> has_key ''supervisor_model'' d) ?I"
    using n [of "''auth_mode''"] n [of "''supervisor_model''"] by (cases ?I) simp_all
  note r = n [of "''review_trigger''", simplified] and ns = n [of "''native_source''", simplified]
  have f: "sup_says (\<lambda>_. False) x = False" for x by (cases x) simp_all
  show ?thesis
  proof (cases st rule: write_version_cases)
    case v5
    show ?thesis unfolding v5 version_fits_def sup_says_map using a by (simp add: r ns)
  next
    case v4
    show ?thesis unfolding v4 version_fits_def sup_says_map using a by (simp add: r f)
  next
    case v3
    show ?thesis unfolding v3 version_fits_def sup_says_map using a by (simp add: f)
  next
    case v2
    show ?thesis unfolding v2 version_fits_def sup_says_map by (simp add: f)
  qed
qed

section \<open>Lemmas: the upgrade\<close>

lemma obj_at_set_path:
  "ks \<noteq> [] \<Longrightarrow> obj_at (set_path d (k # ks) v) j =
     (if j = k then Some (set_path (case obj_at d k of Some e \<Rightarrow> e | None \<Rightarrow> []) ks v) else obj_at d j)"
  by (auto simp: set_path_Cons obj_at_def jget_def split: option.splits json.splits)

lemma dget_set_path_other: "j \<noteq> k \<Longrightarrow> dget (set_path d (k # ks) v) j = dget d j"
  by (cases ks) (auto simp: set_path_Cons)

lemma jget_set_path_other: "j \<noteq> k \<Longrightarrow> jget (set_path d (k # ks) v) j = jget d j"
  by (simp add: jget_def dget_set_path_other)

lemma obj_path_set_field:
  "obj_path d ks = Some e \<Longrightarrow> obj_path (set_path d (ks @ [f]) v) ks = Some (dset e f v)"
proof (induction ks arbitrary: d)
  case Nil
  then show ?case by simp
next
  case (Cons k ks)
  then show ?case
    by (auto simp: obj_path_Cons obj_at_set_path split: option.splits)
qed

lemma obj_path_set_same: "ks \<noteq> [] \<Longrightarrow> obj_path (set_path d ks (JObj e)) ks = Some e"
  by (simp add: obj_path_iff path_simps)

lemma obj_path_set_other:
  "j \<noteq> k \<Longrightarrow> ks \<noteq> [] \<Longrightarrow> obj_path (set_path d (k # ks) v) (j # js) = obj_path d (j # js)"
  by (simp add: obj_path_Cons obj_at_set_path)

definition migrated_fields :: "string set" where
  "migrated_fields = {''timeout_seconds'', ''proxy'', ''base_url''}"

lemma migrate_supervisor_config_Inr:
  assumes "\<not> truthy lane \<or> is_obj lane"
  obtains c' where "migrate_supervisor_config lane c = Inr c'"
    "\<And>f. f \<notin> migrated_fields \<Longrightarrow> dget c' f = dget c f"
proof -
  have clamp: "dget (clamp_timeout c) f = dget c f" if "f \<notin> migrated_fields" for f
    using that by (auto simp: clamp_timeout_def migrated_fields_def split: json.splits)
  have null: "dget (null_present [''proxy'', ''base_url''] e) f = dget e f" if "f \<notin> migrated_fields" for f e
    using that by (auto simp: null_present_def migrated_fields_def)
  show ?thesis
  proof (cases "truthy lane")
    case False
    then show ?thesis
      using that [of "clamp_timeout c"] clamp by (simp add: migrate_supervisor_config_def Let_def)
  next
    case True
    with assms obtain l where "lane = JObj l" by (auto simp: is_obj_iff)
    with True that clamp null show ?thesis
      by (cases "jget l ''runtime_id'' = JStr ''codex''") (auto simp: migrate_supervisor_config_def Let_def)
  qed
qed

lemma migrate_section_Inr:
  assumes lane: "\<not> truthy lane \<or> is_obj lane" and s: "s \<in> {''intent'', ''overrides''}"
  obtains e where "migrate_section lane s d = Inr e"
    "\<And>f. f \<notin> migrated_fields \<Longrightarrow>
       map_option (\<lambda>c. dget c f) (obj_path e (sup_path s)) = map_option (\<lambda>c. dget c f) (obj_path d (sup_path s))"
    "\<And>t. t \<in> {''intent'', ''overrides''} \<Longrightarrow> t \<noteq> s \<Longrightarrow> obj_path e (sup_path t) = obj_path d (sup_path t)"
    "\<And>k. k \<noteq> s \<Longrightarrow> dget e k = dget d k"
proof (cases "obj_path d (sup_path s)")
  case None
  then show ?thesis using that [of d] by (simp add: migrate_section_def)
next
  case (Some c)
  obtain c' where c': "migrate_supervisor_config lane c = Inr c'"
    "\<And>f. f \<notin> migrated_fields \<Longrightarrow> dget c' f = dget c f"
    using migrate_supervisor_config_Inr [OF lane] by blast
  show ?thesis
  proof (rule that [of "set_path d (sup_path s) (JObj c')"])
    show "migrate_section lane s d = Inr (set_path d (sup_path s) (JObj c'))"
      by (simp add: migrate_section_def Some c')
    show "map_option (\<lambda>c. dget c f) (obj_path (set_path d (sup_path s) (JObj c')) (sup_path s)) =
        map_option (\<lambda>c. dget c f) (obj_path d (sup_path s))" if "f \<notin> migrated_fields" for f
      using Some by (simp add: c' that obj_path_set_same sup_path_def)
    show "obj_path (set_path d (sup_path s) (JObj c')) (sup_path t) = obj_path d (sup_path t)" if "t \<noteq> s" for t
      using that by (simp add: sup_path_def obj_path_set_other)
    show "dget (set_path d (sup_path s) (JObj c')) k = dget d k" if "k \<noteq> s" for k
      using that by (simp add: sup_path_def dget_set_path_other)
  qed
qed

text \<open>The lane read only depends on what no write or upgrade touches.\<close>

lemma supervisor_lane_cong:
  "dget d ''confirmed'' = dget d' ''confirmed'' \<Longrightarrow> dget e ''consumer_lanes'' = dget e' ''consumer_lanes'' \<Longrightarrow>
     supervisor_lane d e = supervisor_lane d' e'"
  unfolding supervisor_lane_def get_or_empty_def jget_def by (simp only:)


lemma add_new_fields_v2:
  assumes "jget d ''schema_version'' = JInt 2"
  shows "obj_path (add_new_fields d) (sup_path ''intent'') =
       map_option (\<lambda>c. dset (dset c ''auth_mode'' (JStr ''inherit'')) ''supervisor_model'' JNull) (obj_path d (sup_path ''intent''))"
    and "obj_path (add_new_fields d) (sup_path ''overrides'') = obj_path d (sup_path ''overrides'')"
    and "k \<noteq> ''intent'' \<Longrightarrow> dget (add_new_fields d) k = dget d k"
    and "k \<noteq> ''policy'' \<Longrightarrow> map_option (\<lambda>i. dget i k) (obj_at (add_new_fields d) ''intent'') = map_option (\<lambda>i. dget i k) (obj_at d ''intent'')"
proof -
  note add = add_new_fields_def assms Let_def
  show "obj_path (add_new_fields d) (sup_path ''intent'') =
       map_option (\<lambda>c. dset (dset c ''auth_mode'' (JStr ''inherit'')) ''supervisor_model'' JNull) (obj_path d (sup_path ''intent''))"
    by (cases "obj_path d (sup_path ''intent'')") (simp_all add: add obj_path_set_field)
  show "obj_path (add_new_fields d) (sup_path ''overrides'') = obj_path d (sup_path ''overrides'')"
    by (simp add: add sup_path_def obj_path_set_other)
  show "dget (add_new_fields d) k = dget d k" if "k \<noteq> ''intent''"
    using that by (simp add: add sup_path_def dget_set_path_other)
  show "map_option (\<lambda>i. dget i k) (obj_at (add_new_fields d) ''intent'') = map_option (\<lambda>i. dget i k) (obj_at d ''intent'')"
    if "k \<noteq> ''policy''"
  proof (cases "obj_path d (sup_path ''intent'')")
    case None
    then show ?thesis by (simp add: add)
  next
    case (Some c)
    then obtain i where "obj_at d ''intent'' = Some i"
      by (auto simp: sup_path_def obj_path_Cons split: option.splits)
    with that Some show ?thesis
      by (simp add: add sup_path_def obj_at_set_path dget_set_path_other)
  qed
qed

definition overrides_of :: "jobj \<Rightarrow> jobj" where
  "overrides_of d = (case obj_at d ''overrides'' of Some ov \<Rightarrow> ov | None \<Rightarrow> [])"

text \<open>The upgrade of a v2 object, when the lane it finds is one \<open>asdict\<close> can have written.\<close>

lemma upgrade_v2:
  assumes v: "jget d ''schema_version'' = JInt 2"
    and ov: "obj_at d ''overrides'' = Some ov" "get_or_empty ov ''policy'' = Inr pol"
    and lane: "supervisor_lane (add_new_fields d) (apply_overrides (intent_or_empty (add_new_fields d)) ov) = Inr lane"
      "\<not> truthy lane \<or> is_obj lane"
  obtains d' where "upgrade_manifest_for_read d = Inr d'"
    "\<And>f s. f \<notin> migrated_fields \<Longrightarrow> s \<in> {''intent'', ''overrides''} \<Longrightarrow>
       map_option (\<lambda>c. dget c f) (obj_path d' (sup_path s)) =
       map_option (\<lambda>c. dget c f) (obj_path (add_new_fields d) (sup_path s))"
    "dget d' ''schema_version'' = Some (JInt 3)"
    "\<And>k. k \<notin> {''schema_version'', ''intent'', ''overrides''} \<Longrightarrow> dget d' k = dget d k"
proof -
  let ?a = "add_new_fields d"
  obtain e where e: "migrate_section lane ''intent'' ?a = Inr e"
    "\<And>f. f \<notin> migrated_fields \<Longrightarrow>
       map_option (\<lambda>c. dget c f) (obj_path e (sup_path ''intent'')) = map_option (\<lambda>c. dget c f) (obj_path ?a (sup_path ''intent''))"
    "obj_path e (sup_path ''overrides'') = obj_path ?a (sup_path ''overrides'')"
    "\<And>k. k \<noteq> ''intent'' \<Longrightarrow> dget e k = dget ?a k"
    by (rule migrate_section_Inr [OF lane(2), of "''intent''" ?a]) auto
  obtain g where g: "migrate_section lane ''overrides'' e = Inr g"
    "\<And>f. f \<notin> migrated_fields \<Longrightarrow>
       map_option (\<lambda>c. dget c f) (obj_path g (sup_path ''overrides'')) = map_option (\<lambda>c. dget c f) (obj_path e (sup_path ''overrides''))"
    "obj_path g (sup_path ''intent'') = obj_path e (sup_path ''intent'')"
    "\<And>k. k \<noteq> ''overrides'' \<Longrightarrow> dget g k = dget e k"
    by (rule migrate_section_Inr [OF lane(2), of "''overrides''" e]) auto
  have ov': "get_or_empty ?a ''overrides'' = Inr ov"
  proof -
    have "dget ?a ''overrides'' = Some (JObj ov)"
      using ov(1) add_new_fields_v2(3) [OF v, of "''overrides''"] by (simp add: obj_at_Some)
    then show ?thesis by (auto simp: get_or_empty_def jget_def)
  qed
  show ?thesis
  proof (rule that [of "dset g ''schema_version'' (JInt 3)"])
    show "upgrade_manifest_for_read d = Inr (dset g ''schema_version'' (JInt 3))"
      unfolding upgrade_manifest_for_read_def Let_def
      by (simp add: v ov' lane(1) ov(2) e(1) g(1))
    show "map_option (\<lambda>c. dget c f) (obj_path (dset g ''schema_version'' (JInt 3)) (sup_path s)) =
       map_option (\<lambda>c. dget c f) (obj_path ?a (sup_path s))"
      if "f \<notin> migrated_fields" "s \<in> {''intent'', ''overrides''}" for f s
      using that(2) by (elim insertE emptyE) (simp_all add: e g that(1))
    show "dget (dset g ''schema_version'' (JInt 3)) k = dget d k"
      if "k \<notin> {''schema_version'', ''intent'', ''overrides''}" for k
      using that e(4) [of k] g(4) [of k] add_new_fields_v2(3) [OF v, of k] by simp
  qed simp
qed

section \<open>Lemmas: a setting through a write and a read\<close>

text \<open>
  What the supervisor is set to: the override if there is one, else the intent's value, else the
  default of the dataclass for the fields a write may leave out.
\<close>

definition sup_default :: "string \<Rightarrow> json option" where
  "sup_default f =
     map_of [(''auth_mode'', JStr ''inherit''), (''review_trigger'', JStr ''pre-tool-use''),
             (''supervisor_model'', JNull), (''native_source'', JNull)] f"

definition section_value :: "string \<Rightarrow> jobj \<Rightarrow> string \<Rightarrow> json option" where
  "section_value s d f = (case obj_path d (sup_path s) of Some c \<Rightarrow> dget c f | None \<Rightarrow> None)"

definition sup_setting :: "jobj \<Rightarrow> string \<Rightarrow> json option" where
  "sup_setting d f =
     (case section_value ''overrides'' d f of Some v \<Rightarrow> Some v
      | None \<Rightarrow> (case section_value ''intent'' d f of Some v \<Rightarrow> Some v | None \<Rightarrow> sup_default f))"

lemma section_value_cong:
  "map_option (\<lambda>c. dget c f) (obj_path d (sup_path s)) = map_option (\<lambda>c. dget c f) (obj_path e (sup_path s)) \<Longrightarrow>
     section_value s d f = section_value s e f"
  by (auto simp: section_value_def split: option.splits)

lemma section_value_written:
  assumes "manifest_for_write st = Inr d"
  shows "section_value ''intent'' d f = (if f \<in> set (popped_intent st) then None else section_value ''intent'' st f)"
    and "section_value ''overrides'' d f = (if f \<in> set (popped st) then None else section_value ''overrides'' st f)"
  using manifest_for_write_Inr(3,4) [OF assms]
  by (auto simp: section_value_def pydict.get_fold_del split: option.splits)

lemma section_value_upgraded:
  assumes "jget d ''schema_version'' = JInt 2"
  shows "section_value ''intent'' (add_new_fields d) f =
      (if obj_path d (sup_path ''intent'') = None then None
       else if f = ''supervisor_model'' then Some JNull
       else if f = ''auth_mode'' then Some (JStr ''inherit'')
       else section_value ''intent'' d f)"
    and "section_value ''overrides'' (add_new_fields d) f = section_value ''overrides'' d f"
  using add_new_fields_v2(1,2) [OF assms]
  by (auto simp: section_value_def split: option.splits)

text \<open>A field a write leaves out had the value the reader puts back.\<close>

lemma sup_default_simps [simp]:
  "sup_default ''auth_mode'' = Some (JStr ''inherit'')"
  "sup_default ''review_trigger'' = Some (JStr ''pre-tool-use'')"
  "sup_default ''supervisor_model'' = Some JNull"
  "sup_default ''native_source'' = Some JNull"
  by (simp_all add: sup_default_def)

lemma jget_key: "has_key k d \<Longrightarrow> jget d k = v \<Longrightarrow> dget d k = Some v"
  by (auto simp: has_key_iff jget_def)

lemma not_key: "\<not> has_key k d \<Longrightarrow> dget d k = None"
  by (simp add: has_key_iff)

lemma popped_is_default:
  assumes "case obj_path st (sup_path ''intent'') of None \<Rightarrow> True | Some d \<Rightarrow> supervisor_shape d"
    and f: "f \<in> set (popped_intent st)"
  shows "section_value ''intent'' st f \<in> {None, sup_default f} \<and> section_value ''overrides'' st f \<in> {None, sup_default f}"
proof -
  let ?I = "obj_path st (sup_path ''intent'')" and ?O = "obj_path st (sup_path ''overrides'')"
  have s: "supervisor_shape d" if "?I = Some d" for d using assms(1) that by simp
  consider (n) "f = ''native_source''" "\<not> native_required st"
    | (r) "f = ''review_trigger''" "\<not> stop_required st"
    | (a) "f = ''auth_mode''" "legacy_auth st"
    | (m) "f = ''supervisor_model''" "legacy_auth st"
  proof (cases st rule: write_version_cases)
    case v5
    with f show ?thesis by simp
  next
    case v4
    with f n show ?thesis by simp
  next
    case v3
    from f show ?thesis
      unfolding v3(5,6) list.set insert_iff empty_iff using n [OF _ v3(1)] r [OF _ v3(2)] by (elim disjE FalseE)
  next
    case v2
    from f show ?thesis
      unfolding v2(5,6) list.set insert_iff empty_iff
      using n [OF _ v2(1)] r [OF _ v2(2)] a [OF _ v2(3)] m [OF _ v2(3)] by (elim disjE FalseE)
  qed
  then show ?thesis
  proof cases
    case n
    have "dget d ''native_source'' = Some JNull" if "?I = Some d" for d
      using n(2) that supervisor_shapeD(3,5) [OF s [OF that]]
      by (intro jget_key) (auto simp: native_required_def)
    then show ?thesis
      using n by (cases ?I; cases ?O) (simp_all add: section_value_def native_required_def not_key)
  next
    case r
    have "dget d ''review_trigger'' \<in> {None, Some (JStr ''pre-tool-use'')}" if "\<not> asks_stop d" for d
      using that by (auto simp: asks_stop_def split: option.splits)
    with r show ?thesis
      by (cases ?I; cases ?O) (simp_all add: section_value_def stop_required_def)
  next
    case a
    have "dget d ''auth_mode'' = Some (JStr ''inherit'')" if "?I = Some d" for d
      using a(2) that supervisor_shapeD(1) [OF s [OF that]]
      by (intro jget_key) (auto simp: legacy_auth_def has_key_def)
    with a show ?thesis
      by (cases ?I; cases ?O) (simp_all add: section_value_def legacy_auth_def not_key)
  next
    case m
    have "dget d ''supervisor_model'' = Some JNull" if "?I = Some d" for d
      using m(2) that supervisor_shapeD(2) [OF s [OF that]]
      by (intro jget_key) (auto simp: legacy_auth_def has_key_def)
    with m show ?thesis
      by (cases ?I; cases ?O) (simp_all add: section_value_def legacy_auth_def not_key)
  qed
qed

lemma pick_default_cong:
  assumes "a = a' \<or> a = None \<and> a' \<in> {None, D} \<and> c' \<in> {None, D}"
    and "c = c' \<or> c \<in> {None, D} \<and> c' \<in> {None, D}"
  shows "(case a of Some v \<Rightarrow> Some v | None \<Rightarrow> (case c of Some v \<Rightarrow> Some v | None \<Rightarrow> D)) =
         (case a' of Some v \<Rightarrow> Some v | None \<Rightarrow> (case c' of Some v \<Rightarrow> Some v | None \<Rightarrow> D))"
  using assms by (cases D; cases a; cases a'; cases c; cases c'; simp) auto

lemma sup_setting_cong:
  assumes "section_value ''overrides'' d f = section_value ''overrides'' e f \<or>
      section_value ''overrides'' d f = None \<and> section_value ''overrides'' e f \<in> {None, sup_default f} \<and>
      section_value ''intent'' e f \<in> {None, sup_default f}"
    and "section_value ''intent'' d f = section_value ''intent'' e f \<or>
      section_value ''intent'' d f \<in> {None, sup_default f} \<and> section_value ''intent'' e f \<in> {None, sup_default f}"
  shows "sup_setting d f = sup_setting e f"
  unfolding sup_setting_def using assms by (rule pick_default_cong)

lemma sup_setting_written:
  assumes "case obj_path st (sup_path ''intent'') of None \<Rightarrow> True | Some d \<Rightarrow> supervisor_shape d"
    and "manifest_for_write st = Inr d"
  shows "sup_setting d f = sup_setting st f"
proof (rule sup_setting_cong)
  have sub: "set (popped st) \<subseteq> set (popped_intent st)" by (auto simp: popped_intent_def)
  note sv = section_value_written [OF assms(2), of f]
  show "section_value ''overrides'' d f = section_value ''overrides'' st f \<or>
      section_value ''overrides'' d f = None \<and> section_value ''overrides'' st f \<in> {None, sup_default f} \<and>
      section_value ''intent'' st f \<in> {None, sup_default f}"
    using sv(2) popped_is_default [OF assms(1), of f] sub by (cases "f \<in> set (popped st)") auto
  show "section_value ''intent'' d f = section_value ''intent'' st f \<or>
      section_value ''intent'' d f \<in> {None, sup_default f} \<and> section_value ''intent'' st f \<in> {None, sup_default f}"
    using sv(1) popped_is_default [OF assms(1), of f] by (cases "f \<in> set (popped_intent st)") auto
qed

lemma manifest_for_write_induct:
  assumes "manifest_for_write st = Inr d" "P st"
    and del: "\<And>e s f. P e \<Longrightarrow> s \<in> {''intent'', ''overrides''} \<Longrightarrow> P (fst (delete_path e (sup_path s @ [f])))"
    and ver: "\<And>e n. P e \<Longrightarrow> P (dset e ''schema_version'' (JInt n))"
  shows "P d"
proof -
  have pop: "P (pop_sup_field f e)" if "P e" for f e
    using that by (simp add: pop_sup_field_def del)
  have a: "P (if native_required st then st else pop_sup_field ''native_source'' st)"
    using assms(2) pop by simp
  have b: "P (if c then x else pop_sup_field ''review_trigger'' x)" if "P x" for c x
    using that pop by simp
  have c: "P (dset (if stop_required st \<or> native_required st
       then (if native_required st then st else pop_sup_field ''native_source'' st)
       else pop_sup_field ''review_trigger'' (if native_required st then st else pop_sup_field ''native_source'' st))
     ''schema_version'' (JInt (write_version st)))"
    by (rule ver [OF b [OF a]])
  from assms(1) show ?thesis
    using c del [OF del [OF c], of "''intent''" "''intent''"]
    by (cases "write_version st = 2") (auto simp only: manifest_for_write_def Let_def sum.case sum.inject insert_iff simp_thms if_True if_False split: sum.splits)
qed

lemma jwf_written: "manifest_for_write st = Inr d \<Longrightarrow> jwf (JObj st) \<Longrightarrow> jwf (JObj d)"
proof (erule manifest_for_write_induct)
  show "jwf (JObj (dset e ''schema_version'' (JInt n)))" if "jwf (JObj e)" for e n
    using that jwf.simps(4) by (intro jwf_dset) simp_all
qed (assumption | rule jwf_delete_path)+

lemma same_restD:
  assumes "same_rest d e"
  shows "k \<noteq> ''schema_version'' \<Longrightarrow> has_key k d = has_key k e"
    and "k \<noteq> ''schema_version'' \<Longrightarrow> k \<noteq> ''intent'' \<Longrightarrow> k \<noteq> ''overrides'' \<Longrightarrow> jget d k = jget e k"
  using assms unfolding same_rest_def by blast+

text \<open>The overrides' policy can be read as a dict: it is one, or it is falsy.\<close>

definition policy_readable :: "jobj \<Rightarrow> bool" where
  "policy_readable d \<longleftrightarrow> \<not> truthy (jget (overrides_of d) ''policy'') \<or> is_obj (jget (overrides_of d) ''policy'')"

lemma policy_readable_iff: "policy_readable d \<longleftrightarrow> (\<exists>p. get_or_empty (overrides_of d) ''policy'' = Inr p)"
  by (cases "jget (overrides_of d) ''policy''") (simp_all add: policy_readable_def get_or_empty_def)

lemma policy_readable_written:
  assumes "manifest_for_write st = Inr d"
  shows "policy_readable d"
proof (rule manifest_for_write_induct [OF assms])
  show "policy_readable st"
    using assms by (auto simp: policy_readable_iff manifest_for_write_def overrides_of_def split: sum.splits)
  show "policy_readable (fst (delete_path e (sup_path s @ [f])))"
    if "policy_readable e" "s \<in> {''intent'', ''overrides''}" for e s f
    using that
    by (auto simp: policy_readable_def overrides_of_def sup_path_def obj_at_delete_path jget_def delete_path_Cons
        split: option.splits json.splits)
  show "policy_readable (dset e ''schema_version'' (JInt n))" if "policy_readable e" for e n
    using that by (simp add: policy_readable_def overrides_of_def)
qed

abbreviation effective_of :: "jobj \<Rightarrow> jobj" where
  "effective_of d \<equiv> apply_overrides (intent_or_empty d) (overrides_of d)"

lemma dwf_overrides_of: "jwf (JObj d) \<Longrightarrow> dwf (overrides_of d)"
  using jwf_mem [of d "''overrides''"]
  by (auto simp del: jwf.simps simp: overrides_of_def obj_at_Some split: option.splits) simp

lemma same_rest_lookup:
  assumes "same_rest d e" "obj_at e ''intent'' \<noteq> None" "obj_at e ''overrides'' \<noteq> None" "k \<noteq> ''policy''"
  shows "dget (intent_or_empty d) k = dget (intent_or_empty e) k" "obj_at d ''intent'' \<noteq> None"
    "dget (overrides_of d) k = dget (overrides_of e) k" "obj_at d ''overrides'' \<noteq> None"
proof -
  have r: "map_option (\<lambda>i. dget i k) (obj_at d s) = map_option (\<lambda>i. dget i k) (obj_at e s)"
    if "s \<in> {''intent'', ''overrides''}" for s
    using assms(1,4) that unfolding same_rest_def by blast
  show "dget (intent_or_empty d) k = dget (intent_or_empty e) k" "obj_at d ''intent'' \<noteq> None"
    using r [of "''intent''"] assms(2) by (auto simp: intent_or_empty_def split: option.splits)
  show "dget (overrides_of d) k = dget (overrides_of e) k" "obj_at d ''overrides'' \<noteq> None"
    using r [of "''overrides''"] assms(3) by (auto simp: overrides_of_def split: option.splits)
qed

lemma upgrade_written_v2:
  assumes w: "manifest_for_write st = Inr d" and v: "write_version st = 2"
    and shape: "obj_at st ''intent'' \<noteq> None" "obj_at st ''overrides'' \<noteq> None" "jwf (JObj st)"
    and lane: "supervisor_lane st (effective_of st) = Inr lane" "\<not> truthy lane \<or> is_obj lane"
  obtains d' where "upgrade_manifest_for_read d = Inr d'"
    "\<And>f s. f \<notin> migrated_fields \<Longrightarrow> s \<in> {''intent'', ''overrides''} \<Longrightarrow>
       map_option (\<lambda>c. dget c f) (obj_path d' (sup_path s)) =
       map_option (\<lambda>c. dget c f) (obj_path (add_new_fields d) (sup_path s))"
proof -
  let ?a = "add_new_fields d"
  note mw = manifest_for_write_Inr [OF w]
  have ver: "jget d ''schema_version'' = JInt 2" using mw(2) v by simp
  have neq: "''consumer_lanes'' \<noteq> ''policy''" by simp
  note sr = same_rest_lookup [OF mw(1) shape(1,2) neq]
  obtain ov where ov: "obj_at d ''overrides'' = Some ov" using sr(4) by auto
  then have ov_of: "overrides_of d = ov" by (simp add: overrides_of_def)
  obtain pol where pol: "get_or_empty ov ''policy'' = Inr pol"
    using policy_readable_written [OF w] ov_of by (auto simp: policy_readable_iff)
  have conf: "dget ?a ''confirmed'' = dget st ''confirmed''"
  proof -
    have "has_key ''confirmed'' d = has_key ''confirmed'' st" "jget d ''confirmed'' = jget st ''confirmed''"
      by (simp_all add: same_restD [OF mw(1)])
    then show ?thesis
      by (subst add_new_fields_v2(3) [OF ver]) (simp, rule dget_of_jget)
  qed
  have il: "dget (intent_or_empty ?a) ''consumer_lanes'' = dget (intent_or_empty d) ''consumer_lanes''"
    using add_new_fields_v2(4) [OF ver neq] sr(2) by (auto simp: intent_or_empty_def split: option.splits)
  have "dwf ov" "dwf (overrides_of st)"
    using dwf_overrides_of jwf_written [OF w shape(3)] shape(3) ov_of by auto
  then have "dget (apply_overrides (intent_or_empty ?a) ov) ''consumer_lanes'' = dget (effective_of st) ''consumer_lanes''"
    using sr(1,3) il ov_of by (simp only: apply_overrides_lookup)
  then have "supervisor_lane ?a (apply_overrides (intent_or_empty ?a) ov) = Inr lane"
    using supervisor_lane_cong [OF conf] lane(1) by metis
  from upgrade_v2 [OF ver ov pol this lane(2)] that show ?thesis by metis
qed


lemma manifest_shape_writes: "manifest_shape st \<Longrightarrow> \<exists>d. manifest_for_write st = Inr d"
  by (auto simp: manifest_shape_def manifest_for_write_def Let_def split: sum.splits option.splits)

lemma manifest_shape_objs:
  "manifest_shape st \<Longrightarrow> obj_at st ''intent'' \<noteq> None"
  "manifest_shape st \<Longrightarrow> obj_at st ''overrides'' \<noteq> None"
  by (auto simp: manifest_shape_def split: option.splits)

lemma sup_setting_added:
  assumes "manifest_for_write st = Inr d" "write_version st = 2" "jget d ''schema_version'' = JInt 2"
  shows "sup_setting (add_new_fields d) f = sup_setting d f"
proof (rule sup_setting_cong)
  have pi: "popped_intent st = [''native_source'', ''review_trigger'', ''auth_mode'', ''supervisor_model'']"
    using assms(2) by (cases st rule: write_version_cases) simp_all
  note w = section_value_written(1) [OF assms(1), of f, unfolded pi]
  note u = section_value_upgraded [OF assms(3), of f]
  show "section_value ''overrides'' (add_new_fields d) f = section_value ''overrides'' d f \<or>
      section_value ''overrides'' (add_new_fields d) f = None \<and>
      section_value ''overrides'' d f \<in> {None, sup_default f} \<and> section_value ''intent'' d f \<in> {None, sup_default f}"
    using u(2) by simp
  show "section_value ''intent'' (add_new_fields d) f = section_value ''intent'' d f \<or>
      section_value ''intent'' (add_new_fields d) f \<in> {None, sup_default f} \<and>
      section_value ''intent'' d f \<in> {None, sup_default f}"
  proof (cases "f = ''auth_mode'' \<or> f = ''supervisor_model''")
    case True
    then show ?thesis using u(1) w by (elim disjE) simp_all
  next
    case False
    then show ?thesis using u(1) by (simp add: section_value_def)
  qed
qed

lemma clamp_timeout_le: "dget (clamp_timeout c) ''timeout_seconds'' = Some (JInt n) \<Longrightarrow> n \<le> 45"
  by (auto simp: clamp_timeout_def jget_def split: option.splits json.splits if_splits)

lemma null_present_timeout:
  "dget (null_present [''proxy'', ''base_url''] c) ''timeout_seconds'' = dget c ''timeout_seconds''"
  by (simp add: null_present_def)

lemma migrate_supervisor_config_timeout:
  "migrate_supervisor_config lane c = Inr c' \<Longrightarrow> dget c' ''timeout_seconds'' = Some (JInt n) \<Longrightarrow> n \<le> 45"
  by (auto simp: migrate_supervisor_config_def Let_def null_present_timeout clamp_timeout_le
      split: if_splits json.splits)

lemma migrate_supervisor_config_keeps:
  assumes "migrate_supervisor_config lane c = Inr c'" "f \<notin> migrated_fields"
  shows "dget c' f = dget c f"
proof -
  have "\<not> truthy lane \<or> is_obj lane"
    using assms(1) by (cases lane) (auto simp: migrate_supervisor_config_def Let_def split: if_splits)
  from migrate_supervisor_config_Inr [OF this, of c] assms show ?thesis by auto
qed

lemma migrate_section_cases:
  assumes "migrate_section lane s d = Inr e"
  obtains "obj_path d (sup_path s) = None" "e = d"
  | c c' where "obj_path d (sup_path s) = Some c" "migrate_supervisor_config lane c = Inr c'"
      "e = set_path d (sup_path s) (JObj c')"
  using assms by (auto simp: migrate_section_def split: option.splits sum.splits)

lemma migrate_section_timeout:
  assumes "migrate_section lane s d = Inr e" "section_value s e ''timeout_seconds'' = Some (JInt n)"
  shows "n \<le> 45"
  using assms(1)
proof (cases rule: migrate_section_cases)
  case 1
  with assms(2) show ?thesis by (simp add: section_value_def)
next
  case (2 c c')
  with assms(2) have "dget c' ''timeout_seconds'' = Some (JInt n)"
    by (simp add: section_value_def obj_path_set_same sup_path_def)
  with 2(2) show ?thesis by (rule migrate_supervisor_config_timeout)
qed

lemma migrate_section_value:
  assumes "migrate_section lane s d = Inr e" "t \<noteq> s \<or> f \<notin> migrated_fields"
  shows "section_value t e f = section_value t d f"
  using assms(1)
proof (cases rule: migrate_section_cases)
  case (2 c c')
  show ?thesis
  proof (cases "t = s")
    case True
    with assms(2) have "dget c' f = dget c f" using migrate_supervisor_config_keeps [OF 2(2)] by blast
    moreover have "obj_path e (sup_path s) = Some c'"
      unfolding 2(3) by (rule obj_path_set_same) (simp add: sup_path_def)
    ultimately show ?thesis using True 2(1) by (simp add: section_value_def)
  next
    case False
    then show ?thesis by (simp add: section_value_def 2(3) sup_path_def obj_path_set_other)
  qed
qed simp

lemma migrate_section_frame: "migrate_section lane s d = Inr e \<Longrightarrow> k \<noteq> s \<Longrightarrow> dget e k = dget d k"
  by (erule migrate_section_cases) (simp_all add: sup_path_def dget_set_path_other)

lemma section_value_dset_version [simp]:
  "section_value ''intent'' (dset d ''schema_version'' v) f = section_value ''intent'' d f"
  "section_value ''overrides'' (dset d ''schema_version'' v) f = section_value ''overrides'' d f"
  by (simp_all add: section_value_def)

text \<open>The steps of an upgrade that does something.\<close>

lemma upgrade_steps:
  assumes "upgrade_manifest_for_read d = Inr d'" "version_in (jget d ''schema_version'') [1, 2]"
  obtains lane e g where "migrate_section lane ''intent'' (add_new_fields d) = Inr e"
    "migrate_section lane ''overrides'' e = Inr g" "d' = dset g ''schema_version'' (JInt 3)"
  using assms by (auto simp: upgrade_manifest_for_read_def Let_def split: sum.splits if_splits)

lemma add_new_fields_sup:
  assumes "obj_path d (sup_path ''intent'') \<noteq> None"
  shows "section_value ''intent'' (add_new_fields d) ''auth_mode'' = Some (JStr ''inherit'')"
    "section_value ''intent'' (add_new_fields d) ''supervisor_model'' = Some JNull"
proof -
  define a where "a = (if eq_int (jget d ''schema_version'') 1 \<and> obj_path d [''intent'', ''launch''] \<noteq> None
                  then set_path d [''intent'', ''launch'', ''model_route''] JNull else d)"
  have "obj_path a (sup_path ''intent'') = obj_path d (sup_path ''intent'')"
    unfolding a_def sup_path_def by (auto simp: obj_path_Cons obj_at_set_path split: option.splits)
  with assms obtain c where c: "obj_path a (sup_path ''intent'') = Some c" by auto
  have "add_new_fields d = set_path (set_path a (sup_path ''intent'' @ [''auth_mode'']) (JStr ''inherit''))
      (sup_path ''intent'' @ [''supervisor_model'']) JNull"
    unfolding add_new_fields_def Let_def a_def [symmetric] using c by simp
  then show "section_value ''intent'' (add_new_fields d) ''auth_mode'' = Some (JStr ''inherit'')"
    "section_value ''intent'' (add_new_fields d) ''supervisor_model'' = Some JNull"
    using c by (simp_all add: section_value_def obj_path_set_field)
qed

lemma add_new_fields_frame: "k \<noteq> ''intent'' \<Longrightarrow> dget (add_new_fields d) k = dget d k"
  by (simp add: add_new_fields_def Let_def sup_path_def dget_set_path_other)

section \<open>Properties\<close>



definition sample_state :: jobj where
  "sample_state =
     [(''schema_version'', JInt 5), (''name'', JStr ''demo''), (''created_at'', JStr ''t''),
      (''last_accessed_at'', JStr ''t''),
      (''intent'', JObj [(''proxy'', JNull), (''launch'', JNull),
         (''policy'', JObj [(''supervisor'', JObj [(''auth_mode'', JStr ''inherit''), (''review_trigger'', JStr ''pre-tool-use''),
            (''supervisor_model'', JNull), (''native_source'', JNull), (''timeout_seconds'', JInt 30)])]),
         (''consumer_lanes'', JNull)]),
      (''overrides'', JObj [(''policy'', JObj [(''supervisor'', JObj [(''review_trigger'', JStr ''pre-tool-use'')])])]),
      (''confirmed'', JObj [(''started_with_proxy'', JNull), (''consumer_lanes'', JNull)])]"


text \<open>
  A supervisor setting survives a write and the read that follows: the object a write produces
  upgrades without an error, and every setting, override first, then intent, then the default of
  the dataclass, has the value it had in the state, although the write drops the fields that hold
  their defaults. The three fields the v2 migration may rewrite (\<open>timeout_seconds\<close>, \<open>proxy\<close>,
  \<open>base_url\<close>) are covered when the write did not choose version 2.
\<close>

lemma supervisor_settings_survive:
  assumes shape: "manifest_shape st" "jwf (JObj st)"
    and lane: "supervisor_lane st (effective_of st) = Inr lane" "\<not> truthy lane \<or> is_obj lane"
    and f: "f \<in> migrated_fields \<Longrightarrow> write_version st \<noteq> 2"
  shows "\<exists>d d'. manifest_for_write st = Inr d \<and> upgrade_manifest_for_read d = Inr d' \<and>
    sup_setting d' f = sup_setting st f"
proof -
  obtain d where d: "manifest_for_write st = Inr d"
    using manifest_shape_writes [OF shape(1)] by blast
  note sd = sup_setting_written [OF manifest_shapeD(2) [OF shape(1)] d]
  note ver = manifest_for_write_Inr(2) [OF d]
  show ?thesis
  proof (cases "write_version st = 2")
    case False
    then have "upgrade_manifest_for_read d = Inr d"
      using ver by (cases st rule: write_version_cases) (simp_all add: upgrade_manifest_for_read_def Let_def)
    with d sd show ?thesis by blast
  next
    case True
    obtain d' where d': "upgrade_manifest_for_read d = Inr d'"
      "\<And>s. s \<in> {''intent'', ''overrides''} \<Longrightarrow>
         map_option (\<lambda>c. dget c f) (obj_path d' (sup_path s)) = map_option (\<lambda>c. dget c f) (obj_path (add_new_fields d) (sup_path s))"
      using upgrade_written_v2 [OF d True manifest_shape_objs [OF shape(1)] shape(2) lane] f True by metis
    have sv: "section_value s d' f = section_value s (add_new_fields d) f" if "s \<in> {''intent'', ''overrides''}" for s
      by (rule section_value_cong) (rule d'(2) [OF that])
    have "sup_setting d' f = sup_setting (add_new_fields d) f"
      unfolding sup_setting_def by (simp only: sv [of "''intent''"] sv [of "''overrides''"] insert_iff simp_thms)
    moreover have "sup_setting (add_new_fields d) f = sup_setting d f"
      by (rule sup_setting_added [OF d True]) (use ver True in simp)
    ultimately show ?thesis using d d'(1) sd by auto
  qed
qed


lemma supervisor_settings_survive_witness:
  "\<exists>d d'. manifest_for_write sample_state = Inr d \<and> upgrade_manifest_for_read d = Inr d' \<and>
     sup_setting d' ''review_trigger'' = sup_setting sample_state ''review_trigger''"
proof (rule supervisor_settings_survive)
  show "manifest_shape sample_state" by code_simp
  show "jwf (JObj sample_state)" by code_simp
  show "supervisor_lane sample_state (effective_of sample_state) = Inr JNull" by code_simp
  show "\<not> truthy JNull \<or> is_obj JNull" by simp
  show "''review_trigger'' \<in> migrated_fields \<Longrightarrow> write_version sample_state \<noteq> 2" by (simp add: migrated_fields_def)
qed


text \<open>
  Reading a schema v1 or v2 manifest brings it within the bounds of the current reviewer: the
  object handed to the decoder is version 3, no supervisor timeout, stored or overridden, exceeds
  the 45 second hook budget, a supervisor gets inherited authentication and no model, and nothing
  outside the intent and the overrides has changed.
\<close>

lemma legacy_upgrade_bounds:
  assumes "version_in (jget d ''schema_version'') [1, 2]" "upgrade_manifest_for_read d = Inr d'"
  shows "jget d' ''schema_version'' = JInt 3 \<and>
    (\<forall>s \<in> {''intent'', ''overrides''}. \<forall>n. section_value s d' ''timeout_seconds'' = Some (JInt n) \<longrightarrow> n \<le> 45) \<and>
    (obj_path d (sup_path ''intent'') \<noteq> None \<longrightarrow>
       section_value ''intent'' d' ''auth_mode'' = Some (JStr ''inherit'') \<and>
       section_value ''intent'' d' ''supervisor_model'' = Some JNull) \<and>
    (\<forall>k. k \<notin> {''schema_version'', ''intent'', ''overrides''} \<longrightarrow> dget d' k = dget d k)"
proof -
  obtain lane e g where i: "migrate_section lane ''intent'' (add_new_fields d) = Inr e"
    and o: "migrate_section lane ''overrides'' e = Inr g" and d': "d' = dset g ''schema_version'' (JInt 3)"
    by (rule upgrade_steps [OF assms(2,1)])
  have gi: "section_value ''intent'' g f = section_value ''intent'' e f" for f
    by (rule migrate_section_value [OF o]) simp
  have ti: "n \<le> 45" if "section_value ''intent'' g ''timeout_seconds'' = Some (JInt n)" for n
    by (rule migrate_section_timeout [OF i]) (use that gi in simp)
  have to: "n \<le> 45" if "section_value ''overrides'' g ''timeout_seconds'' = Some (JInt n)" for n
    by (rule migrate_section_timeout [OF o that])
  have keep: "section_value ''intent'' g f = section_value ''intent'' (add_new_fields d) f"
    if "f \<notin> migrated_fields" for f
    unfolding gi by (rule migrate_section_value [OF i]) (use that in simp)
  have nm: "''auth_mode'' \<notin> migrated_fields" "''supervisor_model'' \<notin> migrated_fields"
    by (simp_all add: migrated_fields_def)
  have rest: "dget d' k = dget d k" if "k \<notin> {''schema_version'', ''intent'', ''overrides''}" for k
    using that by (simp add: d' migrate_section_frame [OF o] migrate_section_frame [OF i] add_new_fields_frame)
  show ?thesis
    unfolding d' using ti to rest [unfolded d'] keep [OF nm(1)] keep [OF nm(2)] add_new_fields_sup [of d]
    by simp
qed

definition legacy_sample :: jobj where
  "legacy_sample =
     [(''schema_version'', JInt 1), (''overrides'', JObj []),
      (''intent'', JObj [(''policy'', JObj [(''supervisor'', JObj [(''timeout_seconds'', JInt 300)])])])]"

lemma legacy_upgrade_bounds_witness:
  "\<exists>d'. upgrade_manifest_for_read legacy_sample = Inr d' \<and> jget d' ''schema_version'' = JInt 3"
proof -
  have v: "version_in (jget legacy_sample ''schema_version'') [1, 2]" by code_simp
  have "case upgrade_manifest_for_read legacy_sample of Inr _ \<Rightarrow> True | Inl _ \<Rightarrow> False" by code_simp
  then obtain d' where d': "upgrade_manifest_for_read legacy_sample = Inr d'" by (auto split: sum.splits)
  show ?thesis using d' legacy_upgrade_bounds [OF v d', THEN conjunct1] by (intro exI conjI)
qed

text \<open>What the strips and the override checks can do.\<close>

lemma strips_keep_version:
  "jget (strip_removed_memory_generated_file d) ''schema_version'' = jget d ''schema_version''"
  "jget (fst (strip_preview_memory_doc_lists d)) ''schema_version'' = jget d ''schema_version''"
  "jget (fst (strip_removed_supervisor_runtime d)) ''schema_version'' = jget d ''schema_version''"
  by (auto simp: strip_removed_memory_generated_file_def strip_preview_memory_doc_lists_def strip_docs_section_def
      strip_removed_supervisor_runtime_def strip_runtime_section_def Let_def jget_set_path_other split: option.splits)

definition stripped :: "jobj \<Rightarrow> jobj" where
  "stripped d = fst (strip_removed_supervisor_runtime (fst (strip_preview_memory_doc_lists (strip_removed_memory_generated_file d))))"

lemma stripped_version: "jget (stripped d) ''schema_version'' = jget d ''schema_version''"
  by (simp add: stripped_def strips_keep_version)

lemma check_overrides_Inl: "check_overrides fs pre d = Inl e \<Longrightarrow> \<exists>m. e = ManifestCorrupted m"
  by (induction fs pre d rule: check_overrides.induct)
    (auto split: if_splits option.splits json.splits ftype.splits sum.splits)

fun read_errors :: "err \<Rightarrow> bool" where
  "read_errors (ManifestCorrupted _) = True"
| "read_errors (ManifestValidation ms) = (ms \<noteq> [])"
| "read_errors _ = False"

lemma validate_supervisor_Inl: "validate_supervisor v s t = Inl e \<Longrightarrow> read_errors e"
  unfolding validate_supervisor_def Let_def by (auto simp del: One_nat_def split: if_split_asm)

lemma validate_started_Inl: "validate_started_with_proxy v = Inl e \<Longrightarrow> read_errors e"
  unfolding validate_started_with_proxy_def by (auto split: if_split_asm json.split_asm)

lemma validate_confirmed_Inl: "validate_confirmed d = Inl e \<Longrightarrow> read_errors e"
  unfolding validate_confirmed_def by (auto split: option.split_asm json.split_asm dest: validate_started_Inl)

lemma validate_overrides_Inl:
  "(case x of Some ov \<Rightarrow> validate_overrides_schema ov | None \<Rightarrow> Inr ()) = Inl e \<Longrightarrow> read_errors e"
  by (auto simp: validate_overrides_schema_def dest!: check_overrides_Inl split: option.splits)

lemma validate_data_Inl:
  assumes "validate_data d = Inl e"
  shows "read_errors e \<or> e = TypeErr \<and> \<not> hashable (jget d ''schema_version'')"
  using assms unfolding validate_data_def Let_def guard_Inl case_sum_Inl
  by (elim disjE conjE exE)
    (simp_all only: read_errors.simps simp_thms sum.distinct validate_supervisor_Inl validate_overrides_Inl validate_confirmed_Inl)

text \<open>The documented reasons of each exception.\<close>

fun read_failure_reason :: "err \<Rightarrow> state_file \<Rightarrow> bool" where
  "read_failure_reason SessionFileNotFound f = (f = Missing)"
| "read_failure_reason ManifestUnreadable f = (f = Unreadable)"
| "read_failure_reason (ManifestCorrupted _) f = (f = Unparsable \<or> (case f of Holds _ \<Rightarrow> True | _ \<Rightarrow> False))"
| "read_failure_reason (ManifestValidation ms) f = (ms \<noteq> [] \<and> (case f of Holds (JObj _) \<Rightarrow> True | _ \<Rightarrow> False))"
| "read_failure_reason TypeErr f =
     (case f of Holds (JObj d) \<Rightarrow> \<not> hashable (jget d ''schema_version'') | _ \<Rightarrow> False)"
| "read_failure_reason AttributeErr f =
     (case f of Holds (JObj d) \<Rightarrow> version_in (jget d ''schema_version'') [1, 2] | _ \<Rightarrow> False)"
| "read_failure_reason (ValueErr m) f = (m = ''UnicodeDecodeError'' \<and> f = Undecodable)"
| "read_failure_reason _ f = False"

lemma get_or_empty_Inl: "get_or_empty d k = Inl e \<Longrightarrow> e = AttributeErr"
  by (auto simp: get_or_empty_def Let_def split: if_splits json.splits)

lemma supervisor_lane_Inl: "supervisor_lane d e = Inl x \<Longrightarrow> x = AttributeErr"
  by (auto simp: supervisor_lane_def Let_def split: sum.splits if_splits json.splits dest: get_or_empty_Inl)

lemma migrate_section_Inl: "migrate_section l s d = Inl e \<Longrightarrow> e = AttributeErr"
  by (auto simp: migrate_section_def migrate_supervisor_config_def Let_def
      split: sum.splits if_splits json.splits option.splits)

lemma upgrade_Inl:
  assumes "upgrade_manifest_for_read d = Inl e"
  shows "e = TypeErr \<and> \<not> hashable (jget d ''schema_version'') \<or>
         e = AttributeErr \<and> version_in (jget d ''schema_version'') [1, 2]"
  using assms unfolding upgrade_manifest_for_read_def Let_def guard_Inl guard_Inr_Inl case_sum_Inl
  by (elim disjE conjE exE)
    (simp_all only: simp_thms sum.distinct get_or_empty_Inl supervisor_lane_Inl migrate_section_Inl)

lemma read_manifest_obj:
  "read_manifest decode n (Holds (JObj d)) =
     (case validate_data (stripped d) of Inl e \<Rightarrow> Inl e
      | Inr _ \<Rightarrow> (case upgrade_manifest_for_read (stripped d) of Inl e \<Rightarrow> Inl e
      | Inr u \<Rightarrow> (case decode u of Inl m \<Rightarrow> Inl (ManifestCorrupted (''deserialization error: '' @ m))
      | Inr st \<Rightarrow> if jget st ''name'' = JStr n then Inr st
                 else Inl (ManifestCorrupted ''manifest names another session''))))"
  unfolding read_manifest_def stripped_def Let_def by simp

lemma read_manifest_Inr:
  assumes "read_manifest decode n f = Inr st"
  obtains d u where "f = Holds (JObj d)" "validate_data (stripped d) = Inr ()"
    "upgrade_manifest_for_read (stripped d) = Inr u" "decode u = Inr st" "jget st ''name'' = JStr n"
proof -
  obtain d where f: "f = Holds (JObj d)"
    using assms by (auto simp: read_manifest_def split: state_file.splits json.splits)
  from assms [unfolded f read_manifest_obj] show ?thesis
    using that [OF f] by (auto split: sum.splits if_splits)
qed

lemma read_errors_reason: "read_errors e \<Longrightarrow> read_failure_reason e (Holds (JObj d))"
  by (cases e) auto

lemma read_obj_Inl:
  assumes "read_manifest decode n (Holds (JObj d)) = Inl e"
  shows "read_failure_reason e (Holds (JObj d))"
  using assms unfolding read_manifest_obj case_sum_Inl
proof (elim disjE exE conjE)
  fix a assume "validate_data (stripped d) = Inl a" "e = a"
  with validate_data_Inl [of "stripped d" a] show ?thesis
    by (auto simp: stripped_version read_errors_reason)
next
  fix a assume "upgrade_manifest_for_read (stripped d) = Inl a" "e = a"
  with upgrade_Inl [of "stripped d" a] show ?thesis by (auto simp: stripped_version)
qed (auto split: if_splits)

lemma unhashable_version_type_error:
  assumes "\<not> hashable (jget d ''schema_version'')"
  shows "read_manifest decode n (Holds (JObj d)) = Inl TypeErr"
proof -
  have "has_key ''schema_version'' (stripped d)"
    using assms by (intro has_key_jget) (auto simp: stripped_version)
  then show ?thesis
    using assms by (simp add: read_manifest_obj validate_data_def Let_def stripped_version)
qed

text \<open>
  Reading a manifest fails in the documented ways, and for the documented reasons: a missing
  file, an unreadable one, corrupt content, missing fields; the only other exceptions are a
  \<open>UnicodeDecodeError\<close> for bytes that are not UTF-8, a \<open>TypeError\<close> for a \<open>schema_version\<close>
  that is a list or an object,
  and an \<open>AttributeError\<close> from the upgrade of a schema v1 or v2 file.
\<close>

lemma read_manifest_failures:
  shows "read_manifest decode name f = Inl e \<Longrightarrow> read_failure_reason e f"
proof (cases f)
  case (Holds v)
  assume fail: "read_manifest decode name f = Inl e"
  show ?thesis
  proof (cases v)
    case (JObj d)
    with fail Holds show ?thesis by (simp only: read_obj_Inl)
  qed (use fail Holds in \<open>auto simp: read_manifest_def\<close>)
qed (auto simp: read_manifest_def)

lemma read_manifest_failures_witness:
  "read_failure_reason TypeErr (Holds (JObj [(''schema_version'', JList [])]))"
  by (rule read_manifest_failures [where decode = Inr and name = "''demo''"]) code_simp

end
