(* ===== verification/Store.thy ===== *)
theory Store
  imports Manifest
begin

text \<open>
  The stateful half of \<open>session/store.py\<close>: one session directory, its manifest and its owner file
  \<open>review-identity\<close>, and every operation of \<open>SessionStore\<close> on them, each under the manifest lock
  it takes (so an operation is one atomic step towards other lock holders, and its trace lists the
  states a crash can leave). Lock timeouts are left out: an operation that cannot get its lock does
  nothing.

  \<open>decode\<close> is the strict dataclass decoder, \<open>sha\<close> the digest of the manifest's bytes, \<open>tok\<close> the
  value \<open>uuid4().hex\<close> returns.
\<close>

section \<open>The session directory\<close>

text \<open>A symlink is remembered with whether its target exists.\<close>

datatype owner_file = NoOwner | OwnerText string | OwnerSymlink bool | OwnerSpecial

text \<open>
  \<open>history\<close> says whether the artifact directory holds Stop reviews, \<open>cleanup\<close> whether the retry
  inventory of an interrupted deletion exists; both live outside the session directory.
\<close>

record sdir =
  present :: bool
  manifest :: state_file
  owner :: owner_file
  lock_entry :: bool
  other_entries :: bool
  history :: bool
  cleanup :: bool

definition remove_dir :: "sdir \<Rightarrow> sdir" where
  "remove_dir d = d\<lparr>present := False, manifest := Missing, owner := NoOwner,
                    lock_entry := False, other_entries := False\<rparr>"

definition is_session_shell :: "sdir \<Rightarrow> bool" where
  "is_session_shell d \<longleftrightarrow>
     \<not> present d \<or> (manifest d = Missing \<and> owner d = NoOwner \<and> \<not> other_entries d)"

definition store_exists :: "sdir \<Rightarrow> bool" where
  "store_exists d \<longleftrightarrow> is_file (manifest d)"

definition read_raw :: "sdir \<Rightarrow> err + json option" where
  "read_raw d =
     (case manifest d of
        Holds v \<Rightarrow> Inr (Some v)
      | Undecodable \<Rightarrow> Inl decode_error
      | _ \<Rightarrow> Inr None)"

section \<open>The owner token\<close>

definition owner_prefix :: string where
  "owner_prefix = ''review-owner-v1:''"

definition valid_instance_id :: "string \<Rightarrow> bool" where
  "valid_instance_id t \<longleftrightarrow> length t = 32 \<and> list_all (\<lambda>c. c \<in> set ''0123456789abcdef'') t"

definition owner_text :: "string \<Rightarrow> string" where
  "owner_text tok = owner_prefix @ tok @ [newline]"

definition removeprefix :: "string \<Rightarrow> string \<Rightarrow> string" where
  "removeprefix p s = (if prefix p s then drop (length p) s else s)"

definition remove_final_newline :: "string \<Rightarrow> string" where
  "remove_final_newline s = (if s \<noteq> [] \<and> last s = newline then butlast s else s)"

text \<open>At most 80 bytes are read.\<close>

definition parse_owner :: "string \<Rightarrow> err + string" where
  "parse_owner content =
     (let raw = take 80 content;
          value = remove_final_newline (removeprefix owner_prefix raw)
      in if \<not> prefix owner_prefix raw \<or> \<not> valid_instance_id value
         then Inl (ValueErr ''Invalid Stop review owner'') else Inr value)"

definition review_identity :: "sdir \<Rightarrow> err + string option" where
  "review_identity d =
     (case owner d of
        NoOwner \<Rightarrow> if history d then Inl (ValueErr ''Stop review history has no session owner'') else Inr None
      | OwnerSymlink _ \<Rightarrow> Inl OsErr
      | OwnerSpecial \<Rightarrow> Inl (ValueErr ''Invalid Stop review owner file'')
      | OwnerText content \<Rightarrow> (case parse_owner content of Inl e \<Rightarrow> Inl e | Inr t \<Rightarrow> Inr (Some t)))"

definition owner_path_exists :: "sdir \<Rightarrow> bool" where
  "owner_path_exists d = (case owner d of NoOwner \<Rightarrow> False | OwnerSymlink b \<Rightarrow> b | _ \<Rightarrow> True)"

section \<open>Steps\<close>

text \<open>Acquiring the manifest lock creates the directory and the lock file.\<close>

definition lock_step :: "(sdir, err, unit) op" where
  "lock_step = durable OsErr WriteOk (\<lambda>d. d\<lparr>present := True, lock_entry := True\<rparr>)"

definition mkdir_step :: "(sdir, err, unit) op" where
  "mkdir_step = durable OsErr WriteOk (\<lambda>d. d\<lparr>present := True\<rparr>)"

definition write_owner :: "string \<Rightarrow> wout \<Rightarrow> (sdir, err, unit) op" where
  "write_owner tok out = durable OsErr out (\<lambda>d. d\<lparr>present := True, owner := OwnerText (owner_text tok)\<rparr>)"

definition write_unlocked :: "string \<Rightarrow> jobj \<Rightarrow> wout \<Rightarrow> (sdir, err, unit) op" where
  "write_unlocked name m out =
     and_then (check (write_content name m))
       (\<lambda>data. durable OsErr out (\<lambda>d. d\<lparr>present := True, manifest := Holds (JObj data)\<rparr>))"

definition ensure_session_dir :: "string \<Rightarrow> (sdir, err, unit) op" where
  "ensure_session_dir name = and_then (check (validate_name name)) (\<lambda>_. mkdir_step)"

definition read_step :: "(jobj \<Rightarrow> string + jobj) \<Rightarrow> string \<Rightarrow> (sdir, err, jobj) op" where
  "read_step decode name = on_state (\<lambda>d. check (read_manifest decode name (manifest d)))"

definition identity_step :: "(sdir, err, string option) op" where
  "identity_step = on_state (\<lambda>d. check (review_identity d))"

section \<open>SessionStore\<close>

definition write_manifest :: "string \<Rightarrow> jobj \<Rightarrow> wout \<Rightarrow> (sdir, err, unit) op" where
  "write_manifest name m out =
     and_then (ensure_session_dir name) (\<lambda>_. and_then lock_step (\<lambda>_. write_unlocked name m out))"

definition create_exclusive ::
  "string \<Rightarrow> jobj \<Rightarrow> string \<Rightarrow> wout \<Rightarrow> wout \<Rightarrow> (sdir, err, unit) op" where
  "create_exclusive name m tok out1 out2 =
     and_then (ensure_session_dir name) (\<lambda>_.
     and_then lock_step (\<lambda>_.
     on_state (\<lambda>d. if store_exists d then raise (SessionExists name)
       else and_then (write_owner tok out1) (\<lambda>_. write_unlocked name m out2))))"

text \<open>\<open>review_identity(create=True)\<close>\<close>

definition review_identity_create ::
  "(jobj \<Rightarrow> string + jobj) \<Rightarrow> string \<Rightarrow> string \<Rightarrow> wout \<Rightarrow> (sdir, err, string option) op" where
  "review_identity_create decode name tok out =
     and_then
       (on_state (\<lambda>d. if owner_path_exists d then ret ()
          else and_then lock_step (\<lambda>_. and_then (read_step decode name) (\<lambda>_.
            on_state (\<lambda>d. if history d then raise (ValueErr ''Stop review history has no session owner'')
              else if \<not> owner_path_exists d then write_owner tok out else ret ())))))
       (\<lambda>_. identity_step)"

text \<open>The tests of \<open>migrate_instance_identity\<close> on the token it read.\<close>

definition migrate_checks ::
  "(state_file \<Rightarrow> string) \<Rightarrow> string option \<Rightarrow> string option \<Rightarrow> bool \<Rightarrow> sdir \<Rightarrow> err + string option" where
  "migrate_checks sha expected_sha expected require_ownerless d =
     (if expected_sha \<noteq> None \<and> manifest d = Unreadable then Inl ManifestUnreadable
      else if expected_sha \<noteq> None \<and> expected_sha \<noteq> Some (sha (manifest d)) then Inl ManifestChanged
      else (case review_identity d of Inl e \<Rightarrow> Inl e
            | Inr token \<Rightarrow>
                if require_ownerless \<and> token \<noteq> None
                  then Inl (ValueErr ''Session instance changed since preview; expected an ownerless session'')
                else if expected \<noteq> None \<and> token \<noteq> expected
                  then Inl (ValueErr ''Session has inconsistent instance ownership; restore its owner file'')
                else Inr token))"

definition migrate_instance_identity ::
  "(jobj \<Rightarrow> string + jobj) \<Rightarrow> (state_file \<Rightarrow> string) \<Rightarrow> string \<Rightarrow> string option \<Rightarrow> string option \<Rightarrow> bool \<Rightarrow>
   string \<Rightarrow> wout \<Rightarrow> (sdir, err, string) op" where
  "migrate_instance_identity decode sha name expected_sha expected require_ownerless tok out =
     on_state (\<lambda>d. if \<not> store_exists d then raise SessionFileNotFound
       else and_then lock_step (\<lambda>_.
         and_then (read_step decode name) (\<lambda>_.
         and_then (on_state (\<lambda>d. check (migrate_checks sha expected_sha expected require_ownerless d)))
           (\<lambda>token. case token of
              Some t \<Rightarrow> ret t
            | None \<Rightarrow> and_then (write_owner tok out) (\<lambda>_. ret tok)))))"

text \<open>The generation fence of \<open>update\<close>.\<close>

definition check_generation :: "string \<Rightarrow> string option \<Rightarrow> sdir \<Rightarrow> err + unit" where
  "check_generation name expected d =
     (case expected of
        None \<Rightarrow> Inr ()
      | Some x \<Rightarrow>
          (case validate_name name of Inl e \<Rightarrow> Inl e
           | Inr _ \<Rightarrow>
          (case review_identity d of Inl e \<Rightarrow> Inl e
           | Inr token \<Rightarrow> if token \<noteq> Some x \<or> cleanup d then Inl ManifestChanged else Inr ())))"

definition update ::
  "(jobj \<Rightarrow> string + jobj) \<Rightarrow> string \<Rightarrow> string option \<Rightarrow> (jobj \<Rightarrow> err + jobj) \<Rightarrow> wout \<Rightarrow> (sdir, err, jobj) op" where
  "update decode name expected mutate out =
     on_state (\<lambda>d. if expected \<noteq> None \<and> \<not> store_exists d then raise SessionFileNotFound
       else and_then lock_step (\<lambda>_.
         and_then (read_step decode name) (\<lambda>m.
         and_then (on_state (\<lambda>d. check (check_generation name expected d))) (\<lambda>_.
         and_then (check (mutate m)) (\<lambda>m'.
         and_then (write_unlocked name m' out) (\<lambda>_. ret m'))))))"

definition update_last_accessed ::
  "(jobj \<Rightarrow> string + jobj) \<Rightarrow> string \<Rightarrow> string \<Rightarrow> wout \<Rightarrow> (sdir, err, jobj) op" where
  "update_last_accessed decode name now out =
     update decode name None (\<lambda>m. Inr (dset m ''last_accessed_at'' (JStr now))) out"

definition check_unchanged :: "(state_file \<Rightarrow> string) \<Rightarrow> string \<Rightarrow> sdir \<Rightarrow> err + unit" where
  "check_unchanged sha expected_sha d =
     (case manifest d of
        Missing \<Rightarrow> Inl SessionFileNotFound
      | Unreadable \<Rightarrow> Inl ManifestUnreadable
      | f \<Rightarrow> if sha f \<noteq> expected_sha then Inl ManifestChanged else Inr ())"

definition update_if_unchanged ::
  "(jobj \<Rightarrow> string + jobj) \<Rightarrow> (state_file \<Rightarrow> string) \<Rightarrow> string \<Rightarrow> string \<Rightarrow> (jobj \<Rightarrow> err + jobj) option \<Rightarrow> wout \<Rightarrow>
   (sdir, err, unit) op" where
  "update_if_unchanged decode sha name expected_sha mutate out =
     and_then lock_step (\<lambda>_.
     and_then (on_state (\<lambda>d. check (check_unchanged sha expected_sha d))) (\<lambda>_.
       case mutate of
         None \<Rightarrow> ret ()
       | Some f \<Rightarrow> and_then (read_step decode name) (\<lambda>m.
           and_then (check (f m)) (\<lambda>m'. write_unlocked name m' out))))"

text \<open>The manifest goes first, then the directory; either removal may fail.\<close>

definition delete_locked :: "wout \<Rightarrow> wout \<Rightarrow> (sdir, err, bool) op" where
  "delete_locked out1 out2 =
     on_state (\<lambda>d. if \<not> present d then ret False
       else and_then (durable OsErr out1 (\<lambda>d. d\<lparr>manifest := Missing\<rparr>)) (\<lambda>_.
            and_then (durable OsErr out2 remove_dir) (\<lambda>_. ret True)))"

definition delete :: "wout \<Rightarrow> wout \<Rightarrow> (sdir, err, bool) op" where
  "delete out1 out2 =
     on_state (\<lambda>d. if \<not> present d then ret False
       else and_then lock_step (\<lambda>_. delete_locked out1 out2))"

lemmas store_steps = lock_step_def mkdir_step_def write_owner_def write_unlocked_def
  ensure_session_dir_def read_step_def identity_step_def

section \<open>Lemmas\<close>

lemma sdir_step_simps [simp]:
  "lock_step d = ([d\<lparr>present := True, lock_entry := True\<rparr>], Inr ())"
  "mkdir_step d = ([d\<lparr>present := True\<rparr>], Inr ())"
  "identity_step d = ([], review_identity d)"
  "read_step decode n d = ([], read_manifest decode n (manifest d))"
  by (simp_all add: store_steps)

lemma and_then_step:
  "f w = (t, Inr a) \<Longrightarrow> and_then f g w = (t @ fst (g a (final w t)), snd (g a (final w t)))"
  "f w = (t, Inl e) \<Longrightarrow> and_then f g w = (t, Inl e)"
  by (simp_all add: and_then_def split: prod.splits)

lemma take_prefix_short: "length (take n s) < n \<Longrightarrow> take n s = s"
  by simp

lemma remove_final_newline_eq:
  "newline \<notin> set t \<Longrightarrow> remove_final_newline s = t \<longleftrightarrow> s = t \<or> s = t @ [newline]"
  by (cases s rule: rev_cases) (auto simp: remove_final_newline_def)

lemma valid_instance_no_newline:
  assumes "valid_instance_id t"
  shows "newline \<notin> set t"
proof
  assume "newline \<in> set t"
  with assms have "newline \<in> set ''0123456789abcdef''"
    unfolding valid_instance_id_def list_all_iff by blast
  then show False by simp
qed

lemma parse_owner_iff:
  "parse_owner s = Inr t \<longleftrightarrow> valid_instance_id t \<and> (s = owner_prefix @ t \<or> s = owner_text t)"
proof
  assume p: "parse_owner s = Inr t"
  let ?raw = "take 80 s"
  from p have pre: "prefix owner_prefix ?raw" and v: "valid_instance_id t"
    and t: "remove_final_newline (removeprefix owner_prefix ?raw) = t"
    by (auto simp: parse_owner_def Let_def split: if_splits)
  from pre obtain z where z: "?raw = owner_prefix @ z" by (auto simp: prefix_def)
  then have "remove_final_newline z = t" using t by (simp add: removeprefix_def)
  then have zt: "z = t \<or> z = t @ [newline]"
    by (simp add: remove_final_newline_eq [OF valid_instance_no_newline [OF v]])
  then have "length ?raw < 80"
    using z v by (auto simp: valid_instance_id_def owner_prefix_def)
  then have "?raw = s" by (rule take_prefix_short)
  with z zt v show "valid_instance_id t \<and> (s = owner_prefix @ t \<or> s = owner_text t)"
    by (auto simp: owner_text_def)
next
  assume a: "valid_instance_id t \<and> (s = owner_prefix @ t \<or> s = owner_text t)"
  then obtain z where z: "s = owner_prefix @ z" "z = t \<or> z = t @ [newline]"
    by (auto simp: owner_text_def)
  have "length s \<le> 80" using a by (auto simp: valid_instance_id_def owner_prefix_def owner_text_def)
  moreover have "remove_final_newline z = t"
    using a z(2) remove_final_newline_eq valid_instance_no_newline by blast
  ultimately show "parse_owner s = Inr t"
    using a z(1) by (simp add: parse_owner_def removeprefix_def)
qed

lemma review_identity_frame [simp]:
  "review_identity (d\<lparr>present := b\<rparr>) = review_identity d"
  "review_identity (d\<lparr>lock_entry := b\<rparr>) = review_identity d"
  "review_identity (d\<lparr>manifest := f\<rparr>) = review_identity d"
  by (simp_all add: review_identity_def)

lemma check_generation_frame [simp]:
  "check_generation name x (d\<lparr>present := b\<rparr>) = check_generation name x d"
  "check_generation name x (d\<lparr>lock_entry := b\<rparr>) = check_generation name x d"
  by (cases x; cases "validate_name name"; cases "review_identity d"; simp add: check_generation_def)+

lemma review_identity_owner_text:
  "valid_instance_id tok \<Longrightarrow> owner d = OwnerText (owner_text tok) \<Longrightarrow> review_identity d = Inr (Some tok)"
  using parse_owner_iff [of "owner_text tok" tok] by (simp add: review_identity_def)

text \<open>The states a creation passes through.\<close>

lemma create_exclusive_eval:
  "create_exclusive name m tok out1 out2 d =
     (let d2 = d\<lparr>present := True, lock_entry := True\<rparr>; d3 = d2\<lparr>owner := OwnerText (owner_text tok)\<rparr> in
      case validate_name name of Inl e \<Rightarrow> ([], Inl e)
      | Inr _ \<Rightarrow>
        if store_exists d then ([d\<lparr>present := True\<rparr>, d2], Inl (SessionExists name))
        else (case out1 of
          FailBefore \<Rightarrow> ([d\<lparr>present := True\<rparr>, d2], Inl OsErr)
        | FailAfter \<Rightarrow> ([d\<lparr>present := True\<rparr>, d2, d3], Inl OsErr)
        | WriteOk \<Rightarrow>
            (case write_content name m of
               Inl e \<Rightarrow> ([d\<lparr>present := True\<rparr>, d2, d3], Inl e)
             | Inr data \<Rightarrow>
                 (let d4 = d3\<lparr>manifest := Holds (JObj data)\<rparr> in
                  case out2 of
                    FailBefore \<Rightarrow> ([d\<lparr>present := True\<rparr>, d2, d3], Inl OsErr)
                  | FailAfter \<Rightarrow> ([d\<lparr>present := True\<rparr>, d2, d3, d4], Inl OsErr)
                  | WriteOk \<Rightarrow> ([d\<lparr>present := True\<rparr>, d2, d3, d4], Inr ())))))"
proof (cases "validate_name name")
  case (Inl e)
  then show ?thesis by (simp add: create_exclusive_def ensure_session_dir_def and_then_def)
next
  case (Inr u)
  then show ?thesis
    by (cases out1; cases out2; cases "write_content name m")
      (simp_all add: create_exclusive_def ensure_session_dir_def and_then_def write_owner_def
        write_unlocked_def store_exists_def Let_def)
qed

lemma write_content_name: "write_content name m = Inr data \<Longrightarrow> validate_name name = Inr ()"
  by (auto simp: write_content_def split: json.splits sum.splits if_splits)

section \<open>Creations claim a name\<close>

text \<open>The claims of a list, one after the other, with whether each succeeded.\<close>

primrec claims :: "('c \<Rightarrow> ('d, 'e, 'r) op) \<Rightarrow> 'c list \<Rightarrow> 'd \<Rightarrow> bool list" where
  "claims claim [] d = []"
| "claims claim (c # cs) d =
     (case snd (claim c d) of Inl _ \<Rightarrow> False | Inr _ \<Rightarrow> True) # claims claim cs (final d (fst (claim c d)))"

text \<open>
  The contract index transactions rest on: a claim succeeds only on a free state and then the
  state is taken; on a taken state it fails and the state stays taken; a failed claim of a free
  state may still leave it taken (an interrupted write).
\<close>

locale reservation =
  fixes taken :: "'d \<Rightarrow> bool"
    and claim :: "'c \<Rightarrow> ('d, 'e, 'r) op"
  assumes claim_free: "snd (claim c d) = Inr r \<Longrightarrow> \<not> taken d \<and> taken (final d (fst (claim c d)))"
    and claim_taken: "taken d \<Longrightarrow> d' \<in> set (fst (claim c d)) \<Longrightarrow> taken d'"
begin

lemma claim_taken_fails: "taken d \<Longrightarrow> snd (claim c d) \<noteq> Inr r"
  using claim_free by blast

lemma claim_taken_final: "taken d \<Longrightarrow> taken (final d (fst (claim c d)))"
  using final_in [of d "fst (claim c d)"] claim_taken [of d _ c] by auto

lemma claims_taken: "taken d \<Longrightarrow> True \<notin> set (claims claim cs d)"
proof (induction cs arbitrary: d)
  case (Cons c cs)
  have "True \<notin> set (claims claim cs (final d (fst (claim c d))))"
    by (rule Cons.IH [OF claim_taken_final [OF Cons.prems]])
  moreover have "(case snd (claim c d) of Inl _ \<Rightarrow> False | Inr _ \<Rightarrow> True) = False"
    using claim_taken_fails [OF Cons.prems, of c] by (auto split: sum.splits)
  ultimately show ?case by simp
qed simp

lemma at_most_one_claim: "length (filter id (claims claim cs d)) \<le> 1"
proof (induction cs arbitrary: d)
  case (Cons c cs)
  show ?case
  proof (cases "snd (claim c d)")
    case (Inl e)
    then show ?thesis using Cons.IH [of "final d (fst (claim c d))"] by simp
  next
    case (Inr r)
    then have "taken (final d (fst (claim c d)))" using claim_free by blast
    from claims_taken [OF this, of cs] have "filter id (claims claim cs (final d (fst (claim c d)))) = []"
      by (auto simp: filter_empty_conv)
    then show ?thesis using Inr by (simp add: id_def)
  qed
qed simp

end


text \<open>A creation as a claim: name, manifest, token and the outcomes of its two writes.\<close>

fun create_claim :: "string \<times> jobj \<times> string \<times> wout \<times> wout \<Rightarrow> (sdir, err, unit) op" where
  "create_claim (name, m, tok, out1, out2) = create_exclusive name m tok out1 out2"

lemma create_exclusive_Inr:
  assumes "snd (create_exclusive name m tok out1 out2 d) = Inr r"
  obtains data where "\<not> store_exists d" "write_content name m = Inr data"
    "final d (fst (create_exclusive name m tok out1 out2 d)) =
       d\<lparr>present := True, lock_entry := True, owner := OwnerText (owner_text tok), manifest := Holds (JObj data)\<rparr>"
  using assms unfolding create_exclusive_eval Let_def
  by (auto split: sum.splits if_splits wout.splits)

lemma create_exclusive_taken:
  "store_exists d \<Longrightarrow> d' \<in> set (fst (create_exclusive name m tok out1 out2 d)) \<Longrightarrow>
     manifest d' = manifest d \<and> owner d' = owner d"
  unfolding create_exclusive_eval Let_def by (auto split: sum.splits)

interpretation creation: reservation store_exists create_claim
proof
  fix c d r assume s: "snd (create_claim c d) = Inr r"
  obtain n m t x y where c: "c = (n, m, t, x, y)" by (cases c)
  from s c have "snd (create_exclusive n m t x y d) = Inr r" by simp
  then show "\<not> store_exists d \<and> store_exists (final d (fst (create_claim c d)))"
    by (rule create_exclusive_Inr) (simp add: c store_exists_def)
next
  fix c d d' assume "store_exists d" and m: "d' \<in> set (fst (create_claim c d))"
  obtain n k t x y where "c = (n, k, t, x, y)" by (cases c)
  with m \<open>store_exists d\<close> show "store_exists d'"
    using create_exclusive_taken [of d d'] by (simp add: store_exists_def)
qed

lemma write_unlocked_mem:
  assumes "d' \<in> set (fst (write_unlocked name m out d))"
  obtains data where "write_content name m = Inr data" "d' = d\<lparr>present := True, manifest := Holds (JObj data)\<rparr>"
  using assms by (cases "write_content name m") (auto simp: write_unlocked_def and_then_def dest!: durable_mem split: prod.splits sum.splits)

lemma write_unlocked_Inr:
  assumes "snd (write_unlocked name m out d) = Inr u"
  obtains data where "write_content name m = Inr data"
    "write_unlocked name m out d = ([d\<lparr>present := True, manifest := Holds (JObj data)\<rparr>], Inr ())"
  using assms by (cases "write_content name m"; cases out) (auto simp: write_unlocked_def and_then_def)

text \<open>An update: what it checks, and where it writes.\<close>

lemma update_eval:
  "update decode name expected mutate out d =
     (if expected \<noteq> None \<and> \<not> store_exists d then ([], Inl SessionFileNotFound)
      else let d1 = d\<lparr>present := True, lock_entry := True\<rparr> in
        (case read_manifest decode name (manifest d) of Inl e \<Rightarrow> ([d1], Inl e)
         | Inr m \<Rightarrow> (case check_generation name expected d of Inl e \<Rightarrow> ([d1], Inl e)
         | Inr _ \<Rightarrow> (case mutate m of Inl e \<Rightarrow> ([d1], Inl e)
         | Inr m' \<Rightarrow> (case write_unlocked name m' out d1 of
              (t, Inl e) \<Rightarrow> (d1 # t, Inl e) | (t, Inr _) \<Rightarrow> (d1 # t, Inr m'))))))"
  by (auto simp: update_def and_then_def Let_def split: sum.splits prod.splits)


lemma update_mem:
  assumes "d' \<in> set (fst (update decode name expected mutate out d))"
  obtains "d' = d\<lparr>present := True, lock_entry := True\<rparr>" "expected = None \<or> store_exists d"
  | m m' where "read_manifest decode name (manifest d) = Inr m" "mutate m = Inr m'"
      "d' \<in> set (fst (write_unlocked name m' out (d\<lparr>present := True, lock_entry := True\<rparr>)))"
  using assms unfolding update_eval Let_def by (auto split: sum.splits if_splits prod.splits)

lemma write_unlocked_present: "d' \<in> set (fst (write_unlocked name m out d)) \<Longrightarrow> present d'"
  by (erule write_unlocked_mem) simp

section \<open>Properties\<close>

definition sample_token :: string where
  "sample_token = ''0123456789abcdef0123456789abcdef''"

definition empty_sdir :: sdir where
  "empty_sdir = \<lparr>present = False, manifest = Missing, owner = NoOwner, lock_entry = False,
     other_entries = False, history = False, cleanup = False\<rparr>"

definition written_sdir :: sdir where
  "written_sdir = final empty_sdir (fst (create_exclusive ''demo'' sample_state sample_token WriteOk WriteOk empty_sdir))"

text \<open>
  The owner file round trips: what a creation writes is read back as its token, and a file is
  accepted only if it is the prefix, a token of 32 lower-case hexadecimal digits and at most one
  final newline.
\<close>

lemma owner_token_roundtrip:
  "(valid_instance_id tok \<longrightarrow> parse_owner (owner_text tok) = Inr tok) \<and>
   (parse_owner content = Inr t \<longrightarrow> valid_instance_id t \<and> content \<in> {owner_prefix @ t, owner_text t})"
  using parse_owner_iff by auto

text \<open>
  A manifest never becomes visible under another creation's owner: at every state a creation
  makes durable, the manifest is the one that was there, or it is the content this creation writes
  and the owner file already holds its token. A successful creation leaves exactly that state, and
  the next reader sees its token.
\<close>

lemma create_binds_generation:
  assumes "valid_instance_id tok"
  shows "(\<forall>d' \<in> set (fst (create_exclusive name m tok out1 out2 d)).
       manifest d' = manifest d \<or>
       (\<exists>data. write_content name m = Inr data \<and> manifest d' = Holds (JObj data) \<and>
          review_identity d' = Inr (Some tok))) \<and>
    (\<forall>r. snd (create_exclusive name m tok out1 out2 d) = Inr r \<longrightarrow>
       \<not> store_exists d \<and>
       review_identity (final d (fst (create_exclusive name m tok out1 out2 d))) = Inr (Some tok) \<and>
       store_exists (final d (fst (create_exclusive name m tok out1 out2 d))))"
proof (intro conjI ballI allI impI)
  fix d' assume "d' \<in> set (fst (create_exclusive name m tok out1 out2 d))"
  then have "manifest d' = manifest d \<or>
      owner d' = OwnerText (owner_text tok) \<and> (\<exists>data. write_content name m = Inr data \<and> manifest d' = Holds (JObj data))"
    unfolding create_exclusive_eval Let_def by (auto split: sum.splits if_splits wout.splits)
  then show "manifest d' = manifest d \<or>
      (\<exists>data. write_content name m = Inr data \<and> manifest d' = Holds (JObj data) \<and> review_identity d' = Inr (Some tok))"
    using review_identity_owner_text [OF assms, of d'] by blast
next
  fix r assume "snd (create_exclusive name m tok out1 out2 d) = Inr r"
  then obtain data where c: "\<not> store_exists d"
    "final d (fst (create_exclusive name m tok out1 out2 d)) =
       d\<lparr>present := True, lock_entry := True, owner := OwnerText (owner_text tok), manifest := Holds (JObj data)\<rparr>"
    by (rule create_exclusive_Inr)
  from c show "\<not> store_exists d" "store_exists (final d (fst (create_exclusive name m tok out1 out2 d)))"
    "review_identity (final d (fst (create_exclusive name m tok out1 out2 d))) = Inr (Some tok)"
    by (simp_all add: store_exists_def review_identity_owner_text [OF assms])
qed

lemma create_binds_generation_witness:
  "review_identity written_sdir = Inr (Some sample_token)"
proof -
  have v: "valid_instance_id sample_token" by code_simp
  have "snd (create_exclusive ''demo'' sample_state sample_token WriteOk WriteOk empty_sdir) = Inr ()"
    by code_simp
  with create_binds_generation [OF v, of "''demo''" sample_state WriteOk WriteOk empty_sdir] show ?thesis
    unfolding written_sdir_def by blast
qed

text \<open>
  However many creations of one session run one after the other, with whatever names,
  manifests, tokens and interrupted writes, at most one of them succeeds.
\<close>

lemma one_creation_wins:
  "length (filter id (claims create_claim cs d)) \<le> 1"
  by (rule creation.at_most_one_claim)

text \<open>
  C4. The fence of a detached writer: an update that names the instance it was started for
  succeeds only if that instance still owns the directory and no deletion of it is unfinished.
  Whatever the outcome, every durable state keeps the owner file, and the manifest is the old one
  or the mutation of it that the update was to write.
\<close>

theorem update_fenced:
  "(\<forall>m'. snd (update decode name (Some x) mutate out d) = Inr m' \<longrightarrow>
      review_identity d = Inr (Some x) \<and> \<not> cleanup d \<and>
      (\<exists>m. read_manifest decode name (manifest d) = Inr m \<and> mutate m = Inr m')) \<and>
   (\<forall>d' \<in> set (fst (update decode name expected mutate out d)).
      owner d' = owner d \<and>
      (manifest d' = manifest d \<or>
       (\<exists>m m' data. read_manifest decode name (manifest d) = Inr m \<and> mutate m = Inr m' \<and>
          write_content name m' = Inr data \<and> manifest d' = Holds (JObj data))))"
proof (intro conjI ballI allI impI)
  fix m' assume "snd (update decode name (Some x) mutate out d) = Inr m'"
  then obtain m where "read_manifest decode name (manifest d) = Inr m" "mutate m = Inr m'"
    and g: "check_generation name (Some x) d = Inr ()"
    unfolding update_eval Let_def by (auto split: sum.splits if_splits prod.splits)
  moreover from g have "review_identity d = Inr (Some x)" "\<not> cleanup d"
    by (auto simp: check_generation_def split: sum.splits if_splits)
  ultimately show "review_identity d = Inr (Some x)" "\<not> cleanup d"
    "\<exists>m. read_manifest decode name (manifest d) = Inr m \<and> mutate m = Inr m'" by blast+
next
  fix d' assume "d' \<in> set (fst (update decode name expected mutate out d))"
  then show "owner d' = owner d"
    "manifest d' = manifest d \<or>
       (\<exists>m m' data. read_manifest decode name (manifest d) = Inr m \<and> mutate m = Inr m' \<and>
          write_content name m' = Inr data \<and> manifest d' = Holds (JObj data))"
    by (cases rule: update_mem; force elim!: write_unlocked_mem)+
qed

theorem update_fenced_witness:
  "review_identity written_sdir = Inr (Some sample_token) \<and> \<not> cleanup written_sdir"
proof -
  have "case snd (update Inr ''demo'' (Some sample_token) Inr WriteOk written_sdir) of Inr _ \<Rightarrow> True | Inl _ \<Rightarrow> False"
    by code_simp
  then obtain m' where "snd (update Inr ''demo'' (Some sample_token) Inr WriteOk written_sdir) = Inr m'"
    by (auto split: sum.splits)
  with update_fenced [THEN conjunct1, rule_format, of Inr "''demo''" sample_token Inr WriteOk written_sdir m']
  show ?thesis by blast
qed

text \<open>
  Deletion is terminal for updates: once a deletion has made anything durable after taking
  its lock, an update that runs in that state, or in any later state of the deletion, fails because
  the manifest is gone and leaves it gone, whichever instance it was started for.
\<close>

lemma deleted_not_resurrected:
  assumes "d' \<in> set (tl (fst (delete out1 out2 d)))"
  shows "snd (update decode name expected mutate out d') = Inl SessionFileNotFound \<and>
    (\<forall>d'' \<in> set (fst (update decode name expected mutate out d')). manifest d'' = Missing)"
proof -
  from assms have "manifest d' = Missing"
    by (cases out1; cases out2)
      (auto simp: delete_def delete_locked_def and_then_def remove_dir_def split: if_splits)
  then show ?thesis
    by (auto simp: update_eval Let_def read_manifest_def store_exists_def)
qed

lemma deleted_not_resurrected_witness:
  "snd (update Inr ''demo'' None Inr WriteOk (written_sdir\<lparr>manifest := Missing\<rparr>)) = Inl SessionFileNotFound"
proof (rule deleted_not_resurrected [THEN conjunct1])
  show "written_sdir\<lparr>manifest := Missing\<rparr> \<in> set (tl (fst (delete WriteOk WriteOk written_sdir)))"
    by code_simp
qed

end
