(* ===== verification/Index.thy ===== *)
theory Index
  imports Store "HOL-Library.Product_Lexorder"
begin

text \<open>
  The global session index, \<open>session/index.py\<close>: its rows, the reader and its checks, and every
  operation of \<open>IndexStore\<close>. A world is the index file and the session directories of all roots.

  An operation that holds the index lock throughout is one operation on the world, with the trace
  of the worlds its writes make durable. The two that release the lock between their phases
  (\<open>list_sessions\<close>, \<open>get_session\<close>) take one world per phase, so that anything may have happened
  in between. What the code calls outside the repository (the digest, path resolution, the strict
  decoder, timestamp parsing) is in the record \<open>env\<close>.
\<close>

section \<open>Rows and worlds\<close>

record entry =
  worktree_path :: string
  project_root :: string
  last_accessed_at :: string
  is_fork :: bool
  is_incognito :: bool
  parent_session :: "string option"
  claude_session_id :: "string option"
  codex_thread_id :: "string option"
  forge_root :: string
  checkout_root :: string
  relative_path :: string
  instance_id :: "string option"

type_synonym rows = "(string, entry) dict"

text \<open>The property \<open>root\<close> of an entry, also spelled \<open>entry.forge_root or entry.worktree_path\<close>.\<close>

definition root_of :: "entry \<Rightarrow> string" where
  "root_of e = (if forge_root e \<noteq> [] then forge_root e else worktree_path e)"

record world =
  index_file :: state_file
  dirs :: "string \<Rightarrow> string \<Rightarrow> sdir"

record env =
  hexdigest :: "string \<Rightarrow> string"
  canonical :: "string \<Rightarrow> string"
  decode_index :: "jobj \<Rightarrow> string + rows"
  timestamp :: "string \<Rightarrow> rat option"

definition dir_of :: "env \<Rightarrow> world \<Rightarrow> string \<Rightarrow> string \<Rightarrow> sdir" where
  "dir_of env w rt name = dirs w (canonical env rt) name"

definition set_dir :: "env \<Rightarrow> string \<Rightarrow> string \<Rightarrow> sdir \<Rightarrow> world \<Rightarrow> world" where
  "set_dir env rt name d w =
     w\<lparr>dirs := (dirs w)(canonical env rt := (dirs w (canonical env rt))(name := d))\<rparr>"

text \<open>An operation of a session's store, on the world.\<close>

definition in_dir :: "env \<Rightarrow> string \<Rightarrow> string \<Rightarrow> (sdir, err, 'a) op \<Rightarrow> (world, err, 'a) op" where
  "in_dir env rt name f =
     (\<lambda>w. case f (dir_of env w rt name) of (t, r) \<Rightarrow> (map (\<lambda>d. set_dir env rt name d w) t, r))"

section \<open>Reading and writing\<close>

definition index_version :: int where
  "index_version = 2"

definition opt_json :: "string option \<Rightarrow> json" where
  "opt_json s = (case s of None \<Rightarrow> JNull | Some t \<Rightarrow> JStr t)"

definition entry_json :: "entry \<Rightarrow> jobj" where
  "entry_json e =
     [(''worktree_path'', JStr (worktree_path e)), (''project_root'', JStr (project_root e)),
      (''last_accessed_at'', JStr (last_accessed_at e)), (''is_fork'', JBool (is_fork e)),
      (''is_incognito'', JBool (is_incognito e)), (''parent_session'', opt_json (parent_session e)),
      (''claude_session_id'', opt_json (claude_session_id e)),
      (''codex_thread_id'', opt_json (codex_thread_id e)), (''forge_root'', JStr (forge_root e)),
      (''checkout_root'', JStr (checkout_root e)), (''relative_path'', JStr (relative_path e)),
      (''instance_id'', opt_json (instance_id e))]"

definition index_json :: "rows \<Rightarrow> jobj" where
  "index_json rs =
     [(''version'', JInt index_version), (''sessions'', JObj (map (\<lambda>(k, e). (k, JObj (entry_json e))) rs))]"

text \<open>The instance check of one row; a v1 row gains \<open>instance_id = None\<close>.\<close>

definition check_row_instance :: "int \<Rightarrow> json \<Rightarrow> err + json" where
  "check_row_instance version v =
     (case v of
        JObj row \<Rightarrow>
          (if version = 1 \<and> has_key ''instance_id'' row
             then Inl (IndexCorrupted ''schema v1 cannot contain instance_id'')
           else if version \<noteq> 1 \<and> \<not> has_key ''instance_id'' row then Inl (IndexCorrupted ''missing instance_id'')
           else (let row = (if version = 1 then dset row ''instance_id'' JNull else row) in
                 case jget row ''instance_id'' of
                   JNull \<Rightarrow> Inr (JObj row)
                 | JStr t \<Rightarrow> if valid_instance_id t then Inr (JObj row) else Inl (IndexCorrupted ''invalid instance_id'')
                 | _ \<Rightarrow> Inl (IndexCorrupted ''invalid instance_id'')))
      | _ \<Rightarrow> Inr v)"

fun check_rows :: "(json \<Rightarrow> err + json) \<Rightarrow> jobj \<Rightarrow> err + jobj" where
  "check_rows f [] = Inr []"
| "check_rows f ((k, v) # d) =
     (case f v of Inl e \<Rightarrow> Inl e
      | Inr v' \<Rightarrow> (case check_rows f d of Inl e \<Rightarrow> Inl e | Inr d' \<Rightarrow> Inr ((k, v') # d')))"

text \<open>\<open>_validate_key_shape\<close>, for one row.\<close>

definition key_shape_ok :: "env \<Rightarrow> string \<Rightarrow> json \<Rightarrow> bool" where
  "key_shape_ok env key v =
     (case v of
        JObj row \<Rightarrow>
          (let rt = (if truthy (jget row ''forge_root'') then jget row ''forge_root'' else jget row ''worktree_path'')
           in case rt of
                JStr r \<Rightarrow> r \<noteq> [] \<and> key = make_scoped_key (hexdigest env) (session_name_from_key key) r
              | _ \<Rightarrow> False)
      | _ \<Rightarrow> True)"

definition read_index :: "env \<Rightarrow> state_file \<Rightarrow> err + rows" where
  "read_index env content =
     (case content of
        Missing \<Rightarrow> Inr []
      | Undecodable \<Rightarrow> Inl decode_error
      | Unparsable \<Rightarrow> Inl (IndexCorrupted ''invalid JSON'')
      | Unreadable \<Rightarrow> Inl IndexUnreadable
      | Holds (JObj data) \<Rightarrow>
          (case dget data ''version'' of
             None \<Rightarrow> Inl (IndexCorrupted ''missing version field'')
           | Some (JInt version) \<Rightarrow>
               (if version \<notin> {1, index_version} then Inl (IndexCorrupted ''incompatible version'')
                else (case (case obj_at data ''sessions'' of
                              None \<Rightarrow> Inr data
                            | Some sessions \<Rightarrow>
                                (case check_rows (check_row_instance version) sessions of
                                   Inl e \<Rightarrow> Inl e
                                 | Inr sessions \<Rightarrow>
                                     if list_all (\<lambda>(k, v). key_shape_ok env k v) sessions
                                     then Inr (dset data ''sessions'' (JObj sessions))
                                     else Inl (IndexCorrupted ''unsupported session index shape''))) of
                        Inl e \<Rightarrow> Inl e
                      | Inr data \<Rightarrow>
                          (case decode_index env (dset data ''version'' (JInt index_version)) of
                             Inl m \<Rightarrow> Inl (IndexCorrupted (''deserialization error: '' @ m))
                           | Inr rs \<Rightarrow> Inr rs)))
           | Some _ \<Rightarrow> Inl (IndexCorrupted ''incompatible version''))
      | Holds _ \<Rightarrow> Inl (IndexCorrupted ''expected JSON object''))"

definition write_index :: "wout \<Rightarrow> rows \<Rightarrow> (world, err, unit) op" where
  "write_index out rs = durable OsErr out (\<lambda>w. w\<lparr>index_file := Holds (JObj (index_json rs))\<rparr>)"

definition read_step_index :: "env \<Rightarrow> (world, err, rows) op" where
  "read_step_index env = on_state (\<lambda>w. check (read_index env (index_file w)))"

section \<open>Probes\<close>

definition manifest_exists_for_row :: "env \<Rightarrow> world \<Rightarrow> string \<Rightarrow> entry \<Rightarrow> bool" where
  "manifest_exists_for_row env w key e = store_exists (dir_of env w (root_of e) (session_name_from_key key))"

text \<open>The retry inventory's path is built from a validated name.\<close>

definition cleanup_pending :: "env \<Rightarrow> world \<Rightarrow> string \<Rightarrow> string \<Rightarrow> err + bool" where
  "cleanup_pending env w rt name =
     (case validate_name name of Inl e \<Rightarrow> Inl e | Inr _ \<Rightarrow> Inr (cleanup (dir_of env w rt name)))"

text \<open>\<open>not manifest_path.is_file() and not _cleanup_pending(...)\<close>\<close>

definition row_stale :: "env \<Rightarrow> world \<Rightarrow> string \<Rightarrow> entry \<Rightarrow> err + bool" where
  "row_stale env w key e =
     (if manifest_exists_for_row env w key e then Inr False
      else (case cleanup_pending env w (root_of e) (session_name_from_key key) of
              Inl x \<Rightarrow> Inl x | Inr b \<Rightarrow> Inr (\<not> b)))"

definition require_instance_id :: "string \<Rightarrow> err + unit" where
  "require_instance_id v =
     (if valid_instance_id v then Inr () else Inl (ValueErr ''A valid session instance_id is required''))"

definition root_msg :: "entry \<Rightarrow> string" where
  "root_msg e = root_of e"

definition strict :: "env \<Rightarrow> rows \<Rightarrow> string \<Rightarrow> string option \<Rightarrow> err + string option" where
  "strict env rs name rt = resolve_key_strict (hexdigest env) root_msg rs name rt"

definition best_effort :: "env \<Rightarrow> rows \<Rightarrow> string \<Rightarrow> string option \<Rightarrow> string option" where
  "best_effort env rs name rt = resolve_key_best_effort (hexdigest env) rs name rt"

text \<open>The strict lookup every named operation starts with: the row, or nothing.\<close>

definition lookup :: "env \<Rightarrow> rows \<Rightarrow> string \<Rightarrow> string option \<Rightarrow> err + (string \<times> entry) option" where
  "lookup env rs name rt =
     (case strict env rs name rt of
        Inl e \<Rightarrow> Inl e
      | Inr None \<Rightarrow> Inr None
      | Inr (Some k) \<Rightarrow> Inr (map_option (\<lambda>e. (k, e)) (dget rs k)))"

section \<open>Listing\<close>

text \<open>The keys found stale when probing without the lock; a probe may raise.\<close>

fun stale_keys :: "env \<Rightarrow> world \<Rightarrow> rows \<Rightarrow> err + string list" where
  "stale_keys env w [] = Inr []"
| "stale_keys env w ((k, e) # rs) =
     (case row_stale env w k e of Inl x \<Rightarrow> Inl x
      | Inr b \<Rightarrow> (case stale_keys env w rs of Inl x \<Rightarrow> Inl x
                  | Inr ks \<Rightarrow> Inr (if b then k # ks else ks)))"

text \<open>The loop under the second lock: drop the keys that are stale still.\<close>

fun drop_stale :: "env \<Rightarrow> world \<Rightarrow> string list \<Rightarrow> rows \<Rightarrow> err + rows" where
  "drop_stale env w [] latest = Inr latest"
| "drop_stale env w (k # ks) latest =
     (case dget latest k of
        None \<Rightarrow> drop_stale env w ks latest
      | Some e \<Rightarrow>
          (case row_stale env w k e of Inl x \<Rightarrow> Inl x
           | Inr b \<Rightarrow> drop_stale env w ks (if b then ddel latest k else latest)))"

definition prune :: "env \<Rightarrow> string list \<Rightarrow> wout \<Rightarrow> (world, err, rows) op" where
  "prune env ks out =
     and_then (read_step_index env) (\<lambda>latest.
     and_then (on_state (\<lambda>w. check (drop_stale env w ks latest))) (\<lambda>pruned.
       if length pruned < length latest then and_then (write_index out pruned) (\<lambda>_. ret pruned)
       else ret pruned))"

text \<open>\<open>_session_recency_sort_key\<close>: parsable timestamps by recency, the others last by name.\<close>

definition recency_key :: "env \<Rightarrow> string \<times> entry \<Rightarrow> nat \<times> rat \<times> string" where
  "recency_key env = (\<lambda>(name, e). case timestamp env (last_accessed_at e) of
      Some t \<Rightarrow> (0, - t, name) | None \<Rightarrow> (1, 0, name))"

definition select_sessions ::
  "env \<Rightarrow> bool \<Rightarrow> string option \<Rightarrow> string option \<Rightarrow> rows \<Rightarrow> (string \<times> entry) list" where
  "select_sessions env include_incognito project_filter root_filter rs =
     sort_key (recency_key env)
       (filter (\<lambda>(n, e). (include_incognito \<or> \<not> is_incognito e)
            \<and> (case project_filter of None \<Rightarrow> True | Some p \<Rightarrow> project_root e = p)
            \<and> (case root_filter of None \<Rightarrow> True | Some r \<Rightarrow> forge_root e = r))
          (map (\<lambda>(k, e). (session_name_from_key k, e)) rs))"

definition list_sessions ::
  "env \<Rightarrow> bool \<Rightarrow> string option \<Rightarrow> string option \<Rightarrow> wout \<Rightarrow> world \<Rightarrow> world \<Rightarrow> (world, err, (string \<times> entry) list) op" where
  "list_sessions env include_incognito project_filter root_filter out w1 w2 =
     and_then (check (read_index env (index_file w1))) (\<lambda>index.
     and_then (check (stale_keys env w2 index)) (\<lambda>stale.
     and_then (if stale \<noteq> [] then prune env stale out else ret index) (\<lambda>rs.
       ret (select_sessions env include_incognito project_filter root_filter rs))))"

text \<open>The read-only peer keeps the rows with a manifest or an unfinished cleanup.\<close>

fun backed_rows :: "env \<Rightarrow> world \<Rightarrow> rows \<Rightarrow> err + rows" where
  "backed_rows env w [] = Inr []"
| "backed_rows env w ((k, e) # rs) =
     (case row_stale env w k e of Inl x \<Rightarrow> Inl x
      | Inr b \<Rightarrow> (case backed_rows env w rs of Inl x \<Rightarrow> Inl x
                  | Inr rs' \<Rightarrow> Inr (if b then rs' else (k, e) # rs')))"

definition peek_sessions ::
  "env \<Rightarrow> bool \<Rightarrow> string option \<Rightarrow> string option \<Rightarrow> world \<Rightarrow> world \<Rightarrow> err + (string \<times> entry) list" where
  "peek_sessions env include_incognito project_filter root_filter w1 w2 =
     (case read_index env (index_file w1) of Inl e \<Rightarrow> Inl e
      | Inr index \<Rightarrow> (case backed_rows env w2 index of Inl e \<Rightarrow> Inl e
      | Inr rs \<Rightarrow> Inr (select_sessions env include_incognito project_filter root_filter rs)))"

definition run_session_entries_txn ::
  "env \<Rightarrow> ((string \<times> entry) list \<Rightarrow> (world, err, 'a) op) \<Rightarrow> (world, err, 'a) op" where
  "run_session_entries_txn env callback =
     and_then (read_step_index env) (\<lambda>index. callback (map (\<lambda>(k, e). (session_name_from_key k, e)) index))"

section \<open>Single sessions\<close>

definition lookup_or_fail :: "env \<Rightarrow> rows \<Rightarrow> string \<Rightarrow> string option \<Rightarrow> err + string \<times> entry" where
  "lookup_or_fail env rs name rt =
     (case lookup env rs name rt of
        Inl e \<Rightarrow> Inl e | Inr None \<Rightarrow> Inl (SessionNotFound name) | Inr (Some p) \<Rightarrow> Inr p)"

text \<open>\<open>store_root.exists() and manifest_path.is_file()\<close>: a file is only there when its root is.\<close>

definition launchable :: "env \<Rightarrow> world \<Rightarrow> string \<Rightarrow> entry \<Rightarrow> bool" where
  "launchable env w name e \<longleftrightarrow> store_exists (dir_of env w (root_of e) name)"

definition get_session ::
  "env \<Rightarrow> string \<Rightarrow> string option \<Rightarrow> wout \<Rightarrow> world \<Rightarrow> world \<Rightarrow> (world, err, entry) op" where
  "get_session env name rt out w1 w2 =
     and_then (check (validate_name name)) (\<lambda>_.
     and_then (check (read_index env (index_file w1))) (\<lambda>index.
     and_then (check (lookup_or_fail env index name rt)) (\<lambda>(_, entry).
       if launchable env w2 name entry \<or> cleanup (dir_of env w2 (root_of entry) name) then ret entry
       else and_then (read_step_index env) (\<lambda>latest.
            and_then (check (lookup_or_fail env latest name rt)) (\<lambda>(key, entry).
            on_state (\<lambda>w. if cleanup (dir_of env w (root_of entry) name) then ret entry
              else if \<not> launchable env w name entry
                then and_then (write_index out (ddel latest key)) (\<lambda>_. raise (SessionNotFound name))
              else ret entry))))))"

definition peek_session ::
  "env \<Rightarrow> string \<Rightarrow> string option \<Rightarrow> world \<Rightarrow> world \<Rightarrow> err + entry option" where
  "peek_session env name rt w1 w2 =
     (case validate_name name of Inl e \<Rightarrow> Inl e
      | Inr _ \<Rightarrow> (case read_index env (index_file w1) of Inl e \<Rightarrow> Inl e
      | Inr index \<Rightarrow> (case lookup env index name rt of Inl e \<Rightarrow> Inl e
      | Inr None \<Rightarrow> Inr None
      | Inr (Some (_, e)) \<Rightarrow>
          Inr (if launchable env w2 name e \<or> cleanup (dir_of env w2 (root_of e) name) then Some e else None))))"

definition session_exists :: "env \<Rightarrow> string \<Rightarrow> string option \<Rightarrow> world \<Rightarrow> err + bool" where
  "session_exists env name rt w =
     (case validate_name name of Inl _ \<Rightarrow> Inr False
      | Inr _ \<Rightarrow> (case read_index env (index_file w) of Inl e \<Rightarrow> Inl e
      | Inr index \<Rightarrow> (case strict env index name rt of Inl e \<Rightarrow> Inl e | Inr k \<Rightarrow> Inr (k \<noteq> None))))"

definition live_session_exists :: "env \<Rightarrow> string \<Rightarrow> string option \<Rightarrow> world \<Rightarrow> err + bool" where
  "live_session_exists env name rt w =
     (case validate_name name of Inl _ \<Rightarrow> Inr False
      | Inr _ \<Rightarrow> (case read_index env (index_file w) of Inl e \<Rightarrow> Inl e
      | Inr index \<Rightarrow> (case lookup env index name rt of Inl e \<Rightarrow> Inl e
      | Inr None \<Rightarrow> Inr False
      | Inr (Some (k, e)) \<Rightarrow> Inr (manifest_exists_for_row env w k e))))"

definition find_session_by_uuid :: "env \<Rightarrow> string \<Rightarrow> world \<Rightarrow> err + (string \<times> string) option" where
  "find_session_by_uuid env uuid w =
     (case read_index env (index_file w) of Inl e \<Rightarrow> Inl e
      | Inr index \<Rightarrow> Inr (map_option (\<lambda>(k, e). (session_name_from_key k, root_of e))
                           (find (\<lambda>(k, e). claude_session_id e = Some uuid) index)))"

section \<open>Creation\<close>

text \<open>What the transaction reads of the \<open>SessionState\<close> it publishes.\<close>

record publication =
  s_name :: string
  s_worktree :: "string option"
  s_forge_root :: "string option"
  s_is_fork :: bool
  s_is_incognito :: bool
  s_parent :: "string option"
  s_claude :: "string option"
  s_codex :: "string option"

text \<open>\<open>a or b\<close> on optional strings.\<close>

definition or_else :: "string option \<Rightarrow> string \<Rightarrow> string" where
  "or_else a b = (case a of Some s \<Rightarrow> if s \<noteq> [] then s else b | None \<Rightarrow> b)"

definition state_worktree :: "publication \<Rightarrow> string \<Rightarrow> string" where
  "state_worktree st proj = (case s_worktree st of Some p \<Rightarrow> p | None \<Rightarrow> proj)"

definition effective_root :: "publication \<Rightarrow> string \<Rightarrow> string option \<Rightarrow> string" where
  "effective_root st proj rt = or_else rt (or_else (s_forge_root st) (state_worktree st proj))"

definition build_entry ::
  "publication \<Rightarrow> string \<Rightarrow> string \<Rightarrow> string option \<Rightarrow> string option \<Rightarrow> string \<Rightarrow> entry" where
  "build_entry st proj eff checkout rel now =
     \<lparr>worktree_path = state_worktree st proj, project_root = proj, last_accessed_at = now,
      is_fork = s_is_fork st, is_incognito = s_is_incognito st, parent_session = s_parent st,
      claude_session_id = s_claude st, codex_thread_id = s_codex st, forge_root = eff,
      checkout_root = or_else checkout (state_worktree st proj), relative_path = or_else rel ''.'',
      instance_id = None\<rparr>"

definition held_by :: "string option \<Rightarrow> string option \<Rightarrow> bool" where
  "held_by wanted held \<longleftrightarrow> wanted \<noteq> None \<and> wanted \<noteq> Some [] \<and> held = wanted"

fun require_conversation_unbound :: "rows \<Rightarrow> string option \<Rightarrow> string option \<Rightarrow> err + unit" where
  "require_conversation_unbound [] claude codex = Inr ()"
| "require_conversation_unbound ((k, e) # rs) claude codex =
     (if held_by claude (claude_session_id e) then Inl (UuidAlreadyBound (the claude) (session_name_from_key k))
      else if held_by codex (codex_thread_id e) then Inl (UuidAlreadyBound (the codex) (session_name_from_key k))
      else require_conversation_unbound rs claude codex)"

text \<open>The checks under the lock, up to the first write: the rows without residue of this name.\<close>

definition admit :: "env \<Rightarrow> world \<Rightarrow> publication \<Rightarrow> string \<Rightarrow> bool \<Rightarrow> rows \<Rightarrow> err + rows" where
  "admit env w st eff unbound index =
     (let name = s_name st; key = make_scoped_key (hexdigest env) name eff in
      case cleanup_pending env w eff name of Inl e \<Rightarrow> Inl e
      | Inr True \<Rightarrow> Inl (ValueErr ''Session has unfinished cleanup'')
      | Inr False \<Rightarrow>
          (if (case dget index key of Some e \<Rightarrow> manifest_exists_for_row env w key e | None \<Rightarrow> False)
             then Inl (SessionExists name)
           else (let index = ddel index key in
                 if unbound then
                   (case require_conversation_unbound index (s_claude st) (s_codex st) of
                      Inl e \<Rightarrow> Inl e | Inr _ \<Rightarrow> Inr index)
                 else Inr index)))"

definition compensate_locked :: "rows \<Rightarrow> string \<Rightarrow> wout \<Rightarrow> (world, err, unit) op" where
  "compensate_locked rs key out = write_index out (ddel rs key)"

definition create_session_txn ::
  "env \<Rightarrow> publication \<Rightarrow> string \<Rightarrow> string option \<Rightarrow> string option \<Rightarrow> string option \<Rightarrow> bool \<Rightarrow>
   (world, err, unit) op \<Rightarrow> string \<Rightarrow> wout \<Rightarrow> wout \<Rightarrow> wout \<Rightarrow> (world, err, entry) op" where
  "create_session_txn env st proj checkout rt rel unbound callback now out1 out2 out3 =
     (let name = s_name st; eff = effective_root st proj rt;
          key = make_scoped_key (hexdigest env) name eff;
          entry = build_entry st proj eff checkout rel now in
      and_then (check (validate_name name)) (\<lambda>_.
      and_then (read_step_index env) (\<lambda>index.
      and_then (on_state (\<lambda>w. check (admit env w st eff unbound index))) (\<lambda>index.
      on_state (\<lambda>w.
        let existed = store_exists (dir_of env w eff name); rs = dset index key entry in
        and_then (write_index out1 rs) (\<lambda>_.
          on_failure
            (and_then callback (\<lambda>_.
             and_then (on_state (\<lambda>w. check (review_identity (dir_of env w eff name)))) (\<lambda>token.
               let entry = entry\<lparr>instance_id := token\<rparr>
               in and_then (write_index out2 (dset rs key entry)) (\<lambda>_. ret entry))))
            (on_state (\<lambda>w. if \<not> existed \<and> store_exists (dir_of env w eff name) then ret ()
               else compensate_locked rs key out3))))))))"

section \<open>Updates of a row\<close>

definition update_session ::
  "env \<Rightarrow> string \<Rightarrow> string option \<Rightarrow> string option \<Rightarrow> string \<Rightarrow> wout \<Rightarrow> (world, err, entry) op" where
  "update_session env name accessed rt now out =
     and_then (check (validate_name name)) (\<lambda>_.
     and_then (read_step_index env) (\<lambda>index.
     and_then (check (lookup_or_fail env index name rt)) (\<lambda>(key, entry).
       let entry = entry\<lparr>last_accessed_at := or_else accessed now\<rparr>
       in and_then (write_index out (dset index key entry)) (\<lambda>_. ret entry))))"

text \<open>\<open>except Exception: log\<close>: the writes done so far stay, the failure becomes a value.\<close>

definition fail_open :: "'a \<Rightarrow> ('w, 'e, 'a) op \<Rightarrow> ('w, 'e, 'a) op" where
  "fail_open a f = (\<lambda>w. case f w of (t, Inl e) \<Rightarrow> (t, Inr a) | (t, Inr b) \<Rightarrow> (t, Inr b))"

definition best_effort_row :: "env \<Rightarrow> rows \<Rightarrow> string \<Rightarrow> string option \<Rightarrow> (string \<times> entry) option" where
  "best_effort_row env rs name rt =
     (case best_effort env rs name rt of None \<Rightarrow> None | Some k \<Rightarrow> map_option (\<lambda>e. (k, e)) (dget rs k))"

definition update_uuid :: "env \<Rightarrow> string \<Rightarrow> string \<Rightarrow> string option \<Rightarrow> wout \<Rightarrow> (world, err, unit) op" where
  "update_uuid env name uuid rt out =
     fail_open () (and_then (read_step_index env) (\<lambda>index.
       case best_effort_row env index name rt of
         None \<Rightarrow> ret ()
       | Some (key, entry) \<Rightarrow> write_index out (dset index key (entry\<lparr>claude_session_id := Some uuid\<rparr>))))"

text \<open>\<open>_cleanup_pending(...) or not store.exists() or store.review_identity() != expected\<close>, negated.\<close>

definition instance_live :: "env \<Rightarrow> world \<Rightarrow> string \<Rightarrow> string \<Rightarrow> string \<Rightarrow> err + bool" where
  "instance_live env w rt name expected =
     (case cleanup_pending env w rt name of Inl e \<Rightarrow> Inl e
      | Inr True \<Rightarrow> Inr False
      | Inr False \<Rightarrow>
          (let d = dir_of env w rt name in
           if \<not> store_exists d then Inr False
           else (case review_identity d of Inl e \<Rightarrow> Inl e | Inr t \<Rightarrow> Inr (t = Some expected))))"

definition update_codex_thread ::
  "env \<Rightarrow> string \<Rightarrow> string \<Rightarrow> string option \<Rightarrow> string \<Rightarrow> wout \<Rightarrow> (world, err, bool) op" where
  "update_codex_thread env name thread rt expected out =
     and_then (check (require_instance_id expected)) (\<lambda>_.
     fail_open False (and_then (read_step_index env) (\<lambda>index.
       case best_effort_row env index name rt of
         None \<Rightarrow> ret False
       | Some (key, entry) \<Rightarrow>
           (if instance_id entry \<noteq> Some expected then ret False
            else and_then (on_state (\<lambda>w. check (instance_live env w (root_of entry) name expected))) (\<lambda>live.
              if \<not> live then ret False
              else and_then (write_index out (dset index key (entry\<lparr>codex_thread_id := Some thread\<rparr>)))
                     (\<lambda>_. ret True))))))"

definition migrate_session_identity ::
  "env \<Rightarrow> (jobj \<Rightarrow> string + jobj) \<Rightarrow> (state_file \<Rightarrow> string) \<Rightarrow> string \<Rightarrow> string option \<Rightarrow> string option \<Rightarrow> bool \<Rightarrow>
   string \<Rightarrow> wout \<Rightarrow> wout \<Rightarrow> (world, err, string) op" where
  "migrate_session_identity env decode sha name rt expected_sha require_ownerless tok out1 out2 =
     and_then (check (validate_name name)) (\<lambda>_.
     and_then (read_step_index env) (\<lambda>index.
     and_then (check (lookup_or_fail env index name rt)) (\<lambda>(key, entry).
       if require_ownerless \<and> instance_id entry \<noteq> None
         then raise (ValueErr ''Session instance changed since preview; expected an ownerless session'')
       else and_then (in_dir env (root_of entry) name
              (migrate_instance_identity decode sha name expected_sha (instance_id entry) require_ownerless tok out1))
              (\<lambda>token. if instance_id entry = Some token then ret token
                 else and_then (write_index out2 (dset index key (entry\<lparr>instance_id := Some token\<rparr>)))
                        (\<lambda>_. ret token)))))"

definition sync_uuid_from_state ::
  "env \<Rightarrow> string \<Rightarrow> publication \<Rightarrow> wout \<Rightarrow> (world, err, entry) op" where
  "sync_uuid_from_state env name st out =
     and_then (read_step_index env) (\<lambda>index.
       case best_effort_row env index name (s_forge_root st) of
         None \<Rightarrow> raise (SessionNotFound name)
       | Some (key, entry) \<Rightarrow>
           (let entry = (if s_claude st \<noteq> None then entry\<lparr>claude_session_id := s_claude st\<rparr> else entry)
            in and_then (write_index out (dset index key entry)) (\<lambda>_. ret entry)))"

section \<open>Fenced transactions\<close>

text \<open>Whether a row exists for the name and carries the instance; the row if so.\<close>

definition fenced_row :: "env \<Rightarrow> rows \<Rightarrow> string \<Rightarrow> string option \<Rightarrow> string \<Rightarrow> err + (string \<times> entry) option" where
  "fenced_row env rs name rt expected =
     (case lookup env rs name rt of Inl e \<Rightarrow> Inl e
      | Inr None \<Rightarrow> Inr None
      | Inr (Some (k, e)) \<Rightarrow> Inr (if instance_id e = Some expected then Some (k, e) else None))"

text \<open>One session of the fence: its row and its directory both carry the instance.\<close>

definition source_live :: "env \<Rightarrow> world \<Rightarrow> rows \<Rightarrow> string \<Rightarrow> string \<Rightarrow> string \<Rightarrow> err + bool" where
  "source_live env w rs rt name expected =
     (case fenced_row env rs name (Some rt) expected of Inl e \<Rightarrow> Inl e
      | Inr None \<Rightarrow> Inr False
      | Inr (Some (_, e)) \<Rightarrow> instance_live env w (root_of e) name expected)"

fun sources_live :: "env \<Rightarrow> world \<Rightarrow> rows \<Rightarrow> (string \<times> string \<times> string) list \<Rightarrow> err + bool" where
  "sources_live env w rs [] = Inr True"
| "sources_live env w rs ((rt, name, tok) # srcs) =
     (case require_instance_id tok of Inl e \<Rightarrow> Inl e
      | Inr _ \<Rightarrow> (case source_live env w rs rt name tok of Inl e \<Rightarrow> Inl e
      | Inr False \<Rightarrow> Inr False
      | Inr True \<Rightarrow> sources_live env w rs srcs))"

definition run_session_instance_txn ::
  "env \<Rightarrow> string \<Rightarrow> string \<Rightarrow> string \<Rightarrow> (world, err, unit) op \<Rightarrow> (string \<times> string \<times> string) list \<Rightarrow>
   (world, err, bool) op" where
  "run_session_instance_txn env name rt expected callback required =
     and_then (check (validate_name name)) (\<lambda>_.
     and_then (check (require_instance_id expected)) (\<lambda>_.
     and_then (read_step_index env) (\<lambda>index.
     and_then (on_state (\<lambda>w. check (source_live env w index rt name expected))) (\<lambda>live.
       if \<not> live then ret False
       else and_then (on_state (\<lambda>w. check (sources_live env w index required))) (\<lambda>live.
         if \<not> live then ret False else and_then callback (\<lambda>_. ret True))))))"

definition delete_session_txn ::
  "env \<Rightarrow> string \<Rightarrow> string option \<Rightarrow> string \<Rightarrow> (world, err, 'x) op \<Rightarrow> wout \<Rightarrow> (world, err, bool) op" where
  "delete_session_txn env name rt expected delete_manifest out =
     and_then (check (validate_name name)) (\<lambda>_.
     and_then (check (require_instance_id expected)) (\<lambda>_.
     and_then (read_step_index env) (\<lambda>index.
     and_then (check (fenced_row env index name rt expected)) (\<lambda>row.
       case row of
         None \<Rightarrow> ret False
       | Some (key, entry) \<Rightarrow>
           and_then (on_state (\<lambda>w. if present (dir_of env w (root_of entry) name)
                       then in_dir env (root_of entry) name lock_step else ret ())) (\<lambda>_.
           and_then (on_state (\<lambda>w.
             let d = dir_of env w (root_of entry) name in
             check (if store_exists d \<or> owner d \<noteq> NoOwner
                    then (case review_identity d of Inl e \<Rightarrow> Inl e | Inr t \<Rightarrow> Inr (t = Some expected))
                    else Inr True))) (\<lambda>owned.
             if \<not> owned then ret False
             else and_then delete_manifest (\<lambda>_.
                  and_then (write_index out (ddel index key)) (\<lambda>_. ret True))))))))"

section \<open>Lemmas: a written index reads back\<close>

definition row_ok :: "env \<Rightarrow> string \<Rightarrow> entry \<Rightarrow> bool" where
  "row_ok env k e \<longleftrightarrow> root_of e \<noteq> [] \<and>
     k = make_scoped_key (hexdigest env) (session_name_from_key k) (root_of e) \<and>
     (case instance_id e of None \<Rightarrow> True | Some t \<Rightarrow> valid_instance_id t)"

definition wf_rows :: "env \<Rightarrow> rows \<Rightarrow> bool" where
  "wf_rows env rs \<longleftrightarrow> dwf rs \<and> (\<forall>(k, e) \<in> set rs. row_ok env k e)"

text \<open>The strict decoder gives back the rows of an object that \<open>asdict\<close> made.\<close>

definition codec_ok :: "env \<Rightarrow> bool" where
  "codec_ok env \<longleftrightarrow> (\<forall>rs. wf_rows env rs \<longrightarrow> decode_index env (index_json rs) = Inr rs)"

definition rows_at :: "world \<Rightarrow> rows \<Rightarrow> bool" where
  "rows_at w rs \<longleftrightarrow> index_file w = Holds (JObj (index_json rs)) \<or> index_file w = Missing \<and> rs = []"

lemma entry_json_simps [simp]:
  "has_key ''instance_id'' (entry_json e)"
  "jget (entry_json e) ''instance_id'' = opt_json (instance_id e)"
  "jget (entry_json e) ''forge_root'' = JStr (forge_root e)"
  "jget (entry_json e) ''worktree_path'' = JStr (worktree_path e)"
  by (simp_all add: entry_json_def has_key_def jget_def)

lemma check_row_written:
  "row_ok env k e \<Longrightarrow> check_row_instance index_version (JObj (entry_json e)) = Inr (JObj (entry_json e))"
  by (auto simp: check_row_instance_def row_ok_def index_version_def opt_json_def split: option.splits)

lemma check_rows_written:
  "\<forall>(k, e) \<in> set rs. row_ok env k e \<Longrightarrow>
     check_rows (check_row_instance index_version) (map (\<lambda>(k, e). (k, JObj (entry_json e))) rs)
       = Inr (map (\<lambda>(k, e). (k, JObj (entry_json e))) rs)"
  by (induction rs) (auto simp: check_row_written)

lemma key_shape_written: "row_ok env k e \<Longrightarrow> key_shape_ok env k (JObj (entry_json e))"
  by (auto simp: key_shape_ok_def row_ok_def root_of_def Let_def split: if_splits)

lemma read_written:
  assumes "codec_ok env" "wf_rows env rs"
  shows "read_index env (Holds (JObj (index_json rs))) = Inr rs"
proof -
  let ?s = "map (\<lambda>(k, e). (k, JObj (entry_json e))) rs"
  have ok: "\<forall>(k, e) \<in> set rs. row_ok env k e" using assms(2) by (simp add: wf_rows_def)
  have v: "dget (index_json rs) ''version'' = Some (JInt index_version)"
    and s: "obj_at (index_json rs) ''sessions'' = Some ?s"
    by (simp_all add: index_json_def obj_at_Some)
  have shape: "list_all (\<lambda>(k, v). key_shape_ok env k v) ?s"
    using ok key_shape_written by (auto simp: list_all_iff)
  have same: "dset (index_json rs) ''sessions'' (JObj ?s) = index_json rs"
    "dset (index_json rs) ''version'' (JInt index_version) = index_json rs"
    by (simp_all add: index_json_def)
  have d: "decode_index env (index_json rs) = Inr rs" using assms by (simp add: codec_ok_def)
  show ?thesis
    unfolding read_index_def state_file.case json.case v option.case s check_rows_written [OF ok]
    using shape by (simp add: same d)
qed

lemma read_rows_at:
  "codec_ok env \<Longrightarrow> wf_rows env rs \<Longrightarrow> rows_at w rs \<Longrightarrow> read_index env (index_file w) = Inr rs"
  by (auto simp: rows_at_def read_written) (simp add: read_index_def)

lemma wf_rows_Nil [simp]: "wf_rows env []"
  by (simp add: wf_rows_def)

lemma wf_rows_ddel: "wf_rows env rs \<Longrightarrow> wf_rows env (ddel rs k)"
  by (auto simp: wf_rows_def dwf_ddel set_ddel)

lemma wf_rows_dset: "wf_rows env rs \<Longrightarrow> row_ok env k e \<Longrightarrow> wf_rows env (dset rs k e)"
  using set_dset_subset [where d = rs and k = k and v = e] by (auto simp: wf_rows_def dwf_dset)

lemma wf_rows_row: "wf_rows env rs \<Longrightarrow> dget rs k = Some e \<Longrightarrow> row_ok env k e"
  by (auto simp: wf_rows_def dest!: dget_mem)

lemma row_ok_fields [simp]:
  "row_ok env k (e\<lparr>last_accessed_at := t\<rparr>) = row_ok env k e"
  "row_ok env k (e\<lparr>claude_session_id := u\<rparr>) = row_ok env k e"
  "row_ok env k (e\<lparr>codex_thread_id := u\<rparr>) = row_ok env k e"
  "row_ok env k (e\<lparr>instance_id := i\<rparr>) \<longleftrightarrow> root_of e \<noteq> [] \<and>
     k = make_scoped_key (hexdigest env) (session_name_from_key k) (root_of e) \<and>
     (case i of None \<Rightarrow> True | Some t \<Rightarrow> valid_instance_id t)"
  by (simp_all add: row_ok_def root_of_def)

lemma root_of_fields [simp]:
  "root_of (e\<lparr>last_accessed_at := t\<rparr>) = root_of e"
  "root_of (e\<lparr>claude_session_id := u\<rparr>) = root_of e"
  "root_of (e\<lparr>codex_thread_id := u\<rparr>) = root_of e"
  "root_of (e\<lparr>instance_id := i\<rparr>) = root_of e"
  by (simp_all add: root_of_def)

text \<open>An operation that starts by reading the index.\<close>

lemma and_then_read [simp]:
  "and_then (read_step_index env) g w = and_then (check (read_index env (index_file w))) g w"
  by (simp add: read_step_index_def)

lemma lookup_Some:
  "lookup env rs name rt = Inr (Some (k, e)) \<Longrightarrow> dget rs k = Some e"
  by (auto simp: lookup_def split: sum.splits option.splits)

lemma lookup_or_fail_Inr: "lookup_or_fail env rs name rt = Inr (k, e) \<longleftrightarrow> lookup env rs name rt = Inr (Some (k, e))"
  by (auto simp: lookup_or_fail_def split: sum.splits option.splits)

lemma fenced_row_Some:
  "fenced_row env rs name rt x = Inr (Some (k, e)) \<Longrightarrow> dget rs k = Some e \<and> instance_id e = Some x"
  by (auto simp: fenced_row_def dest!: lookup_Some split: sum.splits option.splits if_splits)

lemma best_effort_row_Some: "best_effort_row env rs name rt = Some (k, e) \<Longrightarrow> dget rs k = Some e"
  by (auto simp: best_effort_row_def split: option.splits)

lemma dir_of_set_dir:
  "dir_of env (set_dir env r n d w) r' n' =
     (if canonical env r' = canonical env r \<and> n' = n then d else dir_of env w r' n')"
  by (simp add: dir_of_def set_dir_def)

lemma index_file_set_dir [simp]: "index_file (set_dir env r n d w) = index_file w"
  by (simp add: set_dir_def)

lemma in_dir_mem:
  "w' \<in> set (fst (in_dir env r n f w)) \<Longrightarrow> \<exists>d \<in> set (fst (f (dir_of env w r n))). w' = set_dir env r n d w"
  by (auto simp: in_dir_def split: prod.splits)

lemma set_dir_same: "set_dir env r n (dir_of env w r n) w = w"
  by (simp add: set_dir_def dir_of_def)

lemma in_dir_result: "snd (in_dir env r n f w) = snd (f (dir_of env w r n))"
  by (simp add: in_dir_def split: prod.splits)

lemma in_dir_final:
  "final w (fst (in_dir env r n f w)) = set_dir env r n (final (dir_of env w r n) (fst (f (dir_of env w r n)))) w"
  by (cases "fst (f (dir_of env w r n))" rule: rev_cases)
    (auto simp: in_dir_def final_def set_dir_same split: prod.splits)

section \<open>The invariant of the session store\<close>

text \<open>Every manifest on disk has a row that leads to it.\<close>

definition covers :: "env \<Rightarrow> rows \<Rightarrow> (string \<Rightarrow> string \<Rightarrow> sdir) \<Rightarrow> bool" where
  "covers env rs D \<longleftrightarrow>
     (\<forall>r n. store_exists (D r n) \<longrightarrow>
        (\<exists>k e. dget rs k = Some e \<and> canonical env (root_of e) = r \<and> session_name_from_key k = n))"

definition dirs_wf :: "(string \<Rightarrow> string \<Rightarrow> sdir) \<Rightarrow> bool" where
  "dirs_wf D \<longleftrightarrow> (\<forall>r n. \<not> present (D r n) \<longrightarrow> manifest (D r n) = Missing)"

definition inv :: "env \<Rightarrow> world \<Rightarrow> bool" where
  "inv env w \<longleftrightarrow> (\<exists>rs. rows_at w rs \<and> wf_rows env rs \<and> covers env rs (dirs w)) \<and> dirs_wf (dirs w)"

lemma inv_read:
  assumes "codec_ok env" "inv env w"
  obtains rs where "read_index env (index_file w) = Inr rs" "wf_rows env rs" "covers env rs (dirs w)"
    "dirs_wf (dirs w)" "rows_at w rs"
  using assms by (auto simp: inv_def dest: read_rows_at)

lemma inv_write:
  "wf_rows env rs \<Longrightarrow> covers env rs (dirs w) \<Longrightarrow> dirs_wf (dirs w) \<Longrightarrow>
     inv env (w\<lparr>index_file := Holds (JObj (index_json rs))\<rparr>)"
  by (auto simp: inv_def rows_at_def)

text \<open>Replacing a row by one with the same root covers what the old rows covered.\<close>

lemma covers_dset:
  assumes "covers env rs D" "\<And>e'. dget rs k = Some e' \<Longrightarrow> root_of e' = root_of e"
  shows "covers env (dset rs k e) D"
  unfolding covers_def
proof (intro allI impI)
  fix r n assume "store_exists (D r n)"
  then obtain k' e' where ke: "dget rs k' = Some e'" "canonical env (root_of e') = r" "session_name_from_key k' = n"
    using assms(1) unfolding covers_def by blast
  show "\<exists>k' e'. dget (dset rs k e) k' = Some e' \<and> canonical env (root_of e') = r \<and> session_name_from_key k' = n"
  proof (cases "k' = k")
    case True
    with ke assms(2) [of e'] show ?thesis by (intro exI [of _ k] exI [of _ e]) simp
  next
    case False
    with ke show ?thesis by (intro exI [of _ k'] exI [of _ e']) simp
  qed
qed

text \<open>Dropping a row whose manifest is absent covers the manifests that are there.\<close>

lemma covers_ddel:
  assumes "covers env rs D"
    and "\<And>e. dget rs k = Some e \<Longrightarrow> \<not> store_exists (D (canonical env (root_of e)) (session_name_from_key k))"
  shows "covers env (ddel rs k) D"
  unfolding covers_def
proof (intro allI impI)
  fix r n assume ex: "store_exists (D r n)"
  then obtain k' e' where ke: "dget rs k' = Some e'" "canonical env (root_of e') = r" "session_name_from_key k' = n"
    using assms(1) unfolding covers_def by blast
  with ex assms(2) [of e'] have "k' \<noteq> k" by auto
  with ke show "\<exists>k' e'. dget (ddel rs k) k' = Some e' \<and> canonical env (root_of e') = r \<and> session_name_from_key k' = n"
    by (intro exI [of _ k'] exI [of _ e']) simp
qed

text \<open>A step of one session's store that creates no manifest.\<close>

lemma covers_set_dir:
  "covers env rs (dirs w) \<Longrightarrow> (store_exists d \<Longrightarrow> store_exists (dir_of env w r n)) \<Longrightarrow>
     covers env rs (dirs (set_dir env r n d w))"
  by (auto simp: covers_def set_dir_def dir_of_def)

lemma dirs_wf_set_dir:
  "dirs_wf (dirs w) \<Longrightarrow> (\<not> present d \<Longrightarrow> manifest d = Missing) \<Longrightarrow> dirs_wf (dirs (set_dir env r n d w))"
  by (auto simp: dirs_wf_def set_dir_def)

lemma rows_at_set_dir [simp]: "rows_at (set_dir env r n d w) rs = rows_at w rs"
  by (simp add: rows_at_def)

lemma inv_set_dir:
  assumes "inv env w" "store_exists d \<Longrightarrow> store_exists (dir_of env w r n)" "\<not> present d \<Longrightarrow> manifest d = Missing"
  shows "inv env (set_dir env r n d w)"
  using assms covers_set_dir dirs_wf_set_dir unfolding inv_def by fastforce

section \<open>Every operation keeps the invariant\<close>

lemma covers_update_row:
  "covers env rs (dirs w) \<Longrightarrow> dget rs k = Some e \<Longrightarrow> root_of e' = root_of e \<Longrightarrow> covers env (dset rs k e') (dirs w)"
  by (rule covers_dset) simp_all

lemma inv_update_row:
  assumes "wf_rows env rs" "covers env rs (dirs w)" "dirs_wf (dirs w)" "dget rs k = Some e"
    and "root_of e' = root_of e" "row_ok env k e'"
  shows "inv env (w\<lparr>index_file := Holds (JObj (index_json (dset rs k e')))\<rparr>)"
  using assms by (intro inv_write wf_rows_dset covers_update_row) simp_all

lemma safe_read: "safe P (and_then (read_step_index env) g) w \<longleftrightarrow>
    (\<forall>rs. read_index env (index_file w) = Inr rs \<longrightarrow> safe P (g rs) w)"
  by (simp add: read_step_index_def safe_check)

lemma safe_fail_open: "safe P f w \<Longrightarrow> safe P (fail_open a f) w"
  by (auto simp: safe_def fail_open_def split: prod.splits sum.splits)

lemma safe_write_ret:
  "(out \<noteq> FailBefore \<Longrightarrow> P (w\<lparr>index_file := Holds (JObj (index_json rs))\<rparr>)) \<Longrightarrow>
     safe P (and_then (write_index out rs) (\<lambda>_. ret a)) w"
  unfolding write_index_def by (rule safe_durable_then) simp_all

lemma safe_write: "(out \<noteq> FailBefore \<Longrightarrow> P (w\<lparr>index_file := Holds (JObj (index_json rs))\<rparr>)) \<Longrightarrow> safe P (write_index out rs) w"
  unfolding write_index_def by (rule safe_durable)

lemma safe_update_session:
  assumes "codec_ok env" "inv env w"
  shows "safe (inv env) (update_session env name acc rt now out) w"
proof -
  obtain rs where r: "read_index env (index_file w) = Inr rs" "wf_rows env rs" "covers env rs (dirs w)" "dirs_wf (dirs w)"
    by (rule inv_read [OF assms])
  show ?thesis
    unfolding update_session_def
    by (auto simp: safe_check safe_read r(1) lookup_or_fail_Inr Let_def dest!: lookup_Some
        intro!: safe_write_ret inv_update_row [OF r(2-4)] dest: wf_rows_row [OF r(2)])
qed

lemma safe_update_uuid:
  assumes "codec_ok env" "inv env w"
  shows "safe (inv env) (update_uuid env name uuid rt out) w"
proof -
  obtain rs where r: "read_index env (index_file w) = Inr rs" "wf_rows env rs" "covers env rs (dirs w)" "dirs_wf (dirs w)"
    by (rule inv_read [OF assms])
  show ?thesis
    unfolding update_uuid_def
    by (rule safe_fail_open)
      (auto simp: safe_read r(1) dest!: best_effort_row_Some split: option.splits
        intro!: safe_write inv_update_row [OF r(2-4)] dest: wf_rows_row [OF r(2)])
qed

lemma safe_update_codex_thread:
  assumes "codec_ok env" "inv env w"
  shows "safe (inv env) (update_codex_thread env name thread rt x out) w"
proof -
  obtain rs where r: "read_index env (index_file w) = Inr rs" "wf_rows env rs" "covers env rs (dirs w)" "dirs_wf (dirs w)"
    by (rule inv_read [OF assms])
  show ?thesis
    unfolding update_codex_thread_def safe_check
    by (intro allI impI safe_fail_open)
      (auto simp: safe_read safe_check r(1) dest!: best_effort_row_Some split: option.splits
        intro!: safe_write_ret inv_update_row [OF r(2-4)] dest: wf_rows_row [OF r(2)])
qed

lemma safe_sync_uuid:
  assumes "codec_ok env" "inv env w"
  shows "safe (inv env) (sync_uuid_from_state env name st out) w"
proof -
  obtain rs where r: "read_index env (index_file w) = Inr rs" "wf_rows env rs" "covers env rs (dirs w)" "dirs_wf (dirs w)"
    by (rule inv_read [OF assms])
  show ?thesis
    unfolding sync_uuid_from_state_def
    by (auto simp: safe_read r(1) Let_def dest!: best_effort_row_Some split: option.splits
        intro!: safe_write_ret inv_update_row [OF r(2-4)] dest: wf_rows_row [OF r(2)])
qed

lemma row_stale_absent:
  "row_stale env w k e = Inr True \<Longrightarrow> \<not> store_exists (dirs w (canonical env (root_of e)) (session_name_from_key k))"
  by (auto simp: row_stale_def manifest_exists_for_row_def dir_of_def split: if_splits sum.splits)

lemma drop_stale_keeps:
  "drop_stale env w ks rs = Inr rs' \<Longrightarrow> wf_rows env rs \<Longrightarrow> covers env rs (dirs w) \<Longrightarrow>
     wf_rows env rs' \<and> covers env rs' (dirs w)"
proof (induction ks arbitrary: rs)
  case (Cons k ks)
  show ?case
  proof (cases "dget rs k")
    case None
    with Cons show ?thesis by simp
  next
    case (Some e)
    then obtain b where b: "row_stale env w k e = Inr b" "drop_stale env w ks (if b then ddel rs k else rs) = Inr rs'"
      using Cons.prems(1) by (auto split: sum.splits)
    have "wf_rows env (if b then ddel rs k else rs) \<and> covers env (if b then ddel rs k else rs) (dirs w)"
    proof (cases b)
      case True
      with b(1) Some row_stale_absent Cons.prems show ?thesis
        by (auto intro!: wf_rows_ddel covers_ddel)
    qed (use Cons.prems in simp)
    with Cons.IH [OF b(2)] show ?thesis by blast
  qed
qed simp

lemma safe_prune:
  assumes "codec_ok env" "inv env w"
  shows "safe (inv env) (prune env ks out) w"
proof -
  obtain rs where r: "read_index env (index_file w) = Inr rs" "wf_rows env rs" "covers env rs (dirs w)" "dirs_wf (dirs w)"
    by (rule inv_read [OF assms])
  show ?thesis
    unfolding prune_def
    by (auto simp: safe_read safe_check r(1) intro!: safe_write_ret inv_write r(4)
        dest: drop_stale_keeps [OF _ r(2,3)])
qed

lemma safe_list_sessions:
  assumes "codec_ok env" "inv env w"
  shows "safe (inv env) (list_sessions env inc pf rf out w1 w2) w"
  unfolding list_sessions_def
  by (auto simp: safe_check intro!: safe_and_then safe_prune assms)


lemma strict_key_name:
  assumes "validate_name name = Inr ()" "wf_rows env rs" "lookup env rs name rt = Inr (Some (k, e))"
  shows "session_name_from_key k = name"
proof -
  have sep: "key_sep \<notin> set name" by (rule name_no_sep [OF assms(1)])
  from assms(3) have k: "strict env rs name rt = Inr (Some k)"
    by (auto simp: lookup_def split: sum.splits option.splits)
  show ?thesis
  proof (cases rt)
    case None
    then have r: "resolve_key_strict (hexdigest env) root_msg rs name None = Inr (Some k)" using k by (simp add: strict_def)
    have "dwf rs" using assms(2) by (simp add: wf_rows_def)
    from resolve_key_strict_unscoped_name [OF sep r] show ?thesis .
  next
    case (Some r)
    with k have "k = make_scoped_key (hexdigest env) name r"
      by (auto simp: strict_def split: if_splits)
    then show ?thesis using session_name_from_scoped_key [OF sep] by simp
  qed
qed

lemma safe_get_session:
  assumes "codec_ok env" "inv env w"
  shows "safe (inv env) (get_session env name rt out w1 w2) w"
proof -
  obtain rs where r: "read_index env (index_file w) = Inr rs" "wf_rows env rs" "covers env rs (dirs w)" "dirs_wf (dirs w)"
    by (rule inv_read [OF assms])
  have drop: "inv env (w\<lparr>index_file := Holds (JObj (index_json (ddel rs k)))\<rparr>)"
    if "validate_name name = Inr ()" "lookup env rs name rt = Inr (Some (k, e))" "\<not> launchable env w name e" for k e
    using that lookup_Some [OF that(2)] strict_key_name [OF that(1) r(2) that(2)]
    by (intro inv_write wf_rows_ddel covers_ddel r) (auto simp: launchable_def dir_of_def)
  have wd: "safe (inv env) (and_then (write_index out (ddel rs k)) (\<lambda>_. raise e')) w"
    if "inv env (w\<lparr>index_file := Holds (JObj (index_json (ddel rs k)))\<rparr>)" for k e'
    unfolding write_index_def by (rule safe_durable_then) (use that in simp_all)
  show ?thesis
    unfolding get_session_def
    by (auto simp: safe_check safe_read r(1) lookup_or_fail_Inr split: prod.splits intro!: wd drop)
qed

text \<open>A store operation that brings no manifest into being and leaves no half-removed directory.\<close>

definition quiet :: "(sdir, err, 'a) op \<Rightarrow> sdir \<Rightarrow> bool" where
  "quiet f d \<longleftrightarrow> safe (\<lambda>d'. (store_exists d' \<longrightarrow> store_exists d) \<and> (\<not> present d' \<longrightarrow> manifest d' = Missing)) f d"

lemma safe_in_dir:
  assumes "inv env w" "quiet f (dir_of env w r n)"
  shows "safe (inv env) (in_dir env r n f) w"
  using assms by (auto simp: safe_def quiet_def intro: inv_set_dir dest!: in_dir_mem)

lemma index_file_in_dir [simp]: "index_file (final w (fst (in_dir env r n f w))) = index_file w"
  by (simp add: in_dir_final)

lemma rows_at_in_dir [simp]: "rows_at (final w (fst (in_dir env r n f w))) rs = rows_at w rs"
  by (simp add: rows_at_def)

lemma in_dir_inv_final:
  "inv env w \<Longrightarrow> quiet f (dir_of env w r n) \<Longrightarrow> inv env (final w (fst (in_dir env r n f w)))"
  by (rule safe_final [OF safe_in_dir])

lemma review_identity_valid: "review_identity d = Inr (Some t) \<Longrightarrow> valid_instance_id t"
  using parse_owner_iff by (auto simp: review_identity_def split: owner_file.splits if_splits sum.splits)

lemma write_owner_eval: "write_owner tok out d = durable OsErr out (\<lambda>d. d\<lparr>present := True, owner := OwnerText (owner_text tok)\<rparr>) d"
  by (simp add: write_owner_def)

lemma quiet_migrate: "quiet (migrate_instance_identity decode sha n es x ro tok out) d"
  unfolding quiet_def migrate_instance_identity_def
  by (auto simp: safe_check write_owner_def store_exists_def read_step_def lock_step_def
      intro!: safe_and_then safe_durable split: option.splits)


lemma migrate_result_valid:
  assumes "valid_instance_id tok" "snd (migrate_instance_identity decode sha n es x ro tok out d) = Inr t"
  shows "valid_instance_id t"
  using assms
  by (auto simp: migrate_instance_identity_def and_then_Inr and_then_check_eq migrate_checks_def
      split: if_splits option.splits sum.splits dest: review_identity_valid)

lemma safe_migrate:
  assumes "codec_ok env" "inv env w" "valid_instance_id tok"
  shows "safe (inv env) (migrate_session_identity env decode sha name rt es ro tok out1 out2) w"
proof -
  obtain rs where r: "read_index env (index_file w) = Inr rs" "wf_rows env rs" "covers env rs (dirs w)" "dirs_wf (dirs w)" "rows_at w rs"
    by (rule inv_read [OF assms(1,2)])
  have "safe (inv env) (and_then (in_dir env (root_of e) name
              (migrate_instance_identity decode sha name es (instance_id e) ro tok out1))
              (\<lambda>token. if instance_id e = Some token then ret token
                 else and_then (write_index out2 (dset rs k (e\<lparr>instance_id := Some token\<rparr>))) (\<lambda>_. ret token))) w"
    if "lookup env rs name rt = Inr (Some (k, e))" for k e
  proof (rule safe_and_then [OF safe_in_dir [OF assms(2) quiet_migrate]], intro safe_if safe_ret(1) safe_write_ret)
    let ?f = "migrate_instance_identity decode sha name es (instance_id e) ro tok out1"
    let ?w = "final w (fst (in_dir env (root_of e) name ?f w))"
    fix t assume "snd (in_dir env (root_of e) name ?f w) = Inr t"
    then have v: "valid_instance_id t" using migrate_result_valid [OF assms(3)] by (simp add: in_dir_result)
    have "inv env ?w" by (rule in_dir_inv_final [OF assms(2) quiet_migrate])
    moreover have "rows_at ?w rs" using r(5) by (simp add: rows_at_def)
    ultimately have w': "covers env rs (dirs ?w)" "dirs_wf (dirs ?w)"
      using read_rows_at [OF assms(1)] unfolding inv_def by (metis sum.inject(2) r(2))+
    show "inv env (?w\<lparr>index_file := Holds (JObj (index_json (dset rs k (e\<lparr>instance_id := Some t\<rparr>))))\<rparr>)"
      using wf_rows_row [OF r(2) lookup_Some [OF that]] v
      by (intro inv_update_row [OF r(2) w' lookup_Some [OF that]]) (simp_all add: row_ok_def)
  qed
  then show ?thesis
    unfolding migrate_session_identity_def
    by (auto simp: safe_check safe_read r(1) lookup_or_fail_Inr intro!: safe_if)
qed

text \<open>The invariant at a world, with the rows that are there.\<close>

lemma inv_rows:
  assumes "codec_ok env" "inv env w" "rows_at w rs" "wf_rows env rs"
  shows "covers env rs (dirs w)" "dirs_wf (dirs w)"
proof -
  obtain rs' where r: "read_index env (index_file w) = Inr rs'" "covers env rs' (dirs w)" "dirs_wf (dirs w)"
    by (rule inv_read [OF assms(1,2)])
  moreover have "rs' = rs" using r(1) read_rows_at [OF assms(1,4,3)] by simp
  ultimately show "covers env rs (dirs w)" "dirs_wf (dirs w)" by simp_all
qed

text \<open>A deletion whose callback removes the session directory of the row.\<close>

lemma quiet_lock: "quiet lock_step d"
  by (auto simp: quiet_def safe_def store_exists_def)

lemma quiet_delete_locked:
  assumes "\<not> present d \<longrightarrow> manifest d = Missing"
  shows "quiet (delete_locked out1 out2) d"
    and "snd (delete_locked out1 out2 d) = Inr b \<Longrightarrow> \<not> store_exists (final d (fst (delete_locked out1 out2 d)))"
  using assms
  by (cases out1; cases out2;
      auto simp: quiet_def safe_def delete_locked_def and_then_def remove_dir_def store_exists_def split: if_splits)+

lemma dirs_wf_dir_of: "dirs_wf (dirs w) \<Longrightarrow> \<not> present (dir_of env w r n) \<longrightarrow> manifest (dir_of env w r n) = Missing"
  by (simp add: dirs_wf_def dir_of_def)

lemma safe_delete:
  assumes codec: "codec_ok env" and i: "inv env w"
    and target: "\<And>rs k e. read_index env (index_file w) = Inr rs \<Longrightarrow>
        lookup env rs name rt = Inr (Some (k, e)) \<Longrightarrow> canonical env r = canonical env (root_of e)"
  shows "safe (inv env) (delete_session_txn env name rt x (in_dir env r name (delete_locked out1 out2)) out3) w"
proof -
  obtain rs where R: "read_index env (index_file w) = Inr rs" "wf_rows env rs" "covers env rs (dirs w)" "dirs_wf (dirs w)" "rows_at w rs"
    by (rule inv_read [OF codec i])
  let ?cb = "in_dir env r name (delete_locked out1 out2)"
  have body: "safe (inv env) (and_then ?cb (\<lambda>_. and_then (write_index out3 (ddel rs k)) (\<lambda>_. ret True))) v"
    if v: "inv env v" "rows_at v rs" and name: "validate_name name = Inr ()"
      and row: "lookup env rs name rt = Inr (Some (k, e))" for v k e
  proof -
    note vw = inv_rows [OF codec v R(2)]
    note q = quiet_delete_locked [OF dirs_wf_dir_of [OF vw(2), of env r name]]
    show ?thesis
    proof (rule safe_and_then [OF safe_in_dir [OF v(1) q(1)]], rule safe_write_ret)
    let ?w = "final v (fst (?cb v))"
    fix b assume ok: "snd (?cb v) = Inr b"
    have w': "covers env rs (dirs ?w)" "dirs_wf (dirs ?w)"
      using inv_rows [OF codec in_dir_inv_final [OF v(1) q(1)] _ R(2)] v(2) by simp_all
    have "\<not> store_exists (dir_of env ?w r name)"
      using q(2) ok by (simp add: in_dir_result in_dir_final dir_of_set_dir)
    then have gone: "\<not> store_exists (dirs ?w (canonical env (root_of e)) (session_name_from_key k))"
      using target [OF R(1) row] strict_key_name [OF name R(2) row] by (simp add: dir_of_def)
    show "inv env (?w\<lparr>index_file := Holds (JObj (index_json (ddel rs k)))\<rparr>)"
      using gone lookup_Some [OF row] by (intro inv_write wf_rows_ddel R(2) covers_ddel w') auto
    qed
  qed
  have row: "lookup env rs name rt = Inr (Some (k, e))" if "fenced_row env rs name rt x = Inr (Some (k, e))" for k e
    using that by (auto simp: fenced_row_def split: sum.splits option.splits if_splits)
  have locked: "safe (inv env) (and_then (on_state (\<lambda>w. if present (dir_of env w (root_of e) name)
                       then in_dir env (root_of e) name lock_step else ret ())) g) w"
    if "\<And>v. inv env v \<Longrightarrow> rows_at v rs \<Longrightarrow> safe (inv env) (g ()) v" for e g
  proof (cases "present (dir_of env w (root_of e) name)")
    case True
    have "safe (inv env) (and_then (in_dir env (root_of e) name lock_step) g) w"
      by (rule safe_and_then [OF safe_in_dir [OF i quiet_lock]])
        (use that in_dir_inv_final [OF i quiet_lock] R(5) in auto)
    with True show ?thesis by simp
  qed (use that i R(5) in simp)
  have tail: "safe (inv env) (and_then (on_state (\<lambda>w. let d = dir_of env w (root_of e) name in
             check (if store_exists d \<or> owner d \<noteq> NoOwner
                    then (case review_identity d of Inl e \<Rightarrow> Inl e | Inr t \<Rightarrow> Inr (t = Some x))
                    else Inr True))) (\<lambda>owned.
             if \<not> owned then ret False
             else and_then ?cb (\<lambda>_. and_then (write_index out3 (ddel rs k)) (\<lambda>_. ret True)))) v"
    if "inv env v" "rows_at v rs" "validate_name name = Inr ()" "lookup env rs name rt = Inr (Some (k, e))" for v k e
    using body [OF that] by (simp add: Let_def safe_check)
  show ?thesis
    unfolding delete_session_txn_def
    by (auto simp only: safe_check safe_read R(1) sum.inject split: option.split
        intro!: safe_ret locked tail dest!: row)
qed

text \<open>What an admitted creation knows of the rows it starts from.\<close>

lemma admit_Inr:
  assumes "admit env w st eff unbound rs = Inr rs'" "validate_name (s_name st) = Inr ()"
  defines "key \<equiv> make_scoped_key (hexdigest env) (s_name st) eff"
  shows "rs' = ddel rs key" "\<not> cleanup (dir_of env w eff (s_name st))"
    "\<And>e. dget rs key = Some e \<Longrightarrow> \<not> store_exists (dirs w (canonical env (root_of e)) (s_name st))"
    "unbound \<Longrightarrow> require_conversation_unbound rs' (s_claude st) (s_codex st) = Inr ()"
proof -
  have nm: "session_name_from_key key = s_name st"
    unfolding key_def by (rule session_name_from_scoped_key [OF name_no_sep [OF assms(2)]])
  note a = assms(1) [unfolded admit_def Let_def cleanup_pending_def assms(2) key_def [symmetric]]
  from a show "rs' = ddel rs key" "\<not> cleanup (dir_of env w eff (s_name st))"
    "\<And>e. dget rs key = Some e \<Longrightarrow> \<not> store_exists (dirs w (canonical env (root_of e)) (s_name st))"
    "unbound \<Longrightarrow> require_conversation_unbound rs' (s_claude st) (s_codex st) = Inr ()"
    by (auto simp: manifest_exists_for_row_def dir_of_def nm split: bool.splits if_splits sum.splits option.splits)
qed

lemma build_entry_root: "eff \<noteq> [] \<Longrightarrow> root_of (build_entry st proj eff co rel now) = eff"
  by (simp add: build_entry_def root_of_def)

lemma build_entry_row_ok:
  assumes "validate_name (s_name st) = Inr ()" "eff \<noteq> []"
  shows "row_ok env (make_scoped_key (hexdigest env) (s_name st) eff) (build_entry st proj eff co rel now)"
  using assms session_name_from_scoped_key [OF name_no_sep [OF assms(1)]]
  by (simp add: row_ok_def build_entry_root) (simp add: build_entry_def)

text \<open>The publication half of a creation, after the row is durable.\<close>

definition publish ::
  "env \<Rightarrow> string \<Rightarrow> string \<Rightarrow> string \<Rightarrow> entry \<Rightarrow> rows \<Rightarrow> (world, err, unit) op \<Rightarrow> wout \<Rightarrow> (world, err, entry) op" where
  "publish env eff name key entry rs callback out2 =
     and_then callback (\<lambda>_.
     and_then (on_state (\<lambda>w. check (review_identity (dir_of env w eff name)))) (\<lambda>token.
       let entry = entry\<lparr>instance_id := token\<rparr>
       in and_then (write_index out2 (dset rs key entry)) (\<lambda>_. ret entry)))"

text \<open>Where a creation can go, once its row is durable.\<close>

lemma create_eval:
  assumes "validate_name (s_name st) = Inr ()" "read_index env (index_file w) = Inr rs"
    "admit env w st (effective_root st proj rt) unbound rs = Inr rs'"
  shows "create_session_txn env st proj co rt rel unbound callback now out1 out2 out3 w =
    (let eff = effective_root st proj rt; name = s_name st;
         key = make_scoped_key (hexdigest env) name eff;
         entry = build_entry st proj eff co rel now;
         rs1 = dset rs' key entry; existed = store_exists (dir_of env w eff name) in
     and_then (write_index out1 rs1) (\<lambda>_.
       on_failure (publish env eff name key entry rs1 callback out2)
         (on_state (\<lambda>w. if \<not> existed \<and> store_exists (dir_of env w eff name) then ret ()
               else compensate_locked rs1 key out3))) w)"
  by (simp add: create_session_txn_def publish_def Let_def read_step_index_def and_then_check_eq assms)

lemma create_refused:
  assumes "validate_name (s_name st) = Inr ()" "read_index env (index_file w) = Inr rs"
    "admit env w st (effective_root st proj rt) unbound rs = Inl e"
  shows "create_session_txn env st proj co rt rel unbound callback now out1 out2 out3 w = ([], Inl e)"
  by (simp add: create_session_txn_def Let_def read_step_index_def and_then_check_eq assms)

lemma create_unread:
  "validate_name (s_name st) = Inl e \<or> read_index env (index_file w) = Inl e \<Longrightarrow>
     fst (create_session_txn env st proj co rt rel unbound callback now out1 out2 out3 w) = []"
  by (cases "validate_name (s_name st)")
    (auto simp: create_session_txn_def Let_def read_step_index_def and_then_check_eq)


text \<open>The directories of a world differ from another's in one session at most.\<close>

definition only_target :: "env \<Rightarrow> string \<Rightarrow> string \<Rightarrow> world \<Rightarrow> world \<Rightarrow> bool" where
  "only_target env r n w v \<longleftrightarrow>
     (\<forall>r' n'. (r', n') \<noteq> (canonical env r, n) \<longrightarrow> dirs v r' n' = dirs w r' n') \<and>
     (dir_of env v r n = dir_of env w r n \<or> present (dir_of env v r n))"

lemma only_target_set_dir: "only_target env r n w v \<Longrightarrow> present d \<Longrightarrow> only_target env r n w (set_dir env r n d v)"
  by (auto simp: only_target_def set_dir_def dir_of_def)

lemma only_target_other:
  "only_target env r n w v \<Longrightarrow> (r', n') \<noteq> (canonical env r, n) \<Longrightarrow> dirs v r' n' = dirs w r' n'"
  by (auto simp: only_target_def)

lemma only_target_wf: "only_target env r n w v \<Longrightarrow> dirs_wf (dirs w) \<Longrightarrow> dirs_wf (dirs v)"
  unfolding only_target_def dirs_wf_def dir_of_def by (metis prod.inject)

lemma safe_publish:
  assumes f: "\<And>d. safe present f d"
    and rs: "wf_rows env rs" "dget rs key = Some e"
    and C: "\<And>v. only_target env eff name w v \<Longrightarrow> covers env rs (dirs v) \<and> dirs_wf (dirs v)"
    and v: "only_target env eff name w v" "rows_at v rs"
  shows "safe (\<lambda>u. inv env u \<and> only_target env eff name w u) (publish env eff name key e rs (in_dir env eff name f) out2) v"
proof -
  have cb: "safe (\<lambda>u. only_target env eff name w u \<and> rows_at u rs) (in_dir env eff name f) v"
    using f v unfolding safe_def by (auto dest!: in_dir_mem intro!: only_target_set_dir)
  have here: "inv env u" if "only_target env eff name w u" "rows_at u rs" for u
    using that C [OF that(1)] rs(1) by (auto simp: inv_def)
  let ?v = "final v (fst (in_dir env eff name f v))"
  have v': "only_target env eff name w ?v" "rows_at ?v rs"
    using safe_final [OF cb] v by auto
  have ok: "row_ok env key (e\<lparr>instance_id := t\<rparr>)" if "review_identity (dir_of env ?v eff name) = Inr t" for t
    using wf_rows_row [OF rs] that review_identity_valid by (cases t) (auto simp: row_ok_def)
  have w2: "inv env (?v\<lparr>index_file := Holds (JObj (index_json (dset rs key (e\<lparr>instance_id := t\<rparr>))))\<rparr>) \<and>
      only_target env eff name w (?v\<lparr>index_file := Holds (JObj (index_json (dset rs key (e\<lparr>instance_id := t\<rparr>))))\<rparr>)"
    if "review_identity (dir_of env ?v eff name) = Inr t" for t
    using C [OF v'(1)] v'(1) inv_update_row [OF rs(1) _ _ rs(2) _ ok [OF that]] by (auto simp: only_target_def dir_of_def)
  show ?thesis
    unfolding publish_def
  proof (rule safe_and_then)
    show "safe (\<lambda>u. inv env u \<and> only_target env eff name w u) (in_dir env eff name f) v"
      by (rule safe_mono [OF cb]) (use here in auto)
  next
    fix a assume "snd (in_dir env eff name f v) = Inr a"
    show "safe (\<lambda>u. inv env u \<and> only_target env eff name w u)
      (and_then (on_state (\<lambda>w. check (review_identity (dir_of env w eff name))))
        (\<lambda>token. let entry = e\<lparr>instance_id := token\<rparr>
           in and_then (write_index out2 (dset rs key entry)) (\<lambda>_. ret entry))) ?v"
      using w2 by (auto simp: safe_check Let_def intro!: safe_write_ret)
  qed
qed

lemma safe_create:
  assumes codec: "codec_ok env" and i: "inv env w"
    and f: "\<And>d. safe present f d" and eff: "eff = effective_root st proj rt" "eff \<noteq> []"
  shows "safe (inv env)
    (create_session_txn env st proj co rt rel unbound (in_dir env eff (s_name st) f) now out1 out2 out3) w"
proof (cases "validate_name (s_name st)")
  case (Inl e)
  then show ?thesis by (simp add: safe_def create_unread [OF disjI1 [OF Inl]])
next
  case name: (Inr u)
  obtain rs where R: "read_index env (index_file w) = Inr rs" "wf_rows env rs" "covers env rs (dirs w)" "dirs_wf (dirs w)" "rows_at w rs"
    by (rule inv_read [OF codec i])
  let ?name = "s_name st" and ?key = "make_scoped_key (hexdigest env) (s_name st) eff"
  let ?e = "build_entry st proj eff co rel now"
  have nm: "validate_name ?name = Inr ()" using name by simp
  have kn: "session_name_from_key ?key = ?name"
    by (rule session_name_from_scoped_key [OF name_no_sep [OF nm]])
  show ?thesis
  proof (cases "admit env w st eff unbound rs")
    case (Inl e)
    then show ?thesis using create_refused [OF nm R(1)] eff(1) by (simp add: safe_def)
  next
    case (Inr rs')
    note A = admit_Inr [OF Inr nm]
    let ?rs1 = "dset rs' ?key ?e"
    have wf': "wf_rows env rs'" using A(1) wf_rows_ddel [OF R(2)] by simp
    have C': "covers env rs' (dirs w)"
      unfolding A(1) by (rule covers_ddel [OF R(3)]) (use A(3) kn in simp)
    have wf1: "wf_rows env ?rs1"
      by (rule wf_rows_dset [OF wf' build_entry_row_ok [OF nm eff(2)]])
    have drop: "ddel ?rs1 ?key = rs'"
      using A(1) by (simp add: ddel_dset)
    have C1: "covers env ?rs1 (dirs v) \<and> dirs_wf (dirs v)" if v: "only_target env eff ?name w v" for v
    proof
      show "dirs_wf (dirs v)" by (rule only_target_wf [OF v R(4)])
      show "covers env ?rs1 (dirs v)"
        unfolding covers_def
      proof (intro allI impI)
        fix r n assume ex: "store_exists (dirs v r n)"
        show "\<exists>k e. dget ?rs1 k = Some e \<and> canonical env (root_of e) = r \<and> session_name_from_key k = n"
        proof (cases "(r, n) = (canonical env eff, ?name)")
          case True
          then show ?thesis using kn by (intro exI [of _ ?key] exI [of _ ?e]) (simp add: build_entry_root [OF eff(2)])
        next
          case False
          then have "store_exists (dirs w r n)" using ex only_target_other [OF v, of r n] by simp
          then obtain k e where k: "dget rs' k = Some e" "canonical env (root_of e) = r" "session_name_from_key k = n"
            using C' unfolding covers_def by blast
          moreover have "k \<noteq> ?key" using k(1) A(1) by auto
          ultimately show ?thesis by (intro exI [of _ k] exI [of _ e]) simp
        qed
      qed
    qed
    let ?w1 = "w\<lparr>index_file := Holds (JObj (index_json ?rs1))\<rparr>"
    have t1: "only_target env eff ?name w ?w1" "rows_at ?w1 ?rs1" by (simp_all add: only_target_def rows_at_def dir_of_def)
    have w1: "inv env ?w1" using C1 [OF t1(1)] wf1 t1(2) unfolding inv_def by blast
    let ?pub = "publish env eff ?name ?key ?e ?rs1 (in_dir env eff ?name f) out2"
    have pub: "safe (\<lambda>u. inv env u \<and> only_target env eff ?name w u) ?pub ?w1"
      by (rule safe_publish [OF f wf1 _ C1 t1]) simp
    have comp: "inv env (v\<lparr>index_file := Holds (JObj (index_json rs'))\<rparr>)"
      if v: "only_target env eff ?name w v" and "store_exists (dir_of env w eff ?name) \<or> \<not> store_exists (dir_of env v eff ?name)" for v
    proof (rule inv_write [OF wf' _ only_target_wf [OF v R(4)]])
      show "covers env rs' (dirs v)"
        unfolding covers_def
      proof (intro allI impI)
        fix r n assume "store_exists (dirs v r n)"
        then have "store_exists (dirs w r n)"
          using only_target_other [OF v, of r n] that(2) by (cases "(r, n) = (canonical env eff, ?name)") (auto simp: dir_of_def)
        then show "\<exists>k e. dget rs' k = Some e \<and> canonical env (root_of e) = r \<and> session_name_from_key k = n"
          using C' unfolding covers_def by blast
      qed
    qed
    have final: "only_target env eff ?name w (final ?w1 (fst (?pub ?w1)))"
      using safe_final [OF pub] w1 t1(1) by simp
    have "safe (inv env) (on_failure ?pub
         (on_state (\<lambda>v. if \<not> store_exists (dir_of env w eff ?name) \<and> store_exists (dir_of env v eff ?name) then ret ()
               else compensate_locked ?rs1 ?key out3))) ?w1"
      by (rule safe_on_failure [OF safe_mono [OF pub]])
        (auto simp: compensate_locked_def drop intro!: safe_write comp final)
    then have tail: "safe (inv env) (and_then (write_index out1 ?rs1) (\<lambda>_. on_failure ?pub
         (on_state (\<lambda>v. if \<not> store_exists (dir_of env w eff ?name) \<and> store_exists (dir_of env v eff ?name) then ret ()
               else compensate_locked ?rs1 ?key out3)))) w"
      unfolding write_index_def by (intro safe_durable_then w1)
    note ev = create_eval [OF nm R(1) Inr [unfolded eff(1)], folded eff(1), unfolded Let_def]
    show ?thesis using tail unfolding safe_def ev .
  qed
qed

section \<open>Reachable worlds\<close>

lemma present_create: "safe present (create_exclusive name m tok out1 out2) d"
  unfolding safe_def create_exclusive_eval Let_def by (auto split: sum.splits if_splits wout.splits)

lemma read_manifest_file: "read_manifest decode n (manifest d) = Inr m \<Longrightarrow> store_exists d"
  by (auto simp: store_exists_def is_file_iff read_manifest_def)

lemma quiet_update: "quiet (update decode n x mutate out) d"
  unfolding quiet_def safe_def
proof
  fix d' assume "d' \<in> set (fst (update decode n x mutate out d))"
  then show "(store_exists d' \<longrightarrow> store_exists d) \<and> (\<not> present d' \<longrightarrow> manifest d' = Missing)"
    by (cases rule: update_mem) (auto simp: store_exists_def dest: write_unlocked_present read_manifest_file)
qed

lemma quiet_update_if_unchanged: "quiet (update_if_unchanged decode sha n s mutate out) d"
  unfolding quiet_def safe_def
proof
  let ?d = "d\<lparr>present := True, lock_entry := True\<rparr>"
  fix d' assume "d' \<in> set (fst (update_if_unchanged decode sha n s mutate out d))"
  then consider "d' = ?d" | m' where "check_unchanged sha s ?d = Inr ()" "d' \<in> set (fst (write_unlocked n m' out ?d))"
    apply (auto simp: update_if_unchanged_def and_then_mem and_then_check_eq split: option.splits sum.splits)
    subgoal for f m by (cases "f m") auto
    done
  then show "(store_exists d' \<longrightarrow> store_exists d) \<and> (\<not> present d' \<longrightarrow> manifest d' = Missing)"
  proof cases
    case 2
    have "store_exists d" using 2(1) by (auto simp: check_unchanged_def store_exists_def is_file_iff split: state_file.splits)
    with 2(2) show ?thesis by (auto dest: write_unlocked_present)
  qed (auto simp: store_exists_def)
qed

lemma quiet_review_identity_create: "quiet (review_identity_create decode n tok out) d"
  by (auto simp: quiet_def safe_def review_identity_create_def and_then_mem and_then_check_eq write_owner_def
      store_exists_def dest!: durable_mem split: if_splits sum.splits)

lemma quiet_delete:
  assumes "\<not> present d \<longrightarrow> manifest d = Missing"
  shows "quiet (delete out1 out2) d"
  using assms
  by (cases out1; cases out2;
      auto simp: quiet_def safe_def delete_def delete_locked_def and_then_def remove_dir_def store_exists_def split: if_splits)

text \<open>
  One step of the store: an operation of the index or of one session's store, up to any of the
  states its writes make durable, so that a step also stands for a process killed on the way; or a
  change of the state outside a session directory.
\<close>

inductive step :: "env \<Rightarrow> world \<Rightarrow> world \<Rightarrow> bool" for env where
  create: "eff = effective_root st proj rt \<Longrightarrow> eff \<noteq> [] \<Longrightarrow>
     w' \<in> set (fst (create_session_txn env st proj co rt rel unbound
        (in_dir env eff (s_name st) (create_exclusive (s_name st) m tok o1 o2)) now out1 out2 out3 w)) \<Longrightarrow> step env w w'"
| delete: "(\<And>rs k e. read_index env (index_file w) = Inr rs \<Longrightarrow> lookup env rs name rt = Inr (Some (k, e)) \<Longrightarrow>
        canonical env r = canonical env (root_of e)) \<Longrightarrow>
     w' \<in> set (fst (delete_session_txn env name rt x (in_dir env r name (delete_locked o1 o2)) out w)) \<Longrightarrow> step env w w'"
| migrate: "valid_instance_id tok \<Longrightarrow>
     w' \<in> set (fst (migrate_session_identity env decode sha name rt es ro tok o1 o2 w)) \<Longrightarrow> step env w w'"
| touch: "w' \<in> set (fst (update_session env name acc rt now out w)) \<Longrightarrow> step env w w'"
| uuid: "w' \<in> set (fst (update_uuid env name u rt out w)) \<Longrightarrow> step env w w'"
| thread: "w' \<in> set (fst (update_codex_thread env name t rt x out w)) \<Longrightarrow> step env w w'"
| sync: "w' \<in> set (fst (sync_uuid_from_state env name st out w)) \<Longrightarrow> step env w w'"
| listing: "w' \<in> set (fst (list_sessions env inc pf rf out w1 w2 w)) \<Longrightarrow> step env w w'"
| get: "w' \<in> set (fst (get_session env name rt out w1 w2 w)) \<Longrightarrow> step env w w'"
| store_update: "w' \<in> set (fst (in_dir env r n (update decode n x mutate out) w)) \<Longrightarrow> step env w w'"
| store_repair: "w' \<in> set (fst (in_dir env r n (update_if_unchanged decode sha n s mo out) w)) \<Longrightarrow> step env w w'"
| store_identity: "w' \<in> set (fst (in_dir env r n (review_identity_create decode n tok out) w)) \<Longrightarrow> step env w w'"
| store_delete: "w' \<in> set (fst (in_dir env r n (delete o1 o2) w)) \<Longrightarrow> step env w w'"
| outside: "step env w (set_dir env r n ((dir_of env w r n)\<lparr>history := h, cleanup := c\<rparr>) w)"

inductive_cases step_elim: "step env w w'"

lemma safeD: "safe P f w \<Longrightarrow> w' \<in> set (fst (f w)) \<Longrightarrow> P w'"
  by (simp add: safe_def)

lemma step_inv:
  assumes "codec_ok env" "step env w w'" "inv env w"
  shows "inv env w'"
  using assms(2,3)
proof cases
  case (create eff st proj rt co rel unbound m tok o1 o2 now out1 out2 out3)
  show ?thesis
    by (rule safeD [OF safe_create [OF assms(1,3) present_create create(1,2)] create(3)])
next
  case (delete name rt r x o1 o2 out)
  show ?thesis by (rule safeD [OF safe_delete [OF assms(1,3) delete(1)] delete(2)])
next
  case migrate
  then show ?thesis by (rule_tac safeD [OF safe_migrate [OF assms(1,3)]])
next
  case touch
  then show ?thesis by (rule safeD [OF safe_update_session [OF assms(1,3)]])
next
  case uuid
  then show ?thesis by (rule safeD [OF safe_update_uuid [OF assms(1,3)]])
next
  case thread
  then show ?thesis by (rule safeD [OF safe_update_codex_thread [OF assms(1,3)]])
next
  case sync
  then show ?thesis by (rule safeD [OF safe_sync_uuid [OF assms(1,3)]])
next
  case listing
  then show ?thesis by (rule safeD [OF safe_list_sessions [OF assms(1,3)]])
next
  case get
  then show ?thesis by (rule safeD [OF safe_get_session [OF assms(1,3)]])
next
  case store_update
  then show ?thesis by (rule safeD [OF safe_in_dir [OF assms(3) quiet_update]])
next
  case store_repair
  then show ?thesis by (rule safeD [OF safe_in_dir [OF assms(3) quiet_update_if_unchanged]])
next
  case store_identity
  then show ?thesis by (rule safeD [OF safe_in_dir [OF assms(3) quiet_review_identity_create]])
next
  case (store_delete r n o1 o2)
  have "dirs_wf (dirs w)" using assms(3) by (simp add: inv_def)
  from safe_in_dir [OF assms(3) quiet_delete [OF dirs_wf_dir_of [OF this]]] store_delete
  show ?thesis by (rule safeD)
next
  case (outside r n h c)
  have "dirs_wf (dirs w)" using assms(3) by (simp add: inv_def)
  from dirs_wf_dir_of [OF this, of env r n] show ?thesis
    unfolding outside by (intro inv_set_dir assms(3)) (auto simp: store_exists_def)
qed

lemma reachable_inv: "(step env)\<^sup>*\<^sup>* w w' \<Longrightarrow> codec_ok env \<Longrightarrow> inv env w \<Longrightarrow> inv env w'"
  by (induction rule: rtranclp_induct) (auto intro: step_inv)

definition fresh :: "world \<Rightarrow> bool" where
  "fresh w \<longleftrightarrow> index_file w = Missing \<and> (\<forall>r n. manifest (dirs w r n) = Missing)"

lemma fresh_inv: "fresh w \<Longrightarrow> inv env w"
  unfolding inv_def fresh_def rows_at_def covers_def dirs_wf_def store_exists_def
  by (auto intro!: exI [of _ "[]"])

section \<open>Lemmas: the rows a creation passes through\<close>

text \<open>
  The rows at a durable state of a creation: the admitted rows, with at most one row more, that of
  the new session.
\<close>

definition creation_rows :: "env \<Rightarrow> publication \<Rightarrow> string \<Rightarrow> rows \<Rightarrow> rows \<Rightarrow> bool" where
  "creation_rows env st eff rs' rs2 \<longleftrightarrow>
     (let key = make_scoped_key (hexdigest env) (s_name st) eff in
      wf_rows env rs2 \<and> ddel rs2 key = rs' \<and>
      (\<forall>e. dget rs2 key = Some e \<longrightarrow>
         root_of e = eff \<and> claude_session_id e = s_claude st \<and> codex_thread_id e = s_codex st))"

lemma creation_rows_dset:
  assumes "wf_rows env rs'" "dget rs' key = None" "key = make_scoped_key (hexdigest env) (s_name st) eff"
    and "row_ok env key e" "root_of e = eff" "claude_session_id e = s_claude st" "codex_thread_id e = s_codex st"
  shows "creation_rows env st eff rs' (dset rs' key e)"
proof -
  have "ddel (dset rs' key e) key = rs'" using assms(2) by (rule ddel_dset_new)
  then show ?thesis
    using assms(4-7) wf_rows_dset [OF assms(1,4)] by (simp add: creation_rows_def assms(3) [symmetric])
qed

lemma creation_rows_drop:
  "wf_rows env rs' \<Longrightarrow> dget rs' key = None \<Longrightarrow> key = make_scoped_key (hexdigest env) (s_name st) eff \<Longrightarrow>
     creation_rows env st eff rs' rs'"
  unfolding creation_rows_def Let_def by (auto simp: dkey_iff intro!: delete_id)

lemma index_file_in_dir_mem: "w' \<in> set (fst (in_dir env r n f w)) \<Longrightarrow> index_file w' = index_file w"
  by (auto dest!: in_dir_mem)

lemma build_entry_ids [simp]:
  "claude_session_id (build_entry st proj eff co rel now) = s_claude st"
  "codex_thread_id (build_entry st proj eff co rel now) = s_codex st"
  by (simp_all add: build_entry_def)

definition rows_in :: "(rows \<Rightarrow> bool) \<Rightarrow> world \<Rightarrow> bool" where
  "rows_in P w \<longleftrightarrow> (\<exists>rs. index_file w = Holds (JObj (index_json rs)) \<and> P rs)"

lemma safe_creation_rows:
  assumes name: "validate_name (s_name st) = Inr ()"
    and R: "read_index env (index_file w) = Inr rs" "wf_rows env rs"
    and eff: "eff = effective_root st proj rt" "eff \<noteq> []"
    and adm: "admit env w st eff unbound rs = Inr rs'"
  shows "safe (rows_in (creation_rows env st eff rs'))
    (create_session_txn env st proj co rt rel unbound (in_dir env eff (s_name st) f) now out1 out2 out3) w"
proof -
  let ?key = "make_scoped_key (hexdigest env) (s_name st) eff"
  let ?e = "build_entry st proj eff co rel now"
  let ?rs1 = "dset rs' ?key ?e"
  let ?P = "rows_in (creation_rows env st eff rs')"
  have rs': "wf_rows env rs'" "dget rs' ?key = None"
    using admit_Inr(1) [OF adm name] R(2) by (simp_all add: wf_rows_ddel)
  have ok: "row_ok env ?key ?e" by (rule build_entry_row_ok [OF name eff(2)])
  have row: "creation_rows env st eff rs' (dset rs' ?key (?e\<lparr>instance_id := t\<rparr>))"
    if "row_ok env ?key (?e\<lparr>instance_id := t\<rparr>)" for t
    by (rule creation_rows_dset [OF rs' refl that]) (simp_all add: build_entry_root [OF eff(2)])
  have row1: "creation_rows env st eff rs' ?rs1"
    by (rule creation_rows_dset [OF rs' refl ok]) (simp_all add: build_entry_root [OF eff(2)])
  have w1: "?P (w\<lparr>index_file := Holds (JObj (index_json ?rs1))\<rparr>)" using row1 by (auto simp: rows_in_def)
  let ?cb = "in_dir env eff (s_name st) f"
  let ?pub = "publish env eff (s_name st) ?key ?e ?rs1 ?cb out2"
  let ?w1 = "w\<lparr>index_file := Holds (JObj (index_json ?rs1))\<rparr>"
  have cb: "safe ?P ?cb ?w1"
    using w1 by (auto simp: safe_def rows_in_def dest!: index_file_in_dir_mem)
  have ok2: "row_ok env ?key (?e\<lparr>instance_id := t\<rparr>)" if "review_identity d = Inr t" for d t
    using ok that review_identity_valid by (cases t) (auto simp: row_ok_def)
  have w2: "?P (v\<lparr>index_file := Holds (JObj (index_json (dset rs' ?key (?e\<lparr>instance_id := t\<rparr>))))\<rparr>)"
    if "review_identity d = Inr t" for v d t
    unfolding rows_in_def using row [OF ok2 [OF that]] by (intro exI conjI) simp_all
  have pub: "safe ?P ?pub ?w1"
    unfolding publish_def
    by (rule safe_and_then [OF cb]) (auto simp: safe_check Let_def intro!: safe_write_ret w2)
  have drop: "?P (v\<lparr>index_file := Holds (JObj (index_json (ddel ?rs1 ?key)))\<rparr>)" for v
    using creation_rows_drop [OF rs' refl] rs'(2) by (auto simp: rows_in_def ddel_dset_new)
  have "safe ?P (on_failure ?pub
       (on_state (\<lambda>v. if \<not> store_exists (dir_of env w eff (s_name st)) \<and> store_exists (dir_of env v eff (s_name st)) then ret ()
             else compensate_locked ?rs1 ?key out3))) ?w1"
    by (rule safe_on_failure [OF pub]) (auto simp: compensate_locked_def intro!: safe_write drop)
  then have tail: "safe ?P (and_then (write_index out1 ?rs1) (\<lambda>_. on_failure ?pub
       (on_state (\<lambda>v. if \<not> store_exists (dir_of env w eff (s_name st)) \<and> store_exists (dir_of env v eff (s_name st)) then ret ()
             else compensate_locked ?rs1 ?key out3)))) w"
    unfolding write_index_def by (intro safe_durable_then w1)
  note ev = create_eval [OF name R(1) adm [unfolded eff(1)], folded eff(1), unfolded Let_def]
  show ?thesis using tail unfolding safe_def ev .
qed

section \<open>An instance of the environment\<close>

text \<open>A strict decoder of rows, and an environment that satisfies the codec law.\<close>

definition opt_at :: "jobj \<Rightarrow> string \<Rightarrow> string option option" where
  "opt_at r k = (case jget r k of JNull \<Rightarrow> Some None | JStr s \<Rightarrow> Some (Some s) | _ \<Rightarrow> None)"

definition row_of_json :: "jobj \<Rightarrow> entry option" where
  "row_of_json r =
     (case (str_at r ''worktree_path'', str_at r ''project_root'', str_at r ''last_accessed_at'',
            str_at r ''forge_root'', str_at r ''checkout_root'', str_at r ''relative_path'') of
        (Some a, Some b, Some c, Some d, Some e, Some f) \<Rightarrow>
          (case (opt_at r ''parent_session'', opt_at r ''claude_session_id'', opt_at r ''codex_thread_id'',
                 opt_at r ''instance_id'', jget r ''is_fork'', jget r ''is_incognito'') of
             (Some p, Some q, Some x, Some i, JBool g, JBool h) \<Rightarrow>
               Some \<lparr>worktree_path = a, project_root = b, last_accessed_at = c, is_fork = g, is_incognito = h,
                     parent_session = p, claude_session_id = q, codex_thread_id = x, forge_root = d,
                     checkout_root = e, relative_path = f, instance_id = i\<rparr>
           | _ \<Rightarrow> None)
      | _ \<Rightarrow> None)"

fun rows_of_json :: "jobj \<Rightarrow> rows option" where
  "rows_of_json [] = Some []"
| "rows_of_json ((k, JObj r) # d) =
     (case (row_of_json r, rows_of_json d) of (Some e, Some es) \<Rightarrow> Some ((k, e) # es) | _ \<Rightarrow> None)"
| "rows_of_json _ = None"

definition strict_decode_index :: "jobj \<Rightarrow> string + rows" where
  "strict_decode_index d =
     (case obj_at d ''sessions'' of
        None \<Rightarrow> Inl ''sessions''
      | Some s \<Rightarrow> (case rows_of_json s of Some rs \<Rightarrow> Inr rs | None \<Rightarrow> Inl ''row''))"

definition sample_env :: env where
  "sample_env = \<lparr>hexdigest = (\<lambda>r. r @ ''000000000000''), canonical = (\<lambda>r. r),
     decode_index = strict_decode_index, timestamp = (\<lambda>_. None)\<rparr>"

lemma opt_at_entry [simp]:
  "opt_at (entry_json e) ''parent_session'' = Some (parent_session e)"
  "opt_at (entry_json e) ''claude_session_id'' = Some (claude_session_id e)"
  "opt_at (entry_json e) ''codex_thread_id'' = Some (codex_thread_id e)"
  "opt_at (entry_json e) ''instance_id'' = Some (instance_id e)"
  by (simp_all add: opt_at_def entry_json_def jget_def opt_json_def split: option.splits)

lemma str_at_entry [simp]:
  "str_at (entry_json e) ''worktree_path'' = Some (worktree_path e)"
  "str_at (entry_json e) ''project_root'' = Some (project_root e)"
  "str_at (entry_json e) ''last_accessed_at'' = Some (last_accessed_at e)"
  "str_at (entry_json e) ''forge_root'' = Some (forge_root e)"
  "str_at (entry_json e) ''checkout_root'' = Some (checkout_root e)"
  "str_at (entry_json e) ''relative_path'' = Some (relative_path e)"
  "jget (entry_json e) ''is_fork'' = JBool (is_fork e)"
  "jget (entry_json e) ''is_incognito'' = JBool (is_incognito e)"
  by (simp_all add: str_at_def entry_json_def jget_def)

lemma row_of_entry_json [simp]: "row_of_json (entry_json e) = Some e"
  by (simp add: row_of_json_def)

lemma rows_of_index [simp]: "rows_of_json (map (\<lambda>(k, e). (k, JObj (entry_json e))) rs) = Some rs"
  by (induction rs) auto

lemma strict_decode_index_json: "strict_decode_index (index_json rs) = Inr rs"
  by (simp add: strict_decode_index_def index_json_def obj_at_def jget_def)

lemma sample_codec: "codec_ok sample_env"
  by (simp add: codec_ok_def sample_env_def strict_decode_index_json)

definition sample_publication :: publication where
  "sample_publication = \<lparr>s_name = ''demo'', s_worktree = None, s_forge_root = None, s_is_fork = False,
     s_is_incognito = False, s_parent = None, s_claude = Some ''c1'', s_codex = None\<rparr>"

definition fresh_world :: world where
  "fresh_world = \<lparr>index_file = Missing, dirs = (\<lambda>r n. empty_sdir)\<rparr>"

definition sample_create :: "(world, err, entry) op" where
  "sample_create =
     create_session_txn sample_env sample_publication ''/p'' None None None True
       (in_dir sample_env ''/p'' ''demo'' (create_exclusive ''demo'' sample_state sample_token WriteOk WriteOk))
       ''now'' WriteOk WriteOk WriteOk"

definition created_world :: world where
  "created_world = final fresh_world (fst (sample_create fresh_world))"

lemma fresh_world_fresh: "fresh fresh_world"
  by (simp add: fresh_def fresh_world_def empty_sdir_def)

lemma sample_root: "effective_root sample_publication ''/p'' None = ''/p''"
  by code_simp

lemma sample_name: "validate_name (s_name sample_publication) = Inr ()"
  by code_simp

lemma sample_create_ok: "case snd (sample_create fresh_world) of Inr e \<Rightarrow> instance_id e = Some sample_token | Inl _ \<Rightarrow> False"
  by code_simp

lemma created_world_step: "created_world \<in> set (fst (sample_create fresh_world))"
proof -
  have "fst (sample_create fresh_world) \<noteq> []"
  proof
    assume "fst (sample_create fresh_world) = []"
    moreover have "length (fst (sample_create fresh_world)) = 6" by code_simp
    ultimately show False by simp
  qed
  then show ?thesis by (simp add: created_world_def final_def)
qed

section \<open>Properties\<close>



text \<open>The directories after a write of the index are those before it.\<close>

lemma write_index_final [simp]:
  "dir_of env (final w (fst (write_index out rs w))) r n = dir_of env w r n"
  by (cases out) (simp_all add: write_index_def dir_of_def)

lemma write_index_Inr: "snd (write_index out rs w) = Inr u \<longleftrightarrow> out = WriteOk"
  by (simp add: write_index_def durable_Inr)

lemma write_index_ok: "write_index WriteOk rs w = ([w\<lparr>index_file := Holds (JObj (index_json rs))\<rparr>], Inr ())"
  by (simp add: write_index_def)

text \<open>A creation that succeeds.\<close>

lemma create_Inr:
  assumes ok: "snd (create_session_txn env st proj co rt rel unbound
      (in_dir env eff (s_name st) f) now out1 out2 out3 w) = Inr entry"
    and eff: "eff = effective_root st proj rt" and key: "key = make_scoped_key (hexdigest env) (s_name st) eff"
  obtains rs rs' d t where "validate_name (s_name st) = Inr ()" "read_index env (index_file w) = Inr rs"
    "admit env w st eff unbound rs = Inr rs'"
    "d = final (dir_of env w eff (s_name st)) (fst (f (dir_of env w eff (s_name st))))"
    "snd (f (dir_of env w eff (s_name st))) = Inr ()" "review_identity d = Inr t"
    "entry = (build_entry st proj eff co rel now)\<lparr>instance_id := t\<rparr>"
    "final w (fst (create_session_txn env st proj co rt rel unbound
       (in_dir env eff (s_name st) f) now out1 out2 out3 w)) =
     (set_dir env eff (s_name st) d w)\<lparr>index_file := Holds (JObj (index_json (dset rs' key entry)))\<rparr>"
proof -
  let ?name = "s_name st"
  obtain rs where name: "validate_name ?name = Inr ()" and R: "read_index env (index_file w) = Inr rs"
    using ok create_unread by (cases "validate_name ?name"; cases "read_index env (index_file w)")
      (auto simp: create_session_txn_def Let_def read_step_index_def and_then_check_eq)
  obtain rs' where A: "admit env w st eff unbound rs = Inr rs'"
    using ok create_refused [OF name R] eff by (cases "admit env w st eff unbound rs") auto
  let ?e = "build_entry st proj eff co rel now"
  let ?rs1 = "dset rs' key ?e"
  let ?w1 = "w\<lparr>index_file := Holds (JObj (index_json ?rs1))\<rparr>"
  let ?cb = "in_dir env eff ?name f"
  let ?v = "final ?w1 (fst (?cb ?w1))"
  note ev = create_eval [OF name R A [unfolded eff], folded eff, unfolded Let_def, folded key]
  from ok have out1: "out1 = WriteOk"
    unfolding ev by (auto simp: and_then_Inr write_index_Inr)
  from ok have pub: "snd (publish env eff ?name key ?e ?rs1 ?cb out2 ?w1) = Inr entry"
    unfolding ev out1 by (auto simp: and_then_Inr write_index_ok)
  then obtain t where cb: "snd (?cb ?w1) = Inr ()" and t: "review_identity (dir_of env ?v eff ?name) = Inr t"
    and e: "entry = ?e\<lparr>instance_id := t\<rparr>" and out2: "out2 = WriteOk"
    unfolding publish_def by (auto simp: and_then_Inr and_then_check_eq Let_def write_index_Inr split: sum.splits)
  have d0: "dir_of env ?w1 eff ?name = dir_of env w eff ?name" by (simp add: dir_of_def)
  let ?d = "final (dir_of env w eff ?name) (fst (f (dir_of env w eff ?name)))"
  have v: "?v = set_dir env eff ?name ?d ?w1" by (simp add: in_dir_final d0)
  have dv: "dir_of env ?v eff ?name = ?d" by (simp add: v dir_of_set_dir)
  have "final ?w1 (fst (publish env eff ?name key ?e ?rs1 ?cb out2 ?w1)) =
      ?v\<lparr>index_file := Holds (JObj (index_json (dset rs' key entry)))\<rparr>"
  proof -
    obtain tr where tr: "?cb ?w1 = (tr, Inr ())" using cb by (cases "?cb ?w1") auto
    with t have t': "review_identity (dir_of env (final ?w1 tr) eff ?name) = Inr t" by simp
    show ?thesis
      unfolding publish_def by (simp add: and_then_def tr t' Let_def out2 write_index_ok e)
  qed
  moreover obtain tr where tr: "publish env eff ?name key ?e ?rs1 ?cb out2 ?w1 = (tr, Inr entry)"
    using pub by (cases "publish env eff ?name key ?e ?rs1 ?cb out2 ?w1") auto
  ultimately have tr': "final ?w1 tr = ?v\<lparr>index_file := Holds (JObj (index_json (dset rs' key entry)))\<rparr>"
    by simp
  have fin: "final w (fst (create_session_txn env st proj co rt rel unbound ?cb now out1 out2 out3 w)) =
      (set_dir env eff ?name ?d w)\<lparr>index_file := Holds (JObj (index_json (dset rs' key entry)))\<rparr>"
    unfolding ev out1
    by (simp add: and_then_def write_index_ok on_failure_def tr tr' v set_dir_def)
  from name R A refl _ _ e fin show ?thesis
  proof (rule that)
    show "snd (f (dir_of env w eff ?name)) = Inr ()" using cb by (simp add: in_dir_result d0)
    show "review_identity ?d = Inr t" using t dv by simp
  qed
qed


text \<open>
  What a successful creation publishes: the index gains exactly the session's row, keyed by
  its name and root and carrying the instance the session directory now belongs to; every other
  row is as it was, no deletion of the session is pending, and a row that was there before under
  this key had no manifest.
\<close>

lemma creation_publishes:
  assumes eff: "eff = effective_root st proj rt" and key: "key = make_scoped_key (hexdigest env) (s_name st) eff"
    and run: "create_session_txn env st proj co rt rel unbound (in_dir env eff (s_name st) f) now out1 out2 out3 w
      = (trace, Inr entry)"
  shows "\<exists>rs rs'. read_index env (index_file w) = Inr rs \<and>
    index_file (final w trace) = Holds (JObj (index_json rs')) \<and>
    dget rs' key = Some entry \<and> (\<forall>k. k \<noteq> key \<longrightarrow> dget rs' k = dget rs k) \<and>
    review_identity (dir_of env (final w trace) eff (s_name st)) = Inr (instance_id entry) \<and>
    \<not> cleanup (dir_of env w eff (s_name st)) \<and>
    (\<forall>e. dget rs key = Some e \<longrightarrow> \<not> manifest_exists_for_row env w key e)"
proof -
  have ok: "snd (create_session_txn env st proj co rt rel unbound (in_dir env eff (s_name st) f) now out1 out2 out3 w) = Inr entry"
    using run by simp
  note raw = create_Inr [OF ok eff key, unfolded run fst_conv]
  obtain rs rs' d t where c: "validate_name (s_name st) = Inr ()" "read_index env (index_file w) = Inr rs"
    "admit env w st eff unbound rs = Inr rs'" "review_identity d = Inr t"
    "entry = (build_entry st proj eff co rel now)\<lparr>instance_id := t\<rparr>"
    "final w trace = (set_dir env eff (s_name st) d w)\<lparr>index_file := Holds (JObj (index_json (dset rs' key entry)))\<rparr>"
    by (rule raw)
  note A = admit_Inr [OF c(3,1), folded key]
  have "session_name_from_key key = s_name st"
    unfolding key by (rule session_name_from_scoped_key [OF name_no_sep [OF c(1)]])
  then have "\<forall>e. dget rs key = Some e \<longrightarrow> \<not> manifest_exists_for_row env w key e"
    using A(3) by (simp add: manifest_exists_for_row_def dir_of_def)
  moreover have "dir_of env (final w trace) eff (s_name st) = d"
    unfolding c(6) by (simp add: dir_of_def set_dir_def)
  moreover have "instance_id entry = t" by (simp add: c(5))
  ultimately show ?thesis
    using c(2,4,6) A(1,2) by (intro exI [of _ rs] exI [of _ "dset rs' key entry"]) simp
qed

lemma creation_publishes_witness:
  "\<exists>rs'. index_file created_world = Holds (JObj (index_json rs')) \<and>
     (\<exists>e. dget rs' (make_scoped_key (hexdigest sample_env) ''demo'' ''/p'') = Some e \<and>
          review_identity (dir_of sample_env created_world ''/p'' ''demo'') = Inr (instance_id e))"
proof -
  obtain e t where e: "sample_create fresh_world = (t, Inr e)"
    using sample_create_ok by (cases "sample_create fresh_world") (auto split: sum.splits)
  have n: "s_name sample_publication = ''demo''" by (simp add: sample_publication_def)
  have f: "final fresh_world t = created_world" by (simp add: created_world_def e)
  from creation_publishes [OF sample_root [symmetric] refl e [unfolded sample_create_def, folded n]]
  show ?thesis unfolding f n by blast
qed

lemma require_conversation_unbound_iff:
  "require_conversation_unbound rs c x = Inr () \<longleftrightarrow>
     (\<forall>(k, e) \<in> set rs. \<not> held_by c (claude_session_id e) \<and> \<not> held_by x (codex_thread_id e))"
  by (induction rs) auto

lemma require_conversation_unbound_Inl:
  "require_conversation_unbound rs c x = Inl e \<Longrightarrow> \<exists>u n. e = UuidAlreadyBound u n"
  by (induction rs) (auto split: if_splits)

text \<open>
  A creation is decided before it writes anything. With a readable index it is refused, and
  leaves every file as it was, when a deletion of the session is unfinished; when its row has a
  manifest, as \<open>SessionExists\<close>; when another row holds one of its conversations and uniqueness was
  required, as \<open>UuidAlreadyBound\<close>. Otherwise its first write makes the row durable.
\<close>

lemma creation_decided_first:
  assumes name: "validate_name (s_name st) = Inr ()" and R: "read_index env (index_file w) = Inr rs"
    and eff: "eff = effective_root st proj rt" and key: "key = make_scoped_key (hexdigest env) (s_name st) eff"
    and run: "create_session_txn env st proj co rt rel unbound callback now WriteOk out2 out3 w = (trace, result)"
  shows "if cleanup (dir_of env w eff (s_name st)) then trace = [] \<and> (\<exists>m. result = Inl (ValueErr m))
    else if \<exists>e. dget rs key = Some e \<and> manifest_exists_for_row env w key e
      then trace = [] \<and> result = Inl (SessionExists (s_name st))
    else if unbound \<and> (\<exists>(k, e) \<in> set (ddel rs key). held_by (s_claude st) (claude_session_id e) \<or> held_by (s_codex st) (codex_thread_id e))
      then trace = [] \<and> (\<exists>u n. result = Inl (UuidAlreadyBound u n))
    else \<exists>w1 rest. trace = w1 # rest \<and>
      (\<exists>rs1 e. index_file w1 = Holds (JObj (index_json rs1)) \<and> dget rs1 key = Some e \<and> dirs w1 = dirs w)"
proof -
  have ref: "trace = []" "result = Inl x" if "admit env w st eff unbound rs = Inl x" for x
    using create_refused [OF name R that [unfolded eff], of co rel callback now WriteOk out2 out3] run by simp_all
  note unb = require_conversation_unbound_iff [of "ddel rs key" "s_claude st" "s_codex st"]
  let ?held = "\<exists>(k, e) \<in> set (ddel rs key). held_by (s_claude st) (claude_session_id e) \<or> held_by (s_codex st) (codex_thread_id e)"
  let ?live = "\<exists>e. dget rs key = Some e \<and> manifest_exists_for_row env w key e"
  have adm: "admit env w st eff unbound rs =
     (if cleanup (dir_of env w eff (s_name st)) then Inl (ValueErr ''Session has unfinished cleanup'')
      else if ?live then Inl (SessionExists (s_name st))
      else if unbound then (case require_conversation_unbound (ddel rs key) (s_claude st) (s_codex st) of
          Inl e \<Rightarrow> Inl e | Inr _ \<Rightarrow> Inr (ddel rs key)) else Inr (ddel rs key))"
    unfolding admit_def cleanup_pending_def Let_def key [symmetric] name
    by (auto split: bool.splits option.splits)
  consider (c) "cleanup (dir_of env w eff (s_name st))"
    | (s) "\<not> cleanup (dir_of env w eff (s_name st))" "?live"
    | (u) e where "\<not> cleanup (dir_of env w eff (s_name st))" "\<not> ?live"
        "unbound" "require_conversation_unbound (ddel rs key) (s_claude st) (s_codex st) = Inl e"
    | (ok) "\<not> cleanup (dir_of env w eff (s_name st))" "\<not> ?live"
        "unbound \<Longrightarrow> require_conversation_unbound (ddel rs key) (s_claude st) (s_codex st) = Inr ()"
    by (cases "require_conversation_unbound (ddel rs key) (s_claude st) (s_codex st)") auto
  then show ?thesis
  proof cases
    case c
    then have "admit env w st eff unbound rs = Inl (ValueErr ''Session has unfinished cleanup'')" by (simp add: adm)
    from ref [OF this] c show ?thesis by simp
  next
    case s
    then have "admit env w st eff unbound rs = Inl (SessionExists (s_name st))" by (simp add: adm)
    from ref [OF this] s show ?thesis by simp
  next
    case u
    have a: "admit env w st eff unbound rs = Inl e" unfolding adm using u by auto
    have held: "?held" using u(4) unb by auto
    from ref [OF a] u(1,2,3) held require_conversation_unbound_Inl [OF u(4)] show ?thesis
      by (simp only: if_True if_False simp_thms sum.inject)
  next
    case ok
    have a: "admit env w st eff unbound rs = Inr (ddel rs key)"
      unfolding adm using ok by (cases unbound) auto
    have none: "\<not> (unbound \<and> ?held)" using ok(3) unb by auto
    note ev = create_eval [OF name R a [unfolded eff], folded eff, unfolded Let_def, folded key]
    let ?rs1 = "dset (ddel rs key) key (build_entry st proj eff co rel now)"
    let ?w1 = "w\<lparr>index_file := Holds (JObj (index_json ?rs1))\<rparr>"
    obtain rest where "trace = ?w1 # rest"
      using run [unfolded ev] by (auto simp: and_then_def write_index_ok split: prod.splits sum.splits)
    moreover have "index_file ?w1 = Holds (JObj (index_json ?rs1)) \<and>
        dget ?rs1 key = Some (build_entry st proj eff co rel now) \<and> dirs ?w1 = dirs w" by simp
    ultimately have "\<exists>w1 rest. trace = w1 # rest \<and>
      (\<exists>rs1 e. index_file w1 = Holds (JObj (index_json rs1)) \<and> dget rs1 key = Some e \<and> dirs w1 = dirs w)" by blast
    with ok(1,2) none show ?thesis by (simp only: if_False)
  qed
qed

lemma creation_decided_first_witness:
  "\<exists>e. snd (sample_create created_world) = Inl e \<and> fst (sample_create created_world) = []"
proof -
  have c: "\<not> cleanup (dir_of sample_env created_world ''/p'' (s_name sample_publication))" by code_simp
  have "case read_index sample_env (index_file created_world) of Inr rs \<Rightarrow>
      (case dget rs (make_scoped_key (hexdigest sample_env) (s_name sample_publication) ''/p'') of
         Some e \<Rightarrow> manifest_exists_for_row sample_env created_world
            (make_scoped_key (hexdigest sample_env) (s_name sample_publication) ''/p'') e | None \<Rightarrow> False)
    | Inl _ \<Rightarrow> False" by code_simp
  then obtain rs e where r: "read_index sample_env (index_file created_world) = Inr rs"
    "dget rs (make_scoped_key (hexdigest sample_env) (s_name sample_publication) ''/p'') = Some e"
    "manifest_exists_for_row sample_env created_world
            (make_scoped_key (hexdigest sample_env) (s_name sample_publication) ''/p'') e"
    by (auto split: sum.splits option.splits)
  from creation_decided_first [OF sample_name r(1) sample_root [symmetric] refl
      prod.collapse [symmetric, of "sample_create created_world", unfolded sample_create_def]] c r(2,3)
  show ?thesis unfolding sample_create_def by auto
qed

text \<open>The admission of a retry: it sees the rows of the first attempt again.\<close>

lemma retry_admitted:
  assumes codec: "codec_ok env" and name: "validate_name (s_name st) = Inr ()"
    and adm: "admit env w st eff unbound rs = Inr rs'"
    and rows: "rows_in (creation_rows env st eff rs') v"
    and free: "\<not> store_exists (dir_of env v eff (s_name st))" "\<not> cleanup (dir_of env v eff (s_name st))"
  shows "\<exists>rs2. read_index env (index_file v) = Inr rs2 \<and> admit env v st eff unbound rs2 = Inr rs'"
proof -
  let ?key = "make_scoped_key (hexdigest env) (s_name st) eff"
  obtain rs2 where f: "index_file v = Holds (JObj (index_json rs2))" and c: "creation_rows env st eff rs' rs2"
    using rows by (auto simp: rows_in_def)
  then have wf: "wf_rows env rs2" and d: "ddel rs2 ?key = rs'"
    and r: "\<And>e. dget rs2 ?key = Some e \<Longrightarrow> root_of e = eff"
    by (auto simp: creation_rows_def Let_def)
  have kn: "session_name_from_key ?key = s_name st"
    by (rule session_name_from_scoped_key [OF name_no_sep [OF name]])
  have "\<not> (case dget rs2 ?key of Some e \<Rightarrow> manifest_exists_for_row env v ?key e | None \<Rightarrow> False)"
    using r free(1) by (auto simp: manifest_exists_for_row_def kn split: option.splits)
  moreover have "unbound \<Longrightarrow> require_conversation_unbound rs' (s_claude st) (s_codex st) = Inr ()"
    using admit_Inr(4) [OF adm name] .
  ultimately have "admit env v st eff unbound rs2 = Inr rs'"
    unfolding admit_def Let_def cleanup_pending_def name d using free(2) by auto
  moreover have "read_index env (index_file v) = Inr rs2" unfolding f by (rule read_written [OF codec wf])
  ultimately show ?thesis by blast
qed

lemma create_exclusive_succeeds:
  assumes "write_content name m = Inr data" "\<not> store_exists d"
  shows "create_exclusive name m tok WriteOk WriteOk d =
    (let d2 = d\<lparr>present := True, lock_entry := True\<rparr>; d3 = d2\<lparr>owner := OwnerText (owner_text tok)\<rparr>
     in ([d\<lparr>present := True\<rparr>, d2, d3, d3\<lparr>manifest := Holds (JObj data)\<rparr>], Inr ()))"
  using assms write_content_name [OF assms(1)] by (simp add: create_exclusive_eval Let_def)

lemma create_succeeds:
  assumes name: "validate_name (s_name st) = Inr ()" and R: "read_index env (index_file w) = Inr rs"
    and eff: "eff = effective_root st proj rt"
    and adm: "admit env w st eff unbound rs = Inr rs'"
    and m: "write_content (s_name st) m = Inr data" "\<not> store_exists (dir_of env w eff (s_name st))"
    and tok: "valid_instance_id tok"
  shows "snd (create_session_txn env st proj co rt rel unbound
     (in_dir env eff (s_name st) (create_exclusive (s_name st) m tok WriteOk WriteOk)) now WriteOk WriteOk out3 w) =
     Inr ((build_entry st proj eff co rel now)\<lparr>instance_id := Some tok\<rparr>)"
proof -
  let ?n = "s_name st"
  note ev = create_eval [OF name R adm [unfolded eff], folded eff, unfolded Let_def]
  let ?w1 = "w\<lparr>index_file := Holds (JObj (index_json (dset rs' (make_scoped_key (hexdigest env) ?n eff) (build_entry st proj eff co rel now))))\<rparr>"
  let ?f = "create_exclusive ?n m tok WriteOk WriteOk"
  have d: "dir_of env ?w1 eff ?n = dir_of env w eff ?n" by (simp add: dir_of_def)
  note ce = create_exclusive_succeeds [OF m(1), of "dir_of env w eff ?n" tok, OF m(2)]
  obtain tr where cb: "in_dir env eff ?n ?f ?w1 = (tr, Inr ())"
    using ce by (simp add: in_dir_def d Let_def)
  have "final ?w1 tr = set_dir env eff ?n (final (dir_of env w eff ?n) (fst (?f (dir_of env w eff ?n)))) ?w1"
    using in_dir_final [of ?w1 env eff ?n ?f] by (simp add: cb d)
  then have "review_identity (dir_of env (final ?w1 tr) eff ?n) = Inr (Some tok)"
    by (simp add: dir_of_set_dir ce Let_def review_identity_owner_text [OF tok])
  then have pub: "snd (publish env eff ?n (make_scoped_key (hexdigest env) ?n eff) (build_entry st proj eff co rel now)
       (dset rs' (make_scoped_key (hexdigest env) ?n eff) (build_entry st proj eff co rel now)) (in_dir env eff ?n ?f) WriteOk ?w1)
      = Inr ((build_entry st proj eff co rel now)\<lparr>instance_id := Some tok\<rparr>)"
    by (auto simp: publish_def and_then_Inr cb and_then_check_eq Let_def write_index_ok)
  show ?thesis
    unfolding ev by (auto simp: and_then_Inr write_index_ok pub)
qed

text \<open>
  A creation that fails or is killed can be retried: at every durable state of the first
  attempt at which its manifest is not there, the same creation, now with writes that succeed,
  succeeds, even though the row may be there already.
\<close>

lemma creation_retry_succeeds:
  assumes "codec_ok env" "inv env w" "eff = effective_root st proj rt" "eff \<noteq> []"
    and "read_index env (index_file w) = Inr rs" "admit env w st eff unbound rs = Inr rs'"
    and "v \<in> set (fst (create_session_txn env st proj co rt rel unbound
        (in_dir env eff (s_name st) f) now out1 out2 out3 w))"
    and "\<not> store_exists (dir_of env v eff (s_name st))" "\<not> cleanup (dir_of env v eff (s_name st))"
    and "write_content (s_name st) m = Inr data" "valid_instance_id tok"
  shows "\<exists>entry. snd (create_session_txn env st proj co rt rel unbound
     (in_dir env eff (s_name st) (create_exclusive (s_name st) m tok WriteOk WriteOk)) now' WriteOk WriteOk out v) = Inr entry \<and>
     instance_id entry = Some tok"
proof -
  have name: "validate_name (s_name st) = Inr ()" by (rule write_content_name [OF assms(10)])
  have wf: "wf_rows env rs"
    using inv_read [OF assms(1,2)] assms(5) by (metis sum.inject(2))
  have "rows_in (creation_rows env st eff rs') v"
    by (rule safeD [OF safe_creation_rows [OF name assms(5) wf assms(3,4,6)] assms(7)])
  from retry_admitted [OF assms(1) name assms(6) this assms(8,9)]
  obtain rs2 where "read_index env (index_file v) = Inr rs2" "admit env v st eff unbound rs2 = Inr rs'" by blast
  from create_succeeds [OF name this(1) assms(3) this(2) assms(10,8,11)] show ?thesis by simp
qed

text \<open>A world in which the row is durable and the process was killed before the manifest.\<close>

definition killed_world :: world where
  "killed_world = hd (fst (sample_create fresh_world))"

lemma creation_retry_succeeds_witness:
  "\<exists>entry. snd (sample_create killed_world) = Inr entry \<and> instance_id entry = Some sample_token"
proof -
  have n: "s_name sample_publication = ''demo''" by (simp add: sample_publication_def)
  have r: "read_index sample_env (index_file fresh_world) = Inr []" by code_simp
  have a: "admit sample_env fresh_world sample_publication ''/p'' True [] = Inr []" by code_simp
  have "case write_content ''demo'' sample_state of Inr _ \<Rightarrow> True | Inl _ \<Rightarrow> False" by code_simp
  then obtain data where m: "write_content ''demo'' sample_state = Inr data" by (auto split: sum.splits)
  have k: "killed_world \<in> set (fst (sample_create fresh_world))"
    using created_world_step unfolding killed_world_def by (cases "fst (sample_create fresh_world)") auto
  have f: "\<not> store_exists (dir_of sample_env killed_world ''/p'' ''demo'')"
    "\<not> cleanup (dir_of sample_env killed_world ''/p'' ''demo'')" by code_simp+
  have t: "valid_instance_id sample_token" by code_simp
  show ?thesis
    using creation_retry_succeeds [OF sample_codec fresh_inv [OF fresh_world_fresh] sample_root [symmetric] _ r a
      k [unfolded sample_create_def, folded n] f [folded n] m [folded n] t]
    unfolding sample_create_def n by blast
qed

definition conversations_unique :: "rows \<Rightarrow> bool" where
  "conversations_unique rs \<longleftrightarrow>
     (\<forall>k1 e1 k2 e2. dget rs k1 = Some e1 \<longrightarrow> dget rs k2 = Some e2 \<longrightarrow> k1 \<noteq> k2 \<longrightarrow>
        \<not> held_by (claude_session_id e1) (claude_session_id e2) \<and>
        \<not> held_by (codex_thread_id e1) (codex_thread_id e2))"

lemma held_by_sym: "held_by a b \<longleftrightarrow> held_by b a"
  by (auto simp: held_by_def)

lemma conversations_unique_creation:
  assumes "conversations_unique rs'" "require_conversation_unbound rs' (s_claude st) (s_codex st) = Inr ()"
    and "creation_rows env st eff rs' rs2"
  shows "conversations_unique rs2"
  unfolding conversations_unique_def
proof (intro allI impI)
  let ?key = "make_scoped_key (hexdigest env) (s_name st) eff"
  fix k1 e1 k2 e2 assume k: "dget rs2 k1 = Some e1" "dget rs2 k2 = Some e2" "k1 \<noteq> k2"
  from assms(3) have d: "ddel rs2 ?key = rs'"
    and new: "\<And>e. dget rs2 ?key = Some e \<Longrightarrow> claude_session_id e = s_claude st \<and> codex_thread_id e = s_codex st"
    by (auto simp: creation_rows_def Let_def)
  have old: "dget rs' k = Some e" if "dget rs2 k = Some e" "k \<noteq> ?key" for k e
    using that unfolding d [symmetric] by simp
  have free: "\<not> held_by (s_claude st) (claude_session_id e) \<and> \<not> held_by (s_codex st) (codex_thread_id e)"
    if "dget rs2 k = Some e" "k \<noteq> ?key" for k e
    using assms(2) dget_mem [OF old [OF that]] unfolding require_conversation_unbound_iff by blast
  show "\<not> held_by (claude_session_id e1) (claude_session_id e2) \<and> \<not> held_by (codex_thread_id e1) (codex_thread_id e2)"
  proof (cases "k1 = ?key \<or> k2 = ?key")
    case True
    then show ?thesis using new free k held_by_sym by metis
  next
    case False
    then show ?thesis using old k assms(1) unfolding conversations_unique_def by blast
  qed
qed

text \<open>
  C6. A conversation has one session: when no two rows hold the same Claude or Codex conversation,
  a creation that requires its conversations to be unbound keeps that so at every durable state.
\<close>

theorem creation_keeps_conversations_unique:
  assumes "read_index env (index_file w) = Inr rs" "wf_rows env rs" "conversations_unique rs"
    and "eff = effective_root st proj rt" "eff \<noteq> []"
    and "v \<in> set (fst (create_session_txn env st proj co rt rel True
        (in_dir env eff (s_name st) f) now out1 out2 out3 w))"
  shows "\<exists>rs2. index_file v = Holds (JObj (index_json rs2)) \<and> conversations_unique rs2"
proof -
  have name: "validate_name (s_name st) = Inr ()"
  proof (cases "validate_name (s_name st)")
    case (Inl e)
    from create_unread [OF disjI1 [OF this]] assms(6) show ?thesis by simp
  qed auto
  obtain rs' where a: "admit env w st eff True rs = Inr rs'"
    using assms(6) create_refused [OF name assms(1)] assms(4) by (cases "admit env w st eff True rs") auto
  note A = admit_Inr [OF a name]
  have "conversations_unique rs'"
    using assms(3) unfolding A(1) conversations_unique_def by (simp split: if_splits)
  from conversations_unique_creation [OF this A(4)]
    safeD [OF safe_creation_rows [OF name assms(1,2,4,5) a] assms(6)]
  show ?thesis unfolding rows_in_def by blast
qed

theorem creation_keeps_conversations_unique_witness:
  "\<exists>rs2. index_file created_world = Holds (JObj (index_json rs2)) \<and> conversations_unique rs2"
proof -
  have n: "s_name sample_publication = ''demo''" by (simp add: sample_publication_def)
  have r: "read_index sample_env (index_file fresh_world) = Inr []" by code_simp
  have c: "conversations_unique []" by (simp add: conversations_unique_def)
  show ?thesis
    by (rule creation_keeps_conversations_unique [OF r wf_rows_Nil c sample_root [symmetric] _
          created_world_step [unfolded sample_create_def, folded n]]) simp
qed

text \<open>Operations that leave the index file alone.\<close>

definition index_untouched :: "(world, err, 'a) op \<Rightarrow> bool" where
  "index_untouched f \<longleftrightarrow> (\<forall>w. safe (\<lambda>v. index_file v = index_file w) f w)"

lemma index_untouched_in_dir: "index_untouched (in_dir env r n f)"
  by (auto simp: index_untouched_def safe_def dest: index_file_in_dir_mem)

lemma index_untouched_final: "index_untouched f \<Longrightarrow> index_file (final w (fst (f w))) = index_file w"
  unfolding index_untouched_def by (rule safe_final) auto

lemma index_untouched_safe: "index_untouched f \<Longrightarrow> index_file v = c \<Longrightarrow> safe (\<lambda>v. index_file v = c) f v"
  unfolding index_untouched_def by auto

text \<open>The directory lock a deletion takes when the directory is there.\<close>

definition dir_lock :: "env \<Rightarrow> string \<Rightarrow> string \<Rightarrow> (world, err, unit) op" where
  "dir_lock env r n = on_state (\<lambda>w. if present (dir_of env w r n) then in_dir env r n lock_step else ret ())"

lemma index_untouched_lock: "index_untouched (dir_lock env r n)"
  using index_untouched_in_dir [of env r n lock_step] by (auto simp: index_untouched_def dir_lock_def)

text \<open>The ownership test of a deletion, made under the directory lock.\<close>

definition owned_by :: "sdir \<Rightarrow> string \<Rightarrow> err + bool" where
  "owned_by d x =
     (if store_exists d \<or> owner d \<noteq> NoOwner
      then (case review_identity d of Inl e \<Rightarrow> Inl e | Inr t \<Rightarrow> Inr (t = Some x)) else Inr True)"

lemma delete_eval:
  assumes "validate_name name = Inr ()" "require_instance_id x = Inr ()" "read_index env (index_file w) = Inr rs"
    "fenced_row env rs name rt x = Inr (Some (k, e))"
  shows "delete_session_txn env name rt x cb out w =
    and_then (dir_lock env (root_of e) name) (\<lambda>_. on_state (\<lambda>v.
      and_then (check (owned_by (dir_of env v (root_of e) name) x)) (\<lambda>owned.
        if \<not> owned then ret False
        else and_then cb (\<lambda>_. and_then (write_index out (ddel rs k)) (\<lambda>_. ret True))))) w"
  unfolding delete_session_txn_def
  by (simp add: assms read_step_index_def dir_lock_def owned_by_def Let_def and_then_on_state and_then_def split: prod.splits sum.splits)

lemma delete_idle:
  assumes "validate_name name = Inl err \<or> require_instance_id x = Inl err \<or> read_index env (index_file w) = Inl err \<or>
     (\<exists>rs. read_index env (index_file w) = Inr rs \<and> (fenced_row env rs name rt x = Inl err \<or> fenced_row env rs name rt x = Inr None))"
  shows "fst (delete_session_txn env name rt x cb out w) = [] \<and> snd (delete_session_txn env name rt x cb out w) \<noteq> Inr True"
  using assms unfolding delete_session_txn_def
  by (cases "validate_name name"; cases "require_instance_id x"; cases "read_index env (index_file w)")
    (auto simp: read_step_index_def and_then_check_eq)



definition sample_delete :: "(world, err, bool) op" where
  "sample_delete = delete_session_txn sample_env ''demo'' (Some ''/p'') sample_token
     (in_dir sample_env ''/p'' ''demo'' (delete_locked WriteOk WriteOk)) WriteOk"


lemma drop_stale_rows:
  "drop_stale env w ks rs = Inr rs' \<Longrightarrow>
     dget rs' k = dget rs k \<or> dget rs' k = None \<and> k \<in> set ks \<and> (\<exists>e. dget rs k = Some e \<and> row_stale env w k e = Inr True)"
proof (induction ks arbitrary: rs)
  case (Cons j ks)
  show ?case
  proof (cases "dget rs j")
    case None
    with Cons show ?thesis by auto
  next
    case (Some e)
    then obtain b where b: "row_stale env w j e = Inr b" "drop_stale env w ks (if b then ddel rs j else rs) = Inr rs'"
      using Cons.prems by (auto split: sum.splits)
    from Cons.IH [OF b(2)] show ?thesis
      using Some b(1) by (cases b; cases "k = j") auto
  qed
qed simp

lemma stale_keys_stale:
  "stale_keys env w rs = Inr ks \<Longrightarrow> k \<in> set ks \<Longrightarrow> \<exists>e. (k, e) \<in> set rs \<and> row_stale env w k e = Inr True"
  by (induction rs arbitrary: ks) (auto split: sum.splits if_splits, blast+)

text \<open>
  Listing heals the index without losing a session: the only thing a listing writes is the
  index with some rows dropped, and a row is dropped only if its manifest was missing with no
  deletion pending both in the unlocked probe and again, for the row as it then is, under the lock
  that writes. What it returns is ordered by recency, then name.
\<close>

lemma list_prunes_only_stale:
  assumes run: "list_sessions env inc pf rf out w1 w2 w = (trace, result)"
  shows "(\<forall>v \<in> set trace. \<exists>index rs rs'. read_index env (index_file w1) = Inr index \<and>
      read_index env (index_file w) = Inr rs \<and> v = w\<lparr>index_file := Holds (JObj (index_json rs'))\<rparr> \<and>
      (\<forall>k. dget rs' k = dget rs k \<or>
         dget rs' k = None \<and> (\<exists>e1. (k, e1) \<in> set index \<and> row_stale env w2 k e1 = Inr True) \<and>
         (\<exists>e. dget rs k = Some e \<and> row_stale env w k e = Inr True))) \<and>
    (\<forall>res. result = Inr res \<longrightarrow> sorted (map (recency_key env) res))"
proof (intro conjI ballI allI impI)
  fix v assume v: "v \<in> set trace"
  then obtain index ks where i: "read_index env (index_file w1) = Inr index" "stale_keys env w2 index = Inr ks"
    and p: "v \<in> set (fst (prune env ks out w))"
    using run by (auto simp: list_sessions_def and_then_check_eq and_then_def split: sum.splits prod.splits if_splits)
  then obtain rs rs' where r: "read_index env (index_file w) = Inr rs" "drop_stale env w ks rs = Inr rs'"
    "v = w\<lparr>index_file := Holds (JObj (index_json rs'))\<rparr>"
    by (auto simp: prune_def read_step_index_def and_then_check_eq and_then_mem write_index_def
        split: sum.splits if_splits dest!: durable_mem)
  show "\<exists>index rs rs'. read_index env (index_file w1) = Inr index \<and>
      read_index env (index_file w) = Inr rs \<and> v = w\<lparr>index_file := Holds (JObj (index_json rs'))\<rparr> \<and>
      (\<forall>k. dget rs' k = dget rs k \<or>
         dget rs' k = None \<and> (\<exists>e1. (k, e1) \<in> set index \<and> row_stale env w2 k e1 = Inr True) \<and>
         (\<exists>e. dget rs k = Some e \<and> row_stale env w k e = Inr True))"
    using i(1) r(1,3) drop_stale_rows [OF r(2)] stale_keys_stale [OF i(2)] by blast
next
  fix res assume "result = Inr res"
  then obtain rs where "res = select_sessions env inc pf rf rs"
    using run by (auto simp: list_sessions_def and_then_check_eq and_then_def split: sum.splits prod.splits)
  then show "sorted (map (recency_key env) res)"
    by (simp add: select_sessions_def)
qed

lemma list_prunes_only_stale_witness:
  "\<exists>v rs'. v \<in> set (fst (list_sessions sample_env True None None WriteOk killed_world killed_world killed_world)) \<and>
     v = killed_world\<lparr>index_file := Holds (JObj (index_json rs'))\<rparr>"
proof -
  let ?l = "list_sessions sample_env True None None WriteOk killed_world killed_world killed_world"
  have "fst ?l \<noteq> []" by code_simp
  then have "hd (fst ?l) \<in> set (fst ?l)" by (rule hd_in_set)
  with list_prunes_only_stale [OF prod.collapse [symmetric, of ?l]] show ?thesis by blast
qed

lemma instance_live_True:
  "instance_live env w r n x = Inr True \<Longrightarrow>
     \<not> cleanup (dir_of env w r n) \<and> store_exists (dir_of env w r n) \<and> review_identity (dir_of env w r n) = Inr (Some x)"
  by (auto simp: instance_live_def cleanup_pending_def Let_def split: sum.splits if_splits bool.splits)

lemma sources_live_True:
  "sources_live env w rs req = Inr True \<Longrightarrow> (r, n, t) \<in> set req \<Longrightarrow> source_live env w rs r n t = Inr True"
  by (induction req) (auto split: sum.splits bool.splits)

text \<open>
  The fence of a detached worker: its output callback runs, and success is reported, only
  when at that moment the session has a row and a directory of the captured instance, with a
  manifest and no deletion pending, and so has every session it depends on; otherwise nothing is
  written at all.
\<close>

lemma fenced_callback_only_live:
  assumes run: "run_session_instance_txn env name rt x cb required w = (trace, result)"
    and ran: "trace \<noteq> [] \<or> result = Inr True"
  shows "\<exists>rs k e. read_index env (index_file w) = Inr rs \<and> lookup env rs name (Some rt) = Inr (Some (k, e)) \<and>
    instance_id e = Some x \<and> \<not> cleanup (dir_of env w (root_of e) name) \<and>
    store_exists (dir_of env w (root_of e) name) \<and> review_identity (dir_of env w (root_of e) name) = Inr (Some x) \<and>
    (\<forall>(r, n, t) \<in> set required. source_live env w rs r n t = Inr True) \<and> trace = fst (cb w)"
proof -
  from run ran obtain rs where rs: "read_index env (index_file w) = Inr rs"
    and l: "source_live env w rs rt name x = Inr True" "sources_live env w rs required = Inr True"
    and t: "trace = fst (cb w)"
    by (auto simp: run_session_instance_txn_def read_step_index_def and_then_check_eq and_then_def
        split: sum.splits if_splits prod.splits)
  from l(1) obtain k e where e: "fenced_row env rs name (Some rt) x = Inr (Some (k, e))"
    "instance_live env w (root_of e) name x = Inr True"
    by (auto simp: source_live_def split: sum.splits option.splits)
  then have "lookup env rs name (Some rt) = Inr (Some (k, e))" "instance_id e = Some x"
    by (auto simp: fenced_row_def split: sum.splits option.splits if_splits)
  with rs t instance_live_True [OF e(2)] sources_live_True [OF l(2)] show ?thesis by blast
qed

lemma fenced_callback_only_live_witness:
  "\<exists>rs k e. lookup sample_env rs ''demo'' (Some ''/p'') = Inr (Some (k, e)) \<and> instance_id e = Some sample_token \<and>
     store_exists (dir_of sample_env created_world (root_of e) ''demo'')"
proof -
  let ?f = "run_session_instance_txn sample_env ''demo'' ''/p'' sample_token (ret ()) [(''/p'', ''demo'', sample_token)]"
  have ok: "snd (?f created_world) = Inr True" by code_simp
  from fenced_callback_only_live [OF prod.collapse [symmetric, of "?f created_world"] disjI2 [OF ok]]
  show ?thesis by blast
qed

end
