(* ===== verification/PyText.thy ===== *)
theory PyText
  imports Prelude
begin

text \<open>
  Text operations of Python that several components use: \<open>str.strip\<close>, \<open>str.find\<close>, \<open>sub in s\<close> and the
  first-occurrence order of \<open>dict.fromkeys\<close>, and the parts of a \<open>pathlib\<close> path. Characters are the code points below 256; the whitespace
  among them is Python's \<open>str.isspace\<close>.
\<close>

definition py_space :: "char \<Rightarrow> bool" where
  "py_space c \<longleftrightarrow> (let n = of_char c :: nat in (9 \<le> n \<and> n \<le> 13) \<or> (28 \<le> n \<and> n \<le> 32) \<or> n = 133 \<or> n = 160)"

definition strip :: "string \<Rightarrow> string" where
  "strip s = rev (dropWhile py_space (rev (dropWhile py_space s)))"

text \<open>\<open>s.find(sub)\<close>: the first position, or nothing.\<close>

fun find_from :: "nat \<Rightarrow> string \<Rightarrow> string \<Rightarrow> nat option" where
  "find_from i sub [] = (if sub = [] then Some i else None)"
| "find_from i sub (c # cs) = (if prefix sub (c # cs) then Some i else find_from (Suc i) sub cs)"

definition find_sub :: "string \<Rightarrow> string \<Rightarrow> nat option" where
  "find_sub sub s = find_from 0 sub s"

fun contains :: "string \<Rightarrow> string \<Rightarrow> bool" where
  "contains sub [] = (sub = [])"
| "contains sub (c # cs) = (prefix sub (c # cs) \<or> contains sub cs)"

definition distinct_first :: "'a list \<Rightarrow> 'a list" where
  "distinct_first xs = rev (remdups (rev xs))"

text \<open>\<open>sep.join(parts)\<close>\<close>

fun join_with :: "string \<Rightarrow> string list \<Rightarrow> string" where
  "join_with sep [] = []"
| "join_with sep [p] = p"
| "join_with sep (p # q # ps) = p @ sep @ join_with sep (q # ps)"

text \<open>\<open>Path(s)\<close>: the root and the parts, without empty parts and dots; two leading slashes are kept.\<close>

definition pure_path :: "string \<Rightarrow> nat \<times> string list" where
  "pure_path s =
     (let slashes = length (takeWhile (\<lambda>c. c = CHR ''/'') s)
      in (if slashes = 0 then 0 else if slashes = 2 then 2 else 1,
          filter (\<lambda>p. p \<noteq> [] \<and> p \<noteq> ''.'') (split_on (CHR ''/'') s)))"

lemma set_distinct_first [simp]: "set (distinct_first xs) = set xs"
  by (simp add: distinct_first_def)

lemma find_from_Some:
  "find_from i sub s = Some j \<Longrightarrow> i \<le> j \<and> take (length sub) (drop (j - i) s) = sub"
proof (induction i sub s rule: find_from.induct)
  case (1 i sub)
  then show ?case by (simp split: if_splits)
next
  case (2 i sub c cs)
  show ?case
  proof (cases "prefix sub (c # cs)")
    case True
    with 2(2) show ?thesis by (auto simp: prefix_def)
  next
    case False
    with 2 have j: "Suc i \<le> j" "take (length sub) (drop (j - Suc i) cs) = sub" by auto
    then have "j - i = Suc (j - Suc i)" by simp
    with j show ?thesis by simp
  qed
qed

lemma find_sub_Some: "find_sub sub s = Some j \<Longrightarrow> take (length sub) (drop j s) = sub"
  using find_from_Some [of 0 sub s j] by (simp add: find_sub_def)

lemma strip_not_space: "strip s \<noteq> [] \<longleftrightarrow> (\<exists>c \<in> set s. \<not> py_space c)"
proof -
  have "strip s = [] \<longleftrightarrow> (\<forall>c \<in> set (dropWhile py_space s). py_space c)"
    by (simp add: strip_def dropWhile_eq_Nil_conv)
  also have "\<dots> \<longleftrightarrow> (\<forall>c \<in> set s. py_space c)"
  proof
    assume "\<forall>c \<in> set (dropWhile py_space s). py_space c"
    then have "dropWhile py_space s = []" by (metis dropWhile_eq_Nil_conv hd_dropWhile hd_in_set)
    then show "\<forall>c \<in> set s. py_space c" by (simp add: dropWhile_eq_Nil_conv)
  qed (auto dest: set_dropWhileD)
  finally show ?thesis by blast
qed

end
