(* ===== verification/Workers.thy ===== *)
theory Workers
  imports Index PyText
begin

text \<open>
  Admission of background workers, \<open>session/workers.py\<close>: a worker that acts for a session leaves
  a lease file under the Forge home while it runs, written under the index lock after the session
  has been found live; cleanup reads the leases of an instance before it deletes anything.

  The state of a machine extends the worlds of \<open>Index\<close> by the lease directories, one per
  instance. The sidecar's environment variables and its mounted lease directory are in \<open>penv\<close>;
  process liveness is a function argument.
\<close>

section \<open>Leases\<close>

record lease =
  lease_schema :: int
  lease_root :: string
  lease_session :: string
  lease_instance :: string
  lease_pid :: int
  lease_label :: string

text \<open>
  What opening a lease finds: a symlink (refused by \<open>O_NOFOLLOW\<close>), something that is not a regular
  file, a regular file that does not hold a lease, or a lease.
\<close>

datatype lease_file = LeaseLink | LeaseSpecial | LeaseBad | LeaseOf lease

datatype lease_dir = NoLeases | LeaseDirLink | LeaseDir "(string, lease_file) dict"

record machine =
  sess :: world
  leases :: "string \<Rightarrow> lease_dir"

record penv =
  sidecar :: bool
  env_instance :: string
  env_lease :: string
  env_host_root :: string
  env_local_root :: string
  env_session :: string
  mount_link :: bool
  mount :: "(string, lease_file) dict"

text \<open>An index operation, on a machine.\<close>

definition with_world :: "(world, err, 'a) op \<Rightarrow> ('z machine_scheme, err, 'a) op" where
  "with_world f = (\<lambda>w. case f (sess w) of (t, r) \<Rightarrow> (map (\<lambda>s. w\<lparr>sess := s\<rparr>) t, r))"

text \<open>\<open>_lease_dir\<close>: the instance id is checked before it becomes a path.\<close>

definition lease_dir_of :: "string \<Rightarrow> err + string" where
  "lease_dir_of inst =
     (if valid_instance_id inst then Inr inst
      else Inl (ValueErr ''Invalid session worker instance identity''))"

definition lease_name :: "string \<Rightarrow> string" where
  "lease_name lid = lid @ ''.json''"

text \<open>
  \<open>atomic_write_json(path, asdict(lease))\<close> makes the directory and the file. Through a symlinked
  directory the file lands outside the lease directories.
\<close>

fun put_lease :: "string \<Rightarrow> lease \<Rightarrow> lease_dir \<Rightarrow> lease_dir" where
  "put_lease file l NoLeases = LeaseDir [(file, LeaseOf l)]"
| "put_lease file l LeaseDirLink = LeaseDirLink"
| "put_lease file l (LeaseDir d) = LeaseDir (dset d file (LeaseOf l))"

fun del_lease :: "string \<Rightarrow> lease_dir \<Rightarrow> lease_dir" where
  "del_lease file (LeaseDir d) = LeaseDir (ddel d file)"
| "del_lease file d = d"

definition set_leases :: "string \<Rightarrow> (lease_dir \<Rightarrow> lease_dir) \<Rightarrow> 'z machine_scheme \<Rightarrow> 'z machine_scheme" where
  "set_leases inst f w = w\<lparr>leases := (leases w)(inst := f (leases w inst))\<rparr>"

text \<open>\<open>path.unlink(missing_ok=True)\<close>, which fails when \<open>ok\<close> is false.\<close>

definition release_lease :: "string \<Rightarrow> string \<Rightarrow> bool \<Rightarrow> ('z machine_scheme, err, unit) op" where
  "release_lease inst file ok =
     durable OsErr (if ok then WriteOk else FailBefore) (set_leases inst (del_lease file))"

text \<open>
  \<open>IndexStore().run_session_instance_txn(...)\<close> with a callback that writes outside the sessions:
  the callback is the last step of the transaction, and runs when its result is true. Waiting for
  the index lock may time out.
\<close>

definition admission ::
  "env \<Rightarrow> bool \<Rightarrow> string \<Rightarrow> string \<Rightarrow> string \<Rightarrow> ('z machine_scheme, err, unit) op \<Rightarrow> ('z machine_scheme, err, bool) op" where
  "admission env lock_ok rt name inst callback =
     (if \<not> lock_ok then raise LockTimeout
      else and_then (with_world (run_session_instance_txn env name rt inst (ret ()) [])) (\<lambda>live.
        if \<not> live then ret False else and_then callback (\<lambda>_. ret True)))"

definition create_worker_lease ::
  "env \<Rightarrow> string \<Rightarrow> string \<Rightarrow> string \<Rightarrow> string \<Rightarrow> int \<Rightarrow> string \<Rightarrow> bool \<Rightarrow> wout \<Rightarrow> ('z machine_scheme, err, string) op" where
  "create_worker_lease env rt name inst label pid lid lock_ok out =
     (let l = \<lparr>lease_schema = 1, lease_root = canonical env rt, lease_session = name,
               lease_instance = inst, lease_pid = pid, lease_label = label\<rparr>
      in and_then (check (lease_dir_of inst)) (\<lambda>dir.
         and_then (admission env lock_ok (canonical env rt) name inst
                    (durable OsErr out (set_leases dir (put_lease (lease_name lid) l)))) (\<lambda>admitted.
           if \<not> admitted then raise (SessionNotFound name) else ret (lease_name lid))))"

section \<open>The sidecar's delegated lease\<close>

definition lease_mount :: string where
  "lease_mount = ''/run/forge/session-workers''"

text \<open>\<open>re.fullmatch(r"[0-9a-f]{32}\.json", name)\<close>\<close>

definition lease_file_name :: "string \<Rightarrow> bool" where
  "lease_file_name n \<longleftrightarrow> length n = 37 \<and> valid_instance_id (take 32 n) \<and> drop 32 n = ''.json''"

definition read_worker_lease :: "lease_file option \<Rightarrow> err + lease" where
  "read_worker_lease f =
     (case f of
        None \<Rightarrow> Inl OsErr
      | Some LeaseLink \<Rightarrow> Inl OsErr
      | Some LeaseSpecial \<Rightarrow> Inl (ValueErr ''Invalid session worker lease'')
      | Some LeaseBad \<Rightarrow> Inl (ValueErr ''Invalid session worker lease'')
      | Some (LeaseOf l) \<Rightarrow> Inr l)"

definition sidecar_label :: string where
  "sidecar_label = ''sidecar runtime''"

definition manifest_root :: "jobj \<Rightarrow> json" where
  "manifest_root m =
     (if truthy (jget m ''forge_root'') then jget m ''forge_root''
      else (case obj_at m ''worktree'' of Some wt \<Rightarrow> jget wt ''path'' | None \<Rightarrow> JNull))"

text \<open>The body of the \<open>try\<close> in \<open>_require_sidecar_lease\<close>.\<close>

definition delegated_lease_checks ::
  "env \<Rightarrow> penv \<Rightarrow> (jobj \<Rightarrow> string + jobj) \<Rightarrow> string \<Rightarrow> string \<Rightarrow> string \<Rightarrow> world \<Rightarrow> err + unit" where
  "delegated_lease_checks env pe decode rt name inst w =
     (let (anchor, parts) = pure_path (env_lease pe); d = dir_of env w rt name
      in if parts = [] \<or> (anchor, butlast parts) \<noteq> pure_path lease_mount \<or> mount_link pe
            \<or> \<not> lease_file_name (last parts)
         then Inl (ValueErr ''Invalid delegated worker lease path'')
         else (case read_worker_lease (dget (mount pe) (last parts)) of Inl e \<Rightarrow> Inl e
         | Inr l \<Rightarrow> (case read_manifest decode name (manifest d) of Inl e \<Rightarrow> Inl e
         | Inr m \<Rightarrow>
             if lease_schema l \<noteq> 1 \<or> lease_label l \<noteq> sidecar_label \<or> lease_root l \<noteq> env_host_root pe
                \<or> lease_session l \<noteq> name \<or> lease_instance l \<noteq> inst \<or> jget m ''name'' \<noteq> JStr name
                \<or> manifest_root m \<noteq> JStr (env_host_root pe)
             then Inl (ValueErr ''Delegated worker lease does not match the mounted session'')
             else (case review_identity d of Inl e \<Rightarrow> Inl e
             | Inr t \<Rightarrow>
                 if t \<noteq> Some inst
                 then Inl (ValueErr ''Delegated worker lease does not match the mounted session'')
                 else Inr ()))))"

text \<open>\<open>except (OSError, ValueError, dacite.DaciteError, ForgeSessionError)\<close>\<close>

definition require_sidecar_lease ::
  "env \<Rightarrow> penv \<Rightarrow> (jobj \<Rightarrow> string + jobj) \<Rightarrow> string \<Rightarrow> string \<Rightarrow> string \<Rightarrow> world \<Rightarrow> err + unit" where
  "require_sidecar_lease env pe decode rt name inst w =
     (if env_lease pe = [] \<or> env_host_root pe = [] \<or> env_local_root pe = []
         \<or> canonical env rt \<noteq> canonical env (env_local_root pe)
         \<or> env_session pe \<noteq> name \<or> env_instance pe \<noteq> inst \<or> \<not> valid_instance_id inst
      then Inl (SessionNotFound name)
      else (case delegated_lease_checks env pe decode (canonical env rt) name inst w of
              Inl TypeErr \<Rightarrow> Inl TypeErr
            | Inl AttributeErr \<Rightarrow> Inl AttributeErr
            | Inl _ \<Rightarrow> Inl (SessionNotFound name)
            | Inr _ \<Rightarrow> Inr ()))"

section \<open>The three entry points\<close>

text \<open>What the environment decides about one worker: its ids, and the outcome of its writes.\<close>

record admit_env =
  ae_pid :: int
  ae_lease :: string
  ae_lock :: bool
  ae_write :: wout
  ae_release :: bool

text \<open>\<open>with session_worker_lease(...): body\<close>\<close>

definition session_worker_lease ::
  "env \<Rightarrow> penv \<Rightarrow> (jobj \<Rightarrow> string + jobj) \<Rightarrow> admit_env \<Rightarrow> string \<Rightarrow> string \<Rightarrow> string \<Rightarrow> string \<Rightarrow>
   ('z machine_scheme, err, 'a) op \<Rightarrow> ('z machine_scheme, err, 'a) op" where
  "session_worker_lease env pe decode ae rt name inst label body =
     (if sidecar pe
      then and_then (on_state (\<lambda>w. check (require_sidecar_lease env pe decode rt name inst (sess w)))) (\<lambda>_. body)
      else and_then (create_worker_lease env rt name inst label (ae_pid ae) (ae_lease ae) (ae_lock ae) (ae_write ae))
             (\<lambda>path. ensuring body (release_lease inst path (ae_release ae))))"

definition run_session_producer_txn ::
  "env \<Rightarrow> penv \<Rightarrow> (jobj \<Rightarrow> string + jobj) \<Rightarrow> bool \<Rightarrow> string \<Rightarrow> string \<Rightarrow> string \<Rightarrow>
   ('z machine_scheme, err, unit) op \<Rightarrow> ('z machine_scheme, err, bool) op" where
  "run_session_producer_txn env pe decode lock_ok rt name inst callback =
     (if sidecar pe
      then and_then (on_state (\<lambda>w. check (require_sidecar_lease env pe decode rt name inst (sess w)))) (\<lambda>_.
           and_then callback (\<lambda>_. ret True))
      else admission env lock_ok rt name inst callback)"

text \<open>\<open>w1\<close> is the world when the index was read, before its lock was released.\<close>

definition capture_session_instance ::
  "env \<Rightarrow> penv \<Rightarrow> (jobj \<Rightarrow> string + jobj) \<Rightarrow> (state_file \<Rightarrow> string) \<Rightarrow> string \<Rightarrow> string \<Rightarrow> string \<Rightarrow> wout \<Rightarrow> wout \<Rightarrow>
   world \<Rightarrow> ('z machine_scheme, err, string) op" where
  "capture_session_instance env pe decode sha rt name tok out1 out2 w1 =
     (if sidecar pe
      then and_then (on_state (\<lambda>w. check (require_sidecar_lease env pe decode rt name (env_instance pe) (sess w))))
             (\<lambda>_. ret (env_instance pe))
      else and_then (on_state (\<lambda>w. check (peek_session env name (Some (canonical env rt)) w1 (sess w)))) (\<lambda>e.
             case map_option instance_id e of
               Some (Some inst) \<Rightarrow> ret inst
             | _ \<Rightarrow> with_world (migrate_session_identity env decode sha name (Some (canonical env rt)) None False
                                   tok out1 out2)))"

section \<open>What cleanup reads\<close>

datatype worker_report = Running lease string | Abandoned lease string

definition lease_matches :: "string \<Rightarrow> string \<Rightarrow> string \<Rightarrow> lease \<Rightarrow> bool" where
  "lease_matches rt name inst l \<longleftrightarrow>
     lease_schema l = 1 \<and> lease_root l = rt \<and> lease_session l = name \<and> lease_instance l = inst \<and>
     0 < lease_pid l \<and> lease_pid l \<le> 2 ^ 31 - 1"

text \<open>
  The files of the directory in order. A lease released since the directory was listed
  (\<open>opened\<close> gives nothing) is skipped; anything else that is not a lease of this instance stops
  the cleanup.
\<close>

fun scan_leases ::
  "(int \<Rightarrow> bool) \<Rightarrow> string \<Rightarrow> string \<Rightarrow> string \<Rightarrow> (string \<Rightarrow> lease_file option) \<Rightarrow> string list \<Rightarrow> err + worker_report list" where
  "scan_leases alive rt name inst opened [] = Inr []"
| "scan_leases alive rt name inst opened (f # fs) =
     (if \<not> suffix ''.json'' f \<or> opened f = None then scan_leases alive rt name inst opened fs
      else (case read_worker_lease (opened f) of Inl e \<Rightarrow> Inl e
      | Inr l \<Rightarrow>
          if \<not> lease_matches rt name inst l
          then Inl (ValueErr ''Invalid session worker lease ownership'')
          else (case scan_leases alive rt name inst opened fs of Inl e \<Rightarrow> Inl e
                | Inr rs \<Rightarrow> Inr ((if alive (lease_pid l) then Running l f else Abandoned l f) # rs))))"

definition find_active_session_workers ::
  "env \<Rightarrow> (int \<Rightarrow> bool) \<Rightarrow> string \<Rightarrow> string \<Rightarrow> string \<Rightarrow> lease_dir \<Rightarrow> (string \<Rightarrow> lease_file option) \<Rightarrow>
   err + worker_report list" where
  "find_active_session_workers env alive rt name inst dir opened =
     (case lease_dir_of inst of Inl e \<Rightarrow> Inl e
      | Inr _ \<Rightarrow>
     (case dir of
        LeaseDirLink \<Rightarrow> Inl (ValueErr ''Session worker lease directory is a symlink'')
      | NoLeases \<Rightarrow> Inr []
      | LeaseDir d \<Rightarrow> scan_leases alive (canonical env rt) name inst opened (sort (dkeys d))))"

section \<open>Lemmas\<close>

lemma leases_set_leases [simp]:
  "leases (set_leases inst f w) i = (if i = inst then f (leases w inst) else leases w i)"
  by (simp add: set_leases_def)

lemma sess_set_leases [simp]: "sess (set_leases inst f w) = sess w"
  by (simp add: set_leases_def)

lemma lease_name_json [simp]: "suffix ''.json'' (lease_name lid)"
  by (simp add: lease_name_def suffix_def)

lemma lease_dir_of_Inr [simp]: "lease_dir_of inst = Inr d \<longleftrightarrow> valid_instance_id inst \<and> d = inst"
  by (auto simp: lease_dir_of_def)

lemma put_lease_LeaseDir:
  "ld \<noteq> LeaseDirLink \<Longrightarrow> \<exists>d. put_lease file l ld = LeaseDir d \<and> dget d file = Some (LeaseOf l)"
  by (cases ld) auto

lemma run_instance_quiet: "fst (run_session_instance_txn env name rt x (ret ()) req w) = []"
  by (auto simp: run_session_instance_txn_def read_step_index_def and_then_check_eq and_then_def
      split: sum.splits if_splits prod.splits)

lemma run_instance_live:
  assumes "snd (run_session_instance_txn env name rt x (ret ()) req w) = Inr True"
  obtains rs where "read_index env (index_file w) = Inr rs" "source_live env w rs rt name x = Inr True"
  using assms
  by (auto simp: run_session_instance_txn_def read_step_index_def and_then_check_eq and_then_def
      split: sum.splits if_splits prod.splits)

lemma with_world_eq: "fst (f (sess w)) = [] \<Longrightarrow> with_world f w = ([], snd (f (sess w)))"
  by (auto simp: with_world_def split: prod.splits)

lemma admission_cases:
  obtains (refused) r where "admission env lock_ok rt name inst cb w = ([], r)" "r \<noteq> Inr True"
  | (admitted) rs where "lock_ok" "read_index env (index_file (sess w)) = Inr rs"
      "source_live env (sess w) rs rt name inst = Inr True"
      "admission env lock_ok rt name inst cb w = and_then cb (\<lambda>_. ret True) w"
proof -
  let ?f = "run_session_instance_txn env name rt inst (ret ()) []"
  let ?r = "snd (?f (sess w))"
  have eq: "admission env lock_ok rt name inst cb w =
      (if \<not> lock_ok then ([], Inl LockTimeout)
       else case ?r of Inl e \<Rightarrow> ([], Inl e) | Inr False \<Rightarrow> ([], Inr False) | Inr True \<Rightarrow> and_then cb (\<lambda>_. ret True) w)"
    unfolding admission_def and_then_def with_world_eq [OF run_instance_quiet]
    by (simp split: sum.split bool.split)
  show thesis
  proof (cases "lock_ok \<and> ?r = Inr True")
    case True
    then have "?r = Inr True" by simp
    from run_instance_live [OF this] obtain rs where
      "read_index env (index_file (sess w)) = Inr rs" "source_live env (sess w) rs rt name inst = Inr True" .
    moreover have "admission env lock_ok rt name inst cb w = and_then cb (\<lambda>_. ret True) w"
      using True by (subst eq) simp
    ultimately show thesis using True admitted by blast
  next
    case False
    then have "\<exists>r. admission env lock_ok rt name inst cb w = ([], r) \<and> r \<noteq> Inr True"
      by (auto simp: eq split: sum.splits bool.splits)
    then show thesis using refused by blast
  qed
qed

text \<open>The state of a machine when a lease has been created in it.\<close>

definition new_lease :: "env \<Rightarrow> string \<Rightarrow> string \<Rightarrow> string \<Rightarrow> string \<Rightarrow> admit_env \<Rightarrow> lease" where
  "new_lease env rt name inst label ae =
     \<lparr>lease_schema = 1, lease_root = canonical env rt, lease_session = name,
      lease_instance = inst, lease_pid = ae_pid ae, lease_label = label\<rparr>"

lemma create_worker_lease_Inr:
  assumes "create_worker_lease env rt name inst label (ae_pid ae) (ae_lease ae) lock_ok out w = (t, Inr file)"
  obtains rs where "valid_instance_id inst" "file = lease_name (ae_lease ae)"
    "t = [set_leases inst (put_lease file (new_lease env rt name inst label ae)) w]"
    "read_index env (index_file (sess w)) = Inr rs"
    "source_live env (sess w) rs (canonical env rt) name inst = Inr True"
proof -
  let ?cb = "durable OsErr out (set_leases inst (put_lease (lease_name (ae_lease ae)) (new_lease env rt name inst label ae)))"
  from assms have v: "valid_instance_id inst" and f: "file = lease_name (ae_lease ae)"
    and a: "admission env lock_ok (canonical env rt) name inst ?cb w = (t, Inr True)"
    by (auto simp: create_worker_lease_def Let_def and_then_check_eq and_then_def new_lease_def lease_dir_of_def
        split: prod.splits sum.splits if_splits)
  show thesis
  proof (cases rule: admission_cases [of env lock_ok "canonical env rt" name inst ?cb w])
    case (refused r)
    with a show thesis by simp
  next
    case (admitted rs)
    with a have "and_then ?cb (\<lambda>_. ret True) w = (t, Inr True)" by simp
    then have "t = [set_leases inst (put_lease file (new_lease env rt name inst label ae)) w]"
      by (cases out) (auto simp: and_then_def f)
    with v f admitted show thesis by (intro that)
  qed
qed

text \<open>A lease on disk is never overlooked: the scan names it or refuses.\<close>

lemma scan_leases_reports:
  assumes "scan_leases alive rt name inst opened fs = Inr rs"
    and "f \<in> set fs" "suffix ''.json'' f" "opened f = Some (LeaseOf l)"
  shows "(if alive (lease_pid l) then Running l f else Abandoned l f) \<in> set rs"
  using assms
  by (induction fs arbitrary: rs) (auto simp: read_worker_lease_def split: if_splits sum.splits)

lemma find_active_reports:
  assumes "find_active_session_workers env alive rt name inst (LeaseDir d) opened = Inr rs"
    and "dget d f = Some x" "suffix ''.json'' f" "opened f = Some (LeaseOf l)"
  shows "(if alive (lease_pid l) then Running l f else Abandoned l f) \<in> set rs"
proof -
  have "f \<in> set (sort (dkeys d))" using assms(2) by (auto dest: dget_mem intro: rev_image_eqI)
  moreover have "scan_leases alive (canonical env rt) name inst opened (sort (dkeys d)) = Inr rs"
    using assms(1) by (auto simp: find_active_session_workers_def split: sum.splits)
  ultimately show ?thesis using scan_leases_reports assms(3,4) by blast
qed

text \<open>
  C8. A worker's lease protects it from cleanup. A worker runs only after the index, under its
  lock, showed its session live with the instance it carries; while it runs, in every state whose
  lease directory still has its file, the scan that cleanup makes either refuses or names the worker,
  whatever else the directory holds; and when it returns its lease file is gone.
\<close>

theorem worker_lease_protects:
  assumes run: "session_worker_lease env pe decode ae rt name inst label body w = (trace, Inr a)"
    and host: "\<not> sidecar pe" and dir: "leases w inst \<noteq> LeaseDirLink"
  shows "\<exists>rs w1 after. read_index env (index_file (sess w)) = Inr rs \<and>
    source_live env (sess w) rs (canonical env rt) name inst = Inr True \<and>
    trace = w1 # fst (body w1) @ [after] \<and> snd (body w1) = Inr a \<and> sess w1 = sess w \<and>
    (\<forall>d. leases after inst = LeaseDir d \<longrightarrow> dget d (lease_name (ae_lease ae)) = None) \<and>
    (\<exists>d. leases w1 inst = LeaseDir d \<and> dget d (lease_name (ae_lease ae)) = Some (LeaseOf (new_lease env rt name inst label ae))) \<and>
    (\<forall>d alive reports. dget d (lease_name (ae_lease ae)) = Some (LeaseOf (new_lease env rt name inst label ae)) \<longrightarrow>
       find_active_session_workers env alive rt name inst (LeaseDir d) (dget d) = Inr reports \<longrightarrow>
       (if alive (ae_pid ae) then Running else Abandoned) (new_lease env rt name inst label ae)
         (lease_name (ae_lease ae)) \<in> set reports)"
proof -
  let ?l = "new_lease env rt name inst label ae" and ?f = "lease_name (ae_lease ae)"
  from run host obtain t fl where
    c: "create_worker_lease env rt name inst label (ae_pid ae) (ae_lease ae) (ae_lock ae) (ae_write ae) w = (t, Inr fl)"
    and e: "and_then (\<lambda>_. (t, Inr fl)) (\<lambda>path. ensuring body (release_lease inst path (ae_release ae))) w = (trace, Inr a)"
    by (auto simp: session_worker_lease_def and_then_def split: prod.splits sum.splits)
  from create_worker_lease_Inr [OF c] obtain rs where rs: "fl = ?f"
    "t = [set_leases inst (put_lease ?f ?l) w]" "read_index env (index_file (sess w)) = Inr rs"
    "source_live env (sess w) rs (canonical env rt) name inst = Inr True" by metis
  let ?w1 = "set_leases inst (put_lease ?f ?l) w"
  let ?after = "set_leases inst (del_lease ?f) (final ?w1 (fst (body ?w1)))"
  from e rs(1,2) have trace: "trace = ?w1 # fst (body ?w1) @ [?after]" and res: "snd (body ?w1) = Inr a"
    by (auto simp: and_then_def ensuring_def release_lease_def durable_def
        split: prod.splits sum.splits if_splits)
  have gone: "\<forall>d. leases ?after inst = LeaseDir d \<longrightarrow> dget d ?f = None"
    by (cases "leases (final ?w1 (fst (body ?w1))) inst") auto
  have there: "\<exists>d. leases ?w1 inst = LeaseDir d \<and> dget d ?f = Some (LeaseOf ?l)"
    using put_lease_LeaseDir [OF dir] by simp
  have seen: "\<forall>d alive reports. dget d ?f = Some (LeaseOf ?l) \<longrightarrow>
       find_active_session_workers env alive rt name inst (LeaseDir d) (dget d) = Inr reports \<longrightarrow>
       (if alive (ae_pid ae) then Running else Abandoned) ?l ?f \<in> set reports"
  proof (intro allI impI)
    fix d alive reports
    assume "dget d ?f = Some (LeaseOf ?l)"
      and "find_active_session_workers env alive rt name inst (LeaseDir d) (dget d) = Inr reports"
    from find_active_reports [OF this(2) this(1) lease_name_json this(1)]
    show "(if alive (ae_pid ae) then Running else Abandoned) ?l ?f \<in> set reports"
      by (simp add: new_lease_def split: if_splits)
  qed
  have same: "sess ?w1 = sess w" by simp
  from rs(3,4) trace res same gone there seen show ?thesis by blast
qed

definition sample_penv :: penv where
  "sample_penv = \<lparr>sidecar = False, env_instance = [], env_lease = [], env_host_root = [], env_local_root = [],
     env_session = [], mount_link = False, mount = []\<rparr>"

definition sample_admit :: admit_env where
  "sample_admit = \<lparr>ae_pid = 42, ae_lease = sample_token, ae_lock = True, ae_write = WriteOk, ae_release = True\<rparr>"

definition sample_machine :: machine where
  "sample_machine = \<lparr>sess = created_world, leases = (\<lambda>_. NoLeases)\<rparr>"

theorem worker_lease_protects_witness:
  "\<exists>w1 after. fst (session_worker_lease sample_env sample_penv Inr sample_admit ''/p'' ''demo'' sample_token ''job''
                  (ret ()) sample_machine) = [w1, after] \<and>
     (\<exists>d. leases w1 sample_token = LeaseDir d \<and>
        dget d (lease_name sample_token) = Some (LeaseOf (new_lease sample_env ''/p'' ''demo'' sample_token ''job'' sample_admit)))"
proof -
  let ?x = "session_worker_lease sample_env sample_penv Inr sample_admit ''/p'' ''demo'' sample_token ''job'' (ret ()) sample_machine"
  have "snd ?x = Inr ()" by code_simp
  then have x: "?x = (fst ?x, Inr ())" by (cases ?x) simp
  have s: "\<not> sidecar sample_penv" by (simp add: sample_penv_def)
  have m: "leases sample_machine sample_token \<noteq> LeaseDirLink" by (simp add: sample_machine_def)
  have l: "ae_lease sample_admit = sample_token" by (simp add: sample_admit_def)
  from worker_lease_protects [OF x s m, unfolded l] show ?thesis by auto
qed

end
