(* ===== verification/WorkQueue.thy ===== *)
theory WorkQueue
  imports Workers
begin

text \<open>
  The work queue, \<open>core/workqueue/queue.py\<close> and \<open>types.py\<close>: producers leave one JSON file per
  work item, a later command drains a bounded window of them. A desk is a machine with the queue
  directory, its \<open>failed/\<close> directory, the scan cursor and the process flag of the newer-schema warning.

  Files are modelled by their content; a listing of the queue is the sorted names of the \<open>*.json\<close>
  files. A handler is a function from the marker to the text of the exception it raises, or to
  success; what it does outside the queue is not modelled. What the environment decides about one
  marker (locks, failing writes, what an unlocked read saw) is in \<open>visit\<close>.
\<close>

section \<open>Markers\<close>

record desk = machine +
  markers :: "(string, state_file) dict"
  failed :: "(string, state_file) dict"
  cursor :: state_file
  warned_newer :: bool

definition marker_schema_version :: int where
  "marker_schema_version = 1"

definition max_attempts :: int where
  "max_attempts = 5"

definition max_error_length :: nat where
  "max_error_length = 500"

text \<open>\<open>^[A-Za-z0-9._-]+$\<close>: \<open>$\<close> also matches before a final newline.\<close>

definition safe_char :: "char \<Rightarrow> bool" where
  "safe_char c \<longleftrightarrow>
     (CHR ''A'' \<le> c \<and> c \<le> CHR ''Z'') \<or> (CHR ''a'' \<le> c \<and> c \<le> CHR ''z'') \<or> (CHR ''0'' \<le> c \<and> c \<le> CHR ''9'')
     \<or> c \<in> set ''._-''"

definition safe_marker_id :: "string \<Rightarrow> bool" where
  "safe_marker_id s \<longleftrightarrow>
     (let body = remove_final_newline s in body \<noteq> [] \<and> list_all safe_char body)"

definition marker_path :: "string \<Rightarrow> err + string" where
  "marker_path marker_id =
     (if marker_id = [] \<or> \<not> safe_marker_id marker_id then Inl (ValueErr ''Invalid marker_id'')
      else Inr (marker_id @ ''.json''))"

text \<open>\<open>payload.get("forge_root") or payload.get("worktree_path")\<close>\<close>

definition payload_root :: "jobj \<Rightarrow> json" where
  "payload_root p =
     (if truthy (jget p ''forge_root'') then jget p ''forge_root'' else jget p ''worktree_path'')"

record marker =
  m_schema :: json
  m_kind :: string
  m_id :: string
  m_version :: json
  m_created :: json
  m_payload :: json
  m_attempts :: json
  m_last_attempt :: json
  m_last_error :: json

text \<open>\<open>data.get(k, default)\<close>\<close>

definition get_default :: "jobj \<Rightarrow> string \<Rightarrow> json \<Rightarrow> json" where
  "get_default d k v = (case dget d k of Some x \<Rightarrow> x | None \<Rightarrow> v)"

definition marker_of :: "jobj \<Rightarrow> string \<Rightarrow> string \<Rightarrow> marker" where
  "marker_of data kind mid =
     \<lparr>m_schema = jget data ''schema_version'', m_kind = kind, m_id = mid,
      m_version = get_default data ''forge_version'' (JStr ''unknown''),
      m_created = get_default data ''created_at'' (JStr []),
      m_payload = get_default data ''payload'' (JObj []),
      m_attempts = get_default data ''attempt_count'' (JInt 0),
      m_last_attempt = jget data ''last_attempt_at'', m_last_error = jget data ''last_error''\<rparr>"

text \<open>The message of an invalid marker, or nothing.\<close>

datatype invalid = UnsupportedSchema json | InvalidKind | InvalidId | UnsafeId string

definition validate_marker :: "jobj \<Rightarrow> invalid option" where
  "validate_marker data =
     (if \<not> eq_int (jget data ''schema_version'') marker_schema_version
      then Some (UnsupportedSchema (jget data ''schema_version''))
      else (case str_at data ''kind'' of
        None \<Rightarrow> Some InvalidKind
      | Some kind \<Rightarrow> if kind = [] then Some InvalidKind
      else (case str_at data ''marker_id'' of
        None \<Rightarrow> Some InvalidId
      | Some mid \<Rightarrow> if mid = [] then Some InvalidId
      else if \<not> safe_marker_id mid then Some (UnsafeId mid) else None)))"

section \<open>Enqueueing\<close>

text \<open>
  What the environment decides about one enqueue: the clock, the program version, the marker's lock
  and write, the index lock, and the fresh token and world of a legacy migration.
\<close>

record enqueue_env =
  q_version :: string
  q_now :: string
  q_lock :: bool
  q_write :: wout
  q_index_lock :: bool
  q_token :: string
  q_out1 :: wout
  q_out2 :: wout
  q_seen :: world

definition marker_data :: "string \<Rightarrow> string \<Rightarrow> string \<Rightarrow> string \<Rightarrow> jobj \<Rightarrow> jobj" where
  "marker_data version now kind marker_id payload =
     [(''schema_version'', JInt marker_schema_version), (''kind'', JStr kind), (''marker_id'', JStr marker_id),
      (''forge_version'', JStr version), (''created_at'', JStr now), (''payload'', JObj payload),
      (''attempt_count'', JInt 0), (''last_attempt_at'', JNull), (''last_error'', JNull)]"

text \<open>\<open>persist()\<close>: the marker's lock, then the atomic write.\<close>

definition put_marker :: "wout \<Rightarrow> string \<Rightarrow> state_file \<Rightarrow> (desk, err, unit) op" where
  "put_marker out name v = durable OsErr out (\<lambda>q. q\<lparr>markers := dset (markers q) name v\<rparr>)"

definition persist :: "enqueue_env \<Rightarrow> string \<Rightarrow> jobj \<Rightarrow> (desk, err, unit) op" where
  "persist qe name data =
     (if \<not> q_lock qe then raise LockTimeout else put_marker (q_write qe) name (Holds (JObj data)))"

text \<open>\<open>admission_forge_root or root\<close>\<close>

definition admission_root :: "string option \<Rightarrow> string \<Rightarrow> string" where
  "admission_root aroot rt = (case aroot of Some r \<Rightarrow> if r \<noteq> [] then r else rt | None \<Rightarrow> rt)"

text \<open>
  The body of the \<open>try\<close>: the instance token is captured when the payload has none, and work for a
  session is written only while the session is live with that instance.
\<close>

definition enqueue_body ::
  "env \<Rightarrow> penv \<Rightarrow> (jobj \<Rightarrow> string + jobj) \<Rightarrow> (state_file \<Rightarrow> string) \<Rightarrow> enqueue_env \<Rightarrow> string \<Rightarrow> string \<Rightarrow> string \<Rightarrow>
   jobj \<Rightarrow> string option \<Rightarrow> (desk, err, bool) op" where
  "enqueue_body env pe decode sha qe kind marker_id path payload aroot =
     (let data = (\<lambda>p. marker_data (q_version qe) (q_now qe) kind marker_id p) in
      (case (str_at payload ''session_name'', payload_root payload) of
         (Some name, JStr rt) \<Rightarrow>
           and_then (if truthy (jget payload ''instance_id'') then ret (jget payload ''instance_id'')
                     else and_then (capture_session_instance env pe decode sha (admission_root aroot rt) name
                                      (q_token qe) (q_out1 qe) (q_out2 qe) (q_seen qe)) (\<lambda>t. ret (JStr t))) (\<lambda>token.
            case token of
              JStr tok \<Rightarrow>
                run_session_producer_txn env pe decode (q_index_lock qe) (admission_root aroot rt) name tok
                  (persist qe path
                    (data (dset (dset payload ''instance_id'' (JStr tok)) ''forge_root'' (JStr (canonical env rt)))))
            | _ \<Rightarrow> raise (ValueErr ''Session work marker has no instance identity''))
       | _ \<Rightarrow> and_then (persist qe path (data payload)) (\<lambda>_. ret True)))"

text \<open>The path of the marker, or nothing: every failure is logged and swallowed.\<close>

definition enqueue ::
  "env \<Rightarrow> penv \<Rightarrow> (jobj \<Rightarrow> string + jobj) \<Rightarrow> (state_file \<Rightarrow> string) \<Rightarrow> enqueue_env \<Rightarrow> string \<Rightarrow> string \<Rightarrow> jobj \<Rightarrow>
   string option \<Rightarrow> (desk, err, string option) op" where
  "enqueue env pe decode sha qe kind marker_id payload aroot =
     (case marker_path marker_id of
        Inl _ \<Rightarrow> ret None
      | Inr path \<Rightarrow>
          fail_open None
            (and_then (enqueue_body env pe decode sha qe kind marker_id path payload aroot)
               (\<lambda>admitted. ret (if admitted then Some path else None))))"

text \<open>The payload of the four wrappers; \<open>extra\<close> is what a wrapper adds of its own.\<close>

definition opt_field :: "string \<Rightarrow> string option \<Rightarrow> jobj" where
  "opt_field k v = (case v of Some s \<Rightarrow> [(k, JStr s)] | None \<Rightarrow> [])"

definition nonempty_field :: "string \<Rightarrow> string option \<Rightarrow> jobj" where
  "nonempty_field k v = (case v of Some s \<Rightarrow> if s \<noteq> [] then [(k, JStr s)] else [] | None \<Rightarrow> [])"

definition stop_payload :: "string \<Rightarrow> string \<Rightarrow> string \<Rightarrow> string \<Rightarrow> string option \<Rightarrow> string option \<Rightarrow> jobj" where
  "stop_payload sid wt name rel rt inst =
     [(''session_id'', JStr sid), (''worktree_path'', JStr wt), (''session_name'', JStr name),
      (''transcript_snapshot_rel'', JStr rel)] @ opt_field ''instance_id'' inst @ nonempty_field ''forge_root'' rt"

definition origin_fields :: "(string \<times> string) option \<Rightarrow> jobj" where
  "origin_fields origin =
     (case origin of Some (run, rt) \<Rightarrow> [(''origin_run_id'', JStr run), (''origin_root_run_id'', JStr rt)] | None \<Rightarrow> [])"

definition enqueue_stop_marker where
  "enqueue_stop_marker env pe decode sha qe sid wt name rel rt inst aroot =
     enqueue env pe decode sha qe ''stop'' sid (stop_payload sid wt name rel rt inst) aroot"

definition enqueue_index_marker where
  "enqueue_index_marker env pe decode sha qe sid wt name rel rt inst aroot =
     enqueue env pe decode sha qe ''index'' (''idx-'' @ sid) (stop_payload sid wt name rel rt inst) aroot"

definition enqueue_handoff_marker where
  "enqueue_handoff_marker env pe decode sha qe sid wt name rel proxy rt inst origin aroot =
     enqueue env pe decode sha qe ''handoff'' (''handoff-'' @ sid)
       ([(''session_id'', JStr sid), (''worktree_path'', JStr wt), (''session_name'', JStr name),
         (''transcript_snapshot_rel'', JStr rel)] @ nonempty_field ''subprocess_proxy'' proxy
        @ opt_field ''instance_id'' inst @ nonempty_field ''forge_root'' rt @ origin_fields origin) aroot"

definition enqueue_shadow_marker where
  "enqueue_shadow_marker env pe decode sha qe sid name wt rt inst origin aroot =
     enqueue env pe decode sha qe ''shadow'' (''shadow-'' @ sid)
       ([(''session_id'', JStr sid), (''session_name'', JStr name), (''worktree_path'', JStr wt)]
        @ opt_field ''instance_id'' inst @ nonempty_field ''forge_root'' rt @ origin_fields origin) aroot"

section \<open>Processing one marker\<close>

datatype diagnostic =
    CouldNotRead string
  | ChangedBeforeAdmission string
  | NewerSchema string int
  | PredatesOwnership string
  | NotAdmitted string err

datatype message =
    InvalidMarker string invalid
  | HandlerError string string
  | ProcessingError string err

text \<open>What processing a marker returns: \<open>None\<close>, \<open>"skipped"\<close>, \<open>"failed"\<close>, a deferral, a message.\<close>

datatype verdict = Done | Skipped | Failed | Deferred "diagnostic option" | Error message

datatype lock_result = Locked | Busy | LockBroken

record visit =
  v_seen :: state_file
  v_lock :: lock_result
  v_now :: string
  v_write :: wout
  v_unlink :: bool
  v_move :: bool
  v_admit :: admit_env

type_synonym handlers = "string \<Rightarrow> (marker \<Rightarrow> string option) option"

definition content :: "desk \<Rightarrow> string \<Rightarrow> state_file" where
  "content q name = (case dget (markers q) name of Some f \<Rightarrow> f | None \<Rightarrow> Missing)"

definition unlink_marker :: "bool \<Rightarrow> string \<Rightarrow> (desk, err, unit) op" where
  "unlink_marker ok name =
     durable OsErr (if ok then WriteOk else FailBefore) (\<lambda>q. q\<lparr>markers := ddel (markers q) name\<rparr>)"

text \<open>\<open>shutil.move\<close> within the queue directory is a rename; its failure is logged and swallowed.\<close>

definition move_to_failed :: "bool \<Rightarrow> string \<Rightarrow> (desk, err, verdict) op" where
  "move_to_failed ok name =
     fail_open Failed (and_then (durable OsErr (if ok then WriteOk else FailBefore)
        (\<lambda>q. q\<lparr>markers := ddel (markers q) name, failed := dset (failed q) name (content q name)\<rparr>)) (\<lambda>_. ret Failed))"

text \<open>\<open>data.get("attempt_count", 0) + 1\<close>, and \<open>n >= MAX_ATTEMPTS\<close>: a \<open>TypeError\<close> unless a number.\<close>

fun increment :: "json \<Rightarrow> json option" where
  "increment (JInt n) = Some (JInt (n + 1))"
| "increment (JBool b) = Some (JInt ((if b then 1 else 0) + 1))"
| "increment (JFloat r) = Some (JFloat (r + 1))"
| "increment _ = None"

fun at_least :: "json \<Rightarrow> int \<Rightarrow> bool option" where
  "at_least (JInt n) m = Some (m \<le> n)"
| "at_least (JBool b) m = Some (m \<le> (if b then 1 else 0))"
| "at_least (JFloat r) m = Some (of_int m \<le> r)"
| "at_least _ m = None"

text \<open>The stored error: at most \<open>MAX_ERROR_LENGTH\<close> characters of its text.\<close>

definition truncate_error :: "string \<Rightarrow> string" where
  "truncate_error e = (if length e > max_error_length then take max_error_length e else e)"

definition with_error :: "string \<Rightarrow> string \<Rightarrow> json \<Rightarrow> jobj \<Rightarrow> jobj" where
  "with_error now e attempts data =
     dset (dset (dset data ''attempt_count'' attempts) ''last_attempt_at'' (JStr now))
       ''last_error'' (JStr (truncate_error e))"

definition try_write_error :: "visit \<Rightarrow> string \<Rightarrow> string \<Rightarrow> (desk, err, json option) op" where
  "try_write_error v name e =
     on_state (\<lambda>q. case content q name of
        Holds (JObj data) \<Rightarrow>
          (case increment (get_default data ''attempt_count'' (JInt 0)) of
             None \<Rightarrow> ret None
           | Some n \<Rightarrow>
               fail_open None (and_then (put_marker (v_write v) name (Holds (JObj (with_error (v_now v) e n data))))
                 (\<lambda>_. ret (Some n))))
      | _ \<Rightarrow> ret None)"

definition exhausted :: "json option \<Rightarrow> bool" where
  "exhausted n = (case n of None \<Rightarrow> False | Some j \<Rightarrow> at_least j max_attempts = Some True)"

text \<open>The owner read under the lock; \<open>payload.get\<close> fails on a payload that is not a dict.\<close>

definition current_owner :: "env \<Rightarrow> jobj \<Rightarrow> err + (string option \<times> json \<times> json)" where
  "current_owner env data =
     (case get_or_empty data ''payload'' of Inl e \<Rightarrow> Inl e
      | Inr p \<Rightarrow> Inr (map_option (canonical env) (as_str (payload_root p)), jget p ''session_name'', jget p ''instance_id''))"

definition defer_newer_schema :: "string \<Rightarrow> int \<Rightarrow> (desk, err, verdict) op" where
  "defer_newer_schema name n =
     on_state (\<lambda>q. if warned_newer q then ret (Deferred None)
       else (\<lambda>q. ([q\<lparr>warned_newer := True\<rparr>], Inr (Deferred (Some (NewerSchema name n))))))"

fun newer_schema :: "json \<Rightarrow> int option" where
  "newer_schema (JInt n) = (if n > marker_schema_version then Some n else None)"
| "newer_schema _ = None"

definition invalid_text :: "invalid \<Rightarrow> string" where
  "invalid_text i = (case i of
       UnsupportedSchema _ \<Rightarrow> ''unsupported schema_version'' | InvalidKind \<Rightarrow> ''missing or invalid kind''
     | InvalidId \<Rightarrow> ''missing or invalid marker_id'' | UnsafeId _ \<Rightarrow> ''unsafe marker_id'')"

definition handler_text :: "string \<Rightarrow> string" where
  "handler_text e = ''handler error: '' @ e"

text \<open>A marker that can be handed to its handler, under the lock.\<close>

definition run_marker :: "handlers \<Rightarrow> visit \<Rightarrow> string \<Rightarrow> marker \<Rightarrow> (desk, err, verdict) op" where
  "run_marker handlers v name m =
     (case at_least (m_attempts m) max_attempts of
        None \<Rightarrow> raise TypeErr
      | Some True \<Rightarrow> move_to_failed (v_move v) name
      | Some False \<Rightarrow>
     (case handlers (m_kind m) of
        None \<Rightarrow> ret Skipped
      | Some h \<Rightarrow>
          (case h m of
             None \<Rightarrow> and_then (unlink_marker (v_unlink v) name) (\<lambda>_. ret Done)
           | Some e \<Rightarrow>
               and_then (try_write_error v name (handler_text e)) (\<lambda>n.
                 if exhausted n then move_to_failed (v_move v) name else ret (Error (HandlerError name e))))))"

text \<open>The body of the lock in \<open>_process_locked_marker\<close>.\<close>

definition locked_body ::
  "env \<Rightarrow> handlers \<Rightarrow> visit \<Rightarrow> string \<Rightarrow> (string \<times> string \<times> string) option \<Rightarrow> (desk, err, verdict) op" where
  "locked_body env handlers v name expected =
     on_state (\<lambda>q. case content q name of
        Missing \<Rightarrow> ret Done
      | Unreadable \<Rightarrow> ret (Deferred (Some (CouldNotRead name)))
      | Undecodable \<Rightarrow> raise decode_error
      | Holds (JObj data) \<Rightarrow>
          and_then (check (case expected of
               None \<Rightarrow> Inr True
             | Some (rt, s, tok) \<Rightarrow>
                 (case current_owner env data of Inl e \<Rightarrow> Inl e
                  | Inr current \<Rightarrow> Inr (current = (Some rt, JStr s, JStr tok))))) (\<lambda>same.
          if \<not> same then ret (Deferred (Some (ChangedBeforeAdmission name)))
          else (case newer_schema (jget data ''schema_version'') of
            Some n \<Rightarrow> defer_newer_schema name n
          | None \<Rightarrow>
              if \<not> has_key ''marker_id'' data \<and> (has_key ''session_id'' data \<or> has_key ''work'' data)
              then and_then (unlink_marker (v_unlink v) name) (\<lambda>_. ret Done)
              else (case validate_marker data of
                Some i \<Rightarrow>
                  and_then (try_write_error v name (invalid_text i)) (\<lambda>n.
                    if exhausted n then move_to_failed (v_move v) name else ret (Error (InvalidMarker name i)))
              | None \<Rightarrow>
                  run_marker handlers v name
                    (marker_of data (the (str_at data ''kind'')) (the (str_at data ''marker_id''))))))
      | _ \<Rightarrow> move_to_failed (v_move v) name)"

definition process_locked_marker ::
  "env \<Rightarrow> handlers \<Rightarrow> visit \<Rightarrow> string \<Rightarrow> (string \<times> string \<times> string) option \<Rightarrow> (desk, err, verdict) op" where
  "process_locked_marker env handlers v name expected =
     (case v_lock v of
        Busy \<Rightarrow> ret Skipped
      | LockBroken \<Rightarrow> ret (Error (ProcessingError name OsErr))
      | Locked \<Rightarrow>
          rescue (locked_body env handlers v name expected) (\<lambda>e. Some (Error (ProcessingError name e))))"

text \<open>
  \<open>except (ForgeSessionError, ValueError, OSError)\<close>: a lock timeout of the index is none of them,
  nor are a \<open>TypeError\<close> or an \<open>AttributeError\<close>.
\<close>

definition not_admitted :: "string \<Rightarrow> err \<Rightarrow> verdict option" where
  "not_admitted name e =
     (if e = LockTimeout \<or> e = TypeErr \<or> e = AttributeErr then None
      else Some (Deferred (Some (NotAdmitted name e))))"

text \<open>The label of the lease; the text of a kind that is not a string is not modelled.\<close>

definition queued_label :: "jobj \<Rightarrow> string" where
  "queued_label data = ''queued '' @ (case str_at data ''kind'' of Some k \<Rightarrow> k | None \<Rightarrow> ''None'')"

text \<open>
  \<open>_process_single_marker\<close>: \<open>v_seen\<close> is the content the first, unlocked read saw.
\<close>

definition process_single_marker ::
  "env \<Rightarrow> penv \<Rightarrow> (jobj \<Rightarrow> string + jobj) \<Rightarrow> handlers \<Rightarrow> string \<times> visit \<Rightarrow> (desk, err, verdict) op" where
  "process_single_marker env pe decode handlers = (\<lambda>(name, v).
     (case v_seen v of
        Undecodable \<Rightarrow> raise decode_error
      | Holds (JObj data) \<Rightarrow>
          (case obj_at data ''payload'' of
             None \<Rightarrow> process_locked_marker env handlers v name None
           | Some p \<Rightarrow>
          (case (str_at p ''session_name'', payload_root p) of
             (Some s, JStr rt) \<Rightarrow>
               (case str_at p ''instance_id'' of
                  None \<Rightarrow> ret (Deferred (Some (PredatesOwnership name)))
                | Some tok \<Rightarrow>
                    rescue (session_worker_lease env pe decode (v_admit v) rt s tok (queued_label data)
                              (process_locked_marker env handlers v name (Some (canonical env rt, s, tok))))
                      (not_admitted name))
           | _ \<Rightarrow> process_locked_marker env handlers v name None))
      | _ \<Rightarrow> process_locked_marker env handlers v name None))"

section \<open>The scan\<close>

text \<open>\<open>bisect_right\<close> on a sorted list.\<close>

definition bisect_right :: "string list \<Rightarrow> string \<Rightarrow> nat" where
  "bisect_right names c = length (takeWhile (\<lambda>n. n \<le> c) names)"

text \<open>A cursor file that cannot be read or parsed counts as none; one that is not UTF-8 raises.\<close>

definition read_scan_cursor :: "state_file \<Rightarrow> err + string option" where
  "read_scan_cursor f =
     (case f of
        Undecodable \<Rightarrow> Inl decode_error
      | Holds (JObj d) \<Rightarrow> Inr (str_at d ''last_marker'')
      | _ \<Rightarrow> Inr None)"

definition window :: "string list \<Rightarrow> string option \<Rightarrow> int \<Rightarrow> string list" where
  "window names c max_items =
     (if max_items \<le> 0 \<or> names = [] then []
      else let start = (case c of None \<Rightarrow> 0 | Some c \<Rightarrow> bisect_right names c)
           in take (min (nat max_items) (length names)) (drop start names @ take start names))"

definition select_scan_window :: "state_file \<Rightarrow> string list \<Rightarrow> int \<Rightarrow> err + string list" where
  "select_scan_window f names max_items =
     (if max_items \<le> 0 \<or> names = [] then Inr []
      else (case read_scan_cursor f of Inl e \<Rightarrow> Inl e | Inr c \<Rightarrow> Inr (window names c max_items)))"

definition cursor_at :: "string \<Rightarrow> state_file" where
  "cursor_at name = Holds (JObj [(''last_marker'', JStr name)])"

text \<open>Both cursor writes are best effort: an \<open>OSError\<close> is logged.\<close>

definition write_scan_cursor :: "wout \<Rightarrow> string \<Rightarrow> (desk, err, unit) op" where
  "write_scan_cursor out name = fail_open () (durable OsErr out (\<lambda>q. q\<lparr>cursor := cursor_at name\<rparr>))"

definition clear_scan_cursor :: "wout \<Rightarrow> (desk, err, unit) op" where
  "clear_scan_cursor out = fail_open () (durable OsErr out (\<lambda>q. q\<lparr>cursor := Missing\<rparr>))"

record process_result =
  processed :: nat
  skipped :: nat
  failures :: nat
  errors :: "message list"
  diagnostics :: "diagnostic list"

definition no_result :: process_result where
  "no_result = \<lparr>processed = 0, skipped = 0, failures = 0, errors = [], diagnostics = []\<rparr>"

definition tally :: "verdict \<Rightarrow> process_result \<Rightarrow> process_result" where
  "tally v r = (case v of
       Deferred d \<Rightarrow> r\<lparr>skipped := skipped r + 1,
                       diagnostics := diagnostics r @ (case d of Some x \<Rightarrow> [x] | None \<Rightarrow> [])\<rparr>
     | Done \<Rightarrow> r\<lparr>processed := processed r + 1\<rparr>
     | Skipped \<Rightarrow> r\<lparr>skipped := skipped r + 1\<rparr>
     | Failed \<Rightarrow> r\<lparr>failures := failures r + 1\<rparr>
     | Error m \<Rightarrow> r\<lparr>errors := errors r @ [m]\<rparr>)"

fun resident :: "verdict \<Rightarrow> bool" where
  "resident Skipped = True"
| "resident (Deferred d) = True"
| "resident _ = False"

fun process_window ::
  "(string \<times> visit \<Rightarrow> (desk, err, verdict) op) \<Rightarrow> (string \<times> visit) list \<Rightarrow> process_result \<Rightarrow> bool \<Rightarrow>
   (desk, err, process_result \<times> bool) op" where
  "process_window f [] r seen = ret (r, seen)"
| "process_window f (x # xs) r seen =
     and_then (f x) (\<lambda>v. process_window f xs (tally v r) (seen \<or> resident v))"

text \<open>
  \<open>process_pending_work\<close>: \<open>listing\<close> is nothing when the directory does not exist, an error when it
  cannot be listed; \<open>visits\<close> gives the environment's decisions for each name of the window.
\<close>

datatype listing = NoQueueDir | ListingFails | Listed

definition process_pending_work ::
  "env \<Rightarrow> penv \<Rightarrow> (jobj \<Rightarrow> string + jobj) \<Rightarrow> handlers \<Rightarrow> int \<Rightarrow> listing \<Rightarrow> (string \<Rightarrow> visit) \<Rightarrow> wout \<Rightarrow>
   (desk, err, process_result) op" where
  "process_pending_work env pe decode handlers max_items listing visits out =
     (case listing of
        NoQueueDir \<Rightarrow> ret no_result
      | ListingFails \<Rightarrow> ret (no_result\<lparr>errors := [ProcessingError ''pending-work'' OsErr]\<rparr>)
      | Listed \<Rightarrow>
          on_state (\<lambda>q. let names = sort (dkeys (markers q)) in
            if names = [] then ret no_result
            else and_then (check (select_scan_window (cursor q) names max_items)) (\<lambda>ws.
                 and_then (process_window (process_single_marker env pe decode handlers)
                             (map (\<lambda>n. (n, visits n)) ws) no_result False) (\<lambda>(r, seen).
                 and_then (if seen then write_scan_cursor out (last ws)
                           else if ws \<noteq> [] then clear_scan_cursor out else ret ()) (\<lambda>_. ret r)))))"

section \<open>Lemmas: the scan window\<close>

text \<open>A window is a rotation of the sorted listing, cut to the bound.\<close>

lemma bisect_le: "bisect_right names c \<le> length names"
  by (simp add: bisect_right_def length_takeWhile_le)

lemma bisect_right_nth:
  assumes "sorted names" "distinct names" "i < length names"
  shows "bisect_right names (names ! i) = Suc i"
proof -
  have "takeWhile (\<lambda>n. n \<le> names ! i) names = take (Suc i) names"
  proof (rule takeWhile_eq_take_P_nth)
    fix j assume "j < Suc i" "j < length names"
    then show "names ! j \<le> names ! i" using assms(1,3) by (simp add: sorted_nth_mono)
  next
    assume s: "Suc i < length names"
    then have "names ! i < names ! Suc i"
      using assms(1,2) by (simp add: sorted_nth_mono nth_eq_iff_index_eq order_less_le)
    then show "\<not> names ! Suc i \<le> names ! i" by simp
  qed
  with assms(3) show ?thesis by (simp add: bisect_right_def)
qed

lemma drop_take_rotate: "s \<le> length xs \<Longrightarrow> drop s xs @ take s xs = rotate s xs"
  by (cases "s = length xs") (auto simp: rotate_drop_take)

definition window_start :: "string list \<Rightarrow> string option \<Rightarrow> nat" where
  "window_start names c = (case c of None \<Rightarrow> 0 | Some c \<Rightarrow> bisect_right names c)"

lemma window_rotate:
  assumes "0 < m"
  shows "window names c m = take (min (nat m) (length names)) (rotate (window_start names c) names)"
proof -
  have "window_start names c \<le> length names"
    by (simp add: window_start_def bisect_le split: option.split)
  from drop_take_rotate [OF this] assms show ?thesis
    by (auto simp: window_def window_start_def Let_def simp del: take_append)
qed

text \<open>The windows of successive runs, each leaving the last name of its window as the cursor.\<close>

primrec scans :: "string list \<Rightarrow> int \<Rightarrow> nat \<Rightarrow> string option \<Rightarrow> string list list" where
  "scans names m 0 c = []"
| "scans names m (Suc k) c = window names c m # scans names m k (Some (last (window names c m)))"

lemma rotate_mod_Suc: "xs \<noteq> [] \<Longrightarrow> rotate (Suc (k mod length xs)) xs = rotate (Suc k) xs"
  by (metis mod_Suc_eq rotate_conv_mod)

lemma next_window_start:
  assumes "sorted names" "distinct names" "names \<noteq> []" "0 < m"
  defines "t \<equiv> min (nat m) (length names)"
  shows "rotate (window_start names (Some (last (window names c m)))) names = rotate (window_start names c + t) names"
proof -
  let ?s = "window_start names c" and ?n = "length names"
  have t: "0 < t" "t \<le> ?n" using assms(3,4) by (auto simp: t_def)
  have "last (window names c m) = take t (rotate ?s names) ! (t - 1)"
    using t assms(3,4) by (simp add: window_rotate t_def last_conv_nth)
  also have "\<dots> = names ! ((?s + (t - 1)) mod ?n)"
    using t by (simp add: nth_rotate)
  finally have "window_start names (Some (last (window names c m))) = Suc ((?s + (t - 1)) mod ?n)"
    using assms(3) by (simp add: window_start_def bisect_right_nth [OF assms(1,2)])
  with t rotate_mod_Suc [OF assms(3), of "?s + (t - 1)"] show ?thesis by simp
qed

lemma scans_rotate:
  assumes "sorted names" "distinct names" "names \<noteq> []" "0 < m"
    and "rotate (window_start names c) names = rotate s names"
  shows "scans names m k c =
    map (\<lambda>i. take (min (nat m) (length names)) (rotate (s + i * min (nat m) (length names)) names)) [0..<k]"
  using assms(5)
proof (induction k arbitrary: c s)
  case (Suc k)
  let ?t = "min (nat m) (length names)"
  have "rotate (window_start names (Some (last (window names c m)))) names = rotate ?t (rotate (window_start names c) names)"
    using next_window_start [OF assms(1-4)] by (simp add: rotate_rotate add.commute)
  also have "\<dots> = rotate (s + ?t) names" by (simp add: Suc.prems rotate_rotate add.commute)
  finally have "scans names m k (Some (last (window names c m))) =
      map (\<lambda>i. take ?t (rotate (s + ?t + i * ?t) names)) [0..<k]" by (rule Suc.IH)
  moreover have "[0..<Suc k] = 0 # map Suc [0..<k]" by (simp add: upt_conv_Cons map_Suc_upt del: upt_Suc)
  ultimately show ?case
    by (simp add: window_rotate [OF assms(4)] Suc.prems add.assoc o_def del: upt_Suc)
qed simp

lemma rotations_cover:
  assumes "0 < t" "t \<le> length xs" "length xs \<le> k * t" "x \<in> set xs"
  shows "\<exists>i < k. x \<in> set (take t (rotate (s + i * t) xs))"
proof -
  from assms(4) obtain j where j: "j < length xs" "xs ! j = x" by (auto simp: in_set_conv_nth)
  let ?n = "length xs"
  define y where "y = (j + (?n - s mod ?n)) mod ?n"
  have n: "0 < ?n" using j(1) by (cases xs) simp_all
  have y: "y < ?n" using n by (simp add: y_def)
  have "(s + y) mod ?n = (s mod ?n + (j + (?n - s mod ?n))) mod ?n"
    by (simp add: y_def mod_add_left_eq mod_add_right_eq)
  also have "s mod ?n + (j + (?n - s mod ?n)) = j + ?n"
    using mod_less_divisor [OF n, of s] by linarith
  finally have xy: "xs ! ((s + y) mod ?n) = x" using j by simp
  have "y div t < k"
    using y assms(1,3) by (simp add: less_mult_imp_div_less)
  moreover have "take t (rotate (s + y div t * t) xs) ! (y mod t) = x"
  proof -
    have "y mod t < t" using assms(1) by simp
    then have "take t (rotate (s + y div t * t) xs) ! (y mod t) = xs ! ((s + y div t * t + y mod t) mod ?n)"
      using assms(2) by (simp add: nth_rotate)
    also have "s + y div t * t + y mod t = s + y" by simp
    finally show ?thesis using xy by simp
  qed
  moreover have "y mod t < length (take t (rotate (s + y div t * t) xs))"
    using assms(1,2) by (simp add: min_def)
  ultimately show ?thesis using nth_mem by metis
qed

text \<open>
  C9. The bounded scan starves no marker. A window holds at most the bound, without repetition;
  and when the runs advance the cursor, whatever the cursor was at the start (even a name no longer
  in the queue), as many runs as the listing has bounds visit every marker of it.
\<close>

theorem scan_visits_every_marker:
  assumes "sorted names" "distinct names" "0 < m" "length names \<le> k * nat m"
  shows "set (concat (scans names m k c)) = set names \<and>
    length (window names c m) = min (nat m) (length names) \<and> distinct (window names c m)"
proof (intro conjI)
  let ?t = "min (nat m) (length names)" and ?s = "window_start names c"
  show "set (concat (scans names m k c)) = set names"
  proof (cases "names = []")
    case True
    have "set (concat (scans [] m k c)) = {}" for c by (induction k arbitrary: c) (auto simp: window_def)
    with True show ?thesis by simp
  next
    case False
    have eq: "scans names m k c = map (\<lambda>i. take ?t (rotate (?s + i * ?t) names)) [0..<k]"
      by (rule scans_rotate [OF assms(1,2) False assms(3) refl])
    have "length names \<le> k * ?t"
      using assms(4) False by (cases k) (auto simp: min_def)
    then have "\<exists>i < k. x \<in> set (take ?t (rotate (?s + i * ?t) names))" if "x \<in> set names" for x
      using rotations_cover [of ?t names k x ?s] that assms(3) False by auto
    moreover have "set (take ?t (rotate (?s + i * ?t) names)) \<subseteq> set names" for i
      by (metis set_rotate set_take_subset)
    ultimately show ?thesis unfolding eq by (fastforce simp del: take_all_iff)
  qed
qed (simp_all add: window_rotate [OF assms(3)] assms(2))

theorem scan_visits_every_marker_witness:
  "set (concat (scans [''a.json'', ''b.json'', ''c.json'', ''d.json'', ''e.json''] 2 3 (Some ''bb.json''))) =
     {''a.json'', ''b.json'', ''c.json'', ''d.json'', ''e.json''}"
  using scan_visits_every_marker [of "[''a.json'', ''b.json'', ''c.json'', ''d.json'', ''e.json'']" 2 3 "Some ''bb.json''"]
  by simp

section \<open>Lemmas: one marker\<close>

text \<open>\<open>calm\<close>: a state in which the queue and its failed directory are as they were.\<close>

definition calm :: "desk \<Rightarrow> desk \<Rightarrow> bool" where
  "calm q w \<longleftrightarrow> markers w = markers q \<and> failed w = failed q"

text \<open>The states that processing the marker \<open>name\<close>, with this content, may leave it in.\<close>

definition recorded :: "state_file \<Rightarrow> state_file \<Rightarrow> bool" where
  "recorded f g \<longleftrightarrow> g = f \<or>
     (\<exists>data now e n. f = Holds (JObj data) \<and> increment (get_default data ''attempt_count'' (JInt 0)) = Some n \<and>
        g = Holds (JObj (with_error now e n data)))"

text \<open>A marker is done with when its handler returned, or when it has the shape of an old version.\<close>

definition finished :: "handlers \<Rightarrow> state_file \<Rightarrow> bool" where
  "finished handlers f \<longleftrightarrow> (\<exists>data. f = Holds (JObj data) \<and>
     (\<not> has_key ''marker_id'' data \<or>
      validate_marker data = None \<and>
      (\<exists>h. handlers (the (str_at data ''kind'')) = Some h \<and>
           h (marker_of data (the (str_at data ''kind'')) (the (str_at data ''marker_id''))) = None)))"

definition marker_step :: "handlers \<Rightarrow> string \<Rightarrow> desk \<Rightarrow> desk \<Rightarrow> bool" where
  "marker_step handlers name q w \<longleftrightarrow>
     (\<forall>n. n \<noteq> name \<longrightarrow> dget (markers w) n = dget (markers q) n \<and> dget (failed w) n = dget (failed q) n) \<and>
     (dget (failed w) name = dget (failed q) name \<and>
        (dget (markers w) name = dget (markers q) name \<or>
         dget (markers w) name = None \<and> finished handlers (content q name) \<or>
         (\<exists>g. dget (markers w) name = Some g \<and> recorded (content q name) g)) \<or>
      dget (markers w) name = None \<and> (\<exists>g. dget (failed w) name = Some g \<and> recorded (content q name) g))"

lemma content_Holds: "content q name = Holds v \<Longrightarrow> dget (markers q) name = Some (Holds v)"
  by (auto simp: content_def split: option.splits)

lemma fail_open_trace [simp]: "fst (fail_open a f w) = fst (f w)"
  by (auto simp: fail_open_def split: prod.splits sum.splits)

lemma safe_fail_open_iff [simp]: "safe P (fail_open a f) w = safe P f w"
  by (simp add: safe_def)

lemma safe_move: "(ok \<Longrightarrow> P (q\<lparr>markers := ddel (markers q) name, failed := dset (failed q) name (content q name)\<rparr>)) \<Longrightarrow>
    safe P (move_to_failed ok name) q"
  by (cases ok) (auto simp: move_to_failed_def safe_def and_then_def)

lemma safe_unlink: "(ok \<Longrightarrow> P (q\<lparr>markers := ddel (markers q) name\<rparr>)) \<Longrightarrow>
    safe P (and_then (unlink_marker ok name) (\<lambda>_. ret a)) q"
  by (cases ok) (auto simp: unlink_marker_def safe_def and_then_def)

text \<open>What \<open>_try_write_error\<close> makes durable, and what its result says of the state it leaves.\<close>

lemma try_write_error_cases:
  obtains (nothing) n where "try_write_error v name e q = ([], Inr n)" "n = None"
  | (written) data n r where "content q name = Holds (JObj data)"
      "increment (get_default data ''attempt_count'' (JInt 0)) = Some n"
      "try_write_error v name e q =
         ([q\<lparr>markers := dset (markers q) name (Holds (JObj (with_error (v_now v) e n data)))\<rparr>], Inr r)"
      "r = (if v_write v = WriteOk then Some n else None)"
proof (cases "content q name")
  case (Holds j)
  show thesis
  proof (cases j)
    case (JObj data)
    show thesis
    proof (cases "increment (get_default data ''attempt_count'' (JInt 0))")
      case (Some n)
      show thesis
      proof (cases "v_write v = FailBefore")
        case True
        show thesis
          by (rule nothing [of None])
            (simp_all add: try_write_error_def Holds JObj Some True fail_open_def put_marker_def and_then_def)
      next
        case False
        show thesis
          by (rule written [OF Holds [unfolded JObj] Some _ refl], cases "v_write v")
            (use False in \<open>simp_all add: try_write_error_def Holds JObj Some fail_open_def put_marker_def and_then_def\<close>)
      qed
    qed (rule nothing [of None], simp_all add: try_write_error_def Holds JObj)
  qed (rule nothing [of None], simp_all add: try_write_error_def Holds)+
qed (rule nothing [of None], simp_all add: try_write_error_def)+

lemma marker_step_refl: "marker_step hs name q q"
  by (simp add: marker_step_def)

lemma marker_step_calm: "calm q w \<Longrightarrow> marker_step hs name q w"
  by (simp add: marker_step_def calm_def)

lemma marker_step_moved:
  "content q name = f \<Longrightarrow> recorded f (content q' name) \<Longrightarrow>
   \<forall>n. n \<noteq> name \<longrightarrow> dget (markers q') n = dget (markers q) n \<and> dget (failed q') n = dget (failed q) n \<Longrightarrow>
   marker_step hs name q (q'\<lparr>markers := ddel (markers q') name, failed := dset (failed q') name (content q' name)\<rparr>)"
  by (auto simp: marker_step_def)

lemma marker_step_move: "marker_step hs name q
    (q\<lparr>markers := ddel (markers q) name, failed := dset (failed q) name (content q name)\<rparr>)"
  by (rule marker_step_moved [OF refl]) (simp_all add: recorded_def)

lemma safe_move_step: "safe (marker_step hs name q) (move_to_failed ok name) q"
  by (rule safe_move, rule marker_step_move)

lemma recorded_with_error:
  "increment (get_default data ''attempt_count'' (JInt 0)) = Some n \<Longrightarrow>
   recorded (Holds (JObj data)) (Holds (JObj (with_error now e n data)))"
  unfolding recorded_def by blast

lemma content_dset [simp]: "content (q\<lparr>markers := dset m n v\<rparr>) n = v"
  by (simp add: content_def)

text \<open>Recording an error, then moving a marker whose attempts are used up.\<close>

lemma safe_record_error:
  "safe (marker_step hs name q)
     (and_then (try_write_error v name e) (\<lambda>n. if exhausted n then move_to_failed ok name else ret r)) q"
proof (cases rule: try_write_error_cases [of v name e q])
  case (nothing n)
  then show ?thesis by (auto simp: safe_def and_then_def exhausted_def)
next
  case (written data n r')
  let ?q1 = "q\<lparr>markers := dset (markers q) name (Holds (JObj (with_error (v_now v) e n data)))\<rparr>"
  have r: "recorded (content q name) (content ?q1 name)"
    using written(1,2) by (simp add: recorded_with_error)
  have s1: "marker_step hs name q ?q1"
    using r by (auto simp: marker_step_def)
  have "safe (marker_step hs name q) (move_to_failed ok name) ?q1"
    by (rule safe_move, rule marker_step_moved [OF refl r]) simp
  with s1 written(3) show ?thesis
    by (intro safe_and_then) (auto simp: safe_def)
qed

lemma safe_run_marker:
  assumes "content q name = Holds (JObj data)" "validate_marker data = None"
  shows "safe (marker_step hs name q)
    (run_marker hs v name (marker_of data (the (str_at data ''kind'')) (the (str_at data ''marker_id'')))) q"
proof -
  let ?m = "marker_of data (the (str_at data ''kind'')) (the (str_at data ''marker_id''))"
  have k: "m_kind ?m = the (str_at data ''kind'')" by (simp add: marker_of_def)
  have "marker_step hs name q (q\<lparr>markers := ddel (markers q) name\<rparr>)"
    if "hs (m_kind ?m) = Some h" "h ?m = None" for h
    using that assms by (auto simp: marker_step_def finished_def k)
  then show ?thesis
    unfolding run_marker_def
    by (auto split: option.split bool.split intro!: safe_move_step safe_unlink safe_record_error)
qed

lemma safe_locked_body: "safe (marker_step hs name q) (locked_body env hs v name expected) q"
proof (cases "content q name")
  case (Holds j)
  show ?thesis
  proof (cases j)
    case (JObj data)
    let ?rest = "case newer_schema (jget data ''schema_version'') of
        Some n \<Rightarrow> defer_newer_schema name n
      | None \<Rightarrow>
          if \<not> has_key ''marker_id'' data \<and> (has_key ''session_id'' data \<or> has_key ''work'' data)
          then and_then (unlink_marker (v_unlink v) name) (\<lambda>_. ret Done)
          else (case validate_marker data of
            Some i \<Rightarrow>
              and_then (try_write_error v name (invalid_text i)) (\<lambda>n.
                if exhausted n then move_to_failed (v_move v) name else ret (Error (InvalidMarker name i)))
          | None \<Rightarrow>
              run_marker hs v name (marker_of data (the (str_at data ''kind'')) (the (str_at data ''marker_id''))))"
    note c = Holds [unfolded JObj]
    have newer: "safe (marker_step hs name q) (defer_newer_schema name n) q" for n
      by (simp add: defer_newer_schema_def safe_def marker_step_calm calm_def)
    have old: "safe (marker_step hs name q) (and_then (unlink_marker (v_unlink v) name) (\<lambda>_. ret Done)) q"
      if "\<not> has_key ''marker_id'' data"
      using that c by (intro safe_unlink) (auto simp: marker_step_def finished_def)
    have rest: "safe (marker_step hs name q) ?rest q"
      by (auto simp: newer old safe_record_error safe_run_marker [OF c] split: option.split)
    have "safe (marker_step hs name q) (if \<not> same then ret (Deferred (Some (ChangedBeforeAdmission name))) else ?rest) q" for same
      by (rule safe_if [OF safe_ret(1) rest])
    then show ?thesis
      unfolding locked_body_def safe_on_state c state_file.case json.case safe_check by (intro allI impI)
  qed (simp_all add: locked_body_def Holds safe_move_step)
qed (simp_all add: locked_body_def safe_move_step)

lemma safe_process_locked: "safe (marker_step hs name q) (process_locked_marker env hs v name expected) q"
  by (simp add: process_locked_marker_def safe_locked_body split: lock_result.split)

text \<open>A verdict that leaves the marker resident leaves its bytes alone.\<close>

lemma move_to_failed_verdict: "snd (move_to_failed ok name q) = Inr Failed"
  by (cases ok) (auto simp: move_to_failed_def fail_open_def and_then_def)

lemma record_error_verdict:
  "snd (and_then (try_write_error v name e) (\<lambda>n. if exhausted n then move_to_failed ok name else ret (Error m)) q) = Inr vd \<Longrightarrow>
   \<not> resident vd"
  by (auto simp: and_then_Inr move_to_failed_verdict split: if_splits)

lemma unlink_verdict: "snd (and_then (unlink_marker ok name) (\<lambda>_. ret Done) q) = Inr vd \<Longrightarrow> \<not> resident vd"
  by (auto simp: and_then_Inr)

lemma run_marker_resident:
  assumes "snd (run_marker hs v name m q) = Inr vd" "resident vd"
  shows "fst (run_marker hs v name m q) = []"
proof (cases "at_least (m_attempts m) max_attempts")
  case (Some b)
  show ?thesis
  proof (cases b)
    case False
    show ?thesis
    proof (cases "hs (m_kind m)")
      case (Some h)
      show ?thesis
      proof (cases "h m")
        case None
        with assms \<open>hs (m_kind m) = Some h\<close> False \<open>at_least (m_attempts m) max_attempts = Some b\<close>
        show ?thesis by (simp add: run_marker_def) (use unlink_verdict in blast)
      next
        case (Some e)
        with assms \<open>hs (m_kind m) = Some h\<close> False \<open>at_least (m_attempts m) max_attempts = Some b\<close>
        show ?thesis by (simp add: run_marker_def) (use record_error_verdict in blast)
      qed
    qed (use False \<open>at_least (m_attempts m) max_attempts = Some b\<close> in \<open>simp add: run_marker_def\<close>)
  qed (use assms Some in \<open>auto simp: run_marker_def move_to_failed_verdict\<close>)
qed (use assms in \<open>simp add: run_marker_def\<close>)

lemma safe_check_result:
  "snd (and_then (check r) g w) = Inr a \<Longrightarrow> (\<And>b. snd (g b w) = Inr a \<Longrightarrow> safe P (g b) w) \<Longrightarrow>
   safe P (and_then (check r) g) w"
  by (cases r) (simp_all add: safe_def)

lemma locked_body_resident:
  assumes "snd (locked_body env hs v name expected q) = Inr vd" "resident vd"
  shows "safe (calm q) (locked_body env hs v name expected) q"
proof (cases "content q name")
  case (Holds j)
  show ?thesis
  proof (cases j)
    case (JObj data)
    note c = Holds [unfolded JObj]
    let ?rest = "case newer_schema (jget data ''schema_version'') of
        Some n \<Rightarrow> defer_newer_schema name n
      | None \<Rightarrow>
          if \<not> has_key ''marker_id'' data \<and> (has_key ''session_id'' data \<or> has_key ''work'' data)
          then and_then (unlink_marker (v_unlink v) name) (\<lambda>_. ret Done)
          else (case validate_marker data of
            Some i \<Rightarrow>
              and_then (try_write_error v name (invalid_text i)) (\<lambda>n.
                if exhausted n then move_to_failed (v_move v) name else ret (Error (InvalidMarker name i)))
          | None \<Rightarrow>
              run_marker hs v name (marker_of data (the (str_at data ''kind'')) (the (str_at data ''marker_id''))))"
    have rest: "safe (calm q) ?rest q" if r: "snd (?rest q) = Inr vd"
    proof (cases "newer_schema (jget data ''schema_version'')")
      case (Some n)
      then show ?thesis by (simp add: defer_newer_schema_def safe_def calm_def)
    next
      case None
      show ?thesis
      proof (cases "\<not> has_key ''marker_id'' data \<and> (has_key ''session_id'' data \<or> has_key ''work'' data)")
        case True
        with r None assms(2) show ?thesis using unlink_verdict by auto
      next
        case False
        note f = False
        show ?thesis
        proof (cases "validate_marker data")
          case None
          with r f \<open>newer_schema _ = None\<close> assms(2) show ?thesis
            using run_marker_resident by (auto simp: safe_def)
        next
          case (Some i)
          with r f \<open>newer_schema _ = None\<close> assms(2) show ?thesis
            using record_error_verdict by auto
        qed
      qed
    qed
    have "safe (calm q) (if \<not> same then ret (Deferred (Some (ChangedBeforeAdmission name))) else ?rest) q"
      if "snd ((if \<not> same then ret (Deferred (Some (ChangedBeforeAdmission name))) else ?rest) q) = Inr vd" for same
      by (rule safe_if [OF safe_ret(1)]) (use that rest in \<open>simp split del: option.split\<close>)
    with assms(1) show ?thesis
      unfolding locked_body_def ret_simps(4) safe_on_state c state_file.case json.case by (rule safe_check_result)
  qed (use assms in \<open>simp_all add: locked_body_def Holds move_to_failed_verdict\<close>)
qed (use assms in \<open>simp_all add: locked_body_def move_to_failed_verdict\<close>)

lemma process_locked_resident:
  assumes "snd (process_locked_marker env hs v name expected q) = Inr vd" "resident vd"
  shows "safe (calm q) (process_locked_marker env hs v name expected) q"
  using assms locked_body_resident [of env hs v name expected q vd]
  by (auto simp: process_locked_marker_def rescue_result split: lock_result.splits sum.splits)

lemma process_locked_result: "\<exists>vd. snd (process_locked_marker env hs v name expected q) = Inr vd"
  by (cases "v_lock v") (auto simp: process_locked_marker_def rescue_result split: sum.splits)

text \<open>A lease around the body adds its own file before and removes it after.\<close>

lemma set_leases_queue [simp]:
  "markers (set_leases inst f (q :: desk)) = markers q" "failed (set_leases inst f (q :: desk)) = failed q"
  by (simp_all add: set_leases_def)

lemma calm_refl [simp]: "calm q q"
  by (simp add: calm_def)

lemma calm_set_leases [simp]: "calm q (set_leases inst f q)"
  by (simp add: calm_def)

lemma create_worker_lease_trace:
  "w' \<in> set (fst (create_worker_lease env rt name inst label pid lid lock_ok out w)) \<Longrightarrow> \<exists>f. w' = set_leases inst f w"
  by (rule admission_cases [of env lock_ok "canonical env rt" name inst "durable OsErr out (set_leases inst (put_lease (lease_name lid)
        \<lparr>lease_schema = 1, lease_root = canonical env rt, lease_session = name, lease_instance = inst, lease_pid = pid, lease_label = label\<rparr>))" w])
    (auto simp: create_worker_lease_def Let_def and_then_mem and_then_check_eq lease_dir_of_def
      split: sum.splits if_splits dest!: durable_mem)

lemma lease_trace:
  fixes q :: desk
  obtains (refused) e where "\<forall>u \<in> set (fst (session_worker_lease env pe decode ae rt s tok label body q)). calm q u"
      "snd (session_worker_lease env pe decode ae rt s tok label body q) = Inl e"
  | (ran) q1 us vs where "calm q q1"
      "fst (session_worker_lease env pe decode ae rt s tok label body q) = vs @ fst (body q1) @ us"
      "\<forall>u \<in> set vs. calm q u" "\<forall>u \<in> set us. calm (final q1 (fst (body q1))) u"
      "snd (session_worker_lease env pe decode ae rt s tok label body q) = snd (body q1) \<or>
       \<not> ae_release ae \<and> snd (session_worker_lease env pe decode ae rt s tok label body q) = Inl OsErr"
proof (cases "sidecar pe")
  case True
  show thesis
  proof (cases "require_sidecar_lease env pe decode rt s tok (sess q)")
    case (Inl e)
    with True show thesis by (intro refused) (simp_all add: session_worker_lease_def)
  next
    case (Inr u)
    with True show thesis
      by (intro ran [of q "[]" "[]"]) (simp_all add: session_worker_lease_def)
  qed
next
  case False
  let ?c = "create_worker_lease env rt s tok label (ae_pid ae) (ae_lease ae) (ae_lock ae) (ae_write ae)"
  let ?k = "\<lambda>path. ensuring body (release_lease tok path (ae_release ae))"
  have eq: "session_worker_lease env pe decode ae rt s tok label body q = and_then ?c ?k q"
    using False by (simp add: session_worker_lease_def)
  have calm_c: "\<forall>u \<in> set (fst (?c q)). calm q u"
    using create_worker_lease_trace by force
  show thesis
  proof (cases "snd (?c q)")
    case (Inl e)
    with calm_c show thesis by (intro refused) (simp_all add: eq and_then_fail)
  next
    case (Inr path)
    let ?q1 = "final q (fst (?c q))"
    have q1: "calm q ?q1" using calm_c final_in [of q "fst (?c q)"] by auto
    let ?w = "final ?q1 (fst (body ?q1))"
    have rel: "\<forall>u \<in> set (fst (release_lease tok path (ae_release ae) ?w)). calm ?w u"
      by (auto simp: release_lease_def dest!: durable_mem)
    have "and_then ?c ?k q = (fst (?c q) @ fst (?k path ?q1), snd (?k path ?q1))"
      using Inr by (auto simp: and_then_def split: prod.splits)
    moreover have "fst (?k path ?q1) = fst (body ?q1) @ fst (release_lease tok path (ae_release ae) ?w)"
      by (auto simp: ensuring_def split: prod.splits sum.splits)
    moreover have "snd (?k path ?q1) = snd (body ?q1) \<or> \<not> ae_release ae \<and> snd (?k path ?q1) = Inl OsErr"
      by (auto simp: ensuring_def release_lease_def durable_def split: prod.splits sum.splits if_splits)
    ultimately show thesis
      by (intro ran [OF q1 _ calm_c rel]) (simp_all add: eq)
  qed
qed

lemma calm_trans: "calm q w \<Longrightarrow> calm w u \<Longrightarrow> calm q u"
  by (simp add: calm_def)

lemma marker_step_from_calm: "calm q q1 \<Longrightarrow> marker_step hs name q1 w \<Longrightarrow> marker_step hs name q w"
  by (simp add: calm_def marker_step_def content_def)

lemma marker_step_to_calm: "marker_step hs name q w \<Longrightarrow> calm w u \<Longrightarrow> marker_step hs name q u"
  by (simp add: calm_def marker_step_def)

text \<open>Processing a marker that is admitted under a lease, or without one.\<close>

lemma process_single_cases:
  obtains (raised) "process_single_marker env pe decode hs (name, v) q = ([], Inl decode_error)" "v_seen v = Undecodable"
  | (unowned) "process_single_marker env pe decode hs (name, v) q = ([], Inr (Deferred (Some (PredatesOwnership name))))"
  | (plain) "process_single_marker env pe decode hs (name, v) q = process_locked_marker env hs v name None q"
  | (leased) rt s tok label where "process_single_marker env pe decode hs (name, v) q =
      rescue (session_worker_lease env pe decode (v_admit v) rt s tok label
        (process_locked_marker env hs v name (Some (canonical env rt, s, tok)))) (not_admitted name) q"
proof (cases "\<exists>data p s rt. v_seen v = Holds (JObj data) \<and> obj_at data ''payload'' = Some p \<and>
      str_at p ''session_name'' = Some s \<and> payload_root p = JStr rt")
  case True
  then obtain data p s rt where *: "v_seen v = Holds (JObj data)" "obj_at data ''payload'' = Some p"
      "str_at p ''session_name'' = Some s" "payload_root p = JStr rt" by blast
  show thesis
  proof (cases "str_at p ''instance_id''")
    case None
    with * show thesis by (intro unowned) (simp add: process_single_marker_def)
  next
    case (Some tok)
    with * show thesis by (intro leased) (simp add: process_single_marker_def)
  qed
next
  case False
  show thesis
  proof (cases "v_seen v = Undecodable")
    case True
    then show thesis by (intro raised) (simp_all add: process_single_marker_def)
  next
    case dec: False
    from False dec show thesis
      by (intro plain) (auto simp: process_single_marker_def split: state_file.split json.split option.split)
  qed
qed

lemma lock_timeout_not_admitted: "not_admitted name e = Some vd \<Longrightarrow> resident vd"
  by (auto simp: not_admitted_def split: if_splits)


definition sample_marker :: jobj where
  "sample_marker = marker_data ''1.0'' ''t0'' ''stop'' ''s1'' []"

definition sample_visit :: visit where
  "sample_visit = \<lparr>v_seen = Holds (JObj sample_marker), v_lock = Locked, v_now = ''t1'', v_write = WriteOk,
     v_unlink = True, v_move = True, v_admit = sample_admit\<rparr>"

definition sample_desk :: desk where
  "sample_desk = \<lparr>sess = created_world, leases = (\<lambda>_. NoLeases), markers = [(''s1.json'', Holds (JObj sample_marker))],
     failed = [], cursor = Missing, warned_newer = False\<rparr>"

definition failing_handlers :: handlers where
  "failing_handlers = (\<lambda>k. if k = ''stop'' then Some (\<lambda>_. Some ''boom'') else None)"


section \<open>Lemmas: repeated failures\<close>

lemma with_error_frame [simp]:
  "jget (with_error now e n d) ''schema_version'' = jget d ''schema_version''"
  "jget (with_error now e n d) ''kind'' = jget d ''kind''"
  "jget (with_error now e n d) ''marker_id'' = jget d ''marker_id''"
  "jget (with_error now e n d) ''payload'' = jget d ''payload''"
  "dget (with_error now e n d) ''attempt_count'' = Some n"
  "dget (with_error now e n d) ''last_error'' = Some (JStr (truncate_error e))"
  by (simp_all add: with_error_def)

lemma with_error_str_at [simp]:
  "str_at (with_error now e n d) ''kind'' = str_at d ''kind''"
  "str_at (with_error now e n d) ''marker_id'' = str_at d ''marker_id''"
  by (simp_all add: str_at_def)

lemma with_error_valid [simp]:
  "validate_marker (with_error now e n d) = validate_marker d"
  "current_owner env (with_error now e n d) = current_owner env d"
  by (simp_all add: validate_marker_def current_owner_def get_or_empty_def cong: if_cong option.case_cong)

lemma valid_marker_facts:
  assumes "validate_marker d = None"
  shows "newer_schema (jget d ''schema_version'') = None" "has_key ''marker_id'' d"
proof -
  from assms have e: "eq_int (jget d ''schema_version'') marker_schema_version"
    and s: "str_at d ''marker_id'' \<noteq> None"
    by (auto simp: validate_marker_def split: if_splits option.splits)
  from e show "newer_schema (jget d ''schema_version'') = None"
    by (cases "jget d ''schema_version''") auto
  from s show "has_key ''marker_id'' d"
    by (auto simp: str_at_Some has_key_def dest!: dget_mem intro: rev_image_eqI)
qed

text \<open>The owner a visit expects: none, or the one the marker carries.\<close>

definition owned :: "env \<Rightarrow> jobj \<Rightarrow> (string \<times> string \<times> string) option \<Rightarrow> bool" where
  "owned env d expected = (case expected of None \<Rightarrow> True
     | Some (rt, s, tok) \<Rightarrow> current_owner env d = Inr (Some rt, JStr s, JStr tok))"

definition faultless :: "visit \<Rightarrow> bool" where
  "faultless v \<longleftrightarrow> v_lock v = Locked \<and> v_write v = WriteOk \<and> v_move v \<and> v_unlink v"

lemma process_valid_marker:
  assumes "content q name = Holds (JObj d)" "validate_marker d = None" "owned env d expected" "v_lock v = Locked"
  shows "process_locked_marker env hs v name expected q =
    rescue (run_marker hs v name (marker_of d (the (str_at d ''kind'')) (the (str_at d ''marker_id'')))) (\<lambda>e. Some (Error (ProcessingError name e))) q"
proof -
  have "locked_body env hs v name expected q =
      run_marker hs v name (marker_of d (the (str_at d ''kind'')) (the (str_at d ''marker_id''))) q"
    using assms valid_marker_facts [OF assms(2)]
    by (auto simp: locked_body_def owned_def split: option.splits prod.splits)
  with assms(4) show ?thesis by (simp add: process_locked_marker_def rescue_def)
qed

text \<open>One failed attempt: it is recorded, and the fifth one retires the marker.\<close>

lemma failed_attempt:
  assumes c: "content q name = Holds (JObj d)" and valid: "validate_marker d = None" "owned env d expected"
    and v: "faultless v" and n: "dget d ''attempt_count'' = Some (JInt n)" "n < max_attempts"
    and h: "hs (the (str_at d ''kind'')) = Some h" "h (marker_of d (the (str_at d ''kind'')) (the (str_at d ''marker_id''))) = Some e"
  shows "\<exists>q1. let d1 = with_error (v_now v) (handler_text e) (JInt (n + 1)) d in
    content q1 name = Holds (JObj d1) \<and>
    final q (fst (process_locked_marker env hs v name expected q)) =
      (if n + 1 < max_attempts then q1
       else q1\<lparr>markers := ddel (markers q1) name, failed := dset (failed q1) name (Holds (JObj d1))\<rparr>)"
proof -
  let ?m = "marker_of d (the (str_at d ''kind'')) (the (str_at d ''marker_id''))"
  let ?d1 = "with_error (v_now v) (handler_text e) (JInt (n + 1)) d"
  let ?q1 = "q\<lparr>markers := dset (markers q) name (Holds (JObj ?d1))\<rparr>"
  from v have v': "v_lock v = Locked" "v_write v = WriteOk" "v_move v" by (simp_all add: faultless_def)
  have at: "at_least (m_attempts ?m) max_attempts = Some False" and k: "m_kind ?m = the (str_at d ''kind'')"
    using n by (simp_all add: marker_of_def get_default_def)
  have w: "try_write_error v name (handler_text e) q = ([?q1], Inr (Some (JInt (n + 1))))"
    using c n v'(2) by (simp add: try_write_error_def get_default_def fail_open_def put_marker_def and_then_def)
  have ex: "exhausted (Some (JInt (n + 1))) = (\<not> n + 1 < max_attempts)"
    by (auto simp: exhausted_def)
  have "final q (fst (run_marker hs v name ?m q)) =
      (if n + 1 < max_attempts then ?q1
       else ?q1\<lparr>markers := ddel (markers ?q1) name, failed := dset (failed ?q1) name (Holds (JObj ?d1))\<rparr>)"
    using v'(3) by (simp add: run_marker_def at k h and_then_def w ex move_to_failed_def fail_open_def)
  then show ?thesis
    unfolding process_valid_marker [OF c valid v'(1)] rescue_trace Let_def
    by (intro exI [of _ ?q1]) simp
qed

text \<open>The queue after a number of visits to one marker.\<close>

primrec drain :: "(visit \<Rightarrow> (desk, err, verdict) op) \<Rightarrow> visit list \<Rightarrow> desk \<Rightarrow> desk" where
  "drain f [] q = q"
| "drain f (v # vs) q = drain f vs (final q (fst (f v q)))"

lemma drain_missing:
  assumes "content q name = Missing" "\<forall>v \<in> set vs. faultless v"
  shows "drain (\<lambda>v. process_locked_marker env hs v name expected) vs q = q"
  using assms by (induction vs) (auto simp: faultless_def process_locked_marker_def locked_body_def rescue_def)



section \<open>Lemmas: the scan's result\<close>

definition counted :: "process_result \<Rightarrow> nat" where
  "counted r = processed r + skipped r + failures r + length (errors r)"

lemma counted_tally [simp]: "counted (tally v r) = Suc (counted r)"
  by (cases v) (simp_all add: tally_def counted_def)

lemma skipped_tally: "skipped (tally v r) = skipped r + (if resident v then 1 else 0)"
  by (cases v) (simp_all add: tally_def)

lemma diagnostics_tally: "length (diagnostics r) \<le> skipped r \<Longrightarrow> length (diagnostics (tally v r)) \<le> skipped (tally v r)"
  by (cases v) (auto simp: tally_def split: option.splits)

lemma process_window_counts:
  assumes "process_window f xs r seen q = (t, Inr (r', seen'))"
    and "seen \<longleftrightarrow> 0 < skipped r" "length (diagnostics r) \<le> skipped r"
  shows "counted r' = counted r + length xs \<and> (seen' \<longleftrightarrow> 0 < skipped r') \<and> length (diagnostics r') \<le> skipped r'"
  using assms
proof (induction xs arbitrary: r seen q t)
  case (Cons x xs)
  from Cons.prems(1) obtain t1 v t2 where
    "process_window f xs (tally v r) (seen \<or> resident v) (final q t1) = (t2, Inr (r', seen'))"
    by (auto simp: and_then_def split: prod.splits sum.splits)
  moreover have "(seen \<or> resident v) = (0 < skipped (tally v r))"
    using Cons.prems(2) by (auto simp: skipped_tally)
  ultimately show ?case
    using Cons.IH diagnostics_tally [OF Cons.prems(3)] by fastforce
qed simp

lemma cursor_ops:
  "fst (write_scan_cursor WriteOk name q) = [q\<lparr>cursor := cursor_at name\<rparr>]" "snd (write_scan_cursor WriteOk name q) = Inr ()"
  "fst (clear_scan_cursor WriteOk q) = [q\<lparr>cursor := Missing\<rparr>]" "snd (clear_scan_cursor WriteOk q) = Inr ()"
  by (simp_all add: write_scan_cursor_def clear_scan_cursor_def fail_open_def)

lemma scan_eval:
  assumes "process_pending_work env pe decode hs m Listed visits out q = (trace, Inr r)"
    and "sort (dkeys (markers q)) = names" "names \<noteq> []"
  obtains ws t seen where "select_scan_window (cursor q) names m = Inr ws"
    "process_window (process_single_marker env pe decode hs) (map (\<lambda>n. (n, visits n)) ws) no_result False q = (t, Inr (r, seen))"
    "trace = t @ fst ((if seen then write_scan_cursor out (last ws) else if ws \<noteq> [] then clear_scan_cursor out else ret ()) (final q t))"
  using assms
  by (auto simp: process_pending_work_def Let_def and_then_check_eq and_then_def
      split: sum.splits prod.splits)

lemma window_length: "select_scan_window f names m = Inr ws \<Longrightarrow> length ws = min (nat m) (length names)"
  by (auto simp: select_scan_window_def window_rotate split: if_splits sum.splits)

text \<open>
  The result of a run accounts for every marker it looked at: the four counts add up to the
  size of the window, which is the bound or the whole listing; there is never a diagnostic without a
  skipped marker; and the cursor it leaves is the last name of the window when some marker was
  skipped, and none otherwise.
\<close>

lemma scan_accounts_for_window:
  assumes run: "process_pending_work env pe decode hs m Listed visits WriteOk q = (trace, Inr r)"
    and "markers q \<noteq> []" "0 < m"
  shows "processed r + skipped r + failures r + length (errors r) = min (nat m) (length (markers q)) \<and>
    length (diagnostics r) \<le> skipped r \<and>
    (\<exists>ws. select_scan_window (cursor q) (sort (dkeys (markers q))) m = Inr ws \<and>
       cursor (final q trace) = (if 0 < skipped r then cursor_at (last ws) else Missing))"
proof -
  let ?names = "sort (dkeys (markers q))"
  have ne: "?names \<noteq> []" using assms(2) by (metis length_0_conv length_map length_sort)
  from scan_eval [OF run refl ne] obtain ws t seen where w: "select_scan_window (cursor q) ?names m = Inr ws"
    and p: "process_window (process_single_marker env pe decode hs) (map (\<lambda>n. (n, visits n)) ws) no_result False q = (t, Inr (r, seen))"
    and t: "trace = t @ fst ((if seen then write_scan_cursor WriteOk (last ws) else if ws \<noteq> [] then clear_scan_cursor WriteOk else ret ()) (final q t))" .
  have len: "length ws = min (nat m) (length (markers q))" using window_length [OF w] by simp
  with assms(2,3) have "ws \<noteq> []" by (auto simp: min_def split: if_splits)
  have "counted r = counted no_result + length ws \<and> (seen \<longleftrightarrow> 0 < skipped r) \<and> length (diagnostics r) \<le> skipped r"
    using process_window_counts [OF p] by (simp add: no_result_def)
  with len w t \<open>ws \<noteq> []\<close> show ?thesis
    by (auto simp: counted_def no_result_def cursor_ops)
qed

lemma scan_accounts_for_window_witness:
  "\<exists>trace r. process_pending_work sample_env sample_penv Inr (\<lambda>_. None) 5 Listed (\<lambda>_. sample_visit) WriteOk sample_desk = (trace, Inr r) \<and>
     processed r + skipped r + failures r + length (errors r) = 1 \<and> cursor (final sample_desk trace) = cursor_at ''s1.json''"
proof -
  let ?x = "process_pending_work sample_env sample_penv Inr (\<lambda>_. None) 5 Listed (\<lambda>_. sample_visit) WriteOk sample_desk"
  have r: "snd ?x = Inr (no_result\<lparr>skipped := 1\<rparr>)" by code_simp
  then have x: "?x = (fst ?x, Inr (no_result\<lparr>skipped := 1\<rparr>))" by (metis prod.collapse)
  have w: "select_scan_window (cursor sample_desk) (sort (dkeys (markers sample_desk))) 5 = Inr [''s1.json'']" by code_simp
  have m: "markers sample_desk \<noteq> []" "length (markers sample_desk) = 1" by (simp_all add: sample_desk_def)
  from scan_accounts_for_window [OF x m(1)] w m(2) x show ?thesis
    by (intro exI [of _ "fst ?x"] exI [of _ "no_result\<lparr>skipped := 1\<rparr>"]) (simp add: no_result_def)
qed

text \<open>
  A marker whose attempt count is not a number fails each visit in the comparison with the limit:
  no visit records an attempt, so it is never retired, and since that outcome is not a resident one
  it does not advance the cursor either.
\<close>

lemma malformed_attempts_never_retired:
  assumes "content q name = Holds (JObj d)" "validate_marker d = None"
    and "at_least (get_default d ''attempt_count'' (JInt 0)) max_attempts = None" "\<forall>v \<in> set vs. v_lock v = Locked"
  shows "drain (\<lambda>v. process_locked_marker env hs v name None) vs q = q"
  using assms(4)
proof (induction vs)
  case (Cons v vs)
  have "fst (process_locked_marker env hs v name None q) = []"
    using process_valid_marker [OF assms(1,2), of env None v hs] Cons.prems assms(3)
    by (simp add: owned_def run_marker_def marker_of_def)
  with Cons show ?case by simp
qed simp

text \<open>
  C12. One marker that is not UTF-8 stops the queue: a run whose window reaches it first raises,
  having processed nothing and moved nothing, not even the cursor, so the next run starts at the
  same marker.
\<close>

theorem undecodable_marker_blocks_queue:
  assumes "markers q \<noteq> []" "select_scan_window (cursor q) (sort (dkeys (markers q))) m = Inr (name # rest)"
    and "v_seen (visits name) = Undecodable"
  shows "process_pending_work env pe decode hs m Listed visits out q = ([], Inl decode_error)"
proof -
  have "sort (dkeys (markers q)) \<noteq> []" using assms(1) by (metis length_0_conv length_map length_sort)
  with assms(2,3) show ?thesis
    by (simp add: process_pending_work_def Let_def process_single_marker_def and_then_def)
qed

definition blocked_desk :: desk where
  "blocked_desk = sample_desk\<lparr>markers := (''a.json'', Undecodable) # markers sample_desk\<rparr>"

theorem undecodable_marker_blocks_queue_witness:
  "process_pending_work sample_env sample_penv Inr failing_handlers 5 Listed
     (\<lambda>n. if n = ''a.json'' then sample_visit\<lparr>v_seen := Undecodable\<rparr> else sample_visit) WriteOk blocked_desk = ([], Inl decode_error)"
proof -
  let ?v = "\<lambda>n. if n = ''a.json'' then sample_visit\<lparr>v_seen := Undecodable\<rparr> else sample_visit"
  have w: "select_scan_window (cursor blocked_desk) (sort (dkeys (markers blocked_desk))) 5 = Inr [''a.json'', ''s1.json'']"
    by code_simp
  have ne: "markers blocked_desk \<noteq> []" by (simp add: blocked_desk_def)
  have v: "v_seen (?v ''a.json'') = Undecodable" by simp
  show ?thesis by (rule undecodable_marker_blocks_queue [where visits = ?v, OF ne w v])
qed

section \<open>Lemmas: enqueueing\<close>

lemma with_world_markers: "w \<in> set (fst (with_world f (q :: desk))) \<Longrightarrow> markers w = markers q"
  by (auto simp: with_world_def split: prod.splits)

lemma capture_markers:
  "w \<in> set (fst (capture_session_instance env pe decode sha rt name tok o1 o2 w1 (q :: desk))) \<Longrightarrow> markers w = markers q"
  by (auto simp: capture_session_instance_def and_then_mem and_then_check_eq dest!: with_world_markers
      split: if_splits sum.splits option.splits)

lemma final_markers: "\<forall>w \<in> set ws. markers w = markers q \<Longrightarrow> markers (final q ws) = markers q"
  using final_in [of q ws] by auto

lemma persist_Inr:
  "persist qe path d q = (t, Inr u) \<Longrightarrow> t = [q\<lparr>markers := dset (markers q) path (Holds (JObj d))\<rparr>]"
  by (cases "q_write qe") (auto simp: persist_def put_marker_def split: if_splits)

lemma producer_persist:
  fixes q :: desk
  assumes "run_session_producer_txn env pe decode lk rt name inst (persist qe path d) q = (t, Inr True)"
  shows "t = [q\<lparr>markers := dset (markers q) path (Holds (JObj d))\<rparr>] \<and>
    (\<not> sidecar pe \<longrightarrow> (\<exists>rs. read_index env (index_file (sess q)) = Inr rs \<and> source_live env (sess q) rs rt name inst = Inr True))"
proof -
  have p: "t = [q\<lparr>markers := dset (markers q) path (Holds (JObj d))\<rparr>]"
    if "and_then (persist qe path d) (\<lambda>_. ret True) q = (t, Inr True)"
    using that persist_Inr by (auto simp: and_then_def split: prod.splits sum.splits)
  show ?thesis
  proof (cases "sidecar pe")
    case True
    with assms p show ?thesis
      by (auto simp: run_session_producer_txn_def and_then_check_eq split: sum.splits)
  next
    case False
    then have a: "admission env lk rt name inst (persist qe path d) q = (t, Inr True)"
      using assms by (simp add: run_session_producer_txn_def)
    show ?thesis
    proof (cases rule: admission_cases [of env lk rt name inst "persist qe path d" q])
      case (refused r)
      with a show ?thesis by simp
    next
      case (admitted rs)
      with a p show ?thesis by auto
    qed
  qed
qed

lemma marker_data_valid:
  assumes "kind \<noteq> []" "marker_path mid = Inr path"
  shows "validate_marker (marker_data ver now kind mid p) = None" "path = mid @ ''.json''"
  using assms by (auto simp: marker_path_def validate_marker_def marker_data_def jget_def str_at_def marker_schema_version_def
      split: if_splits)

lemma marker_data_get [simp]:
  "dget (marker_data ver now kind mid p) ''attempt_count'' = Some (JInt 0)"
  "jget (marker_data ver now kind mid p) ''payload'' = JObj p"
  by (simp_all add: marker_data_def jget_def)

lemma enqueue_eval:
  assumes "enqueue env pe decode sha qe kind mid payload aroot q = (trace, Inr (Some path))"
  shows "marker_path mid = Inr path" "enqueue_body env pe decode sha qe kind mid path payload aroot q = (trace, Inr True)"
  using assms
  by (auto simp: enqueue_def fail_open_def and_then_def split: sum.splits prod.splits if_splits)

lemma enqueue_body_session:
  assumes "enqueue_body env pe decode sha qe kind mid path payload aroot q = (trace, Inr True)"
    and "str_at payload ''session_name'' = Some name" "payload_root payload = JStr rt"
  obtains tok t1 where "markers (final q t1) = markers q"
    "trace = t1 @ fst (run_session_producer_txn env pe decode (q_index_lock qe) (admission_root aroot rt) name tok
        (persist qe path (marker_data (q_version qe) (q_now qe) kind mid
           (dset (dset payload ''instance_id'' (JStr tok)) ''forge_root'' (JStr (canonical env rt))))) (final q t1))"
    "snd (run_session_producer_txn env pe decode (q_index_lock qe) (admission_root aroot rt) name tok
        (persist qe path (marker_data (q_version qe) (q_now qe) kind mid
           (dset (dset payload ''instance_id'' (JStr tok)) ''forge_root'' (JStr (canonical env rt))))) (final q t1)) = Inr True"
proof -
  let ?inst = "jget payload ''instance_id''"
  let ?cap = "capture_session_instance env pe decode sha (admission_root aroot rt) name (q_token qe) (q_out1 qe) (q_out2 qe) (q_seen qe)"
  let ?tok = "if truthy ?inst then ret ?inst else and_then ?cap (\<lambda>t. ret (JStr t))"
  let ?run = "\<lambda>token. case token of JStr tok \<Rightarrow> run_session_producer_txn env pe decode (q_index_lock qe) (admission_root aroot rt) name tok
        (persist qe path (marker_data (q_version qe) (q_now qe) kind mid
           (dset (dset payload ''instance_id'' (JStr tok)) ''forge_root'' (JStr (canonical env rt)))))
     | _ \<Rightarrow> raise (ValueErr ''Session work marker has no instance identity'')"
  from assms have e: "and_then ?tok ?run q = (trace, Inr True)"
    by (simp only: enqueue_body_def Let_def prod.case option.case json.case)
  have "\<forall>w \<in> set (fst (?tok q)). markers w = markers q"
    by (auto simp: and_then_mem dest: capture_markers)
  then have m: "markers (final q (fst (?tok q))) = markers q" by (rule final_markers)
  from e obtain j where j: "snd (?tok q) = Inr j" "trace = fst (?tok q) @ fst (?run j (final q (fst (?tok q))))"
    "snd (?run j (final q (fst (?tok q)))) = Inr True"
    by (auto simp: and_then_def split: prod.splits sum.splits)
  from j(3) obtain tok where "j = JStr tok" by (cases j) auto
  with j m that [of "fst (?tok q)" tok] show ?thesis by simp
qed

text \<open>
  Enqueued work can be processed, and only a live session's work is enqueued: when enqueueing
  returns a path, exactly that file was written, and it is a valid marker with no attempt spent; for
  a session's work it carries the instance the session had, and the canonical root, so that it is
  the owner that processing will ask for; and on the host the session was live with that instance
  when it was written.
\<close>

lemma enqueued_marker_is_admissible:
  assumes run: "enqueue env pe decode sha qe kind marker_id payload aroot q = (trace, Inr (Some path))"
    and "kind \<noteq> []" "str_at payload ''session_name'' = Some name" "payload_root payload = JStr rt"
  shows "\<exists>d tok w. path = marker_id @ ''.json'' \<and>
    markers (final q trace) = dset (markers q) path (Holds (JObj d)) \<and> validate_marker d = None \<and>
    dget d ''attempt_count'' = Some (JInt 0) \<and>
    (canonical env rt \<noteq> [] \<longrightarrow> owned env d (Some (canonical env (canonical env rt), name, tok))) \<and>
    (\<not> sidecar pe \<longrightarrow> (\<exists>rs. read_index env (index_file w) = Inr rs \<and>
       source_live env w rs (admission_root aroot rt) name tok = Inr True \<and> w = sess (final q trace)))"
proof -
  note e = enqueue_eval [OF run]
  note v = marker_data_valid [OF assms(2) e(1)]
  from enqueue_body_session [OF e(2) assms(3,4)] obtain tok t1 where m: "markers (final q t1) = markers q"
    and t: "trace = t1 @ fst (run_session_producer_txn env pe decode (q_index_lock qe) (admission_root aroot rt) name tok
        (persist qe path (marker_data (q_version qe) (q_now qe) kind marker_id
           (dset (dset payload ''instance_id'' (JStr tok)) ''forge_root'' (JStr (canonical env rt))))) (final q t1))"
    and r: "snd (run_session_producer_txn env pe decode (q_index_lock qe) (admission_root aroot rt) name tok
        (persist qe path (marker_data (q_version qe) (q_now qe) kind marker_id
           (dset (dset payload ''instance_id'' (JStr tok)) ''forge_root'' (JStr (canonical env rt))))) (final q t1)) = Inr True" .
  let ?p = "dset (dset payload ''instance_id'' (JStr tok)) ''forge_root'' (JStr (canonical env rt))"
  let ?d = "marker_data (q_version qe) (q_now qe) kind marker_id ?p"
  let ?q1 = "final q t1"
  from producer_persist [OF prod.collapse [symmetric, of "run_session_producer_txn env pe decode (q_index_lock qe) (admission_root aroot rt) name tok
        (persist qe path ?d) ?q1", unfolded r]]
  have s: "fst (run_session_producer_txn env pe decode (q_index_lock qe) (admission_root aroot rt) name tok (persist qe path ?d) ?q1) =
      [?q1\<lparr>markers := dset (markers ?q1) path (Holds (JObj ?d))\<rparr>]"
    and l: "\<not> sidecar pe \<longrightarrow> (\<exists>rs. read_index env (index_file (sess ?q1)) = Inr rs \<and>
      source_live env (sess ?q1) rs (admission_root aroot rt) name tok = Inr True)" by simp_all
  have f: "final q trace = ?q1\<lparr>markers := dset (markers q) path (Holds (JObj ?d))\<rparr>"
    by (simp add: t s m)
  have o: "canonical env rt \<noteq> [] \<longrightarrow> owned env ?d (Some (canonical env (canonical env rt), name, tok))"
    using assms(3)
    by (simp add: owned_def current_owner_def get_or_empty_def payload_root_def str_at_def)
  show ?thesis
    by (intro exI [of _ ?d] exI [of _ tok] exI [of _ "sess ?q1"]) (use v f o l in simp)
qed

definition sample_enqueue :: enqueue_env where
  "sample_enqueue = \<lparr>q_version = ''1.0'', q_now = ''t0'', q_lock = True, q_write = WriteOk, q_index_lock = True,
     q_token = sample_token, q_out1 = WriteOk, q_out2 = WriteOk, q_seen = created_world\<rparr>"

definition sample_payload :: jobj where
  "sample_payload = stop_payload ''s2'' ''/p'' ''demo'' ''t.jsonl'' None None"

lemma enqueued_marker_is_admissible_witness:
  "\<exists>trace d. enqueue sample_env sample_penv Inr (\<lambda>_. []) sample_enqueue ''stop'' ''s2'' sample_payload None sample_desk
      = (trace, Inr (Some ''s2.json'')) \<and>
     markers (final sample_desk trace) = dset (markers sample_desk) ''s2.json'' (Holds (JObj d)) \<and> validate_marker d = None"
proof -
  let ?x = "enqueue sample_env sample_penv Inr (\<lambda>_. []) sample_enqueue ''stop'' ''s2'' sample_payload None sample_desk"
  have "snd ?x = Inr (Some ''s2.json'')" by code_simp
  then have x: "?x = (fst ?x, Inr (Some ''s2.json''))" by (metis prod.collapse)
  have "str_at sample_payload ''session_name'' = Some ''demo''" "payload_root sample_payload = JStr ''/p''"
    by code_simp+
  from enqueued_marker_is_admissible [OF x _ this] x show ?thesis by blast
qed

end
