(* ===== verification/Spend.thy ===== *)
theory Spend
  imports Names
begin

text \<open>
  Spend caps, \<open>proxy/cost_tracker.py\<close> and \<open>core/telemetry/caps.py\<close>: the in-memory counters, their
  rebuild from the cost logs and the durable checkpoint, the cap check, and the throttled
  persistence of the checkpoint, written directly or handed to a writer that answers later.

  Timestamps are rationals, micro-dollars integers. The state is the tracker with the content of
  its checkpoint file; what the clock and the writer answer during one call is in \<open>tick\<close>. Python's
  number syntax on strings and the ISO parser are in \<open>parsers\<close>. The display summary
  (\<open>cap_summary\<close>) is not modelled.
\<close>

section \<open>The checkpoint file\<close>

record cap_state =
  cs_proxy :: string
  cs_month :: string
  cs_total :: int
  cs_window :: "(rat \<times> int) list"

record parsers =
  str_int :: "string \<Rightarrow> int option"
  str_float :: "string \<Rightarrow> rat option"
  iso_time :: "string \<Rightarrow> (rat \<times> string) option"

definition cap_state_version :: int where
  "cap_state_version = 1"

text \<open>\<open>int(v)\<close> and \<open>float(v)\<close>: a \<open>TypeError\<close> or \<open>ValueError\<close> is \<open>None\<close>.\<close>

definition trunc_rat :: "rat \<Rightarrow> int" where
  "trunc_rat r = (if 0 \<le> r then \<lfloor>r\<rfloor> else \<lceil>r\<rceil>)"

definition to_int :: "parsers \<Rightarrow> json \<Rightarrow> int option" where
  "to_int ps v = (case v of
       JInt n \<Rightarrow> Some n | JBool b \<Rightarrow> Some (if b then 1 else 0) | JFloat r \<Rightarrow> Some (trunc_rat r)
     | JStr s \<Rightarrow> str_int ps s | _ \<Rightarrow> None)"

definition to_float :: "parsers \<Rightarrow> json \<Rightarrow> rat option" where
  "to_float ps v = (case v of
       JInt n \<Rightarrow> Some (of_int n) | JBool b \<Rightarrow> Some (if b then 1 else 0) | JFloat r \<Rightarrow> Some r
     | JStr s \<Rightarrow> str_float ps s | _ \<Rightarrow> None)"

text \<open>\<open>d.get(k) or default\<close>\<close>

definition get_or :: "jobj \<Rightarrow> string \<Rightarrow> json \<Rightarrow> json" where
  "get_or d k v = (if truthy (jget d k) then jget d k else v)"

text \<open>\<open>str(v)\<close>; the text of a value that is not a string is never a month, and is left empty.\<close>

definition text_of :: "json \<Rightarrow> string" where
  "text_of v = (case v of JStr s \<Rightarrow> s | _ \<Rightarrow> [])"

fun load_window :: "parsers \<Rightarrow> json list \<Rightarrow> err + (rat \<times> int) list" where
  "load_window ps [] = Inr []"
| "load_window ps (JList [t, c] # xs) =
     (case (to_float ps t, to_int ps c) of
        (Some ts, Some cost) \<Rightarrow>
          (case load_window ps xs of Inl e \<Rightarrow> Inl e | Inr w \<Rightarrow> Inr ((ts, cost) # w))
      | _ \<Rightarrow> Inl TypeErr)"
| "load_window ps (x # xs) = Inl (ValueErr ''Invalid cap state daily_window entry'')"

definition load_cap_state :: "parsers \<Rightarrow> string \<Rightarrow> state_file \<Rightarrow> err + cap_state option" where
  "load_cap_state ps p f =
     (case f of
        Missing \<Rightarrow> Inr None
      | Holds (JObj raw) \<Rightarrow>
          (if \<not> eq_int (jget raw ''schema_version'') cap_state_version
             then Inl (ValueErr ''Unsupported cap state schema_version'')
           else if jget raw ''proxy_id'' \<noteq> JStr p then Inl (ValueErr ''Cap state proxy_id mismatch'')
           else (case (case dget raw ''daily_window'' of None \<Rightarrow> JList [] | Some v \<Rightarrow> v) of
                   JList items \<Rightarrow>
                     (case load_window ps items of Inl e \<Rightarrow> Inl e
                      | Inr w \<Rightarrow>
                     (case to_int ps (get_or raw ''monthly_total_micros'' (JInt 0)) of
                        None \<Rightarrow> Inl TypeErr
                      | Some tot \<Rightarrow>
                          Inr (Some \<lparr>cs_proxy = p, cs_month = text_of (get_or raw ''monthly_key'' (JStr [])),
                                     cs_total = tot, cs_window = w\<rparr>)))
                 | _ \<Rightarrow> Inl (ValueErr ''Invalid cap state daily_window'')))
      | Undecodable \<Rightarrow> Inl decode_error
      | _ \<Rightarrow> Inl (ValueErr ''unreadable cap state''))"

definition cap_state_json :: "string \<Rightarrow> cap_state \<Rightarrow> jobj" where
  "cap_state_json now st =
     [(''schema_version'', JInt cap_state_version), (''proxy_id'', JStr (cs_proxy st)),
      (''monthly_key'', JStr (cs_month st)), (''monthly_total_micros'', JInt (cs_total st)),
      (''daily_window'', JList (map (\<lambda>(t, c). JList [JFloat t, JInt c]) (cs_window st))),
      (''updated_at'', JStr now)]"

section \<open>The tracker\<close>

record spend =
  daily_cap :: "int option"
  monthly_cap :: "int option"
  window :: "(rat \<times> int) list"
  monthly_total :: int
  monthly_key :: string
  proxy :: "string option"
  dirty :: nat
  last_persisted :: rat
  queued :: bool
  pending :: "cap_state option"
  pending_count :: nat
  retry :: bool
  disk :: state_file

datatype submission = SubmitRaises | SubmitRefused | SubmitAccepted
datatype future_state = NotDone | DoneOk | DoneFail

record tick =
  now :: rat
  month :: string
  mono :: rat
  stamp :: string
  direct_ok :: bool
  submit :: submission
  future :: future_state

definition day_seconds :: rat where
  "day_seconds = 86400"

definition persist_every :: nat where
  "persist_every = 10"

definition persist_interval :: rat where
  "persist_interval = 5"

definition micros_per_dollar :: rat where
  "micros_per_dollar = 1000000"

text \<open>\<open>CostTracker.__init__\<close>\<close>

definition cap_micros :: "rat option \<Rightarrow> int option" where
  "cap_micros usd = map_option (\<lambda>u. trunc_rat (u * micros_per_dollar)) usd"

definition new_tracker :: "rat option \<Rightarrow> rat option \<Rightarrow> bool \<Rightarrow> state_file \<Rightarrow> spend" where
  "new_tracker daily monthly q f =
     \<lparr>daily_cap = cap_micros daily, monthly_cap = cap_micros monthly, window = [], monthly_total = 0,
      monthly_key = [], proxy = None, dirty = 0, last_persisted = 0, queued = q, pending = None,
      pending_count = 0, retry = False, disk = f\<rparr>"

definition window_total :: "(rat \<times> int) list \<Rightarrow> int" where
  "window_total w = sum_list (map snd w)"

definition prune_window :: "rat \<Rightarrow> (rat \<times> int) list \<Rightarrow> (rat \<times> int) list" where
  "prune_window cutoff w = dropWhile (\<lambda>(ts, _). ts < cutoff) w"

definition prune_daily_window :: "tick \<Rightarrow> spend \<Rightarrow> spend" where
  "prune_daily_window t s = s\<lparr>window := prune_window (now t - day_seconds) (window s)\<rparr>"

definition roll_month_if_needed :: "tick \<Rightarrow> spend \<Rightarrow> spend" where
  "roll_month_if_needed t s =
     (if month t \<noteq> monthly_key s then s\<lparr>monthly_total := 0, monthly_key := month t\<rparr> else s)"

text \<open>The answer of the writer: a success means that its snapshot is the file's content.\<close>

definition acknowledge_cap_persist :: "tick \<Rightarrow> spend \<Rightarrow> spend" where
  "acknowledge_cap_persist t s =
     (case pending s of
        None \<Rightarrow> s
      | Some snap \<Rightarrow>
          (case future t of
             NotDone \<Rightarrow> s
           | DoneOk \<Rightarrow>
               (let d = dirty s - pending_count s in
                s\<lparr>dirty := d, last_persisted := (if d = 0 then mono t else last_persisted s), retry := False,
                  pending := None, pending_count := 0, disk := Holds (JObj (cap_state_json (stamp t) snap))\<rparr>)
           | DoneFail \<Rightarrow> s\<lparr>retry := True, pending := None, pending_count := 0\<rparr>))"

definition snapshot :: "string \<Rightarrow> spend \<Rightarrow> cap_state" where
  "snapshot p s = \<lparr>cs_proxy = p, cs_month = monthly_key s, cs_total = monthly_total s, cs_window = window s\<rparr>"

definition persist_cap_state :: "tick \<Rightarrow> spend \<Rightarrow> spend" where
  "persist_cap_state t s =
     (case proxy s of
        None \<Rightarrow> s
      | Some p \<Rightarrow>
          if p = [] then s
          else let s = acknowledge_cap_persist t s in
          if pending s \<noteq> None then s
          else let s = prune_daily_window t s; snap = snapshot p s in
          if \<not> queued s then
            (if direct_ok t
             then s\<lparr>disk := Holds (JObj (cap_state_json (stamp t) snap)), dirty := 0, last_persisted := mono t, retry := False\<rparr>
             else s\<lparr>retry := True\<rparr>)
          else (case submit t of
                  SubmitAccepted \<Rightarrow> s\<lparr>pending := Some snap, pending_count := dirty s\<rparr>
                | _ \<Rightarrow> s\<lparr>retry := True\<rparr>))"

definition maybe_persist_cap_state :: "tick \<Rightarrow> spend \<Rightarrow> spend" where
  "maybe_persist_cap_state t s =
     (case proxy s of
        None \<Rightarrow> s
      | Some p \<Rightarrow>
          if p = [] then s
          else let s = acknowledge_cap_persist t s; s = s\<lparr>dirty := dirty s + 1\<rparr> in
          if retry s \<or> persist_every \<le> dirty s \<or> persist_interval \<le> mono t - last_persisted s
          then persist_cap_state t s else s)"

definition flush_cap_state :: "tick \<Rightarrow> spend \<Rightarrow> spend" where
  "flush_cap_state t s =
     (let s = acknowledge_cap_persist t s in
      if 0 < dirty s \<or> retry s then persist_cap_state t s else s)"

definition record_cost :: "tick \<Rightarrow> int option \<Rightarrow> spend \<Rightarrow> spend" where
  "record_cost t cost s =
     (case cost of
        None \<Rightarrow> s
      | Some c \<Rightarrow>
          if c \<le> 0 then s
          else let s = roll_month_if_needed t s in
          maybe_persist_cap_state t
            (s\<lparr>monthly_total := monthly_total s + c, window := window s @ [(now t, c)]\<rparr>))"

section \<open>The cap check\<close>

definition daily_spend_micros :: "tick \<Rightarrow> spend \<Rightarrow> spend \<times> int" where
  "daily_spend_micros t s = (let s = prune_daily_window t s in (s, window_total (window s)))"

definition monthly_spend_micros :: "tick \<Rightarrow> spend \<Rightarrow> spend \<times> int" where
  "monthly_spend_micros t s = (let s = roll_month_if_needed t s in (s, monthly_total s))"

datatype cap_type = Daily | Monthly

text \<open>\<open>CapResult\<close>: not exceeded, or which cap, the spend and the limit.\<close>

type_synonym cap_result = "(cap_type \<times> int \<times> int) option"

definition check_monthly :: "tick \<Rightarrow> spend \<Rightarrow> spend \<times> cap_result" where
  "check_monthly t s =
     (case monthly_cap s of
        None \<Rightarrow> (s, None)
      | Some limit \<Rightarrow>
          (let (s, m) = monthly_spend_micros t s in (s, if limit \<le> m then Some (Monthly, m, limit) else None)))"

definition check_cap :: "tick \<Rightarrow> spend \<Rightarrow> spend \<times> cap_result" where
  "check_cap t s =
     (if daily_cap s = None \<and> monthly_cap s = None then (s, None)
      else (case daily_cap s of
              None \<Rightarrow> check_monthly t s
            | Some limit \<Rightarrow>
                (let (s, d) = daily_spend_micros t s in
                 if limit \<le> d then (s, Some (Daily, d, limit)) else check_monthly t s)))"

section \<open>Rebuilding from the logs\<close>

record cost_record =
  cr_ts :: rat
  cr_cost :: int
  cr_month :: string
  cr_proxy :: "string option"
  cr_event :: "string option"

text \<open>
  A line after \<open>decode_json_object\<close>: nothing for a blank or malformed line or a value that is not a
  dict. An exception skips the line like a record without cost.
\<close>

definition parse_record :: "parsers \<Rightarrow> jobj option \<Rightarrow> cost_record option" where
  "parse_record ps line =
     (case line of
        None \<Rightarrow> None
      | Some data \<Rightarrow>
          if jget data ''cost_micros'' = JNull then None
          else (case to_int ps (jget data ''cost_micros'') of
                  None \<Rightarrow> None
                | Some c \<Rightarrow>
                    if c \<le> 0 then None
                    else (case str_at data ''ts'' of
                            None \<Rightarrow> None
                          | Some ts \<Rightarrow>
                              map_option (\<lambda>(u, m). \<lparr>cr_ts = u, cr_cost = c, cr_month = m,
                                cr_proxy = str_at data ''proxy_id'',
                                cr_event = (case str_at data ''downstream_event_id'' of
                                              Some e \<Rightarrow> if e \<noteq> [] then Some e else None | None \<Rightarrow> None)\<rparr>)
                                (iso_time ps ts))))"

text \<open>
  A log file: its stem, the lines that could be read, and how the reading ended. An \<open>OSError\<close>
  keeps the lines read so far; bytes that are not text raise.
\<close>

datatype log_end = LogOk | LogOsError | LogBadBytes

type_synonym log_file = "string \<times> jobj option list \<times> log_end"

text \<open>The unkeyed records, and the last record of each downstream event.\<close>

definition add_record ::
  "parsers \<Rightarrow> string option \<Rightarrow> jobj option \<Rightarrow> cost_record list \<times> (string, cost_record) dict \<Rightarrow>
   cost_record list \<times> (string, cost_record) dict" where
  "add_record ps proxy_id line = (\<lambda>(unkeyed, keyed).
     (case parse_record ps line of
        None \<Rightarrow> (unkeyed, keyed)
      | Some r \<Rightarrow>
          if proxy_id \<noteq> None \<and> cr_proxy r \<noteq> proxy_id then (unkeyed, keyed)
          else (case cr_event r of
                  Some e \<Rightarrow> (unkeyed, dset keyed e r)
                | None \<Rightarrow> (unkeyed @ [r], keyed))))"

fun read_logs ::
  "parsers \<Rightarrow> string list \<Rightarrow> string option \<Rightarrow> log_file list \<Rightarrow> cost_record list \<times> (string, cost_record) dict \<Rightarrow>
   err + cost_record list" where
  "read_logs ps months proxy_id [] acc = Inr (fst acc @ map snd (snd acc))"
| "read_logs ps months proxy_id ((stem, lines, fin) # fs) acc =
     (if hd (split_on (CHR ''_'') stem) \<notin> set months then read_logs ps months proxy_id fs acc
      else if fin = LogBadBytes then Inl decode_error
      else read_logs ps months proxy_id fs (fold (add_record ps proxy_id) lines acc))"

definition log_window :: "rat \<Rightarrow> cost_record list \<Rightarrow> (rat \<times> int) list" where
  "log_window cutoff rs = map (\<lambda>r. (cr_ts r, cr_cost r)) (filter (\<lambda>r. cutoff \<le> cr_ts r) rs)"

definition log_month_total :: "string \<Rightarrow> cost_record list \<Rightarrow> int" where
  "log_month_total m rs = sum_list (map cr_cost (filter (\<lambda>r. cr_month r = m) rs))"

text \<open>What the checkpoint contributes; an unreadable one is ignored.\<close>

definition checkpoint_counters :: "parsers \<Rightarrow> tick \<Rightarrow> string option \<Rightarrow> state_file \<Rightarrow> int \<times> (rat \<times> int) list" where
  "checkpoint_counters ps t proxy_id f =
     (case proxy_id of
        None \<Rightarrow> (0, [])
      | Some p \<Rightarrow>
          if p = [] then (0, [])
          else (case load_cap_state ps p f of
                  Inr (Some st) \<Rightarrow>
                    (if cs_month st = month t then cs_total st else 0,
                     filter (\<lambda>(ts, _). now t - day_seconds \<le> ts) (cs_window st))
                | _ \<Rightarrow> (0, [])))"

text \<open>\<open>prev_month\<close> is the key of the month before the tick's.\<close>

definition bootstrap_from_logs ::
  "parsers \<Rightarrow> tick \<Rightarrow> string \<Rightarrow> string option \<Rightarrow> log_file list \<Rightarrow> spend \<Rightarrow> spend \<times> (err + unit)" where
  "bootstrap_from_logs ps t prev_month proxy_id files s =
     (let s = s\<lparr>proxy := proxy_id, monthly_key := month t\<rparr> in
      (case read_logs ps [month t, prev_month] proxy_id files ([], []) of
         Inl e \<Rightarrow> (s, Inl e)
       | Inr rs \<Rightarrow>
           (let lw = log_window (now t - day_seconds) rs;
                (st_total, sw) = checkpoint_counters ps t proxy_id (disk s);
                s = s\<lparr>monthly_total := max (log_month_total (month t) rs) st_total,
                      window := (if window_total sw > window_total lw then sw else lw)\<rparr>
            in (persist_cap_state t s, Inr ()))))"

section \<open>Lemmas: the checkpoint reads back\<close>

lemma load_window_json: "load_window ps (map (\<lambda>(t, c). JList [JFloat t, JInt c]) w) = Inr w"
  by (induction w) (auto simp: to_float_def to_int_def)

lemma cap_state_json_get [simp]:
  "jget (cap_state_json u st) ''schema_version'' = JInt cap_state_version"
  "jget (cap_state_json u st) ''proxy_id'' = JStr (cs_proxy st)"
  "jget (cap_state_json u st) ''monthly_key'' = JStr (cs_month st)"
  "jget (cap_state_json u st) ''monthly_total_micros'' = JInt (cs_total st)"
  "dget (cap_state_json u st) ''daily_window'' = Some (JList (map (\<lambda>(t, c). JList [JFloat t, JInt c]) (cs_window st)))"
  by (simp_all add: cap_state_json_def jget_def)

lemma load_written_state: "load_cap_state ps (cs_proxy st) (Holds (JObj (cap_state_json u st))) = Inr (Some st)"
  by (simp add: load_cap_state_def load_window_json get_or_def to_int_def text_of_def)

section \<open>Post-event enforcement\<close>

text \<open>
  A cap that looks at the spend already recorded and then lets the request through or not: what it
  must keep, so that no run of requests overshoots it by more than one of them. \<open>spent r s\<close> is the
  spend as request \<open>r\<close> sees it, \<open>ready\<close> says that the state is not ahead of the request.
\<close>

locale post_event_cap =
  fixes spent :: "'r \<Rightarrow> 's \<Rightarrow> int"
    and cost :: "'r \<Rightarrow> int"
    and serve :: "'r \<Rightarrow> 's \<Rightarrow> 's"
    and limit :: "'s \<Rightarrow> int option"
    and ok :: "'s \<Rightarrow> bool"
    and ready :: "'r \<Rightarrow> 's \<Rightarrow> bool"
    and later :: "'r \<Rightarrow> 'r \<Rightarrow> bool"
  assumes ok_serve: "ok s \<Longrightarrow> 0 < cost r \<Longrightarrow> ok (serve r s)"
    and limit_serve: "limit (serve r s) = limit s"
    and ready_serve: "ready r s \<Longrightarrow> later r r' \<Longrightarrow> ready r' (serve r s)"
    and spent_serve: "ok s \<Longrightarrow> ready r s \<Longrightarrow> later r r' \<Longrightarrow> 0 < cost r \<Longrightarrow> limit s = Some l \<Longrightarrow>
      spent r' (serve r s) \<le> (if l \<le> spent r s then spent r s else spent r s + cost r)"
begin

lemma overshoot:
  assumes "successively later (r # rs)" "ok s" "ready r s" "limit s = Some l"
    and "\<forall>x \<in> set (butlast (r # rs)). 0 < cost x \<and> cost x \<le> M" "spent r s < l + M"
  shows "spent (last (r # rs)) (fold serve (butlast (r # rs)) s) < l + M"
  using assms
proof (induction rs arbitrary: r s)
  case Nil
  then show ?case by simp
next
  case (Cons r' rs)
  have c: "0 < cost r" "cost r \<le> M" and lt: "later r r'" using Cons.prems(1,5) by simp_all
  have "spent r' (serve r s) < l + M"
    using spent_serve [OF Cons.prems(2,3) lt c(1) Cons.prems(4)] c(2) Cons.prems(6) by (auto split: if_splits)
  then show ?case
    using Cons.IH [of r' "serve r s"] Cons.prems ok_serve c lt ready_serve limit_serve by simp
qed

end

text \<open>A request on the server: the cap check, then its cost when it was let through.\<close>

definition serve :: "tick \<times> int \<Rightarrow> spend \<Rightarrow> spend" where
  "serve r s =
     (let (s', hit) = check_cap (fst r) s in if hit \<noteq> None then s' else record_cost (fst r) (Some (snd r)) s')"

definition counters_ok :: "spend \<Rightarrow> bool" where
  "counters_ok s \<longleftrightarrow> 0 \<le> monthly_total s \<and> (\<forall>(t, c) \<in> set (window s). 0 \<le> c)"

definition in_order :: "tick \<times> int \<Rightarrow> tick \<times> int \<Rightarrow> bool" where
  "in_order r r' \<longleftrightarrow> now (fst r) \<le> now (fst r') \<and> month (fst r) \<le> month (fst r')"

definition daily_at :: "tick \<times> int \<Rightarrow> spend \<Rightarrow> int" where
  "daily_at r s = snd (daily_spend_micros (fst r) s)"

definition monthly_at :: "tick \<times> int \<Rightarrow> spend \<Rightarrow> int" where
  "monthly_at r s = snd (monthly_spend_micros (fst r) s)"

lemmas at_defs = daily_at_def daily_spend_micros_def monthly_at_def monthly_spend_micros_def
  prune_daily_window_def roll_month_if_needed_def

lemma window_total_simps [simp]: "window_total [] = 0" "window_total (x # w) = snd x + window_total w"
  "window_total (w @ w') = window_total w + window_total w'"
  by (simp_all add: window_total_def)

lemma total_nonneg: "\<forall>(t, c) \<in> set w. 0 \<le> c \<Longrightarrow> 0 \<le> window_total w"
  by (induction w) auto

lemma prune_le: "\<forall>(t, c) \<in> set w. 0 \<le> c \<Longrightarrow> window_total (prune_window k w) \<le> window_total w"
  by (induction w) (auto simp: prune_window_def)

lemma prune_prune: "k \<le> k' \<Longrightarrow> prune_window k' (prune_window k w) = prune_window k' w"
  by (induction w) (auto simp: prune_window_def)

lemma prune_append_le:
  "\<forall>(t, c) \<in> set w. 0 \<le> c \<Longrightarrow> 0 \<le> c \<Longrightarrow> window_total (prune_window k (w @ [(t, c)])) \<le> window_total (prune_window k w) + c"
  by (induction w) (auto simp: prune_window_def)

lemma prune_mono:
  "\<forall>(t, c) \<in> set w. 0 \<le> c \<Longrightarrow> k \<le> k' \<Longrightarrow> window_total (prune_window k' w) \<le> window_total (prune_window k w)"
  by (metis (no_types, lifting) prune_le prune_prune prune_window_def set_dropWhileD)

text \<open>Persistence changes no counter; it only prunes the window to the tick's 24 hours.\<close>

lemma acknowledge_counters [simp]:
  "monthly_total (acknowledge_cap_persist t s) = monthly_total s" "monthly_key (acknowledge_cap_persist t s) = monthly_key s"
  "window (acknowledge_cap_persist t s) = window s" "daily_cap (acknowledge_cap_persist t s) = daily_cap s"
  "monthly_cap (acknowledge_cap_persist t s) = monthly_cap s" "proxy (acknowledge_cap_persist t s) = proxy s"
  by (simp_all add: acknowledge_cap_persist_def Let_def split: option.split future_state.split)

lemma persist_counters [simp]:
  "monthly_total (persist_cap_state t s) = monthly_total s" "monthly_key (persist_cap_state t s) = monthly_key s"
  "daily_cap (persist_cap_state t s) = daily_cap s" "monthly_cap (persist_cap_state t s) = monthly_cap s"
  by (simp_all add: persist_cap_state_def Let_def prune_daily_window_def split: option.split submission.split)

lemma persist_window: "window (persist_cap_state t s) \<in> {window s, prune_window (now t - day_seconds) (window s)}"
  by (simp add: persist_cap_state_def Let_def prune_daily_window_def split: option.split submission.split)

lemma maybe_persist_counters [simp]:
  "monthly_total (maybe_persist_cap_state t s) = monthly_total s" "monthly_key (maybe_persist_cap_state t s) = monthly_key s"
  "daily_cap (maybe_persist_cap_state t s) = daily_cap s" "monthly_cap (maybe_persist_cap_state t s) = monthly_cap s"
  by (simp_all add: maybe_persist_cap_state_def Let_def split: option.split)

lemma maybe_persist_window:
  "window (maybe_persist_cap_state t s) \<in> {window s, prune_window (now t - day_seconds) (window s)}"
  using persist_window [of t "acknowledge_cap_persist t s\<lparr>dirty := dirty (acknowledge_cap_persist t s) + 1\<rparr>"]
  by (auto simp: maybe_persist_cap_state_def Let_def split: option.split)

lemma record_counters [simp]:
  "daily_cap (record_cost t c s) = daily_cap s" "monthly_cap (record_cost t c s) = monthly_cap s"
  by (simp_all add: record_cost_def roll_month_if_needed_def Let_def split: option.split)

lemma record_total:
  "0 < c \<Longrightarrow> monthly_total (record_cost t (Some c) s) = (if month t = monthly_key s then monthly_total s else 0) + c \<and>
     monthly_key (record_cost t (Some c) s) = month t"
  by (simp add: record_cost_def roll_month_if_needed_def Let_def)

lemma record_window:
  "0 < c \<Longrightarrow> window (record_cost t (Some c) s) \<in>
     {window s @ [(now t, c)], prune_window (now t - day_seconds) (window s @ [(now t, c)])}"
  using maybe_persist_window [of t "roll_month_if_needed t s\<lparr>monthly_total := monthly_total (roll_month_if_needed t s) + c,
      window := window (roll_month_if_needed t s) @ [(now t, c)]\<rparr>"]
  by (simp add: record_cost_def Let_def) (auto simp: roll_month_if_needed_def)

text \<open>What a check leaves of the counters: pruning and rolling do not change what later requests see.\<close>

lemma check_cap_counters:
  assumes "check_cap t s = (s', hit)"
  shows "daily_cap s' = daily_cap s" "monthly_cap s' = monthly_cap s"
    "window s' \<in> {window s, prune_window (now t - day_seconds) (window s)}"
    "(monthly_total s', monthly_key s') \<in> {(monthly_total s, monthly_key s), ((if month t = monthly_key s then monthly_total s else 0), month t)}"
  using assms
  by (auto simp: check_cap_def check_monthly_def at_defs Let_def split: option.splits if_splits)

lemma check_cap_hit:
  assumes "check_cap t s = (s', hit)"
  shows "daily_cap s = Some l \<Longrightarrow> hit = None \<Longrightarrow> daily_at (t, c) s < l"
    and "monthly_cap s = Some l \<Longrightarrow> hit = None \<Longrightarrow> monthly_at (t, c) s < l"
  using assms
  by (auto simp: check_cap_def check_monthly_def at_defs Let_def split: option.splits if_splits)

lemma prune_subset: "set (prune_window k w) \<subseteq> set w"
  by (auto simp: prune_window_def dest: set_dropWhileD)

lemma counters_ok_window:
  "counters_ok s \<Longrightarrow> 0 \<le> monthly_total s' \<Longrightarrow> set (window s') \<subseteq> insert (t, c) (set (window s)) \<Longrightarrow> 0 \<le> c \<Longrightarrow> counters_ok s'"
  by (auto simp: counters_ok_def)

lemma counters_ok_check: "check_cap t s = (s', hit) \<Longrightarrow> counters_ok s \<Longrightarrow> counters_ok s'"
  using check_cap_counters(3,4) [of t s s' hit] prune_subset [of "now t - day_seconds" "window s"]
  by (intro counters_ok_window [of s s' "now t" 0]) (auto simp: counters_ok_def)

lemma counters_ok_record:
  assumes "counters_ok s" "0 < c"
  shows "counters_ok (record_cost t (Some c) s)"
proof (rule counters_ok_window [OF assms(1), of _ "now t" c])
  show "0 \<le> monthly_total (record_cost t (Some c) s)"
    using record_total [OF assms(2), of t s] assms by (auto simp: counters_ok_def)
  show "set (window (record_cost t (Some c) s)) \<subseteq> insert (now t, c) (set (window s))"
    using record_window [OF assms(2), of t s] prune_subset [of "now t - day_seconds" "window s @ [(now t, c)]"] by auto
qed (use assms in simp)

lemma serve_eval:
  obtains s' hit where "check_cap (fst r) s = (s', hit)"
    "serve r s = (if hit \<noteq> None then s' else record_cost (fst r) (Some (snd r)) s')"
  by (cases "check_cap (fst r) s") (simp add: serve_def)

lemma serve_ok: "counters_ok s \<Longrightarrow> 0 < snd r \<Longrightarrow> counters_ok (serve r s)"
  by (rule serve_eval [of r s]) (auto intro: counters_ok_check counters_ok_record)

lemma serve_caps: "daily_cap (serve r s) = daily_cap s" "monthly_cap (serve r s) = monthly_cap s"
  by (rule serve_eval [of r s]; auto dest: check_cap_counters)+

lemma window_at_later:
  assumes "counters_ok s" "w' \<in> {window s, prune_window (now t - day_seconds) (window s)}" "now t \<le> now t'"
  shows "window_total (prune_window (now t' - day_seconds) w') \<le> window_total (prune_window (now t - day_seconds) (window s))"
proof -
  have nn: "\<forall>(t, c) \<in> set (window s). 0 \<le> c" using assms(1) by (simp add: counters_ok_def)
  have le: "now t - day_seconds \<le> now t' - day_seconds" using assms(3) by simp
  have "prune_window (now t' - day_seconds) w' = prune_window (now t' - day_seconds) (window s)"
    using assms(2) prune_prune [OF le] by auto
  with prune_mono [OF nn le] show ?thesis by simp
qed

lemma serve_daily:
  assumes ok: "counters_ok s" and o: "in_order r r'" and c: "0 < snd r" and l: "daily_cap s = Some l"
  shows "daily_at r' (serve r s) \<le> (if l \<le> daily_at r s then daily_at r s else daily_at r s + snd r)"
proof (cases rule: serve_eval [of r s])
  case (1 s' hit)
  note chk = check_cap_counters [OF 1(1)]
  let ?k = "now (fst r) - day_seconds" and ?k' = "now (fst r') - day_seconds"
  have le: "now (fst r) \<le> now (fst r')" using o by (simp add: in_order_def)
  have nn': "\<forall>(t, c) \<in> set (window s'). 0 \<le> c"
    using counters_ok_check [OF 1(1) ok] by (simp add: counters_ok_def)
  have at: "daily_at r s = window_total (prune_window ?k (window s))" "\<And>s. daily_at r' s = window_total (prune_window ?k' (window s))"
    by (simp_all add: at_defs Let_def)
  have idle: "window_total (prune_window ?k' (window s')) \<le> daily_at r s"
    using window_at_later [OF ok chk(3) le] by (simp add: at)
  show ?thesis
  proof (cases "hit = None")
    case False
    with 1(2) idle c show ?thesis by (simp add: at)
  next
    case True
    then have "daily_at r s < l" using check_cap_hit(1) [OF 1(1) l True, of "snd r"] by simp
    moreover have "daily_at r' (serve r s) \<le> window_total (prune_window ?k' (window s')) + snd r"
    proof -
      have "prune_window ?k' (window (serve r s)) = prune_window ?k' (window s' @ [(now (fst r), snd r)])"
        using record_window [OF c, of "fst r" s'] 1(2) True prune_prune [of ?k ?k'] le by auto
      with prune_append_le [OF nn', of "snd r" ?k' "now (fst r)"] c show ?thesis by (simp add: at)
    qed
    ultimately show ?thesis using idle by simp
  qed
qed

lemma monthly_at_eq: "monthly_at r s = (if month (fst r) = monthly_key s then monthly_total s else 0)"
  by (simp add: at_defs Let_def)

lemma check_cap_month:
  assumes "check_cap t s = (s', hit)"
  obtains "monthly_total s' = monthly_total s" "monthly_key s' = monthly_key s"
  | "monthly_total s' = (if month t = monthly_key s then monthly_total s else 0)" "monthly_key s' = month t"
  using check_cap_counters(4) [OF assms] by blast

lemma record_key: "monthly_key (record_cost t c s) \<in> {monthly_key s, month t}"
  by (simp add: record_cost_def roll_month_if_needed_def Let_def split: option.split)

lemma serve_key:
  assumes "monthly_key s \<le> month (fst r)" "in_order r r'"
  shows "monthly_key (serve r s) \<le> month (fst r')"
proof (cases rule: serve_eval [of r s])
  case (1 s' hit)
  have m: "month (fst r) \<le> month (fst r')" using assms(2) by (simp add: in_order_def)
  have "monthly_key s' \<in> {monthly_key s, month (fst r)}"
    using check_cap_counters(4) [OF 1(1)] by auto
  then have "monthly_key s' \<le> month (fst r)" using assms(1) by auto
  with 1(2) m record_key [of "fst r" "Some (snd r)" s'] show ?thesis by auto
qed

lemma serve_monthly:
  assumes ok: "counters_ok s" and rdy: "monthly_key s \<le> month (fst r)" and o: "in_order r r'" and c: "0 < snd r"
    and l: "monthly_cap s = Some l"
  shows "monthly_at r' (serve r s) \<le> (if l \<le> monthly_at r s then monthly_at r s else monthly_at r s + snd r)"
proof (cases rule: serve_eval [of r s])
  case (1 s' hit)
  have m: "month (fst r) \<le> month (fst r')" using o by (simp add: in_order_def)
  have nn: "0 \<le> monthly_total s" using ok by (simp add: counters_ok_def)
  have same: "monthly_at r s' = monthly_at r s"
    by (rule check_cap_month [OF 1(1)]) (simp_all add: monthly_at_eq)
  have nn': "0 \<le> monthly_at r s" using nn by (simp add: monthly_at_eq)
  show ?thesis
  proof (cases "hit = None")
    case False
    have "monthly_at r' s' \<le> monthly_at r s"
      by (rule check_cap_month [OF 1(1)]) (use rdy m nn in \<open>auto simp: monthly_at_eq\<close>)
    with False 1(2) c show ?thesis by simp
  next
    case True
    then have "monthly_at r s < l" using check_cap_hit(2) [OF 1(1) l True, of "snd r"] by simp
    moreover have "monthly_at r' (serve r s) \<le> monthly_at r s' + snd r"
      using record_total [OF c, of "fst r" s'] 1(2) True nn' c same by (simp add: monthly_at_eq)
    ultimately show ?thesis using same by simp
  qed
qed

interpretation daily_meter: post_event_cap daily_at snd serve daily_cap counters_ok "\<lambda>r s. True" in_order
  by unfold_locales (simp_all only: serve_ok serve_caps serve_daily)

interpretation monthly_meter: post_event_cap monthly_at snd serve monthly_cap counters_ok
  "\<lambda>r s. monthly_key s \<le> month (fst r)" in_order
  by unfold_locales (simp_all only: serve_ok serve_caps serve_key serve_monthly)


definition sample_tick :: "rat \<Rightarrow> tick" where
  "sample_tick n = \<lparr>now = n, month = ''2026-05'', mono = n, stamp = ''t'', direct_ok = True, submit = SubmitAccepted, future = DoneOk\<rparr>"

definition sample_tracker :: spend where
  "sample_tracker = (new_tracker (Some (1/100000)) None False Missing)\<lparr>proxy := Some ''p'', monthly_key := ''2026-05''\<rparr>"


section \<open>Lemmas: the window\<close>

lemma prune_sorted: "sorted (map fst w) \<Longrightarrow> prune_window k w = filter (\<lambda>(ts, _). k \<le> ts) w"
proof (induction w)
  case (Cons x w)
  show ?case
  proof (cases "fst x < k")
    case True
    then have "\<not> k \<le> fst x" by simp
    with Cons True show ?thesis by (cases x) (simp add: prune_window_def)
  next
    case False
    then have "\<forall>y \<in> set w. k \<le> fst y" using Cons.prems by (auto intro: order_trans simp: not_less)
    then have "filter (\<lambda>(ts, _). k \<le> ts) w = w" by (intro filter_True) auto
    with False show ?thesis by (cases x) (auto simp: prune_window_def not_less)
  qed
qed (simp add: prune_window_def)

lemma filter_total_le: "\<forall>(t, c) \<in> set w. 0 \<le> c \<Longrightarrow> window_total (filter (\<lambda>(ts, _). k \<le> ts) w) \<le> window_total (prune_window k w)"
proof (induction w)
  case (Cons x w)
  obtain ts c where x: "x = (ts, c)" by (cases x)
  have "window_total (filter (\<lambda>(ts, _). k \<le> ts) w) \<le> window_total (prune_window k w)" using Cons by simp
  moreover have "window_total (prune_window k w) \<le> window_total w" using Cons.prems by (intro prune_le) auto
  moreover have "prune_window k (x # w) = (if ts < k then prune_window k w else x # w)"
    by (simp add: x prune_window_def)
  ultimately show ?case using Cons.prems by (auto simp: x)
qed (simp add: prune_window_def)

text \<open>
  The rolling window never under-reports: the daily spend is at least the cost recorded with a
  timestamp of the last 24 hours, and it is exactly that when the window is in order of time, as
  recording with a clock that does not go back leaves it. (A window rebuilt from several log shards
  is in file order; then expired entries behind a fresh one stay counted.)
\<close>

lemma daily_spend_window:
  assumes "counters_ok s"
  shows "window_total (filter (\<lambda>(ts, _). now t - day_seconds \<le> ts) (window s)) \<le> snd (daily_spend_micros t s) \<and>
    (sorted (map fst (window s)) \<longrightarrow>
       snd (daily_spend_micros t s) = window_total (filter (\<lambda>(ts, _). now t - day_seconds \<le> ts) (window s)) \<and>
       (\<forall>c. (\<forall>(ts, _) \<in> set (window s). ts \<le> now t) \<longrightarrow> sorted (map fst (window (record_cost t c s)))))"
proof (intro conjI impI allI)
  show "window_total (filter (\<lambda>(ts, _). now t - day_seconds \<le> ts) (window s)) \<le> snd (daily_spend_micros t s)"
    using assms filter_total_le by (simp add: at_defs Let_def counters_ok_def)
next
  assume "sorted (map fst (window s))"
  then show "snd (daily_spend_micros t s) = window_total (filter (\<lambda>(ts, _). now t - day_seconds \<le> ts) (window s))"
    by (simp add: at_defs Let_def prune_sorted)
next
  fix c assume s: "sorted (map fst (window s))" and le: "\<forall>(ts, _) \<in> set (window s). ts \<le> now t"
  have sp: "sorted (map fst w) \<Longrightarrow> sorted (map fst (prune_window k w))" for k and w :: "(rat \<times> int) list"
    by (simp add: prune_sorted sorted_filter [of fst] case_prod_unfold)
  show "sorted (map fst (window (record_cost t c s)))"
  proof (cases "\<exists>n. c = Some n \<and> 0 < n")
    case True
    then obtain n where n: "c = Some n" "0 < n" by blast
    have "sorted (map fst (window s @ [(now t, n)]))" using s le by (auto simp: sorted_append)
    with record_window [OF n(2), of t s] n(1) sp show ?thesis by auto
  next
    case False
    then have "record_cost t c s = s" by (cases c) (auto simp: record_cost_def)
    with s show ?thesis by simp
  qed
qed

lemma daily_spend_window_witness:
  "snd (daily_spend_micros (sample_tick 100000) (sample_tracker\<lparr>window := [(10000, 3), (90000, 4)]\<rparr>)) = 4"
proof -
  let ?s = "sample_tracker\<lparr>window := [(10000, 3), (90000, 4)]\<rparr>"
  have "counters_ok ?s" by (simp add: counters_ok_def sample_tracker_def new_tracker_def)
  from daily_spend_window [OF this, of "sample_tick 100000"] show ?thesis
    by (simp add: sample_tick_def day_seconds_def)
qed

text \<open>Two shards whose file order is not the order of time: the expired entry is still counted.\<close>

lemma bootstrap_window_overcounts:
  "let s = sample_tracker\<lparr>window := [(90000, 4), (10000, 3)]\<rparr> in
     snd (daily_spend_micros (sample_tick 100000) s) = 7 \<and>
     window_total (filter (\<lambda>(ts, _). now (sample_tick 100000) - day_seconds \<le> ts) (window s)) = 4"
  by (simp add: Let_def daily_spend_micros_def prune_daily_window_def prune_window_def sample_tick_def day_seconds_def)

section \<open>Lemmas: restart\<close>

lemma bootstrap_eval:
  assumes "bootstrap_from_logs ps t pm pid files s = (s', Inr ())"
  obtains rs where "read_logs ps [month t, pm] pid files ([], []) = Inr rs"
    "monthly_total s' = max (log_month_total (month t) rs) (fst (checkpoint_counters ps t pid (disk s)))"
    "monthly_key s' = month t"
    "window s' \<in> {if window_total (snd (checkpoint_counters ps t pid (disk s))) > window_total (log_window (now t - day_seconds) rs)
                  then snd (checkpoint_counters ps t pid (disk s)) else log_window (now t - day_seconds) rs,
                 prune_window (now t - day_seconds)
                   (if window_total (snd (checkpoint_counters ps t pid (disk s))) > window_total (log_window (now t - day_seconds) rs)
                    then snd (checkpoint_counters ps t pid (disk s)) else log_window (now t - day_seconds) rs)}"
proof -
  obtain rs where rs: "read_logs ps [month t, pm] pid files ([], []) = Inr rs"
    using assms by (auto simp: bootstrap_from_logs_def Let_def split: sum.splits prod.splits)
  let ?c = "checkpoint_counters ps t pid (disk s)"
  let ?w = "if window_total (snd ?c) > window_total (log_window (now t - day_seconds) rs) then snd ?c else log_window (now t - day_seconds) rs"
  let ?s = "s\<lparr>proxy := pid, monthly_key := month t, monthly_total := max (log_month_total (month t) rs) (fst ?c), window := ?w\<rparr>"
  have "s' = persist_cap_state t ?s"
    using assms rs by (auto simp: bootstrap_from_logs_def Let_def split: prod.splits)
  with rs that persist_window [of t ?s] show ?thesis by simp
qed

lemma prune_all_fresh: "\<forall>(ts, _) \<in> set w. k \<le> ts \<Longrightarrow> prune_window k w = w"
  by (cases w) (auto simp: prune_window_def not_less)

lemma log_window_fresh: "\<forall>(ts, _) \<in> set (log_window k rs). k \<le> ts"
  by (auto simp: log_window_def)

lemma checkpoint_fresh: "\<forall>(ts, _) \<in> set (snd (checkpoint_counters ps t pid f)). now t - day_seconds \<le> ts"
  by (auto simp: checkpoint_counters_def split: option.splits sum.splits if_splits)

text \<open>
  A restart does not reset the spend: with a readable checkpoint of this month, whatever the
  logs still hold, the rebuilt monthly counter is the larger of the checkpoint's total and the sum
  of this month's records, and the rebuilt daily spend is the larger of what the checkpoint's and
  the logs' records of the last 24 hours add up to; so a proxy that was over a cap is over it after
  the restart.
\<close>

lemma restart_keeps_spend:
  assumes boot: "bootstrap_from_logs ps t pm (Some p) files s = (s', Inr ())"
    and disk: "load_cap_state ps p (disk s) = Inr (Some st)" "cs_month st = month t" "p \<noteq> []"
  shows "\<exists>rs. read_logs ps [month t, pm] (Some p) files ([], []) = Inr rs \<and>
    snd (monthly_spend_micros t s') = max (log_month_total (month t) rs) (cs_total st) \<and>
    snd (daily_spend_micros t s') =
      max (window_total (log_window (now t - day_seconds) rs))
          (window_total (filter (\<lambda>(ts, _). now t - day_seconds \<le> ts) (cs_window st)))"
proof -
  have c: "checkpoint_counters ps t (Some p) (disk s) =
      (cs_total st, filter (\<lambda>(ts, _). now t - day_seconds \<le> ts) (cs_window st))"
    using disk by (simp add: checkpoint_counters_def)
  from bootstrap_eval [OF boot] obtain rs where rs: "read_logs ps [month t, pm] (Some p) files ([], []) = Inr rs"
    "monthly_total s' = max (log_month_total (month t) rs) (cs_total st)" "monthly_key s' = month t"
    and w: "window s' \<in> {if window_total (snd (checkpoint_counters ps t (Some p) (disk s))) > window_total (log_window (now t - day_seconds) rs)
                  then snd (checkpoint_counters ps t (Some p) (disk s)) else log_window (now t - day_seconds) rs,
                 prune_window (now t - day_seconds)
                   (if window_total (snd (checkpoint_counters ps t (Some p) (disk s))) > window_total (log_window (now t - day_seconds) rs)
                    then snd (checkpoint_counters ps t (Some p) (disk s)) else log_window (now t - day_seconds) rs)}"
    unfolding c fst_conv by metis
  have "prune_window (now t - day_seconds) (window s') =
      (if window_total (snd (checkpoint_counters ps t (Some p) (disk s))) > window_total (log_window (now t - day_seconds) rs)
       then snd (checkpoint_counters ps t (Some p) (disk s)) else log_window (now t - day_seconds) rs)"
    using w prune_all_fresh [OF log_window_fresh] prune_all_fresh [OF checkpoint_fresh] by (auto split: if_splits)
  with rs show ?thesis
    by (intro exI [of _ rs]) (simp add: c monthly_spend_micros_def daily_spend_micros_def prune_daily_window_def
        roll_month_if_needed_def Let_def max_def)
qed

definition sample_parsers :: parsers where
  "sample_parsers = \<lparr>str_int = (\<lambda>_. None), str_float = (\<lambda>_. None), iso_time = (\<lambda>s. Some (99999, ''2026-05''))\<rparr>"

definition sample_state_file :: state_file where
  "sample_state_file = Holds (JObj (cap_state_json ''t'' \<lparr>cs_proxy = ''p'', cs_month = ''2026-05'', cs_total = 9, cs_window = [(90000, 9)]\<rparr>))"

definition sample_log :: "log_file list" where
  "sample_log = [(''2026-05_17'', [Some [(''ts'', JStr ''x''), (''cost_micros'', JInt 4), (''proxy_id'', JStr ''p'')]], LogOk)]"

lemma restart_keeps_spend_witness:
  "snd (monthly_spend_micros (sample_tick 100000)
     (fst (bootstrap_from_logs sample_parsers (sample_tick 100000) ''2026-04'' (Some ''p'') sample_log
        (new_tracker None None False sample_state_file)))) \<ge> 9"
proof -
  let ?s = "new_tracker None None False sample_state_file"
  let ?b = "bootstrap_from_logs sample_parsers (sample_tick 100000) ''2026-04'' (Some ''p'') sample_log ?s"
  let ?st = "\<lparr>cs_proxy = ''p'', cs_month = ''2026-05'', cs_total = 9, cs_window = [(90000, 9)]\<rparr>"
  have "snd ?b = Inr ()" by code_simp
  then have b: "?b = (fst ?b, Inr ())" by (metis prod.collapse)
  have "load_cap_state sample_parsers ''p'' (disk ?s) = Inr (Some ?st)"
    using load_written_state [of sample_parsers ?st] by (simp add: new_tracker_def sample_state_file_def)
  from restart_keeps_spend [OF b this] show ?thesis by (auto simp: sample_tick_def)
qed

section \<open>Lemmas: how far the checkpoint lags\<close>

text \<open>\<open>lag ps p s lost\<close>: the checkpoint lacks exactly the costs \<open>lost\<close>, the latest ones.\<close>

definition lag :: "parsers \<Rightarrow> string \<Rightarrow> spend \<Rightarrow> int list \<Rightarrow> bool" where
  "lag ps p s lost \<longleftrightarrow> proxy s = Some p \<and> p \<noteq> [] \<and> \<not> queued s \<and> pending s = None \<and> dirty s = length lost \<and>
     (\<exists>cs. load_cap_state ps p (disk s) = Inr (Some cs) \<and> cs_month cs = monthly_key s \<and>
        cs_total cs + sum_list lost = monthly_total s)"

lemma persist_direct:
  assumes "proxy s = Some p" "p \<noteq> []" "\<not> queued s" "pending s = None"
  shows "persist_cap_state t s =
    (let s = prune_daily_window t s in
     if direct_ok t then s\<lparr>disk := Holds (JObj (cap_state_json (stamp t) (snapshot p s))), dirty := 0, last_persisted := mono t, retry := False\<rparr>
     else s\<lparr>retry := True\<rparr>)"
  using assms by (simp add: persist_cap_state_def acknowledge_cap_persist_def Let_def prune_daily_window_def)

lemma lag_persisted:
  assumes "proxy s = Some p" "p \<noteq> []" "\<not> queued s" "pending s = None" "direct_ok t"
  shows "lag ps p (persist_cap_state t s) []"
  using assms load_written_state [of ps "snapshot p (prune_daily_window t s)" "stamp t"]
  unfolding persist_direct [OF assms(1-4)] Let_def
  by (simp add: lag_def snapshot_def prune_daily_window_def)

lemma lag_record:
  assumes l: "lag ps p s lost" and m: "month t = monthly_key s" and c: "0 < c"
  obtains "lag ps p (record_cost t (Some c) s) []" "monthly_key (record_cost t (Some c) s) = monthly_key s"
  | "lag ps p (record_cost t (Some c) s) (lost @ [c])" "monthly_key (record_cost t (Some c) s) = monthly_key s"
    "\<not> direct_ok t \<or> length lost + 1 < persist_every"
proof -
  let ?s = "s\<lparr>monthly_total := monthly_total s + c, window := window s @ [(now t, c)], dirty := dirty s + 1\<rparr>"
  from l have s: "proxy ?s = Some p" "p \<noteq> []" "\<not> queued ?s" "pending ?s = None" and d: "dirty s = length lost"
    by (simp_all add: lag_def)
  have lag1: "lag ps p ?s (lost @ [c])" using l by (auto simp: lag_def)
  have eq: "record_cost t (Some c) s =
      (if retry s \<or> persist_every \<le> dirty s + 1 \<or> persist_interval \<le> mono t - last_persisted s
       then persist_cap_state t ?s else ?s)"
    using l m c by (simp add: record_cost_def roll_month_if_needed_def maybe_persist_cap_state_def
        acknowledge_cap_persist_def Let_def lag_def)
  have key: "monthly_key (record_cost t (Some c) s) = monthly_key s"
    using record_total [OF c, of t s] m by simp
  show thesis
  proof (cases "retry s \<or> persist_every \<le> dirty s + 1 \<or> persist_interval \<le> mono t - last_persisted s")
    case persisted: True
    show thesis
    proof (cases "direct_ok t")
      case True
      with lag_persisted [OF s True] persisted eq key that(1) show thesis by simp
    next
      case False
      have "lag ps p (persist_cap_state t ?s) (lost @ [c])"
        using lag1 False unfolding persist_direct [OF s] Let_def by (simp add: lag_def prune_daily_window_def)
      with persisted eq key that(2) False show thesis by simp
    qed
  next
    case False
    with lag1 eq key that(2) d show thesis by simp
  qed
qed

text \<open>
  What a crash can lose: with direct persistence and all records in one month, after any
  number of them the checkpoint file is readable and short of the monthly counter by exactly the
  costs of the latest few records, at most nine and one more for every record whose write failed.
\<close>

lemma checkpoint_lags_few_records:
  assumes "lag ps p s []" "\<forall>(t, c) \<in> set rs. month t = monthly_key s \<and> 0 < c"
  shows "let s' = fold (\<lambda>(t, c). record_cost t (Some c)) rs s in \<exists>lost cs. suffix lost (map snd rs) \<and> length lost \<le> 9 + length (filter (\<lambda>(t, _). \<not> direct_ok t) rs) \<and>
    load_cap_state ps p (disk s') = Inr (Some cs) \<and> cs_month cs = monthly_key s \<and>
    cs_total cs = monthly_total s' - sum_list lost"
proof -
  let ?s' = "fold (\<lambda>(t, c). record_cost t (Some c)) rs s"
  have "\<exists>lost. lag ps p (fold (\<lambda>(t, c). record_cost t (Some c)) rs s) lost \<and> suffix lost (old @ map snd rs) \<and>
      monthly_key (fold (\<lambda>(t, c). record_cost t (Some c)) rs s) = monthly_key s \<and>
      length lost \<le> 9 + n + length (filter (\<lambda>(t, _). \<not> direct_ok t) rs)"
    if "lag ps p s old" "\<forall>(t, c) \<in> set rs. month t = monthly_key s \<and> 0 < c" "length old \<le> 9 + n" for s old n
    using that
  proof (induction rs arbitrary: s old n)
    case Nil
    then show ?case by auto
  next
    case (Cons r rs)
    obtain t c where r: "r = (t, c)" by (cases r)
    let ?s = "record_cost t (Some c) s" and ?n = "n + (if direct_ok t then 0 else 1)"
    from Cons.prems r have m: "month t = monthly_key s" "0 < c" by auto
    show ?case
    proof (cases rule: lag_record [OF Cons.prems(1) m])
      case 1
      with Cons.IH [of ?s "[]" ?n] Cons.prems r show ?thesis
        by (fastforce simp: suffix_def)
    next
      case 2
      from 2(3) Cons.prems(3) have "length (old @ [c]) \<le> 9 + ?n" by (auto simp: persist_every_def)
      with 2 Cons.IH [of ?s "old @ [c]" ?n] Cons.prems r show ?thesis by auto
    qed
  qed
  from this [OF assms(1,2), of 0] obtain lost where l: "lag ps p ?s' lost" "suffix lost (map snd rs)"
    "monthly_key ?s' = monthly_key s" "length lost \<le> 9 + length (filter (\<lambda>(t, _). \<not> direct_ok t) rs)"
    by auto
  from l(1) obtain cs where "load_cap_state ps p (disk ?s') = Inr (Some cs)" "cs_month cs = monthly_key ?s'"
    "cs_total cs + sum_list lost = monthly_total ?s'"
    by (auto simp: lag_def)
  with l show ?thesis unfolding Let_def by (intro exI [of _ lost] exI [of _ cs]) simp
qed

lemma checkpoint_lags_few_records_witness:
  "\<exists>lost cs. suffix lost [5, 6] \<and> load_cap_state sample_parsers ''p''
     (disk (fold (\<lambda>(t, c). record_cost t (Some c)) [(sample_tick 1, 5), (sample_tick 2, 6)]
        ((new_tracker None None False sample_state_file)\<lparr>proxy := Some ''p'', monthly_key := ''2026-05'', monthly_total := 9\<rparr>)))
     = Inr (Some cs) \<and> cs_total cs = 20 - sum_list lost"
proof -
  let ?s = "(new_tracker None None False sample_state_file)\<lparr>proxy := Some ''p'', monthly_key := ''2026-05'', monthly_total := 9\<rparr>"
  let ?rs = "[(sample_tick 1, 5 :: int), (sample_tick 2, 6)]"
  have "lag sample_parsers ''p'' ?s []"
    using load_written_state [of sample_parsers "\<lparr>cs_proxy = ''p'', cs_month = ''2026-05'', cs_total = 9, cs_window = [(90000, 9)]\<rparr>"]
    by (simp add: lag_def new_tracker_def sample_state_file_def)
  moreover have "\<forall>(t, c) \<in> set ?rs. month t = monthly_key ?s \<and> 0 < c" by (simp add: sample_tick_def)
  moreover have "monthly_total (fold (\<lambda>(t, c). record_cost t (Some c)) ?rs ?s) = 20" by code_simp
  ultimately show ?thesis
    using checkpoint_lags_few_records [of sample_parsers "''p''" ?s ?rs] by (auto simp: Let_def)
qed

end
