(* ===== verification/Rules.thy ===== *)
theory Rules
  imports Json PyText
begin

text \<open>
  The policy types (\<open>policy/types.py\<close>) and the deterministic policies (\<open>policy/deterministic/\<close>):
  what a policy is asked about, what it answers, the regular expressions it searches for, and the
  five policies of the two bundles.

  The content an action introduces is a list of code points. \<open>re.search\<close> is modelled for the
  expressions the policies use: a match exists iff some start has an end. The classes of code points
  beyond ASCII, and the text of code points in a message, are parameters (\<open>unicode\<close>). A policy is a
  record of functions that pass its own state explicitly; an exception is its text. The set of
  touched test files is a list without repetition: Python does not fix its order, and nothing
  depends on it. The conversation records of \<open>PolicyDecision\<close> (telemetry ids) are not modelled.
\<close>

section \<open>Decisions and actions\<close>

type_synonym content_text = "nat list"

datatype decision_type = Allow | Deny | Warn | NeedsReview
datatype severity = Critical | High | Medium | Low
datatype provenance = FromUnknown | FromPolicy | FromReviewer
datatype fail_mode = FailOpen | FailClosed

record verified_citation =
  vc_source :: string
  vc_digest :: string
  vc_start :: nat
  vc_end :: nat
  vc_text :: string

record violation =
  v_rule :: string
  v_message :: json
  v_severity :: severity
  v_evidence :: json
  v_fix :: json
  v_citations :: "string list"
  v_provenance :: provenance
  v_verified :: "verified_citation list"

record policy_decision =
  d_decision :: decision_type
  d_policy :: string
  d_violations :: "violation list"
  d_warnings :: "string list"
  d_intent :: "string option"
  d_cached :: bool
  d_evaluated_at :: "string option"
  d_fail_open :: bool
  d_failure :: "string option"
  d_findings :: "violation list"
  d_codes :: "string list"

text \<open>\<open>PolicyDecision(decision=d, policy_id=p)\<close>, the other fields at their defaults.\<close>

definition plain_decision :: "decision_type \<Rightarrow> string \<Rightarrow> policy_decision" where
  "plain_decision d p =
     \<lparr>d_decision = d, d_policy = p, d_violations = [], d_warnings = [], d_intent = None, d_cached = False,
      d_evaluated_at = None, d_fail_open = False, d_failure = None, d_findings = [], d_codes = []\<rparr>"

record boundary =
  b_thread :: string
  b_turn :: string
  b_transcript :: string
  b_event :: string
  b_last_message :: "string option"

record action_context =
  c_origin :: string
  c_event :: string
  c_tool :: string
  c_args :: jobj
  c_root :: string
  c_session :: string
  c_path :: "string option"
  c_content :: "content_text option"
  c_diff :: "string option"
  c_fingerprint :: "string option"
  c_native :: "boundary option"

record composite_decision =
  k_final :: decision_type
  k_decisions :: "policy_decision list"
  k_blocking :: "violation list"
  k_warnings :: "string list"

section \<open>Regular expressions\<close>

text \<open>What Python knows about code points from 128 on, and how it prints code points.\<close>

record unicode =
  u_space :: "nat \<Rightarrow> bool"
  u_word :: "nat \<Rightarrow> bool"
  u_shown :: "content_text \<Rightarrow> string"

definition codes :: "string \<Rightarrow> content_text" where
  "codes s = map of_char s"

text \<open>The classes \<open>[\s]\<close> and \<open>[\w]\<close> on ASCII, and the parameter beyond it.\<close>

definition space_code :: "unicode \<Rightarrow> nat \<Rightarrow> bool" where
  "space_code u c = (if c < 128 then (9 \<le> c \<and> c \<le> 13) \<or> (28 \<le> c \<and> c \<le> 32) else u_space u c)"

definition word_code :: "unicode \<Rightarrow> nat \<Rightarrow> bool" where
  "word_code u c =
     (if c < 128 then (48 \<le> c \<and> c \<le> 57) \<or> (65 \<le> c \<and> c \<le> 90) \<or> c = 95 \<or> (97 \<le> c \<and> c \<le> 122) else u_word u c)"

datatype char_class = Space | NotNewline

fun in_class :: "unicode \<Rightarrow> char_class \<Rightarrow> nat \<Rightarrow> bool" where
  "in_class u Space c = space_code u c"
| "in_class u NotNewline c = (c \<noteq> 10)"

datatype rx =
    Lit string
  | ManyOf char_class
  | SomeOf char_class
  | Maybe rx
  | OneOf "rx list"
  | WordBoundary
  | Then rx rx

definition run_length :: "unicode \<Rightarrow> char_class \<Rightarrow> content_text \<Rightarrow> nat \<Rightarrow> nat" where
  "run_length u k s i = length (takeWhile (in_class u k) (drop i s))"

definition word_at :: "unicode \<Rightarrow> content_text \<Rightarrow> nat \<Rightarrow> bool" where
  "word_at u s i \<longleftrightarrow> i < length s \<and> word_code u (s ! i)"

definition at_boundary :: "unicode \<Rightarrow> content_text \<Rightarrow> nat \<Rightarrow> bool" where
  "at_boundary u s i \<longleftrightarrow> (0 < i \<and> word_at u s (i - 1)) \<noteq> word_at u s i"

text \<open>The positions where a match that starts at \<open>i\<close> can end.\<close>

fun ends :: "unicode \<Rightarrow> content_text \<Rightarrow> rx \<Rightarrow> nat \<Rightarrow> nat list" where
  "ends u s (Lit l) i = (if take (length l) (drop i s) = codes l then [i + length l] else [])"
| "ends u s (ManyOf k) i = [i ..< Suc (i + run_length u k s i)]"
| "ends u s (SomeOf k) i = [Suc i ..< Suc (i + run_length u k s i)]"
| "ends u s (Maybe r) i = i # ends u s r i"
| "ends u s (OneOf rs) i = concat (map (\<lambda>r. ends u s r i) rs)"
| "ends u s WordBoundary i = (if at_boundary u s i then [i] else [])"
| "ends u s (Then r q) i = concat (map (ends u s q) (ends u s r i))"

text \<open>\<open>re.search(r, s)\<close>\<close>

definition search :: "unicode \<Rightarrow> rx \<Rightarrow> content_text \<Rightarrow> bool" where
  "search u r s = list_ex (\<lambda>i. ends u s r i \<noteq> []) [0 ..< Suc (length s)]"

text \<open>The source text of a pattern, as a finding quotes it.\<close>

definition backslash :: char where
  "backslash = CHR 0x5C"

definition escaped :: "string \<Rightarrow> string" where
  "escaped l = concat (map (\<lambda>c. if c \<in> set ''.('' then [backslash, c] else [c]) l)"

fun class_source :: "char_class \<Rightarrow> string" where
  "class_source Space = [backslash, CHR ''s'']"
| "class_source NotNewline = ''.''"

fun source_text :: "rx \<Rightarrow> string" where
  "source_text (Lit l) = escaped l"
| "source_text (ManyOf k) = class_source k @ ''*''"
| "source_text (SomeOf k) = class_source k @ ''+''"
| "source_text (Maybe r) =
     (if length (source_text r) = 1 then source_text r @ ''?'' else ''(?:'' @ source_text r @ '')?'')"
| "source_text (OneOf rs) = ''(?:'' @ join_with ''|'' (map source_text rs) @ '')''"
| "source_text WordBoundary = [backslash, CHR ''b'']"
| "source_text (Then r q) = source_text r @ source_text q"

definition skip_patterns :: "rx list" where
  "skip_patterns =
     [Lit ''pytest.skip('', Then (Lit ''@pytest.mark.skip'') WordBoundary, Then (Lit ''@pytest.mark.skipif'') WordBoundary,
      Then (Lit ''unittest.skip'') WordBoundary, Then (Lit ''@unittest.skip'') WordBoundary]"

definition type_checking_patterns :: "rx list" where
  "type_checking_patterns =
     [Then (Lit ''if'') (Then (SomeOf Space) (Then (Lit ''TYPE_CHECKING'') (Then (ManyOf Space) (Lit '':'')))),
      Then (Lit ''from'') (Then (SomeOf Space) (Then (Lit ''typing'') (Then (SomeOf Space)
        (Then (Lit ''import'') (Then (ManyOf NotNewline) (Lit ''TYPE_CHECKING''))))))]"

definition after_hash :: "rx \<Rightarrow> rx" where
  "after_hash r = Then (Lit ''#'') (Then (ManyOf Space) r)"

definition backward_compat_patterns :: "rx list" where
  "backward_compat_patterns =
     [after_hash (Then (Lit ''backward'') (Then (ManyOf Space) (Lit ''compat''))),
      after_hash (Then (Lit ''backward'') (Then (Maybe (Lit ''s'')) (Then (ManyOf Space) (Lit ''compat'')))),
      after_hash (Then (Lit ''legacy'') WordBoundary),
      after_hash (Then (Lit ''deprecated'') WordBoundary),
      after_hash (Then (Lit ''TODO'') (Then (ManyOf NotNewline) (Then (Lit ''remove'') (Then (ManyOf NotNewline) (Lit ''later''))))),
      after_hash (Then (Lit ''for'') (Then (SomeOf Space) (Lit ''backward''))),
      after_hash (Then (Lit ''DEPRECATED'') WordBoundary),
      after_hash (Then (Lit ''LEGACY'') WordBoundary),
      after_hash (Then (Lit ''compat'') (Then (Maybe (Lit ''ibility'')) (Then (ManyOf Space)
        (OneOf [Lit ''layer'', Lit ''shim'', Lit ''wrapper'']))))]"

text \<open>\<open>_matches_any_pattern\<close>\<close>

definition matches_any_pattern :: "unicode \<Rightarrow> content_text option \<Rightarrow> rx list \<Rightarrow> string list" where
  "matches_any_pattern u content patterns =
     (case content of None \<Rightarrow> [] | Some s \<Rightarrow> map source_text (filter (\<lambda>r. search u r s) patterns))"

section \<open>A policy\<close>

text \<open>
  \<open>p_state\<close> is present for a stateful policy: \<open>get_state\<close> and \<open>set_state\<close>. Every function may raise.
\<close>

record 's policy =
  p_id :: string
  p_applies :: "action_context \<Rightarrow> 's \<Rightarrow> 's \<times> (string + bool)"
  p_eval :: "action_context \<Rightarrow> 's \<Rightarrow> 's \<times> (string + policy_decision)"
  p_state :: "(('s \<Rightarrow> string + json) \<times> (json \<Rightarrow> 's \<Rightarrow> 's \<times> (string + unit))) option"

definition allow_by :: "string \<Rightarrow> policy_decision" where
  "allow_by pid = plain_decision Allow pid"

definition by_policy :: "violation \<Rightarrow> violation" where
  "by_policy v = v\<lparr>v_provenance := FromPolicy\<rparr>"

definition deny_by :: "string \<Rightarrow> string \<Rightarrow> violation list \<Rightarrow> policy_decision" where
  "deny_by pid intent vs = (plain_decision Deny pid)\<lparr>d_violations := map by_policy vs, d_intent := Some intent\<rparr>"

definition text_message :: "json \<Rightarrow> string" where
  "text_message v = (case v of JStr s \<Rightarrow> s | _ \<Rightarrow> [])"

definition warn_by :: "string \<Rightarrow> string \<Rightarrow> violation list \<Rightarrow> policy_decision" where
  "warn_by pid intent fs =
     (plain_decision Warn pid)\<lparr>d_warnings := map (text_message \<circ> v_message) fs, d_findings := map by_policy fs,
       d_intent := Some intent\<rparr>"

definition new_violation :: "string \<Rightarrow> string \<Rightarrow> severity \<Rightarrow> string \<Rightarrow> string \<Rightarrow> violation" where
  "new_violation rule message sev ev fix_text =
     \<lparr>v_rule = rule, v_message = JStr message, v_severity = sev, v_evidence = JStr ev, v_fix = JStr fix_text,
      v_citations = [], v_provenance = FromUnknown, v_verified = []\<rparr>"

definition writes_file :: "action_context \<Rightarrow> bool" where
  "writes_file c \<longleftrightarrow> c_tool c \<in> {''Write'', ''Edit''}"

text \<open>\<open>is_under_directory\<close>: at the top level or nested, with either separator.\<close>

definition normalized :: "string \<Rightarrow> string" where
  "normalized = map (\<lambda>c. if c = backslash then CHR ''/'' else c)"

definition is_under_directory :: "string option \<Rightarrow> string \<Rightarrow> bool" where
  "is_under_directory path dir =
     (case path of
        None \<Rightarrow> False
      | Some p \<Rightarrow> prefix (dir @ ''/'') (normalized p) \<or> contains (''/'' @ dir @ ''/'') (normalized p))"

definition tests_first_sort_key :: "string option \<Rightarrow> nat" where
  "tests_first_sort_key path =
     (if is_under_directory path ''tests'' then 0 else if is_under_directory path ''src'' then 2 else 1)"

section \<open>Tests before implementation\<close>

text \<open>Python's equality of hashable JSON values: \<open>True\<close>, \<open>1\<close> and \<open>1.0\<close> are one element of a set.\<close>

fun hash_key :: "json \<Rightarrow> json" where
  "hash_key (JBool b) = JFloat (if b then 1 else 0)"
| "hash_key (JInt i) = JFloat (of_int i)"
| "hash_key v = v"

definition set_add :: "json \<Rightarrow> json list \<Rightarrow> json list" where
  "set_add v xs = (if hash_key v \<in> set (map hash_key xs) then xs else xs @ [v])"

text \<open>\<open>set(v)\<close> of a JSON value: a \<open>TypeError\<close> unless it can be iterated over hashable elements.\<close>

fun hashable :: "json \<Rightarrow> bool" where
  "hashable (JList _) = False"
| "hashable (JObj _) = False"
| "hashable _ = True"

definition set_of_json :: "json \<Rightarrow> string + json list" where
  "set_of_json v =
     (case v of
        JList xs \<Rightarrow> if list_all hashable xs then Inr (fold set_add xs []) else Inl ''unhashable type''
      | JStr s \<Rightarrow> Inr (fold set_add (map (\<lambda>c. JStr [c]) s) [])
      | JObj d \<Rightarrow> Inr (map (JStr \<circ> fst) d)
      | _ \<Rightarrow> Inl ''object is not iterable'')"

definition tdd_id :: string where
  "tdd_id = ''tdd.tests-before-impl''"

definition tdd_intent :: string where
  "tdd_intent = ''Test-driven development: write tests first to define expected behavior, then implement. This catches design issues early and ensures every change has test coverage from the start.''"

definition tdd_applies :: "action_context \<Rightarrow> bool" where
  "tdd_applies c \<longleftrightarrow> writes_file c \<and> c_path c \<noteq> None \<and>
     (is_under_directory (c_path c) ''tests'' \<or> is_under_directory (c_path c) ''src'')"

definition tdd_violation :: "string \<Rightarrow> violation" where
  "tdd_violation path =
     new_violation tdd_id ''Implementation changes require test changes first'' High
       (''Writing to '' @ path @ '' without touching any test files'')
       ''Write or update tests in tests/ directory before modifying src/ code''"

definition tdd_evaluate :: "bool \<Rightarrow> action_context \<Rightarrow> json list \<Rightarrow> json list \<times> policy_decision" where
  "tdd_evaluate strict c touched =
     (case c_path c of
        None \<Rightarrow> (touched, allow_by tdd_id)
      | Some path \<Rightarrow>
          if is_under_directory (Some path) ''tests'' then (set_add (JStr path) touched, allow_by tdd_id)
          else if is_under_directory (Some path) ''src'' \<and> touched = [] then
            (touched, if strict then deny_by tdd_id tdd_intent [tdd_violation path]
                      else warn_by tdd_id tdd_intent [tdd_violation path])
          else (touched, allow_by tdd_id))"

definition tdd_get_state :: "json list \<Rightarrow> json" where
  "tdd_get_state touched = JObj [(''tests_touched'', JList touched)]"

text \<open>\<open>state.get\<close> fails on a state that is not a dict; on failure the old set is kept.\<close>

definition tdd_set_state :: "json \<Rightarrow> json list \<Rightarrow> json list \<times> (string + unit)" where
  "tdd_set_state v touched =
     (case v of
        JObj d \<Rightarrow>
          (case set_of_json (case dget d ''tests_touched'' of Some x \<Rightarrow> x | None \<Rightarrow> JList []) of
             Inl e \<Rightarrow> (touched, Inl e) | Inr xs \<Rightarrow> (xs, Inr ()))
      | _ \<Rightarrow> (touched, Inl ''object has no attribute get''))"

definition tdd_policy :: "bool \<Rightarrow> json list policy" where
  "tdd_policy strict =
     \<lparr>p_id = tdd_id, p_applies = (\<lambda>c s. (s, Inr (tdd_applies c))),
      p_eval = (\<lambda>c s. case tdd_evaluate strict c s of (s', d) \<Rightarrow> (s', Inr d)),
      p_state = Some (\<lambda>s. Inr (tdd_get_state s), tdd_set_state)\<rparr>"

section \<open>Policies without state\<close>

definition stateless :: "string \<Rightarrow> (action_context \<Rightarrow> bool) \<Rightarrow> (action_context \<Rightarrow> policy_decision) \<Rightarrow> 's policy" where
  "stateless pid applies evaluate =
     \<lparr>p_id = pid, p_applies = (\<lambda>c s. (s, Inr (applies c))), p_eval = (\<lambda>c s. (s, Inr (evaluate c))), p_state = None\<rparr>"

text \<open>Deny when a pattern matches, with what the policy says about it.\<close>

definition pattern_decision ::
  "unicode \<Rightarrow> string \<Rightarrow> string \<Rightarrow> (string list \<Rightarrow> violation) \<Rightarrow> rx list \<Rightarrow> action_context \<Rightarrow> policy_decision" where
  "pattern_decision u pid intent describe patterns c =
     (let matched = matches_any_pattern u (c_content c) patterns in
      if matched \<noteq> [] then deny_by pid intent [describe matched] else allow_by pid)"

definition no_skip_id :: string where
  "no_skip_id = ''tdd.no-skip-tests''"

definition no_skip_intent :: string where
  "no_skip_intent = ''Skipped tests hide broken functionality. Every test should either pass or be deleted. If a test cannot run, fix the environment or the code rather than skipping it.''"

definition no_skip_tests :: "unicode \<Rightarrow> 's policy" where
  "no_skip_tests u =
     stateless no_skip_id (\<lambda>c. writes_file c \<and> c_content c \<noteq> None)
       (pattern_decision u no_skip_id no_skip_intent
          (\<lambda>m. new_violation no_skip_id ''Test skip patterns are not allowed'' High
                 (''Found skip pattern(s): '' @ join_with '', '' m) ''Remove the skip pattern and fix the underlying issue'')
          skip_patterns)"

definition python_file :: "action_context \<Rightarrow> bool" where
  "python_file c \<longleftrightarrow> writes_file c \<and> c_content c \<noteq> None \<and>
     (case c_path c of None \<Rightarrow> False | Some p \<Rightarrow> suffix ''.py'' p)"

definition no_type_checking_id :: string where
  "no_type_checking_id = ''coding_standards.no-type-checking''"

definition newline :: char where
  "newline = CHR 0x0A"

definition no_type_checking :: "unicode \<Rightarrow> 's policy" where
  "no_type_checking u =
     stateless no_type_checking_id python_file
       (pattern_decision u no_type_checking_id
          ''Circular imports indicate an architectural problem. TYPE_CHECKING blocks hide the symptom instead of fixing the dependency structure. This policy ensures clean module boundaries.''
          (\<lambda>m. new_violation no_type_checking_id ''TYPE_CHECKING blocks are not allowed'' Medium
                 (''Found TYPE_CHECKING pattern(s): '' @ join_with '', '' m)
                 (join_on newline [''Fix circular imports architecturally by:'', ''1. Moving shared types to a separate types.py module'',
                    ''2. Using dependency injection'', ''3. Restructuring the module hierarchy'']))
          type_checking_patterns)"

definition no_backward_compat_id :: string where
  "no_backward_compat_id = ''coding_standards.no-backward-compat''"

definition no_backward_compat :: "unicode \<Rightarrow> 's policy" where
  "no_backward_compat u =
     stateless no_backward_compat_id python_file
       (pattern_decision u no_backward_compat_id
          ''Compatibility layers accumulate technical debt. This project prefers clean breaks: update all callers directly and remove old code completely rather than maintaining shims or fallback logic.''
          (\<lambda>m. new_violation no_backward_compat_id ''Backward compatibility patterns are not allowed'' Medium
                 (''Found backward-compat pattern(s): '' @ join_with '', '' m)
                 (join_on newline [''Instead of compatibility layers:'', ''1. Update all callers directly'',
                    ''2. Remove the old implementation completely'', ''3. Delete obsolete tests (don'' @ [CHR 0x27] @ ''t skip them)'']))
          backward_compat_patterns)"

definition emoji_ranges :: "(nat \<times> nat) list" where
  "emoji_ranges =
     [(0x1F300, 0x1F5FF), (0x1F600, 0x1F64F), (0x1F680, 0x1F6FF), (0x1F700, 0x1F77F), (0x1F900, 0x1F9FF), (0x1FA00, 0x1FAFF)]"

definition colorful_emoji :: "nat \<Rightarrow> bool" where
  "colorful_emoji cp \<longleftrightarrow> \<not> cp < 0x10000 \<and> list_ex (\<lambda>(lo, hi). lo \<le> cp \<and> cp \<le> hi) emoji_ranges"

definition code_extensions :: "string list" where
  "code_extensions =
     [''.py'', ''.js'', ''.ts'', ''.jsx'', ''.tsx'', ''.sh'', ''.bash'', ''.java'', ''.go'', ''.rs'', ''.c'', ''.cpp'', ''.h'',
      ''.hpp'', ''.rb'', ''.swift'', ''.kt'', ''.scala'']"

text \<open>\<open>" ".join(...)\<close> of code points.\<close>

fun spaced :: "content_text \<Rightarrow> content_text" where
  "spaced [] = []"
| "spaced [x] = [x]"
| "spaced (x # y # xs) = x # 32 # spaced (y # xs)"

definition no_emoji_id :: string where
  "no_emoji_id = ''coding_standards.no-emoji''"

text \<open>The decimal text of a number, as an f-string prints it.\<close>

fun decimal :: "nat \<Rightarrow> string" where
  "decimal n = (if n < 10 then [char_of (48 + n)] else decimal (n div 10) @ [char_of (48 + n mod 10)])"

declare decimal.simps [simp del]

definition emoji_decision :: "unicode \<Rightarrow> action_context \<Rightarrow> policy_decision" where
  "emoji_decision u c =
     (let found = filter colorful_emoji (case c_content c of None \<Rightarrow> [] | Some s \<Rightarrow> s);
          sample = u_shown u (spaced (take 5 (distinct_first found)))
      in if found \<noteq> [] then
           deny_by no_emoji_id
             ''Double-width emoji break alignment in terminals, diffs, and code review tools. Source code should stay ASCII-clean for consistent monospace rendering. This includes Unicode escapes that produce emoji at runtime.''
             [new_violation no_emoji_id (''Emoji characters found in code: '' @ sample) Low
                (''Found '' @ decimal (length found) @ '' emoji character(s): '' @ sample)
                ''Use ASCII equivalents or text-safe symbols instead of colorful emoji.'']
         else allow_by no_emoji_id)"

definition no_emoji :: "unicode \<Rightarrow> 's policy" where
  "no_emoji u =
     stateless no_emoji_id
       (\<lambda>c. writes_file c \<and> c_content c \<noteq> None \<and>
            (case c_path c of None \<Rightarrow> False | Some p \<Rightarrow> list_ex (\<lambda>e. suffix e p) code_extensions))
       (emoji_decision u)"

section \<open>Bundles\<close>

datatype policy_class = TDDEnforcement | NoSkipTests | NoTypeChecking | NoBackwardCompat | NoEmoji

definition bundle_classes :: "(string \<times> policy_class list) list" where
  "bundle_classes =
     [(''tdd'', [TDDEnforcement, NoSkipTests]), (''coding_standards'', [NoTypeChecking, NoBackwardCompat, NoEmoji])]"

text \<open>The two messages of \<open>validate_bundle_name\<close> are one error here.\<close>

definition validate_bundle_name :: "string \<Rightarrow> string + unit" where
  "validate_bundle_name bundle =
     (if dget bundle_classes bundle \<noteq> None then Inr ()
      else if bundle = ''workflow'' then Inl ''policy bundle workflow was removed'' else Inl ''unknown policy bundle'')"

text \<open>\<open>if config and "strict" in config\<close>: only a bool is accepted.\<close>

definition tdd_strict :: "jobj option \<Rightarrow> string + bool" where
  "tdd_strict config =
     (case config of
        None \<Rightarrow> Inr True
      | Some c \<Rightarrow>
          (case dget c ''strict'' of None \<Rightarrow> Inr True | Some (JBool b) \<Rightarrow> Inr b
           | Some _ \<Rightarrow> Inl ''bundle_config.tdd.strict must be bool''))"

definition make_policy :: "unicode \<Rightarrow> jobj option \<Rightarrow> policy_class \<Rightarrow> string + json list policy" where
  "make_policy u config k =
     (case k of
        TDDEnforcement \<Rightarrow> (case tdd_strict config of Inl e \<Rightarrow> Inl e | Inr b \<Rightarrow> Inr (tdd_policy b))
      | NoSkipTests \<Rightarrow> Inr (no_skip_tests u)
      | NoTypeChecking \<Rightarrow> Inr (no_type_checking u)
      | NoBackwardCompat \<Rightarrow> Inr (no_backward_compat u)
      | NoEmoji \<Rightarrow> Inr (no_emoji u))"

text \<open>A loop that appends the results of a step that may raise.\<close>

fun collect_all :: "('a \<Rightarrow> 'e + 'b list) \<Rightarrow> 'a list \<Rightarrow> 'e + 'b list" where
  "collect_all f [] = Inr []"
| "collect_all f (x # xs) =
     (case f x of Inl e \<Rightarrow> Inl e
      | Inr ys \<Rightarrow> (case collect_all f xs of Inl e \<Rightarrow> Inl e | Inr zs \<Rightarrow> Inr (ys @ zs)))"

definition get_bundle_policies :: "unicode \<Rightarrow> string \<Rightarrow> jobj option \<Rightarrow> string + json list policy list" where
  "get_bundle_policies u bundle config =
     (case validate_bundle_name bundle of
        Inl e \<Rightarrow> Inl e
      | Inr _ \<Rightarrow>
          collect_all (\<lambda>k. case make_policy u config k of Inl e \<Rightarrow> Inl e | Inr p \<Rightarrow> Inr [p])
            (the (dget bundle_classes bundle)))"

end
