(* ===== verification/Engine.thy ===== *)
theory Engine
  imports Rules
begin

text \<open>
  The policy engine (\<open>policy/engine.py\<close>), the policy state of the session manifest
  (\<open>policy/store.py\<close>), and the two hooks that evaluate an action before it lands
  (\<open>cli/hooks/policy.py\<close>, \<open>policy_check\<close> and \<open>codex_policy_check\<close> of \<open>cli/hooks/commands.py\<close>).

  A policy object is a slot: its functions and its current state. The semantic policies (supervisor,
  plan check) are slots given as arguments. \<open>now\<close> is the clock of an evaluation. Telemetry is the
  list of outcomes it is given; its own failures are swallowed by the code and do not occur here.
\<close>

section \<open>Running one policy\<close>

type_synonym 's slot = "'s policy \<times> 's"

datatype upstream_status = TimedOut | SkippedCheck | FailedOpen | Warned | Succeeded | Denied | ReviewNeeded

record outcome =
  o_policy :: string
  o_status :: upstream_status
  o_reason :: string
  o_message :: json
  o_cached :: bool

definition mentions_fail_open :: "policy_decision \<Rightarrow> bool" where
  "mentions_fail_open d = list_ex (\<lambda>w. contains ''fail-open'' w \<or> contains ''failing open'' w) (d_warnings d)"

definition decision_status :: "policy_decision \<Rightarrow> upstream_status" where
  "decision_status d = (case d_decision d of
       Allow \<Rightarrow>
         if d_fail_open d \<or> mentions_fail_open d then
           (if d_failure d = Some ''timeout'' then TimedOut
            else if d_failure d = Some ''skipped'' then SkippedCheck else FailedOpen)
         else if d_warnings d \<noteq> [] then Warned else Succeeded
     | Warn \<Rightarrow> Warned
     | Deny \<Rightarrow> Denied
     | NeedsReview \<Rightarrow> ReviewNeeded)"

fun decision_name :: "decision_type \<Rightarrow> string" where
  "decision_name Allow = ''allow''"
| "decision_name Deny = ''deny''"
| "decision_name Warn = ''warn''"
| "decision_name NeedsReview = ''needs_review''"

definition decision_reason :: "policy_decision \<Rightarrow> string" where
  "decision_reason d =
     (if d_decision d = Allow \<and> d_cached d then ''cached_allow''
      else if d_decision d = Allow \<and> (d_fail_open d \<or> mentions_fail_open d) then
        (case d_failure d of Some f \<Rightarrow> if f \<noteq> [] then f else ''fail_open'' | None \<Rightarrow> ''fail_open'')
      else if d_violations d \<noteq> [] then v_rule (hd (d_violations d))
      else if d_warnings d \<noteq> [] then ''warning''
      else decision_name (d_decision d))"

definition decision_message :: "policy_decision \<Rightarrow> json" where
  "decision_message d =
     (if d_warnings d \<noteq> [] then JStr (hd (d_warnings d))
      else if d_violations d \<noteq> [] then v_message (hd (d_violations d)) else JNull)"

text \<open>\<open>reason_code or _policy_reason_code(decision)\<close>\<close>

definition record_policy_outcome :: "'s policy \<Rightarrow> policy_decision \<Rightarrow> string option \<Rightarrow> outcome" where
  "record_policy_outcome p d reason =
     \<lparr>o_policy = p_id p, o_status = decision_status d,
      o_reason = (case reason of Some r \<Rightarrow> r | None \<Rightarrow> decision_reason d),
      o_message = decision_message d, o_cached = d_cached d\<rparr>"

text \<open>What an evaluation accumulates: the decisions, the telemetry, the collected states.\<close>

record evaluation =
  e_decisions :: "policy_decision list"
  e_outcomes :: "outcome list"
  e_collected :: "(string, json) dict"

definition decided :: "'s policy \<Rightarrow> policy_decision \<Rightarrow> string option \<Rightarrow> evaluation \<Rightarrow> evaluation" where
  "decided p d reason ev =
     ev\<lparr>e_decisions := e_decisions ev @ [d], e_outcomes := e_outcomes ev @ [record_policy_outcome p d reason]\<rparr>"

definition failed_decision :: "decision_type \<Rightarrow> bool \<Rightarrow> string \<Rightarrow> string \<Rightarrow> string \<Rightarrow> policy_decision" where
  "failed_decision d is_open pid warning failure =
     (plain_decision d pid)\<lparr>d_warnings := [warning], d_fail_open := is_open, d_failure := Some failure\<rparr>"

text \<open>In fail-open mode an \<open>applies_to\<close> error reaches telemetry only: no decision is appended.\<close>

definition applies_failed :: "fail_mode \<Rightarrow> 's policy \<Rightarrow> string \<Rightarrow> evaluation \<Rightarrow> evaluation" where
  "applies_failed mode p e ev =
     (if mode = FailClosed then
        decided p (failed_decision Deny False (p_id p) (''Policy applies_to() failed (fail-closed): '' @ e) ''applies_to_error'')
          (Some ''applies_to_error'') ev
      else
        ev\<lparr>e_outcomes := e_outcomes ev @
          [record_policy_outcome p
             (failed_decision Allow True (p_id p) (''Policy applies_to() failed (fail-open): '' @ e) ''applies_to_error'')
             (Some ''applies_to_fail_open'')]\<rparr>)"

definition evaluate_failed :: "fail_mode \<Rightarrow> 's policy \<Rightarrow> string \<Rightarrow> evaluation \<Rightarrow> evaluation" where
  "evaluate_failed mode p e ev =
     (if mode = FailOpen then
        decided p (failed_decision Allow True (p_id p) (''Policy evaluation failed (fail-open): '' @ e) ''policy_error'')
          (Some ''evaluate_fail_open'') ev
      else
        decided p (failed_decision Deny False (p_id p) (''Policy evaluation failed (fail-closed): '' @ e) ''policy_error'')
          (Some ''evaluate_error'') ev)"

definition collect_state :: "'s policy \<Rightarrow> 's \<Rightarrow> evaluation \<Rightarrow> evaluation" where
  "collect_state p s ev =
     (case p_state p of
        None \<Rightarrow> ev
      | Some (get, _) \<Rightarrow>
          (case get s of Inl _ \<Rightarrow> ev | Inr v \<Rightarrow> ev\<lparr>e_collected := dset (e_collected ev) (p_id p) v\<rparr>))"

definition run_policy ::
  "string \<Rightarrow> fail_mode \<Rightarrow> action_context \<Rightarrow> 's slot \<Rightarrow> evaluation \<Rightarrow> 's slot \<times> evaluation" where
  "run_policy now mode c slot ev =
     (case slot of (p, s) \<Rightarrow>
     (case p_applies p c s of
        (s1, Inl e) \<Rightarrow> ((p, s1), applies_failed mode p e ev)
      | (s1, Inr False) \<Rightarrow> ((p, s1), ev)
      | (s1, Inr True) \<Rightarrow>
          (case p_eval p c s1 of
             (s2, Inl e) \<Rightarrow> ((p, s2), evaluate_failed mode p e ev)
           | (s2, Inr d) \<Rightarrow>
               ((p, s2), collect_state p s2 (decided p (d\<lparr>d_evaluated_at := Some now\<rparr>) None ev)))))"

section \<open>The engine\<close>

record 's engine =
  g_policies :: "'s slot list"
  g_mode :: fail_mode
  g_resolver :: "'s slot option"
  g_collected :: "(string, json) dict"

definition new_engine :: "fail_mode \<Rightarrow> 's engine" where
  "new_engine mode = \<lparr>g_policies = [], g_mode = mode, g_resolver = None, g_collected = []\<rparr>"

definition register :: "'s slot \<Rightarrow> 's engine \<Rightarrow> 's engine" where
  "register slot e = e\<lparr>g_policies := g_policies e @ [slot]\<rparr>"

definition register_resolver :: "'s slot \<Rightarrow> 's engine \<Rightarrow> 's engine" where
  "register_resolver slot e = e\<lparr>g_resolver := Some slot\<rparr>"

definition all_policies :: "'s engine \<Rightarrow> 's slot list" where
  "all_policies e = (case g_resolver e of Some r \<Rightarrow> g_policies e @ [r] | None \<Rightarrow> g_policies e)"

definition registered_policy_ids :: "'s engine \<Rightarrow> string list" where
  "registered_policy_ids e = map (p_id \<circ> fst) (all_policies e)"

text \<open>A failing \<open>set_state\<close> is logged; the policy keeps the state it was left with.\<close>

definition restore_slot :: "jobj \<Rightarrow> 's slot \<Rightarrow> 's slot" where
  "restore_slot persisted slot =
     (case slot of (p, s) \<Rightarrow>
     (case p_state p of
        None \<Rightarrow> (p, s)
      | Some (_, put) \<Rightarrow>
          (case dget persisted (p_id p) of
             None \<Rightarrow> (p, s)
           | Some v \<Rightarrow> if v = JNull then (p, s) else (p, fst (put v s)))))"

definition restore_state :: "jobj option \<Rightarrow> 's engine \<Rightarrow> 's engine" where
  "restore_state persisted e =
     (case persisted of
        None \<Rightarrow> e
      | Some d \<Rightarrow> e\<lparr>g_policies := map (restore_slot d) (g_policies e), g_resolver := map_option (restore_slot d) (g_resolver e)\<rparr>)"

fun run_all ::
  "string \<Rightarrow> fail_mode \<Rightarrow> action_context \<Rightarrow> 's slot list \<Rightarrow> evaluation \<Rightarrow> 's slot list \<times> evaluation" where
  "run_all now mode c [] ev = ([], ev)"
| "run_all now mode c (x # xs) ev =
     (case run_policy now mode c x ev of (x', ev1) \<Rightarrow>
      (case run_all now mode c xs ev1 of (xs', ev2) \<Rightarrow> (x' # xs', ev2)))"

definition any_decision :: "decision_type \<Rightarrow> policy_decision list \<Rightarrow> bool" where
  "any_decision k ds = list_ex (\<lambda>d. d_decision d = k) ds"

text \<open>The composition loop, over the final decision, the blocking violations, the warnings and \<open>needs_review\<close>.\<close>

fun compose ::
  "policy_decision list \<Rightarrow> decision_type \<times> violation list \<times> string list \<times> bool \<Rightarrow>
   decision_type \<times> violation list \<times> string list \<times> bool" where
  "compose [] acc = acc"
| "compose (d # ds) (fd, blocking, warnings, review) =
     compose ds
       (if d_decision d = Deny then (Deny, blocking @ d_violations d, warnings @ d_warnings d, review)
        else if d_decision d = NeedsReview then (fd, blocking, warnings @ d_warnings d, True)
        else if d_decision d = Warn \<and> fd = Allow then (Warn, blocking, warnings @ d_warnings d, review)
        else (fd, blocking, warnings @ d_warnings d, review))"

definition resolver_ids :: "'s engine \<Rightarrow> string list" where
  "resolver_ids e = ''semantic.supervisor'' # (case g_resolver e of Some (p, _) \<Rightarrow> [p_id p] | None \<Rightarrow> [])"

definition review_resolved :: "'s engine \<Rightarrow> policy_decision list \<Rightarrow> bool" where
  "review_resolved e ds = list_ex (\<lambda>d. d_policy d \<in> set (resolver_ids e) \<and> d_decision d \<noteq> NeedsReview) ds"

definition no_evaluation :: evaluation where
  "no_evaluation = \<lparr>e_decisions = [], e_outcomes = [], e_collected = []\<rparr>"

definition evaluate_engine ::
  "string \<Rightarrow> action_context \<Rightarrow> 's engine \<Rightarrow> 's engine \<times> composite_decision \<times> outcome list" where
  "evaluate_engine now c e =
     (case run_all now (g_mode e) c (g_policies e) no_evaluation of (policies, ev) \<Rightarrow>
     (case (case g_resolver e of
              Some r \<Rightarrow>
                if any_decision NeedsReview (e_decisions ev) \<and> \<not> any_decision Deny (e_decisions ev)
                then (case run_policy now (g_mode e) c r ev of (r', ev') \<Rightarrow> (Some r', ev'))
                else (Some r, ev)
            | None \<Rightarrow> (None, ev)) of (resolver, ev1) \<Rightarrow>
     (case compose (e_decisions ev1) (Allow, [], [], False) of (fd, blocking, warnings, review) \<Rightarrow>
       (e\<lparr>g_policies := policies, g_resolver := resolver, g_collected := e_collected ev1\<rparr>,
        \<lparr>k_final = (if review \<and> \<not> review_resolved e (e_decisions ev1) \<and> fd \<noteq> Deny then NeedsReview else fd),
         k_decisions = e_decisions ev1, k_blocking = blocking, k_warnings = warnings\<rparr>,
        e_outcomes ev1))))"

definition build_engine ::
  "unicode \<Rightarrow> string list \<Rightarrow> fail_mode \<Rightarrow> (string, jobj) dict \<Rightarrow> string + json list engine" where
  "build_engine u bundles mode config =
     (case collect_all (\<lambda>b. map_sum id (\<lambda>_. [()]) (validate_bundle_name b)) (dkeys config) of
        Inl e \<Rightarrow> Inl e
      | Inr _ \<Rightarrow>
          (case collect_all (\<lambda>b. get_bundle_policies u b (dget config b)) bundles of
             Inl e \<Rightarrow> Inl e
           | Inr ps \<Rightarrow> Inr (fold (\<lambda>p e. register (p, []) e) ps (new_engine mode))))"

section \<open>The policy state of the manifest\<close>

definition max_decision_log :: nat where
  "max_decision_log = 100"

fun severity_name :: "severity \<Rightarrow> string" where
  "severity_name Critical = ''critical''"
| "severity_name High = ''high''"
| "severity_name Medium = ''medium''"
| "severity_name Low = ''low''"

fun provenance_name :: "provenance \<Rightarrow> string" where
  "provenance_name FromUnknown = ''unknown''"
| "provenance_name FromPolicy = ''policy''"
| "provenance_name FromReviewer = ''reviewer''"

definition opt_json :: "string option \<Rightarrow> json" where
  "opt_json v = (case v of Some s \<Rightarrow> JStr s | None \<Rightarrow> JNull)"

definition serialize_citation :: "verified_citation \<Rightarrow> json" where
  "serialize_citation c =
     JObj [(''source'', JStr (vc_source c)), (''digest'', JStr (vc_digest c)), (''start'', JInt (int (vc_start c))),
           (''end'', JInt (int (vc_end c))), (''text'', JStr (vc_text c))]"

definition serialize_violation :: "violation \<Rightarrow> json" where
  "serialize_violation v =
     JObj [(''rule_id'', JStr (v_rule v)), (''message'', v_message v), (''severity'', JStr (severity_name (v_severity v))),
           (''evidence'', v_evidence v), (''suggested_fix'', v_fix v), (''citations'', JList (map JStr (v_citations v))),
           (''provenance'', JStr (provenance_name (v_provenance v))),
           (''verified_citations'', JList (map serialize_citation (v_verified v)))]"

definition serialize_decision :: "policy_decision \<Rightarrow> json" where
  "serialize_decision d =
     JObj [(''decision'', JStr (decision_name (d_decision d))), (''policy_id'', JStr (d_policy d)),
           (''violations'', JList (map serialize_violation (d_violations d))),
           (''warnings'', JList (map JStr (d_warnings d))),
           (''warning_findings'', JList (map serialize_violation (d_findings d))),
           (''diagnostic_codes'', JList (map JStr (d_codes d))), (''fail_open'', JBool (d_fail_open d)),
           (''failure_type'', opt_json (d_failure d)), (''intent'', opt_json (d_intent d)),
           (''cached'', JBool (d_cached d)), (''evaluated_at'', opt_json (d_evaluated_at d))]"

definition serialize_composite_decision :: "string \<Rightarrow> composite_decision \<Rightarrow> string option \<Rightarrow> json" where
  "serialize_composite_decision now k summary =
     JObj [(''final_decision'', JStr (decision_name (k_final k))), (''context_summary'', opt_json summary),
           (''blocking_violations'', JList (map serialize_violation (k_blocking k))),
           (''warnings'', JList (map JStr (k_warnings k))), (''evaluated_at'', JStr now),
           (''decisions'', JList (map serialize_decision (k_decisions k)))]"

text \<open>\<open>PolicyConfirmed\<close>, and the dict of the same fields that the update is built from.\<close>

record policy_confirmed =
  pc_version :: "string option"
  pc_bundles :: "string list"
  pc_rules :: "string list"
  pc_log :: "json list"
  pc_states :: jobj

definition no_confirmed :: policy_confirmed where
  "no_confirmed = \<lparr>pc_version = None, pc_bundles = [], pc_rules = [], pc_log = [], pc_states = []\<rparr>"

definition last_n :: "nat \<Rightarrow> 'a list \<Rightarrow> 'a list" where
  "last_n n xs = drop (length xs - n) xs"

definition build_policy_state_update ::
  "string \<Rightarrow> composite_decision \<Rightarrow> (string, json) dict \<Rightarrow> policy_confirmed option \<Rightarrow> string option \<Rightarrow>
   string list \<Rightarrow> string list \<Rightarrow> string option \<Rightarrow> policy_confirmed" where
  "build_policy_state_update now k engine_state existing version bundles rules summary =
     (let ex = (case existing of Some p \<Rightarrow> p | None \<Rightarrow> no_confirmed);
          log = pc_log ex @ [serialize_composite_decision now k summary]
      in \<lparr>pc_version = (case version of Some v \<Rightarrow> if v \<noteq> [] then Some v else pc_version ex | None \<Rightarrow> pc_version ex),
          pc_bundles = (if bundles \<noteq> [] then bundles else pc_bundles ex),
          pc_rules = (if rules \<noteq> [] then rules else pc_rules ex),
          pc_log = (if length log > max_decision_log then last_n max_decision_log log else log),
          pc_states = fold (\<lambda>(k, v) d. dset d k v) engine_state (pc_states ex)\<rparr>)"

section \<open>The hooks\<close>

text \<open>The policy section of the effective intent that the hooks use; \<open>ps_supervisor\<close>: one is active.\<close>

record policy_setup =
  ps_enabled :: bool
  ps_supervisor :: bool
  ps_mode :: fail_mode
  ps_bundles :: "string list"
  ps_config :: "(string, jobj) dict"

text \<open>The semantic policies the hook registers: regular ones (supervisor or plan check), and the resolver.\<close>

record semantic =
  sem_policies :: "json list slot list"
  sem_resolver :: "json list slot option"

definition build_hook_engine :: "unicode \<Rightarrow> policy_setup \<Rightarrow> string + json list engine" where
  "build_hook_engine u setup = build_engine u (ps_bundles setup) (ps_mode setup) (ps_config setup)"

definition register_and_restore :: "semantic \<Rightarrow> jobj option \<Rightarrow> json list engine \<Rightarrow> json list engine" where
  "register_and_restore sem persisted e =
     (let e1 = fold register (sem_policies sem) e;
          e2 = (case sem_resolver sem of Some r \<Rightarrow> register_resolver r e1 | None \<Rightarrow> e1)
      in restore_state persisted e2)"

definition blocks :: "composite_decision \<Rightarrow> bool" where
  "blocks k \<longleftrightarrow> k_final k \<in> {Deny, NeedsReview}"

text \<open>\<open>sort_contexts_tests_first\<close>: a stable sort.\<close>

definition sort_contexts_tests_first :: "action_context list \<Rightarrow> action_context list" where
  "sort_contexts_tests_first cs = sort_key (\<lambda>c. tests_first_sort_key (c_path c)) cs"

text \<open>The loop of \<open>codex_policy_check\<close>: the collected states of the files are aggregated.\<close>

fun evaluate_files ::
  "string \<Rightarrow> action_context list \<Rightarrow> json list engine \<Rightarrow> (string, json) dict \<Rightarrow>
   (string, json) dict \<times> (action_context \<times> composite_decision) list" where
  "evaluate_files now [] e agg = (agg, [])"
| "evaluate_files now (c # cs) e agg =
     (case evaluate_engine now c e of (e', k, _) \<Rightarrow>
     (case evaluate_files now cs e' (fold (\<lambda>(k, v) d. dset d k v) (g_collected e') agg) of (agg', ks) \<Rightarrow>
       (agg', (c, k) # ks)))"

text \<open>
  What a check answers: whether the action is blocked, the states to persist, and the results in
  order. \<open>None\<close>: the hook allows without an evaluation (disabled, nothing to run, no engine).
\<close>

definition policy_check ::
  "unicode \<Rightarrow> policy_setup \<Rightarrow> semantic \<Rightarrow> string \<Rightarrow> action_context \<Rightarrow> jobj option \<Rightarrow>
   (bool \<times> (string, json) dict \<times> (action_context \<times> composite_decision) list) option" where
  "policy_check u setup sem now c persisted =
     (if \<not> ps_enabled setup \<or> (ps_bundles setup = [] \<and> \<not> ps_supervisor setup) then None
      else (case build_hook_engine u setup of
        Inl _ \<Rightarrow> None
      | Inr e \<Rightarrow>
          (case evaluate_engine now c (register_and_restore sem persisted e) of (e', k, _) \<Rightarrow>
             Some (blocks k, if blocks k then [] else g_collected e', [(c, k)]))))"

definition codex_policy_check ::
  "unicode \<Rightarrow> policy_setup \<Rightarrow> semantic \<Rightarrow> string \<Rightarrow> action_context list \<Rightarrow> jobj option \<Rightarrow>
   (bool \<times> (string, json) dict \<times> (action_context \<times> composite_decision) list) option" where
  "codex_policy_check u setup sem now contexts persisted =
     (if \<not> ps_enabled setup \<or> (ps_bundles setup = [] \<and> \<not> ps_supervisor setup) \<or> contexts = [] then None
      else (case build_hook_engine u setup of
        Inl _ \<Rightarrow> None
      | Inr e \<Rightarrow>
          (case evaluate_files now (sort_contexts_tests_first contexts) (register_and_restore sem persisted e) [] of
             (agg, ks) \<Rightarrow>
               let blocked = list_ex (\<lambda>(_, k). blocks k) ks in Some (blocked, if blocked then [] else agg, ks))))"

text \<open>
  \<open>_persist_policy_decisions\<close> on the policy section of the manifest, which it reads again under the
  lock: one log entry per result, and the collected states merged into the fresh ones.
\<close>

definition persist_policy_decisions ::
  "string \<Rightarrow> policy_setup \<Rightarrow> string list \<Rightarrow> (string, json) dict \<Rightarrow> (action_context \<times> composite_decision) list \<Rightarrow>
   (action_context \<Rightarrow> string) \<Rightarrow> policy_confirmed option \<Rightarrow> policy_confirmed" where
  "persist_policy_decisions now setup rules engine_state entries summary confirmed =
     (case fold (\<lambda>(c, k) st. Some (build_policy_state_update now k engine_state st None (ps_bundles setup) rules
                                     (Some (summary c)))) entries confirmed of
        Some p \<Rightarrow> p | None \<Rightarrow> no_confirmed)"

section \<open>Composition\<close>

lemma compose_result:
  "compose ds (fd, b, w, rv) =
     (if any_decision Deny ds then Deny else if fd = Allow \<and> any_decision Warn ds then Warn else fd,
      b @ concat (map d_violations (filter (\<lambda>d. d_decision d = Deny) ds)), w @ concat (map d_warnings ds),
      rv \<or> any_decision NeedsReview ds)"
  by (induction ds arbitrary: fd b w rv) (auto simp: any_decision_def)

text \<open>What one policy adds to the decisions of an evaluation.\<close>

definition contribution :: "string \<Rightarrow> fail_mode \<Rightarrow> action_context \<Rightarrow> 's slot \<Rightarrow> policy_decision list" where
  "contribution now mode c slot = e_decisions (snd (run_policy now mode c slot no_evaluation))"

lemmas run_defs = run_policy_def applies_failed_def evaluate_failed_def decided_def collect_state_def

lemma run_policy_decisions:
  "e_decisions (snd (run_policy now mode c slot ev)) = e_decisions ev @ contribution now mode c slot"
  by (auto simp: contribution_def run_defs no_evaluation_def split: prod.splits sum.splits bool.splits option.splits)

lemma run_policy_fst: "fst (fst (run_policy now mode c slot ev)) = fst slot"
  by (auto simp: run_policy_def split: prod.splits sum.splits bool.splits)

lemma run_all_decisions:
  "e_decisions (snd (run_all now mode c xs ev)) = e_decisions ev @ concat (map (contribution now mode c) xs)"
proof (induction xs arbitrary: ev)
  case Nil
  show ?case by simp
next
  case (Cons x xs)
  obtain x' ev1 xs' ev2 where x: "run_policy now mode c x ev = (x', ev1)" "run_all now mode c xs ev1 = (xs', ev2)"
    by (metis prod.collapse)
  with run_policy_decisions [of now mode c x ev] Cons [of ev1] show ?case by simp
qed

text \<open>The decisions of an evaluation, and when the resolver adds one.\<close>

definition resolver_runs :: "policy_decision list \<Rightarrow> bool" where
  "resolver_runs ds \<longleftrightarrow> any_decision NeedsReview ds \<and> \<not> any_decision Deny ds"

lemma evaluate_eval:
  assumes "evaluate_engine now c e = (e', k, outs)"
  defines "ds \<equiv> concat (map (contribution now (g_mode e) c) (g_policies e))"
  shows "k_decisions k = ds @ (case g_resolver e of Some r \<Rightarrow> if resolver_runs ds then contribution now (g_mode e) c r else []
      | None \<Rightarrow> [])" (is "_ = ?ks")
    and "k_blocking k = concat (map d_violations (filter (\<lambda>d. d_decision d = Deny) (k_decisions k)))"
    and "k_warnings k = concat (map d_warnings (k_decisions k))"
    and "k_final k =
      (if any_decision Deny (k_decisions k) then Deny
       else if any_decision NeedsReview (k_decisions k) \<and> \<not> review_resolved e (k_decisions k) then NeedsReview
       else if any_decision Warn (k_decisions k) then Warn else Allow)"
    and "\<not> resolver_runs ds \<Longrightarrow> g_resolver e' = g_resolver e"
proof -
  obtain ps ev where r: "run_all now (g_mode e) c (g_policies e) no_evaluation = (ps, ev)" by (metis prod.collapse)
  then have ev: "e_decisions ev = ds"
    using run_all_decisions [of now "g_mode e" c "g_policies e" no_evaluation] by (simp add: ds_def no_evaluation_def)
  have *: "k_decisions k = ?ks \<and> k_blocking k = concat (map d_violations (filter (\<lambda>d. d_decision d = Deny) (k_decisions k))) \<and>
    k_warnings k = concat (map d_warnings (k_decisions k)) \<and>
    k_final k = (if any_decision Deny (k_decisions k) then Deny
       else if any_decision NeedsReview (k_decisions k) \<and> \<not> review_resolved e (k_decisions k) then NeedsReview
       else if any_decision Warn (k_decisions k) then Warn else Allow) \<and>
    (\<not> resolver_runs ds \<longrightarrow> g_resolver e' = g_resolver e)"
  proof (cases "g_resolver e")
    case None
    with assms(1) r ev show ?thesis
      by (auto simp: evaluate_engine_def compose_result resolver_runs_def)
  next
    case (Some x)
    show ?thesis
    proof (cases "resolver_runs ds")
      case True
      obtain x' ev' where x: "run_policy now (g_mode e) c x ev = (x', ev')" by (metis prod.collapse)
      then have "e_decisions ev' = ds @ contribution now (g_mode e) c x"
        using run_policy_decisions [of now "g_mode e" c x ev] ev by simp
      with assms(1) r ev x Some True show ?thesis
        by (auto simp: evaluate_engine_def compose_result resolver_runs_def)
    next
      case False
      with assms(1) r ev Some show ?thesis
        by (auto simp: evaluate_engine_def compose_result resolver_runs_def)
    qed
  qed
  then show "k_decisions k = ?ks"
    and "k_blocking k = concat (map d_violations (filter (\<lambda>d. d_decision d = Deny) (k_decisions k)))"
    and "k_warnings k = concat (map d_warnings (k_decisions k))"
    and "k_final k = (if any_decision Deny (k_decisions k) then Deny
       else if any_decision NeedsReview (k_decisions k) \<and> \<not> review_resolved e (k_decisions k) then NeedsReview
       else if any_decision Warn (k_decisions k) then Warn else Allow)"
    and "\<not> resolver_runs ds \<Longrightarrow> g_resolver e' = g_resolver e" by blast+
qed
lemma contribution_eq:
  "contribution now mode c (p, s) = (case p_applies p c s of
       (s1, Inl x) \<Rightarrow> if mode = FailClosed then [failed_decision Deny False (p_id p) (''Policy applies_to() failed (fail-closed): '' @ x) ''applies_to_error''] else []
     | (s1, Inr False) \<Rightarrow> []
     | (s1, Inr True) \<Rightarrow> (case snd (p_eval p c s1) of
         Inl x \<Rightarrow> if mode = FailOpen then [failed_decision Allow True (p_id p) (''Policy evaluation failed (fail-open): '' @ x) ''policy_error'']
                  else [failed_decision Deny False (p_id p) (''Policy evaluation failed (fail-closed): '' @ x) ''policy_error'']
       | Inr d \<Rightarrow> [d\<lparr>d_evaluated_at := Some now\<rparr>]))"
  by (auto simp: contribution_def run_defs no_evaluation_def split: prod.splits sum.splits bool.splits option.splits)

text \<open>A policy that raises in \<open>applies_to\<close> or in \<open>evaluate\<close>; one whose own answer is a deny.\<close>

definition raises :: "action_context \<Rightarrow> 's slot \<Rightarrow> bool" where
  "raises c slot = (case slot of (p, s) \<Rightarrow>
     (case p_applies p c s of (s1, Inl _) \<Rightarrow> True | (s1, Inr b) \<Rightarrow> b \<and> isl (snd (p_eval p c s1))))"

definition answers :: "action_context \<Rightarrow> 's slot \<Rightarrow> policy_decision option" where
  "answers c slot = (case slot of (p, s) \<Rightarrow>
     (case p_applies p c s of
        (s1, Inr True) \<Rightarrow> (case snd (p_eval p c s1) of Inr d \<Rightarrow> Some d | Inl _ \<Rightarrow> None) | _ \<Rightarrow> None))"

lemma contribution_raises:
  "raises c slot \<Longrightarrow> any_decision Deny (contribution now FailClosed c slot)"
  by (cases slot) (auto simp: contribution_eq raises_def any_decision_def failed_decision_def plain_decision_def
      split: prod.splits sum.splits bool.splits)

lemma failed_decision_simps [simp]: "d_decision (failed_decision k b p w f) = k" "d_policy (failed_decision k b p w f) = p"
  by (simp_all add: failed_decision_def plain_decision_def)

lemma contribution_denies:
  assumes "d \<in> set (contribution now FailOpen c slot)" "d_decision d = Deny"
  shows "\<exists>d0. answers c slot = Some d0 \<and> d_decision d0 = Deny"
proof -
  obtain p s s1 r where "slot = (p, s)" "p_applies p c s = (s1, r)" by (metis prod.collapse)
  with assms show ?thesis
    by (cases r; cases "projr r"; cases "snd (p_eval p c s1)") (auto simp: contribution_eq answers_def)
qed

lemma any_decision_iff: "any_decision k ds \<longleftrightarrow> (\<exists>d \<in> set ds. d_decision d = k)"
  by (simp add: any_decision_def list_ex_iff)

lemma any_deny_final:
  assumes "evaluate_engine now c e = (e', k, outs)"
  shows "k_final k = Deny \<longleftrightarrow> (\<exists>d \<in> set (k_decisions k). d_decision d = Deny)"
  using evaluate_eval(4) [OF assms] by (auto simp: any_decision_iff split: if_splits)

text \<open>
  C14. Any deny blocks. The final decision is a deny exactly when some decision is; the blocking
  violations are those of the denying decisions and the warnings those of all, in order. In
  fail-closed mode a regular policy that raises in \<open>applies_to\<close> or \<open>evaluate\<close> blocks the action; in
  fail-open mode a deny is always a policy's own answer, never an error.
\<close>

theorem any_deny_blocks:
  assumes "evaluate_engine now c e = (e', k, outs)"
  shows "(k_final k = Deny \<longleftrightarrow> (\<exists>d \<in> set (k_decisions k). d_decision d = Deny)) \<and>
    k_blocking k = concat (map d_violations (filter (\<lambda>d. d_decision d = Deny) (k_decisions k))) \<and>
    k_warnings k = concat (map d_warnings (k_decisions k)) \<and>
    (g_mode e = FailClosed \<and> (\<exists>slot \<in> set (g_policies e). raises c slot) \<longrightarrow> k_final k = Deny) \<and>
    (g_mode e = FailOpen \<and> k_final k = Deny \<longrightarrow>
       (\<exists>slot \<in> set (all_policies e). \<exists>d. answers c slot = Some d \<and> d_decision d = Deny))"
proof (intro conjI impI)
  let ?ds = "concat (map (contribution now (g_mode e) c) (g_policies e))"
  note ev = evaluate_eval [OF assms]
  show final: "k_final k = Deny \<longleftrightarrow> (\<exists>d \<in> set (k_decisions k). d_decision d = Deny)"
    by (rule any_deny_final [OF assms])
  show "k_blocking k = concat (map d_violations (filter (\<lambda>d. d_decision d = Deny) (k_decisions k)))" "k_warnings k = concat (map d_warnings (k_decisions k))"
    by (fact ev(2), fact ev(3))
  show "k_final k = Deny" if closed: "g_mode e = FailClosed \<and> (\<exists>slot \<in> set (g_policies e). raises c slot)"
  proof -
    from closed have "any_decision Deny ?ds"
      using contribution_raises [of c _ now] by (fastforce simp: any_decision_iff)
    then show ?thesis using ev(1) unfolding final by (auto simp: any_decision_iff)
  qed
  show "\<exists>slot \<in> set (all_policies e). \<exists>d. answers c slot = Some d \<and> d_decision d = Deny" if opn: "g_mode e = FailOpen \<and> k_final k = Deny"
  proof -
    from opn obtain d slot where "d \<in> set (contribution now FailOpen c slot)" "d_decision d = Deny" "slot \<in> set (all_policies e)"
      using ev(1) unfolding final by (auto simp: all_policies_def split: option.splits if_splits)
    with contribution_denies show ?thesis by blast
  qed
qed

definition sample_unicode :: unicode where
  "sample_unicode = \<lparr>u_space = (\<lambda>_. False), u_word = (\<lambda>_. True), u_shown = (\<lambda>_. [])\<rparr>"

definition sample_write :: "string \<Rightarrow> string \<Rightarrow> action_context" where
  "sample_write path content_of =
     \<lparr>c_origin = ''claude_code'', c_event = ''PreToolUse.Write'', c_tool = ''Write'', c_args = [], c_root = ''/r'',
      c_session = ''s1'', c_path = Some path, c_content = Some (codes content_of), c_diff = None, c_fingerprint = None,
      c_native = None\<rparr>"

text \<open>An engine of the TDD bundle, with a policy that fails.\<close>

definition broken_policy :: "json list policy" where
  "broken_policy = (no_skip_tests sample_unicode)\<lparr>p_id := ''semantic.supervisor'', p_eval := (\<lambda>c s. (s, Inl ''timeout''))\<rparr>"

definition sample_engine :: "fail_mode \<Rightarrow> json list engine" where
  "sample_engine mode = (new_engine mode)\<lparr>g_policies := [(tdd_policy True, [JStr ''tests/a.py'']), (broken_policy, [])]\<rparr>"

theorem any_deny_blocks_witness:
  "\<exists>e' k outs. evaluate_engine ''t'' (sample_write ''src/a.py'' ''x = 1'') (sample_engine FailClosed) = (e', k, outs) \<and>
     k_final k = Deny \<and> length (k_decisions k) = 2"
proof -
  let ?e = "evaluate_engine ''t'' (sample_write ''src/a.py'' ''x = 1'') (sample_engine FailClosed)"
  obtain e' k outs where run: "?e = (e', k, outs)" by (metis prod.collapse)
  have "length (k_decisions (fst (snd ?e))) = 2" by code_simp
  moreover have "raises (sample_write ''src/a.py'' ''x = 1'') (broken_policy, [])" by code_simp
  ultimately show ?thesis
    using run any_deny_blocks [OF run] by (auto simp: sample_engine_def new_engine_def)
qed

text \<open>
  C15. Review is never dropped silently. The final decision is \<open>needs_review\<close> exactly when nothing
  denied, a policy asked for review, and every decision of a resolver, if there is one, asks for it
  too; so an action that is let through after a request for review has a decision of the resolver
  that allows it. The resolver is not consulted, and keeps its state, unless a policy asked for review.
\<close>

theorem review_needs_resolution:
  assumes "evaluate_engine now c e = (e', k, outs)"
  shows "(k_final k = NeedsReview \<longleftrightarrow>
      (\<forall>d \<in> set (k_decisions k). d_decision d \<noteq> Deny) \<and> (\<exists>d \<in> set (k_decisions k). d_decision d = NeedsReview) \<and>
      (\<forall>d \<in> set (k_decisions k). d_policy d \<in> set (resolver_ids e) \<longrightarrow> d_decision d = NeedsReview)) \<and>
    (\<not> blocks k \<and> (\<exists>d \<in> set (k_decisions k). d_decision d = NeedsReview) \<longrightarrow>
      (\<exists>d \<in> set (k_decisions k). d_policy d \<in> set (resolver_ids e) \<and> d_decision d \<in> {Allow, Warn})) \<and>
    ((\<forall>d \<in> set (k_decisions k). d_decision d \<noteq> NeedsReview) \<longrightarrow> g_resolver e' = g_resolver e)"
proof (intro conjI impI)
  note ev = evaluate_eval [OF assms]
  show final: "k_final k = NeedsReview \<longleftrightarrow>
      (\<forall>d \<in> set (k_decisions k). d_decision d \<noteq> Deny) \<and> (\<exists>d \<in> set (k_decisions k). d_decision d = NeedsReview) \<and>
      (\<forall>d \<in> set (k_decisions k). d_policy d \<in> set (resolver_ids e) \<longrightarrow> d_decision d = NeedsReview)"
    unfolding ev(4) review_resolved_def by (auto simp: any_decision_iff list_ex_iff)
  assume "\<not> blocks k \<and> (\<exists>d \<in> set (k_decisions k). d_decision d = NeedsReview)"
  with final any_deny_final [OF assms] show "\<exists>d \<in> set (k_decisions k). d_policy d \<in> set (resolver_ids e) \<and> d_decision d \<in> {Allow, Warn}"
    by (auto simp: blocks_def intro: decision_type.exhaust)
next
  assume "\<forall>d \<in> set (k_decisions k). d_decision d \<noteq> NeedsReview"
  then show "g_resolver e' = g_resolver e"
    using evaluate_eval(1) [OF assms] by (intro evaluate_eval(5) [OF assms]) (auto simp: resolver_runs_def any_decision_iff)
qed

definition reviewing_policy :: "string \<Rightarrow> decision_type \<Rightarrow> json list policy" where
  "reviewing_policy pid answer = stateless pid writes_file (\<lambda>_. plain_decision answer pid)"

definition cascade_engine :: "decision_type \<Rightarrow> json list engine" where
  "cascade_engine answer =
     (new_engine FailOpen)\<lparr>g_policies := [(reviewing_policy ''semantic.plan_check'' NeedsReview, [])],
       g_resolver := Some (reviewing_policy ''semantic.supervisor'' answer, [])\<rparr>"

theorem review_needs_resolution_witness:
  "\<exists>e' k outs d. evaluate_engine ''t'' (sample_write ''src/a.py'' ''x = 1'') (cascade_engine Warn) = (e', k, outs) \<and>
     \<not> blocks k \<and> d \<in> set (k_decisions k) \<and> d_policy d = ''semantic.supervisor'' \<and> d_decision d \<in> {Allow, Warn}"
proof -
  let ?e = "evaluate_engine ''t'' (sample_write ''src/a.py'' ''x = 1'') (cascade_engine Warn)"
  obtain e' k outs where run: "?e = (e', k, outs)" by (metis prod.collapse)
  have "\<not> blocks (fst (snd ?e))" "any_decision NeedsReview (k_decisions (fst (snd ?e)))"
    "set (resolver_ids (cascade_engine Warn)) = {''semantic.supervisor''}" by code_simp+
  with run review_needs_resolution [OF run] show ?thesis by (auto simp: any_decision_iff)
qed

end
