(* ===== verification/Gate.thy ===== *)
theory Gate
  imports Engine
begin

text \<open>
  What the TDD policy achieves over the many short-lived hook processes of a session. Each hook reads
  the persisted policy states, rebuilds the engine, evaluates an action (or all files of a patch) and
  merges the collected states back, unless the action was blocked; hooks of one session overlap.

  The first part follows a strict TDD policy through an evaluation (\<open>strict_engine\<close>); the second is a
  step relation of overlapping hooks, with an invariant of its reachable states.
\<close>

section \<open>Tests before implementation\<close>

text \<open>Actions that the TDD policy is about.\<close>

definition tests_write :: "action_context \<Rightarrow> bool" where
  "tests_write c \<longleftrightarrow> writes_file c \<and> is_under_directory (c_path c) ''tests''"

definition impl_write :: "action_context \<Rightarrow> bool" where
  "impl_write c \<longleftrightarrow> writes_file c \<and> is_under_directory (c_path c) ''src'' \<and> \<not> is_under_directory (c_path c) ''tests''"

lemma under_Some: "is_under_directory p d \<Longrightarrow> p \<noteq> None"
  by (auto simp: is_under_directory_def split: option.splits)

lemma tdd_applies_iff: "tdd_applies c \<longleftrightarrow> tests_write c \<or> impl_write c"
  by (auto simp: tdd_applies_def tests_write_def impl_write_def dest: under_Some)

lemma set_add_not_Nil [simp]: "set_add v xs \<noteq> []"
  by (auto simp: set_add_def)

text \<open>The touched set after an evaluation of the policy, whether or not it applies.\<close>

definition touch :: "action_context \<Rightarrow> json list \<Rightarrow> json list" where
  "touch c t = (if tests_write c then set_add (JStr (the (c_path c))) t else t)"

lemma touch_Nil_iff [simp]: "touch c t = [] \<longleftrightarrow> t = [] \<and> \<not> tests_write c"
  by (simp add: touch_def)

lemma touch_other: "\<not> tdd_applies c \<Longrightarrow> touch c t = t"
  by (simp add: touch_def tdd_applies_iff)

lemma touch_hashable: "list_all hashable t \<Longrightarrow> list_all hashable (touch c t)"
  by (simp add: touch_def set_add_def)

lemma tdd_evaluate_eq:
  "tdd_applies c \<Longrightarrow> tdd_evaluate True c t =
     (touch c t, if impl_write c \<and> t = [] then deny_by tdd_id tdd_intent [tdd_violation (the (c_path c))] else allow_by tdd_id)"
  by (auto simp: tdd_applies_iff tdd_evaluate_def touch_def tests_write_def impl_write_def dest!: under_Some split: option.splits)

lemma run_tdd:
  "run_policy now mode c (tdd_policy True, t) ev =
     (if tdd_applies c then
        ((tdd_policy True, touch c t),
         (decided (tdd_policy True)
            ((if impl_write c \<and> t = [] then deny_by tdd_id tdd_intent [tdd_violation (the (c_path c))] else allow_by tdd_id)
               \<lparr>d_evaluated_at := Some now\<rparr>) None ev)
           \<lparr>e_collected := dset (e_collected ev) tdd_id (tdd_get_state (touch c t))\<rparr>)
      else ((tdd_policy True, t), ev))"
  by (simp add: run_policy_def tdd_policy_def tdd_evaluate_eq collect_state_def decided_def)

lemma run_other_collected:
  "p_id p \<noteq> tdd_id \<Longrightarrow> dget (e_collected (snd (run_policy now mode c (p, s) ev))) tdd_id = dget (e_collected ev) tdd_id"
  by (auto simp: run_defs split: prod.splits sum.splits bool.splits option.splits)

text \<open>A list of slots whose TDD policies are strict and have touched \<open>t\<close>.\<close>

definition strict_slots :: "json list \<Rightarrow> json list slot list \<Rightarrow> bool" where
  "strict_slots t xs \<longleftrightarrow> (\<forall>(p, s) \<in> set xs. p_id p = tdd_id \<longrightarrow> p = tdd_policy True \<and> s = t)"

definition has_tdd :: "json list slot list \<Rightarrow> bool" where
  "has_tdd xs \<longleftrightarrow> (\<exists>(p, s) \<in> set xs. p_id p = tdd_id)"

lemma strict_slots_Cons: "strict_slots t (x # xs) \<longleftrightarrow> (p_id (fst x) = tdd_id \<longrightarrow> x = (tdd_policy True, t)) \<and> strict_slots t xs"
  by (cases x) (auto simp: strict_slots_def)

lemma has_tdd_simps [simp]: "\<not> has_tdd []" "has_tdd (x # xs) \<longleftrightarrow> p_id (fst x) = tdd_id \<or> has_tdd xs"
  by (cases x; auto simp: has_tdd_def)+

lemma run_all_strict:
  assumes "strict_slots t xs" "run_all now mode c xs ev = (xs', ev')"
  shows "strict_slots (touch c t) xs' \<and> (has_tdd xs' \<longleftrightarrow> has_tdd xs) \<and>
    dget (e_collected ev') tdd_id =
      (if has_tdd xs \<and> tdd_applies c then Some (tdd_get_state (touch c t)) else dget (e_collected ev) tdd_id) \<and>
    (has_tdd xs \<and> impl_write c \<and> t = [] \<longrightarrow> any_decision Deny (e_decisions ev'))"
  using assms
proof (induction xs arbitrary: ev xs' ev')
  case Nil
  then show ?case by (simp add: strict_slots_def)
next
  case (Cons x xs)
  obtain x1 ev1 xs1 where x: "run_policy now mode c x ev = (x1, ev1)" "run_all now mode c xs ev1 = (xs1, ev')" "xs' = x1 # xs1"
    using Cons.prems(2) by (auto split: prod.splits)
  have id: "fst x1 = fst x" using run_policy_fst [of now mode c x ev] x(1) by simp
  have mono: "any_decision Deny (e_decisions ev1) \<Longrightarrow> any_decision Deny (e_decisions ev')"
    using run_all_decisions [of now mode c xs ev1] x(2) by (auto simp: any_decision_iff)
  note IH = Cons.IH [OF _ x(2)]
  show ?case
  proof (cases "p_id (fst x) = tdd_id")
    case True
    with Cons.prems(1) have "x = (tdd_policy True, t)" "strict_slots t xs" by (simp_all add: strict_slots_Cons)
    with x IH id True mono show ?thesis
      by (auto simp: run_tdd strict_slots_Cons decided_def any_decision_iff touch_other tdd_applies_iff deny_by_def plain_decision_def
          split: if_splits)
  next
    case False
    with Cons.prems(1) have "strict_slots t xs" by (simp add: strict_slots_Cons)
    moreover have "dget (e_collected ev1) tdd_id = dget (e_collected ev) tdd_id"
      using run_other_collected [of "fst x" now mode c "snd x" ev] x(1) False by simp
    ultimately show ?thesis using x IH id False by (auto simp: strict_slots_Cons)
  qed
qed
lemma run_policy_dwf: "dwf (e_collected ev) \<Longrightarrow> dwf (e_collected (snd (run_policy now mode c x ev)))"
  by (auto simp: run_defs dwf_dset split: prod.splits sum.splits bool.splits option.splits)

lemma run_all_dwf: "dwf (e_collected ev) \<Longrightarrow> dwf (e_collected (snd (run_all now mode c xs ev)))"
proof (induction xs arbitrary: ev)
  case Nil
  then show ?case by simp
next
  case (Cons x xs)
  obtain x' ev1 xs' ev2 where x: "run_policy now mode c x ev = (x', ev1)" "run_all now mode c xs ev1 = (xs', ev2)"
    by (metis prod.collapse)
  with run_policy_dwf [of ev now mode c x] Cons.IH [of ev1] Cons.prems show ?case by simp
qed

lemma evaluate_dwf:
  assumes "evaluate_engine now c e = (e', k, outs)"
  shows "dwf (g_collected e')"
proof -
  obtain ps ev where r: "run_all now (g_mode e) c (g_policies e) no_evaluation = (ps, ev)" by (metis prod.collapse)
  have "dwf (e_collected ev)" using run_all_dwf [of no_evaluation now "g_mode e" c "g_policies e"] r by (simp add: no_evaluation_def)
  moreover have "dwf (e_collected ev')" if "run_policy now (g_mode e) c x ev = (x', ev')" for x x' ev'
    using run_policy_dwf [OF calculation, of now "g_mode e" c x] that by simp
  ultimately show ?thesis
    using assms r by (auto simp: evaluate_engine_def split: option.splits prod.splits if_splits)
qed

text \<open>An engine with a strict TDD policy among its regular ones.\<close>

definition strict_engine :: "json list \<Rightarrow> json list engine \<Rightarrow> bool" where
  "strict_engine t e \<longleftrightarrow> strict_slots t (g_policies e) \<and> has_tdd (g_policies e) \<and> list_all hashable t \<and>
     (case g_resolver e of Some (p, _) \<Rightarrow> p_id p \<noteq> tdd_id | None \<Rightarrow> True)"

lemma evaluate_strict:
  assumes "strict_engine t e" "evaluate_engine now c e = (e', k, outs)"
  shows "strict_engine (touch c t) e' \<and> dwf (g_collected e') \<and>
    dget (g_collected e') tdd_id = (if tdd_applies c then Some (tdd_get_state (touch c t)) else None) \<and>
    (impl_write c \<and> t = [] \<longrightarrow> blocks k)"
proof -
  obtain ps ev where r: "run_all now (g_mode e) c (g_policies e) no_evaluation = (ps, ev)" by (metis prod.collapse)
  note s = assms(1) [unfolded strict_engine_def]
  have slots: "strict_slots (touch c t) ps" "has_tdd ps"
    "dget (e_collected ev) tdd_id = (if tdd_applies c then Some (tdd_get_state (touch c t)) else None)"
    "impl_write c \<and> t = [] \<longrightarrow> any_decision Deny (e_decisions ev)"
    using run_all_strict [OF _ r, of t] s by (auto simp: no_evaluation_def)
  have dwf: "dwf (e_collected ev)" using run_all_dwf [of no_evaluation now "g_mode e" c "g_policies e"] r by (simp add: no_evaluation_def)
  have block: "impl_write c \<and> t = [] \<longrightarrow> blocks k"
    using slots(4) evaluate_eval(1) [OF assms(2)] any_deny_final [OF assms(2)]
      run_all_decisions [of now "g_mode e" c "g_policies e" no_evaluation] r
    by (auto simp: any_decision_iff blocks_def no_evaluation_def)
  have hash: "list_all hashable (touch c t)" using s by (simp add: touch_hashable)
  show ?thesis
  proof (cases "\<exists>x. g_resolver e = Some x \<and> any_decision NeedsReview (e_decisions ev) \<and> \<not> any_decision Deny (e_decisions ev)")
    case False
    with assms(2) r have "g_policies e' = ps \<and> g_resolver e' = g_resolver e \<and> g_collected e' = e_collected ev"
      by (auto simp: evaluate_engine_def split: option.splits prod.splits)
    with slots dwf block hash s show ?thesis by (auto simp: strict_engine_def)
  next
    case True
    then obtain p u where x: "g_resolver e = Some (p, u)" "any_decision NeedsReview (e_decisions ev)" "\<not> any_decision Deny (e_decisions ev)"
      by (metis prod.collapse)
    with s have other: "p_id p \<noteq> tdd_id" by simp
    obtain x' ev' where x': "run_policy now (g_mode e) c (p, u) ev = (x', ev')" by (metis prod.collapse)
    with assms(2) r x have "g_policies e' = ps \<and> g_resolver e' = Some x' \<and> g_collected e' = e_collected ev'"
      by (auto simp: evaluate_engine_def split: prod.splits)
    moreover have "fst x' = p" using run_policy_fst [of now "g_mode e" c "(p, u)" ev] x' by simp
    ultimately show ?thesis
      using slots block hash other run_policy_dwf [OF dwf, of now "g_mode e" c "(p, u)"]
        run_other_collected [OF other, of now "g_mode e" c u ev] x'
      by (auto simp: strict_engine_def split: prod.splits)
  qed
qed

lemma map_of_rev_dwf:
  assumes "dwf xs"
  shows "map_of (rev xs) k = map_of xs k"
proof (cases "map_of xs k")
  case None
  then have "k \<notin> set (dkeys (rev xs))" by (simp add: dget_None_iff)
  then have "dget (rev xs) k = None" by (rule dget_None_iff [THEN iffD2])
  with None show ?thesis by simp
next
  case (Some v)
  have "dwf (rev xs)" using assms by (metis distinct_rev rev_map)
  moreover have "(k, v) \<in> set (rev xs)" using map_of_SomeD [OF Some] by simp
  ultimately show ?thesis using Some by (simp add: map_of_is_SomeI)
qed

lemma merge_get:
  "dwf xs \<Longrightarrow> dget (fold (\<lambda>(k, v) d. dset d k v) xs d) k = (case dget xs k of Some v \<Rightarrow> Some v | None \<Rightarrow> dget d k)"
  by (simp add: pydict.get_fold_put map_of_rev_dwf split: option.splits)

lemma merge_dwf: "dwf d \<Longrightarrow> dwf (fold (\<lambda>(k, v) d. dset d k v) xs d)"
  by (rule pydict.ok_fold_put)

text \<open>The states that a hook persists for the TDD policy: what it touched, backed by \<open>seen\<close>.\<close>

definition backed :: "bool \<Rightarrow> (string, json) dict \<Rightarrow> bool" where
  "backed seen d \<longleftrightarrow>
     (\<forall>v. dget d tdd_id = Some v \<longrightarrow> (\<exists>xs. v = tdd_get_state xs \<and> list_all hashable xs \<and> (xs \<noteq> [] \<longrightarrow> seen)))"

text \<open>Non-empty TDD state; the same set is what the policy restores from it.\<close>

definition filled :: "(string, json) dict \<Rightarrow> bool" where
  "filled d \<longleftrightarrow> (\<forall>v. dget d tdd_id = Some v \<longrightarrow> (\<exists>xs. v = tdd_get_state xs \<and> list_all hashable xs \<and> xs \<noteq> []))"

lemma evaluate_files_strict:
  assumes "strict_engine t e" "evaluate_files now cs e agg = (agg', ks)" "dwf agg"
    and "t \<noteq> [] \<longrightarrow> seen" "\<forall>c \<in> set cs. tests_write c \<longrightarrow> seen" "backed seen agg"
  shows "map fst ks = cs \<and> dwf agg' \<and> backed seen agg' \<and> (\<forall>(c, k) \<in> set ks. impl_write c \<and> \<not> blocks k \<longrightarrow> seen) \<and>
    ((\<forall>(c, k) \<in> set ks. \<not> blocks k) \<and> filled agg \<longrightarrow> filled agg') \<and>
    ((\<exists>c \<in> set cs. tests_write c) \<or> dget agg tdd_id \<noteq> None \<longrightarrow> dget agg' tdd_id \<noteq> None)"
  using assms
proof (induction cs arbitrary: t e agg agg' ks)
  case Nil
  then show ?case by simp
next
  case (Cons c cs)
  obtain e1 k o1 where e1: "evaluate_engine now c e = (e1, k, o1)" by (metis prod.collapse)
  let ?agg = "fold (\<lambda>(k, v) d. dset d k v) (g_collected e1) agg"
  obtain ks1 where ks: "evaluate_files now cs e1 ?agg = (agg', ks1)" "ks = (c, k) # ks1"
    using Cons.prems(2) e1 by (auto split: prod.splits)
  note s = evaluate_strict [OF Cons.prems(1) e1]
  have h: "list_all hashable (touch c t)" using s by (simp add: strict_engine_def)
  have get: "dget ?agg tdd_id = (if tdd_applies c then Some (tdd_get_state (touch c t)) else dget agg tdd_id)"
    using s by (simp add: merge_get split: option.splits)
  have b: "backed seen ?agg" using Cons.prems(4-6) get h by (auto simp: backed_def)
  have f: "filled agg \<Longrightarrow> \<not> blocks k \<Longrightarrow> filled ?agg"
    using s get h by (auto simp: filled_def tdd_applies_iff)
  have touched: "touch c t \<noteq> [] \<longrightarrow> seen" using Cons.prems(4,5) by auto
  note IH = Cons.IH [OF _ ks(1) merge_dwf [OF Cons.prems(3)] touched _ b]
  have "tests_write c \<or> dget agg tdd_id \<noteq> None \<Longrightarrow> dget ?agg tdd_id \<noteq> None"
    using get by (auto simp: tdd_applies_iff)
  with IH s Cons.prems(4,5) f ks(2) show ?case by auto
qed

text \<open>A single file is the case of one context.\<close>

lemma dset_new: "k \<notin> set (dkeys d) \<Longrightarrow> dset d k v = d @ [(k, v)]"
  by (induction d) auto

lemma merge_append: "dwf xs \<Longrightarrow> set (dkeys d) \<inter> set (dkeys xs) = {} \<Longrightarrow> fold (\<lambda>(k, v) d. dset d k v) xs d = d @ xs"
proof (induction xs arbitrary: d)
  case Nil
  then show ?case by simp
next
  case (Cons x xs)
  then have "dset d (fst x) (snd x) = d @ [x]" by (simp add: dset_new)
  with Cons show ?case by (cases x) auto
qed

lemma policy_check_single:
  assumes "build_hook_engine u setup = Inr e"
  shows "policy_check u setup sem now c st = codex_policy_check u setup sem now [c] st"
proof -
  obtain e1 k o1 where e1: "evaluate_engine now c (register_and_restore sem st e) = (e1, k, o1)" by (metis prod.collapse)
  have "dwf (g_collected e1)" using evaluate_dwf [OF e1] .
  then have "fold (\<lambda>(k, v) d. dset d k v) (g_collected e1) [] = g_collected e1" by (simp add: merge_append)
  with assms e1 show ?thesis
    by (simp add: policy_check_def codex_policy_check_def sort_contexts_tests_first_def Let_def)
qed

section \<open>The engine of a hook\<close>

lemma collect_all_mem: "collect_all f xs = Inr ys \<Longrightarrow> y \<in> set ys \<longleftrightarrow> (\<exists>x \<in> set xs. \<exists>zs. f x = Inr zs \<and> y \<in> set zs)"
  by (induction xs arbitrary: ys) (auto split: sum.splits)

lemma collect_all_Inr: "collect_all f xs = Inr ys \<Longrightarrow> x \<in> set xs \<Longrightarrow> \<exists>zs. f x = Inr zs"
  by (induction xs arbitrary: ys) (auto split: sum.splits)

lemma register_fold:
  "g_policies (fold (\<lambda>p e. register (p, s) e) ps e) = g_policies e @ map (\<lambda>p. (p, s)) ps"
  "g_resolver (fold (\<lambda>p e. register (p, s) e) ps e) = g_resolver e"
  by (induction ps arbitrary: e) (simp_all add: register_def)

lemma register_slots:
  "g_policies (fold register xs e) = g_policies e @ xs" "g_resolver (fold register xs e) = g_resolver e"
  by (induction xs arbitrary: e) (simp_all add: register_def)

lemmas policy_ids = tdd_id_def no_skip_id_def no_type_checking_id_def no_backward_compat_id_def no_emoji_id_def

lemma bundle_tdd:
  assumes "get_bundle_policies u b config = Inr ps" "p \<in> set ps"
  shows "p_id p = tdd_id \<longleftrightarrow> (\<exists>strict. b = ''tdd'' \<and> tdd_strict config = Inr strict \<and> p = tdd_policy strict)"
proof -
  from assms(1) have "b = ''tdd'' \<or> b = ''coding_standards''"
    by (auto simp: get_bundle_policies_def validate_bundle_name_def bundle_classes_def split: sum.splits if_splits)
  then show ?thesis
  proof
    assume b: "b = ''tdd''"
    with assms have "\<exists>k \<in> {TDDEnforcement, NoSkipTests}. make_policy u config k = Inr p"
      by (auto simp: get_bundle_policies_def validate_bundle_name_def bundle_classes_def split: sum.splits)
    with b show ?thesis
      by (auto simp: make_policy_def tdd_policy_def no_skip_tests_def stateless_def policy_ids split: sum.splits)
  next
    assume b: "b = ''coding_standards''"
    with assms have "p \<in> {no_type_checking u, no_backward_compat u, no_emoji u}"
      by (auto simp: get_bundle_policies_def validate_bundle_name_def bundle_classes_def make_policy_def split: sum.splits)
    with b show ?thesis
      by (auto simp: no_type_checking_def no_backward_compat_def no_emoji_def stateless_def policy_ids)
  qed
qed

lemma bundle_has_tdd:
  assumes "get_bundle_policies u ''tdd'' config = Inr ps" "tdd_strict config = Inr strict"
  shows "tdd_policy strict \<in> set ps"
  using assms by (simp add: get_bundle_policies_def validate_bundle_name_def bundle_classes_def make_policy_def)
    (auto split: sum.splits)

lemma tdd_policy_id [simp]: "p_id (tdd_policy b) = tdd_id"
  by (simp add: tdd_policy_def)

text \<open>A configuration in which the TDD bundle is enabled and strict.\<close>

definition strict_setup :: "policy_setup \<Rightarrow> bool" where
  "strict_setup setup \<longleftrightarrow> ps_enabled setup \<and> ''tdd'' \<in> set (ps_bundles setup) \<and>
     tdd_strict (dget (ps_config setup) ''tdd'') = Inr True"

definition semantic_ids :: "semantic \<Rightarrow> bool" where
  "semantic_ids sem \<longleftrightarrow> (\<forall>(p, s) \<in> set (sem_policies sem). p_id p \<noteq> tdd_id) \<and>
     (case sem_resolver sem of Some (p, _) \<Rightarrow> p_id p \<noteq> tdd_id | None \<Rightarrow> True)"

lemma built_strict:
  assumes "build_hook_engine u setup = Inr e" "strict_setup setup"
  shows "strict_slots [] (g_policies e) \<and> has_tdd (g_policies e) \<and> g_resolver e = None"
proof -
  from assms(1) obtain ps where ps: "collect_all (\<lambda>b. get_bundle_policies u b (dget (ps_config setup) b)) (ps_bundles setup) = Inr ps"
    and e: "e = fold (\<lambda>p e. register (p, []) e) ps (new_engine (ps_mode setup))"
    by (auto simp: build_hook_engine_def build_engine_def split: sum.splits)
  have strict: "p = tdd_policy True" if "p \<in> set ps" "p_id p = tdd_id" for p
    using that bundle_tdd assms(2) unfolding strict_setup_def by (auto simp: collect_all_mem [OF ps])
  obtain qs where qs: "get_bundle_policies u ''tdd'' (dget (ps_config setup) ''tdd'') = Inr qs"
    using collect_all_Inr [OF ps] assms(2) by (auto simp: strict_setup_def)
  have "tdd_policy True \<in> set qs" using bundle_has_tdd [OF qs] assms(2) by (simp add: strict_setup_def)
  with qs assms(2) have "tdd_policy True \<in> set ps"
    unfolding collect_all_mem [OF ps] strict_setup_def by blast
  moreover have "g_policies e = map (\<lambda>p. (p, [])) ps" "g_resolver e = None"
    by (simp_all add: e register_fold new_engine_def)
  moreover have "strict_slots [] (map (\<lambda>p. (p, [])) ps)" using strict by (auto simp: strict_slots_def)
  moreover have "has_tdd (map (\<lambda>p. (p, [])) ps)"
    unfolding has_tdd_def using \<open>tdd_policy True \<in> set ps\<close> by (intro bexI [of _ "(tdd_policy True, [])"]) auto
  ultimately show ?thesis by simp
qed

text \<open>The set that the policy restores from the persisted states.\<close>

definition restored :: "jobj option \<Rightarrow> json list" where
  "restored st =
     (case st of None \<Rightarrow> []
      | Some d \<Rightarrow> (case dget d tdd_id of None \<Rightarrow> [] | Some v \<Rightarrow> if v = JNull then [] else fst (tdd_set_state v [])))"

lemma set_add_hashable: "hashable v \<Longrightarrow> list_all hashable xs \<Longrightarrow> list_all hashable (set_add v xs)"
  by (simp add: set_add_def)

lemma fold_set_add:
  "list_all hashable vs \<Longrightarrow> list_all hashable xs \<Longrightarrow> list_all hashable (fold set_add vs xs)"
  "fold set_add vs xs = [] \<longleftrightarrow> vs = [] \<and> xs = []"
proof -
  show "fold set_add vs xs = [] \<longleftrightarrow> vs = [] \<and> xs = []"
    by (induction vs arbitrary: xs) auto
  show "list_all hashable vs \<Longrightarrow> list_all hashable xs \<Longrightarrow> list_all hashable (fold set_add vs xs)"
    by (induction vs arbitrary: xs) (auto simp: set_add_hashable)
qed

lemma set_of_json_hashable: "set_of_json v = Inr xs \<Longrightarrow> list_all hashable xs"
proof (cases v)
  case (JList ys)
  then show "set_of_json v = Inr xs \<Longrightarrow> list_all hashable xs"
    using fold_set_add(1) [of ys "[]"] by (auto simp: set_of_json_def split: if_splits)
next
  case (JStr s)
  have "list_all hashable (map (\<lambda>c. JStr [c]) s)" by (simp add: list_all_iff)
  with JStr show "set_of_json v = Inr xs \<Longrightarrow> list_all hashable xs"
    using fold_set_add(1) [of "map (\<lambda>c. JStr [c]) s" "[]"] by (auto simp: set_of_json_def)
qed (auto simp: set_of_json_def list_all_iff)

lemma tdd_set_state_hashable: "list_all hashable t \<Longrightarrow> list_all hashable (fst (tdd_set_state v t))"
  by (auto simp: tdd_set_state_def set_of_json_hashable split: json.splits sum.splits)

lemma restored_hashable: "list_all hashable (restored st)"
  by (simp add: restored_def tdd_set_state_hashable split: option.splits)

lemma restored_state: "list_all hashable xs \<Longrightarrow> dget d tdd_id = Some (tdd_get_state xs) \<Longrightarrow> restored (Some d) = fold set_add xs []"
  by (simp add: restored_def tdd_get_state_def tdd_set_state_def set_of_json_def)

lemma restore_slot_tdd: "restore_slot d (tdd_policy True, []) = (tdd_policy True, restored (Some d))"
  by (simp add: restore_slot_def restored_def tdd_policy_def split: option.splits)

lemma restore_slot_fst [simp]: "fst (restore_slot d x) = fst x"
  by (auto simp: restore_slot_def split: prod.splits option.splits)

lemma strict_restore:
  "strict_slots [] xs \<Longrightarrow> strict_slots (restored (Some d)) (map (restore_slot d) xs) \<and> has_tdd (map (restore_slot d) xs) = has_tdd xs"
  by (induction xs) (auto simp: strict_slots_Cons restore_slot_tdd, simp add: strict_slots_def)

lemma restored_strict:
  assumes "build_hook_engine u setup = Inr e" "strict_setup setup" "semantic_ids sem"
  shows "strict_engine (restored st) (register_and_restore sem st e)"
proof -
  note b = built_strict [OF assms(1,2)]
  let ?e = "case sem_resolver sem of Some r \<Rightarrow> register_resolver r (fold register (sem_policies sem) e) | None \<Rightarrow> fold register (sem_policies sem) e"
  have slots: "g_policies ?e = g_policies e @ sem_policies sem" and r: "g_resolver ?e = sem_resolver sem"
    using b by (auto simp: register_resolver_def register_slots split: option.splits)
  have s: "strict_slots [] (g_policies ?e)" "has_tdd (g_policies ?e)"
    using b assms(3) unfolding slots by (auto simp: strict_slots_def has_tdd_def semantic_ids_def)
  show ?thesis
  proof (cases st)
    case None
    with s r assms(3) show ?thesis
      by (auto simp: register_and_restore_def restore_state_def strict_engine_def restored_def semantic_ids_def split: option.splits)
  next
    case (Some d)
    with s r assms(3) strict_restore [OF s(1), of d] restored_hashable [of st] show ?thesis
      by (auto simp: register_and_restore_def restore_state_def strict_engine_def semantic_ids_def Let_def
          split: option.splits) (metis fst_conv restore_slot_fst)+
  qed
qed

section \<open>Overlapping hooks\<close>

datatype hook_call = ClaudeCall action_context | CodexCall "action_context list"

fun call_contexts :: "hook_call \<Rightarrow> action_context list" where
  "call_contexts (ClaudeCall c) = [c]"
| "call_contexts (CodexCall cs) = cs"

definition run_hook ::
  "unicode \<Rightarrow> policy_setup \<Rightarrow> semantic \<Rightarrow> string \<Rightarrow> hook_call \<Rightarrow> jobj option \<Rightarrow>
   (bool \<times> (string, json) dict \<times> (action_context \<times> composite_decision) list) option" where
  "run_hook u setup sem now call persisted =
     (case call of
        ClaudeCall c \<Rightarrow> policy_check u setup sem now c persisted
      | CodexCall cs \<Rightarrow> codex_policy_check u setup sem now cs persisted)"

text \<open>A hook that ended: what it was asked about, and whether it blocked and persisted its states.\<close>

record hook_event =
  h_contexts :: "action_context list"
  h_blocked :: bool
  h_persisted :: bool

record gate =
  gt_confirmed :: "policy_confirmed option"
  gt_running :: "(jobj option \<times> hook_call) list"
  gt_history :: "hook_event list"

definition gate_states :: "gate \<Rightarrow> jobj option" where
  "gate_states g = map_option pc_states (gt_confirmed g)"

text \<open>
  A hook reads the states when it begins; when it ends, it answers from what it read, and its write,
  which may fail, applies to the states of that moment.
\<close>

inductive gate_step :: "unicode \<Rightarrow> policy_setup \<Rightarrow> semantic \<Rightarrow> gate \<Rightarrow> gate \<Rightarrow> bool" for u :: unicode and cfg :: policy_setup and sem :: semantic where
  gate_begin:
    "gate_step u cfg sem g (g\<lparr>gt_running := (gate_states g, call) # gt_running g\<rparr>)"
| gate_end:
    "(snap, call) \<in> set (gt_running g) \<Longrightarrow> run_hook u cfg sem now call snap = Some (blocked, st, ks) \<Longrightarrow>
     gate_step u cfg sem g
       (g\<lparr>gt_confirmed := (if saved then Some (persist_policy_decisions now cfg rules st ks summary (gt_confirmed g))
                           else gt_confirmed g),
         gt_running := remove1 (snap, call) (gt_running g),
         gt_history := gt_history g @ [\<lparr>h_contexts = call_contexts call, h_blocked = blocked, h_persisted = saved\<rparr>]\<rparr>)"

inductive gate_reachable :: "unicode \<Rightarrow> policy_setup \<Rightarrow> semantic \<Rightarrow> gate \<Rightarrow> bool" for u :: unicode and cfg :: policy_setup and sem :: semantic where
  gate_fresh: "gate_reachable u cfg sem \<lparr>gt_confirmed = None, gt_running = [], gt_history = []\<rparr>"
| gate_next: "gate_reachable u cfg sem g \<Longrightarrow> gate_step u cfg sem g g' \<Longrightarrow> gate_reachable u cfg sem g'"

text \<open>A test was written: a hook let the write through and persisted it.\<close>

definition tests_landed :: "hook_event list \<Rightarrow> bool" where
  "tests_landed h \<longleftrightarrow> (\<exists>ev \<in> set h. \<not> h_blocked ev \<and> h_persisted ev \<and> (\<exists>c \<in> set (h_contexts ev). tests_write c))"

lemma tests_landed_append [simp]: "tests_landed (h @ [ev]) \<longleftrightarrow>
    tests_landed h \<or> (\<not> h_blocked ev \<and> h_persisted ev \<and> (\<exists>c \<in> set (h_contexts ev). tests_write c))"
  by (auto simp: tests_landed_def)

text \<open>What a hook's answer owes to the states it read.\<close>

definition ok_states :: "bool \<Rightarrow> jobj option \<Rightarrow> bool" where
  "ok_states seen st = (case st of None \<Rightarrow> True | Some d \<Rightarrow> dwf d \<and> backed seen d \<and> filled d)"

lemma ok_states_mono: "ok_states seen st \<Longrightarrow> seen \<longrightarrow> seen' \<Longrightarrow> ok_states seen' st"
  by (auto simp: ok_states_def backed_def split: option.splits)

lemma ok_restored: "ok_states seen st \<Longrightarrow> restored st \<noteq> [] \<longrightarrow> seen"
proof (cases "\<exists>d v. st = Some d \<and> dget d tdd_id = Some v")
  case True
  then show "ok_states seen st \<Longrightarrow> restored st \<noteq> [] \<longrightarrow> seen"
    by (auto simp: ok_states_def backed_def restored_state fold_set_add(2))
next
  case False
  then have "restored st = []" by (auto simp: restored_def split: option.splits)
  then show "restored st \<noteq> [] \<longrightarrow> seen" by simp
qed

lemma filled_restored: "ok_states seen (Some d) \<Longrightarrow> dget d tdd_id \<noteq> None \<Longrightarrow> restored (Some d) \<noteq> []"
  by (auto simp: ok_states_def filled_def restored_state fold_set_add(2))

lemma run_hook_codex:
  "build_hook_engine u setup = Inr e \<Longrightarrow>
   run_hook u setup sem now call st = codex_policy_check u setup sem now (call_contexts call) st"
  by (cases call) (simp_all add: run_hook_def policy_check_single)

lemma run_hook_strict:
  assumes "build_hook_engine u setup = Inr e" "strict_setup setup" "semantic_ids sem"
    and run: "run_hook u setup sem now call snap = Some (blocked, st, ks)"
    and snap: "ok_states before snap"
  shows "dwf st \<and> ks \<noteq> [] \<and> (blocked \<longrightarrow> st = []) \<and>
    backed (before \<or> (\<exists>c \<in> set (call_contexts call). tests_write c)) st \<and> filled st \<and>
    (\<not> blocked \<and> (\<exists>c \<in> set (call_contexts call). impl_write c) \<longrightarrow> before \<or> (\<exists>c \<in> set (call_contexts call). tests_write c)) \<and>
    (\<not> blocked \<and> (\<exists>c \<in> set (call_contexts call). tests_write c) \<longrightarrow> dget st tdd_id \<noteq> None)"
proof -
  let ?cs = "call_contexts call"
  let ?seen = "before \<or> (\<exists>c \<in> set ?cs. tests_write c)"
  let ?e = "register_and_restore sem snap e"
  obtain agg where files: "evaluate_files now (sort_contexts_tests_first ?cs) ?e [] = (agg, ks)"
    and b: "blocked = list_ex (\<lambda>(_, k). blocks k) ks" "st = (if blocked then [] else agg)" and ne: "?cs \<noteq> []"
    using run assms(1) unfolding run_hook_codex [OF assms(1)] codex_policy_check_def
    by (auto simp: Let_def split: if_splits prod.splits)
  have cs: "set (sort_contexts_tests_first ?cs) = set ?cs" by (simp add: sort_contexts_tests_first_def)
  have "restored snap \<noteq> [] \<longrightarrow> ?seen" using ok_restored [OF snap] by blast
  then have r: "map fst ks = sort_contexts_tests_first ?cs \<and> dwf agg \<and> backed ?seen agg \<and>
      (\<forall>(c, k) \<in> set ks. impl_write c \<and> \<not> blocks k \<longrightarrow> ?seen) \<and> ((\<forall>(c, k) \<in> set ks. \<not> blocks k) \<and> filled [] \<longrightarrow> filled agg) \<and>
      ((\<exists>c \<in> set (sort_contexts_tests_first ?cs). tests_write c) \<or> dget ([] :: jobj) tdd_id \<noteq> None \<longrightarrow> dget agg tdd_id \<noteq> None)"
    by (intro evaluate_files_strict [OF restored_strict [OF assms(1-3)] files]) (auto simp: cs backed_def)
  have impl: "?seen" if "\<not> blocked" "c \<in> set ?cs" "impl_write c" for c
  proof -
    have "c \<in> fst ` set ks" using that(2) r cs by (metis list.set_map)
    then obtain k where "(c, k) \<in> set ks" by auto
    with r that b(1) show ?thesis by (auto simp: list_ex_iff)
  qed
  have "ks \<noteq> []" using r ne cs by (metis list.map_disc_iff set_empty)
  with r b impl cs show ?thesis by (auto simp: backed_def filled_def list_ex_iff split: if_splits)
qed

text \<open>The states after a hook's write: the collected ones, over those it found.\<close>

lemma update_states:
  "pc_states (build_policy_state_update now k st ex v b r s) = fold (\<lambda>(k, v) d. dset d k v) st (case ex of Some p \<Rightarrow> pc_states p | None \<Rightarrow> [])"
  by (simp add: build_policy_state_update_def Let_def no_confirmed_def split: option.splits)

lemma merge_states:
  assumes "dwf st" "ks \<noteq> []" "dwf old" "old = (case ex of Some p \<Rightarrow> pc_states p | None \<Rightarrow> [])"
  shows "\<exists>p. fold (\<lambda>(c, k) e. Some (build_policy_state_update now k st e None (ps_bundles cfg) rules (Some (summary c)))) ks ex = Some p \<and>
    dwf (pc_states p) \<and> (\<forall>k. dget (pc_states p) k = (case dget st k of Some v \<Rightarrow> Some v | None \<Rightarrow> dget old k))"
  using assms(2-4)
proof (induction ks arbitrary: ex old)
  case Nil
  then show ?case by simp
next
  case (Cons x ks)
  let ?p = "build_policy_state_update now (snd x) st ex None (ps_bundles cfg) rules (Some (summary (fst x)))"
  have p: "pc_states ?p = fold (\<lambda>(k, v) d. dset d k v) st old" "dwf (pc_states ?p)"
    using Cons.prems by (simp_all add: update_states merge_dwf)
  show ?case
  proof (cases "ks = []")
    case True
    with p show ?thesis by (cases x) (simp add: merge_get [OF assms(1)])
  next
    case False
    from Cons.IH [OF False p(2), of "Some ?p"] obtain q where
      q: "fold (\<lambda>(c, k) e. Some (build_policy_state_update now k st e None (ps_bundles cfg) rules (Some (summary c)))) ks (Some ?p) = Some q"
      "dwf (pc_states q)" "\<forall>k. dget (pc_states q) k = (case dget st k of Some v \<Rightarrow> Some v | None \<Rightarrow> dget (pc_states ?p) k)"
      by auto
    have "dget (pc_states q) k = (case dget st k of Some v \<Rightarrow> Some v | None \<Rightarrow> dget old k)" for k
      using q(3) p(1) by (simp add: merge_get [OF assms(1)] split: option.split)
    with q(1,2) show ?thesis by (cases x) auto
  qed
qed

lemma persisted_states:
  assumes "dwf st" "ks \<noteq> []" "case gate_states g of None \<Rightarrow> True | Some d \<Rightarrow> dwf d"
    and "p = persist_policy_decisions now cfg rules st ks summary (gt_confirmed g)"
  shows "dwf (pc_states p) \<and> dget (pc_states p) tdd_id = (case dget st tdd_id of Some v \<Rightarrow> Some v
     | None \<Rightarrow> (case gate_states g of None \<Rightarrow> None | Some d \<Rightarrow> dget d tdd_id))"
  using merge_states [OF assms(1,2) _ refl, of "gt_confirmed g" now cfg rules summary] assms(3,4)
  by (cases "gt_confirmed g") (auto simp: persist_policy_decisions_def gate_states_def split: option.splits)

lemma ok_states_merge:
  assumes "dwf d" "dget d tdd_id = (case dget st tdd_id of Some v \<Rightarrow> Some v
     | None \<Rightarrow> (case old of None \<Rightarrow> None | Some d \<Rightarrow> dget d tdd_id))"
    and "backed seen st" "filled st" "ok_states seen old"
  shows "ok_states seen (Some d)"
proof (cases "dget st tdd_id")
  case None
  with assms show ?thesis by (cases old) (simp_all add: ok_states_def backed_def filled_def)
next
  case (Some v)
  with assms show ?thesis by (simp add: ok_states_def backed_def filled_def)
qed

text \<open>The invariant of the reachable states.\<close>

definition gate_inv :: "gate \<Rightarrow> bool" where
  "gate_inv g \<longleftrightarrow>
     ok_states (tests_landed (gt_history g)) (gate_states g) \<and>
     (\<forall>(snap, call) \<in> set (gt_running g). ok_states (tests_landed (gt_history g)) snap) \<and>
     (tests_landed (gt_history g) \<longrightarrow> (\<exists>d. gate_states g = Some d \<and> dget d tdd_id \<noteq> None)) \<and>
     (\<forall>h ev h'. gt_history g = h @ ev # h' \<and> \<not> h_blocked ev \<and> (\<exists>c \<in> set (h_contexts ev). impl_write c) \<longrightarrow>
        tests_landed h \<or> (\<exists>c \<in> set (h_contexts ev). tests_write c))"

lemma gate_inv_fresh: "gate_inv \<lparr>gt_confirmed = None, gt_running = [], gt_history = []\<rparr>"
  by (simp add: gate_inv_def gate_states_def ok_states_def tests_landed_def)

lemma gate_step_inv:
  assumes "build_hook_engine u cfg = Inr e" "strict_setup cfg" "semantic_ids sem"
    and "gate_step u cfg sem g g'" "gate_inv g"
  shows "gate_inv g'"
  using assms(4)
proof (cases rule: gate_step.cases)
  case (gate_begin call)
  with assms(5) show ?thesis by (simp add: gate_inv_def gate_states_def)
next
  case (gate_end snap call now blocked st ks saved rules summary)
  note step = gate_end(1) and member = gate_end(2) and run = gate_end(3)
  let ?h = "gt_history g" and ?ev = "\<lparr>h_contexts = call_contexts call, h_blocked = blocked, h_persisted = saved\<rparr>"
  note inv = assms(5) [unfolded gate_inv_def]
  have snap: "ok_states (tests_landed ?h) snap" using inv member by blast
  note r = run_hook_strict [OF assms(1-3) run snap]
  have mono: "tests_landed ?h \<longrightarrow> tests_landed (gt_history g')" by (simp add: step)
  have running: "ok_states (tests_landed (gt_history g')) s" if "(s, cl) \<in> set (gt_running g')" for s cl
  proof -
    from that have "(s, cl) \<in> set (gt_running g)" by (auto simp: step dest: subsetD [OF set_remove1_subset])
    with inv have "ok_states (tests_landed ?h) s" by blast
    then show ?thesis by (rule ok_states_mono [OF _ mono])
  qed
  have old: "case gate_states g of None \<Rightarrow> True | Some d \<Rightarrow> dwf d"
    using inv by (auto simp: ok_states_def split: option.splits)
  have states: "ok_states (tests_landed (gt_history g')) (gate_states g') \<and>
     (tests_landed (gt_history g') \<longrightarrow> (\<exists>d. gate_states g' = Some d \<and> dget d tdd_id \<noteq> None))"
  proof (cases saved)
    case False
    with inv show ?thesis by (auto simp: step gate_states_def)
  next
    case True
    let ?p = "persist_policy_decisions now cfg rules st ks summary (gt_confirmed g)"
    have p: "gate_states g' = Some (pc_states ?p)" by (simp add: step True gate_states_def)
    have get: "dwf (pc_states ?p)" "dget (pc_states ?p) tdd_id = (case dget st tdd_id of Some v \<Rightarrow> Some v
       | None \<Rightarrow> (case gate_states g of None \<Rightarrow> None | Some d \<Rightarrow> dget d tdd_id))"
      using persisted_states [OF _ _ old refl] r by blast+
    have "backed (tests_landed (gt_history g')) st"
    proof (cases blocked)
      case True
      with r show ?thesis by (auto simp: backed_def)
    next
      case False
      then have "tests_landed (gt_history g') \<longleftrightarrow> tests_landed ?h \<or> (\<exists>c \<in> set (call_contexts call). tests_write c)"
        by (simp add: step \<open>saved\<close>)
      with r show ?thesis by simp
    qed
    then have "ok_states (tests_landed (gt_history g')) (gate_states g')"
      unfolding p using r inv mono by (intro ok_states_merge [OF get] ok_states_mono [OF _ mono]) blast+
    moreover have "dget (pc_states ?p) tdd_id \<noteq> None" if "tests_landed (gt_history g')"
    proof (cases "dget st tdd_id")
      case None
      with r that have "tests_landed ?h" by (auto simp: step)
      with inv get(2) None show ?thesis by auto
    next
      case (Some v)
      then show ?thesis using get(2) by simp
    qed
    ultimately show ?thesis using p by blast
  qed
  have "tests_landed h \<or> (\<exists>c \<in> set (h_contexts ev). tests_write c)"
    if "gt_history g' = h @ ev # h'" "\<not> h_blocked ev" "\<exists>c \<in> set (h_contexts ev). impl_write c" for h ev h'
  proof (cases h' rule: rev_cases)
    case Nil
    with that(1) have "h = ?h" "ev = ?ev" by (simp_all add: step)
    with that r show ?thesis by auto
  next
    case (snoc h2 y)
    with that(1) have "?h = h @ ev # h2" by (simp add: step)
    with inv that(2,3) show ?thesis by blast
  qed
  with states running show ?thesis unfolding gate_inv_def by blast
qed

lemma gate_reachable_inv:
  assumes "build_hook_engine u cfg = Inr e" "strict_setup cfg" "semantic_ids sem"
  shows "gate_reachable u cfg sem g \<Longrightarrow> gate_inv g"
proof (induction rule: gate_reachable.induct)
  case gate_fresh
  show ?case by (rule gate_inv_fresh)
next
  case (gate_next g g')
  show ?case by (rule gate_step_inv [OF assms gate_next(2,3)])
qed

lemma gate_inv_history:
  "gate_inv g \<Longrightarrow> gt_history g = h @ ev # h' \<Longrightarrow> \<not> h_blocked ev \<Longrightarrow> c \<in> set (h_contexts ev) \<Longrightarrow> impl_write c \<Longrightarrow>
   tests_landed h \<or> (\<exists>t \<in> set (h_contexts ev). tests_write t)"
  unfolding gate_inv_def by (elim conjE) blast

text \<open>
  C16. Tests before implementation. With the TDD bundle enabled and strict, in a session that starts
  without policy state, whatever hooks overlap and whichever writes of theirs fail: an implementation
  file is let through only if a test file is part of the same patch, or a write to a test file was
  let through and persisted by a hook that ended earlier.
\<close>

theorem tests_before_implementation:
  assumes "build_hook_engine u cfg = Inr e" "strict_setup cfg" "semantic_ids sem"
    and "gate_reachable u cfg sem g" "gt_history g = h @ ev # h'"
    and "\<not> h_blocked ev" "c \<in> set (h_contexts ev)" "impl_write c"
  shows "\<exists>t. tests_write t \<and> (t \<in> set (h_contexts ev) \<or>
    (\<exists>ev' \<in> set h. \<not> h_blocked ev' \<and> h_persisted ev' \<and> t \<in> set (h_contexts ev')))"
proof -
  have "tests_landed h \<or> (\<exists>t \<in> set (h_contexts ev). tests_write t)"
    by (rule gate_inv_history [OF gate_reachable_inv [OF assms(1-4)] assms(5-8)])
  then show ?thesis by (auto simp: tests_landed_def)
qed

definition sample_setup :: policy_setup where
  "sample_setup = \<lparr>ps_enabled = True, ps_supervisor = False, ps_mode = FailOpen, ps_bundles = [''tdd''], ps_config = []\<rparr>"

definition no_semantic :: semantic where
  "no_semantic = \<lparr>sem_policies = [], sem_resolver = None\<rparr>"

lemma sample_setup_builds: "\<exists>e. build_hook_engine sample_unicode sample_setup = Inr e"
proof -
  have "map_sum id (\<lambda>_. ()) (build_hook_engine sample_unicode sample_setup) = Inr ()" by code_simp
  then show ?thesis by (cases "build_hook_engine sample_unicode sample_setup") auto
qed

lemma sample_setup_strict: "strict_setup sample_setup" "semantic_ids no_semantic"
  by code_simp+

text \<open>A test write, then a write to the implementation by a hook that began after it ended.\<close>

definition sample_gate :: gate where
  "sample_gate =
     (let run = (\<lambda>path st. the (run_hook sample_unicode sample_setup no_semantic ''t'' (ClaudeCall (sample_write path ''x'')) st));
          write = (\<lambda>path st p. case run path st of (_, st', ks) \<Rightarrow> Some (persist_policy_decisions ''t'' sample_setup [] st' ks (\<lambda>_. []) p));
          p1 = write ''tests/a.py'' None None; s1 = map_option pc_states p1
      in \<lparr>gt_confirmed = write ''src/a.py'' s1 p1, gt_running = [],
          gt_history = [\<lparr>h_contexts = [sample_write ''tests/a.py'' ''x''], h_blocked = False, h_persisted = True\<rparr>,
                        \<lparr>h_contexts = [sample_write ''src/a.py'' ''x''], h_blocked = False, h_persisted = True\<rparr>]\<rparr>)"

lemma gate_run:
  assumes "gate_reachable u cfg sem g" "run_hook u cfg sem now call (gate_states g) = Some (blocked, st, ks)" "gt_running g = []"
  shows "gate_reachable u cfg sem
    (g\<lparr>gt_confirmed := Some (persist_policy_decisions now cfg rules st ks summary (gt_confirmed g)), gt_running := [],
       gt_history := gt_history g @ [\<lparr>h_contexts = call_contexts call, h_blocked = blocked, h_persisted = True\<rparr>]\<rparr>)"
proof -
  let ?g = "g\<lparr>gt_running := (gate_states g, call) # gt_running g\<rparr>"
  have 1: "gate_reachable u cfg sem ?g" using assms(1) by (rule gate_next) (rule gate_begin)
  have "(gate_states g, call) \<in> set (gt_running ?g)" by simp
  from gate_end [OF this assms(2), where saved = True and rules = rules and summary = summary]
  have "gate_step u cfg sem ?g (g\<lparr>gt_confirmed := Some (persist_policy_decisions now cfg rules st ks summary (gt_confirmed g)), gt_running := [],
       gt_history := gt_history g @ [\<lparr>h_contexts = call_contexts call, h_blocked = blocked, h_persisted = True\<rparr>]\<rparr>)"
    using assms(3) by simp
  with 1 show ?thesis by (rule gate_next)
qed

lemma sample_gate_reachable: "gate_reachable sample_unicode sample_setup no_semantic sample_gate"
proof -
  let ?run = "\<lambda>path st. run_hook sample_unicode sample_setup no_semantic ''t'' (ClaudeCall (sample_write path ''x'')) st"
  let ?s1 = "Some [(tdd_id, tdd_get_state [JStr ''tests/a.py''])]"
  have t1: "map_option fst (?run ''tests/a.py'' None) = Some False" by code_simp
  have t2: "map_option fst (?run ''src/a.py'' ?s1) = Some False" by code_simp
  obtain st1 ks1 where r1: "?run ''tests/a.py'' None = Some (False, st1, ks1)" using t1 by auto
  obtain st2 ks2 where r2: "?run ''src/a.py'' ?s1 = Some (False, st2, ks2)" using t2 by auto
  let ?p1 = "persist_policy_decisions ''t'' sample_setup [] st1 ks1 (\<lambda>_. []) None"
  have "map_option (\<lambda>(_, st, ks). pc_states (persist_policy_decisions ''t'' sample_setup [] st ks (\<lambda>_. []) None)) (?run ''tests/a.py'' None) = ?s1"
    by code_simp
  then have s1: "Some (pc_states ?p1) = ?s1" by (simp add: r1)
  have g1: "gate_reachable sample_unicode sample_setup no_semantic
      \<lparr>gt_confirmed = Some ?p1, gt_running = [],
       gt_history = [\<lparr>h_contexts = [sample_write ''tests/a.py'' ''x''], h_blocked = False, h_persisted = True\<rparr>]\<rparr>"
    using gate_run [OF gate_fresh, of sample_unicode sample_setup no_semantic "''t''" "ClaudeCall (sample_write ''tests/a.py'' ''x'')" False st1 ks1 "[]" "\<lambda>_. []"]
      r1 by (simp add: gate_states_def)
  show ?thesis
    using gate_run [OF g1, of "''t''" "ClaudeCall (sample_write ''src/a.py'' ''x'')" False st2 ks2 "[]" "\<lambda>_. []"] r1 r2 s1
    by (simp add: gate_states_def sample_gate_def Let_def)
qed

theorem tests_before_implementation_witness:
  "\<exists>e g ev ev'. build_hook_engine sample_unicode sample_setup = Inr e \<and> gate_reachable sample_unicode sample_setup no_semantic g \<and>
     gt_history g = [ev', ev] \<and> \<not> h_blocked ev \<and> h_persisted ev' \<and> (\<exists>t \<in> set (h_contexts ev'). tests_write t)"
proof -
  obtain e where e: "build_hook_engine sample_unicode sample_setup = Inr e" using sample_setup_builds by auto
  note s = sample_setup_strict
  have w: "impl_write (sample_write ''src/a.py'' ''x'')" "\<not> tests_write (sample_write ''src/a.py'' ''x'')" by code_simp+
  from tests_before_implementation [OF e s sample_gate_reachable,
      of "[\<lparr>h_contexts = [sample_write ''tests/a.py'' ''x''], h_blocked = False, h_persisted = True\<rparr>]"
         "\<lparr>h_contexts = [sample_write ''src/a.py'' ''x''], h_blocked = False, h_persisted = True\<rparr>" "[]" "sample_write ''src/a.py'' ''x''"] w
  have "\<exists>t. tests_write t \<and> t = sample_write ''tests/a.py'' ''x''" by (auto simp: sample_gate_def Let_def)
  with e sample_gate_reachable show ?thesis by (auto simp: sample_gate_def Let_def)
qed

lemma tdd_allows: "t \<noteq> [] \<Longrightarrow> d \<in> set (contribution now mode c (tdd_policy True, t)) \<Longrightarrow> d_decision d = Allow"
  by (auto simp: contribution_def run_tdd decided_def no_evaluation_def allow_by_def plain_decision_def split: if_splits)

text \<open>
  Recorded tests stick. Once a hook has let a test write through and persisted it, every hook that
  begins afterwards restores a non-empty set of touched tests, however earlier hooks that read older
  states overlap with it: the TDD policy then allows whatever it is asked about.
\<close>

lemma recorded_tests_stick:
  assumes "build_hook_engine u cfg = Inr e" "strict_setup cfg" "semantic_ids sem"
    and "gate_reachable u cfg sem g" "tests_landed (gt_history g)"
  shows "restored (gate_states g) \<noteq> [] \<and>
    (\<forall>d \<in> set (contribution now mode c (tdd_policy True, restored (gate_states g))). d_decision d = Allow)"
proof -
  obtain d where d: "gate_states g = Some d" "dget d tdd_id \<noteq> None" "ok_states True (Some d)"
    using gate_reachable_inv [OF assms(1-4)] assms(5) by (auto simp: gate_inv_def)
  have "restored (gate_states g) \<noteq> []" unfolding d(1) by (rule filled_restored [OF d(3,2)])
  then show ?thesis using tdd_allows by blast
qed

lemma recorded_tests_stick_witness:
  "gate_reachable sample_unicode sample_setup no_semantic sample_gate \<and> restored (gate_states sample_gate) \<noteq> []"
proof -
  obtain e where e: "build_hook_engine sample_unicode sample_setup = Inr e" using sample_setup_builds by auto
  note s = sample_setup_strict
  have "tests_write (sample_write ''tests/a.py'' ''x'')" by code_simp
  then have "tests_landed (gt_history sample_gate)" by (simp add: sample_gate_def Let_def tests_landed_def)
  from recorded_tests_stick [OF e s sample_gate_reachable this] sample_gate_reachable show ?thesis by blast
qed

end
