(* ===== verification/Verdict.thy ===== *)
theory Verdict
  imports Rules
begin

text \<open>
  The answer of the semantic supervisor: how a JSON object is found in the text a model returned
  (\<open>core/reactive/structured_output.py\<close>), how it becomes a verdict, and when a verdict blocks an
  action (\<open>policy/semantic/verdict.py\<close>).

  \<open>json.loads\<close> is a parameter: the value of a text, or nothing when it is not JSON. So are the texts
  Python gives a JSON value and a percentage in a warning (\<open>shown\<close>). JSON numbers are exact
  rationals, so the check for a confidence that is not finite is always passed.
\<close>

section \<open>Finding the object\<close>

definition fence :: string where
  "fence = ''```''"

definition lower_char :: "char \<Rightarrow> char" where
  "lower_char c = (let n = of_char c :: nat in if 65 \<le> n \<and> n \<le> 90 then char_of (n + 32) else c)"

text \<open>The opening of a fence at the head of a text: the text after it.\<close>

definition opened :: "bool \<Rightarrow> string \<Rightarrow> string option" where
  "opened tagged s =
     (if tagged then (if map lower_char (take 7 s) = fence @ ''json'' then Some (drop 7 s) else None)
      else (if take 3 s = fence then Some (drop 3 s) else None))"

text \<open>
  \<open>findall\<close> of the fence patterns, each match stripped: from the first opening to the next fence,
  again and again. The whitespace the pattern allows around the group disappears with \<open>strip\<close>.
\<close>

function fenced :: "bool \<Rightarrow> string \<Rightarrow> string list" where
  "fenced tagged [] = []"
| "fenced tagged (c # cs) =
     (case opened tagged (c # cs) of
        None \<Rightarrow> fenced tagged cs
      | Some rest \<Rightarrow>
          (case find_sub fence rest of
             None \<Rightarrow> []
           | Some i \<Rightarrow> strip (take i rest) # fenced tagged (drop (i + 3) rest)))"
  by pat_completeness auto
termination
  by (relation "measure (\<lambda>(_, s). length s)") (auto simp: opened_def fence_def split: if_splits)

type_synonym loads = "string \<Rightarrow> json option"

fun first_object :: "loads \<Rightarrow> string list \<Rightarrow> jobj option" where
  "first_object loads [] = None"
| "first_object loads (t # ts) = (case loads t of Some (JObj d) \<Rightarrow> Some d | _ \<Rightarrow> first_object loads ts)"

definition extract_json_from_response :: "loads \<Rightarrow> string \<Rightarrow> jobj option" where
  "extract_json_from_response loads response =
     (if response = [] then None
      else first_object loads (fenced True response @ fenced False response @ [strip response]))"

section \<open>Verdicts\<close>

datatype verdict_kind = Aligned | Divergent

record supervisor_verdict =
  sv_verdict :: verdict_kind
  sv_confidence :: rat
  sv_violations :: "jobj list"

text \<open>
  Confidences are exact rationals. The double nearest to 0.8 is the least double above 4/5, so for a
  confidence that is a double the comparison with 4/5 is the comparison of the code.
\<close>

definition confidence_threshold :: rat where
  "confidence_threshold = 4/5"

definition meets_block_bar :: "rat \<Rightarrow> bool \<Rightarrow> bool" where
  "meets_block_bar confidence has_citations \<longleftrightarrow> confidence_threshold \<le> confidence \<and> has_citations"

definition warn_verdict :: "string \<Rightarrow> string \<Rightarrow> supervisor_verdict" where
  "warn_verdict ev fix_text =
     \<lparr>sv_verdict = Divergent, sv_confidence = 0,
      sv_violations = [[(''severity'', JStr ''low''), (''evidence'', JStr ev), (''suggested_fix'', JStr fix_text),
                        (''citations'', JList [])]]\<rparr>"

text \<open>A bool is not a confidence; a number is clamped to the unit interval.\<close>

definition clamp_confidence :: "json \<Rightarrow> rat" where
  "clamp_confidence v = (case v of JInt i \<Rightarrow> max 0 (min 1 (of_int i)) | JFloat r \<Rightarrow> max 0 (min 1 r) | _ \<Rightarrow> 0)"

definition object_items :: "json option \<Rightarrow> jobj list" where
  "object_items v = (case v of Some (JList xs) \<Rightarrow> List.map_filter as_obj xs | _ \<Rightarrow> [])"

definition parse_verdict_data :: "jobj \<Rightarrow> supervisor_verdict option" where
  "parse_verdict_data data =
     (let verdict = (if dget data ''verdict'' = Some (JStr ''aligned'') then Some Aligned
                     else if dget data ''verdict'' = Some (JStr ''divergent'') then Some Divergent else None)
      in map_option (\<lambda>k. \<lparr>sv_verdict = k, sv_confidence = clamp_confidence (jget data ''confidence''),
                          sv_violations = object_items (dget data ''violations'')\<rparr>) verdict)"

text \<open>An f-string or a message that quotes a word; the dashes of the messages are ASCII here.\<close>

definition quoted :: "string \<Rightarrow> string" where
  "quoted s = CHR 0x27 # s @ [CHR 0x27]"

text \<open>The verdict, and whether the response was parsed: a failure is a divergence without confidence.\<close>

definition parse_supervisor_verdict_with_status :: "loads \<Rightarrow> string \<Rightarrow> supervisor_verdict \<times> bool" where
  "parse_supervisor_verdict_with_status loads response =
     (if response = [] then
        (warn_verdict ''Supervisor response was empty - check supervisor session health''
           ''Verify supervisor resume_id and proxy connectivity'', False)
      else (case extract_json_from_response loads response of
        None \<Rightarrow> (warn_verdict ''Supervisor verdict could not be parsed - check supervisor response format''
                  ''Verify supervisor session responds with valid JSON verdict'', False)
      | Some data \<Rightarrow>
          (case parse_verdict_data data of
             None \<Rightarrow> (warn_verdict (''Supervisor verdict was missing or invalid - expected exact '' @ quoted ''aligned'' @ '' or '' @ quoted ''divergent'')
                       ''Verify supervisor session returns the documented verdict schema'', False)
           | Some v \<Rightarrow> (v, True))))"

definition normalize_citations :: "json \<Rightarrow> string list" where
  "normalize_citations v =
     (case v of JList xs \<Rightarrow> filter (\<lambda>s. strip s \<noteq> []) (List.map_filter as_str xs) | _ \<Rightarrow> [])"

record plan_snapshot =
  sn_path :: "string option"
  sn_text :: "string option"
  sn_digest :: "string option"

text \<open>Only a quote that occurs in the text that was reviewed is verified, with its offsets.\<close>

definition verify_citations :: "string list \<Rightarrow> plan_snapshot option \<Rightarrow> verified_citation list" where
  "verify_citations citations snapshot =
     (case snapshot of
        None \<Rightarrow> []
      | Some sn \<Rightarrow>
          (case (sn_text sn, sn_path sn, sn_digest sn) of
             (Some body, Some path, Some digest) \<Rightarrow>
               if body = [] \<or> path = [] \<or> digest = [] then []
               else List.map_filter (\<lambda>quote. if quote = [] then None else
                      map_option (\<lambda>i. \<lparr>vc_source = path, vc_digest = digest, vc_start = i, vc_end = i + length quote, vc_text = quote\<rparr>)
                        (find_sub quote body))
                    (distinct_first (map strip citations))
           | _ \<Rightarrow> []))"

text \<open>\<open>severity_str if severity_str in (...) else "medium"\<close>\<close>

definition severity_of :: "json \<Rightarrow> severity" where
  "severity_of v =
     (if v = JStr ''critical'' then Critical else if v = JStr ''high'' then High else if v = JStr ''low'' then Low else Medium)"

definition supervisor_id :: string where
  "supervisor_id = ''semantic.supervisor''"

definition review_violation :: "plan_snapshot option \<Rightarrow> jobj \<Rightarrow> violation" where
  "review_violation snapshot v =
     (let citations = normalize_citations (jget v ''citations'') in
      \<lparr>v_rule = supervisor_id @ ''.alignment'',
       v_message = (case dget v ''evidence'' of Some m \<Rightarrow> m | None \<Rightarrow> JStr ''Divergent from plan''),
       v_severity = (case dget v ''severity'' of Some s \<Rightarrow> severity_of s | None \<Rightarrow> Medium),
       v_evidence = jget v ''evidence'', v_fix = jget v ''suggested_fix'', v_citations = citations,
       v_provenance = FromReviewer, v_verified = verify_citations citations snapshot\<rparr>)"

record shown =
  show_value :: "json \<Rightarrow> string"
  show_percent :: "rat \<Rightarrow> string"

definition divergence_warning :: "shown \<Rightarrow> rat \<Rightarrow> violation \<Rightarrow> string" where
  "divergence_warning sh confidence v =
     ''Possible divergence: '' @ show_value sh (v_message v) @ '' (confidence: '' @ show_percent sh confidence @ '')''"

text \<open>The loop over the violations, with the blocking ones, the warnings and the findings so far.\<close>

fun sort_violations ::
  "shown \<Rightarrow> plan_snapshot option \<Rightarrow> rat \<Rightarrow> jobj list \<Rightarrow> violation list \<times> string list \<times> violation list \<Rightarrow>
   violation list \<times> string list \<times> violation list" where
  "sort_violations sh snapshot confidence [] acc = acc"
| "sort_violations sh snapshot confidence (v # vs) (blocking, warnings, findings) =
     (let x = review_violation snapshot v in
      sort_violations sh snapshot confidence vs
        (if meets_block_bar confidence (v_citations x \<noteq> []) then (blocking @ [x], warnings, findings)
         else (blocking, warnings @ [divergence_warning sh confidence x], findings @ [x])))"

definition verdict_to_decision ::
  "shown \<Rightarrow> string option \<Rightarrow> plan_snapshot option \<Rightarrow> supervisor_verdict \<Rightarrow> policy_decision" where
  "verdict_to_decision sh intent snapshot v =
     (if sv_verdict v = Aligned then plain_decision Allow supervisor_id
      else (case sort_violations sh snapshot (sv_confidence v) (sv_violations v) ([], [], []) of (blocking, warnings, findings) \<Rightarrow>
        if blocking \<noteq> [] then
          (plain_decision Deny supervisor_id)
            \<lparr>d_violations := blocking, d_warnings := warnings, d_findings := findings, d_intent := intent\<rparr>
        else if warnings \<noteq> [] then
          (plain_decision Warn supervisor_id)\<lparr>d_warnings := warnings, d_findings := findings, d_intent := intent\<rparr>
        else (plain_decision Warn supervisor_id)
               \<lparr>d_warnings := [''Divergent verdict with no specific violations (confidence: '' @ show_percent sh (sv_confidence v) @ '')'']\<rparr>))"

section \<open>When a response blocks\<close>

lemma sort_violations_eq:
  "sort_violations sh snapshot cf vs (b, w, f) =
     (b @ filter (\<lambda>x. meets_block_bar cf (v_citations x \<noteq> [])) (map (review_violation snapshot) vs),
      w @ map (divergence_warning sh cf) (filter (\<lambda>x. \<not> meets_block_bar cf (v_citations x \<noteq> [])) (map (review_violation snapshot) vs)),
      f @ filter (\<lambda>x. \<not> meets_block_bar cf (v_citations x \<noteq> [])) (map (review_violation snapshot) vs))"
  by (induction vs arbitrary: b w f) (simp_all add: Let_def)

lemma map_filter_mem: "x \<in> set (List.map_filter f xs) \<longleftrightarrow> (\<exists>y \<in> set xs. f y = Some x)"
  by (induction xs) (auto simp: List.map_filter_simps split: option.splits)

lemma review_citations: "v_citations (review_violation sn v) = normalize_citations (jget v ''citations'')"
  by (simp add: review_violation_def Let_def)

text \<open>A passage quoted from the plan: a text with a character that is not whitespace.\<close>

definition cites :: "jobj \<Rightarrow> bool" where
  "cites v \<longleftrightarrow> (\<exists>xs s. dget v ''citations'' = Some (JList xs) \<and> JStr s \<in> set xs \<and> (\<exists>c \<in> set s. \<not> py_space c))"

lemma normalize_cites: "normalize_citations (jget v ''citations'') \<noteq> [] \<longleftrightarrow> cites v"
proof -
  have "normalize_citations j \<noteq> [] \<longleftrightarrow> (\<exists>xs s. j = JList xs \<and> JStr s \<in> set xs \<and> strip s \<noteq> [])" for j
    by (cases j) (auto simp: normalize_citations_def filter_empty_conv map_filter_mem)
  then show ?thesis
    by (auto simp: cites_def strip_not_space jget_def split: option.splits)
qed

text \<open>A response that asks to block: divergent, confident, and with a violation that cites the plan.\<close>

definition block_request :: "jobj \<Rightarrow> bool" where
  "block_request d \<longleftrightarrow> dget d ''verdict'' = Some (JStr ''divergent'') \<and>
     ((\<exists>n. dget d ''confidence'' = Some (JInt n) \<and> 1 \<le> n) \<or>
      (\<exists>r. dget d ''confidence'' = Some (JFloat r) \<and> 4/5 \<le> r)) \<and>
     (\<exists>xs v. dget d ''violations'' = Some (JList xs) \<and> JObj v \<in> set xs \<and> cites v)"

lemma confident: "4/5 \<le> clamp_confidence (jget d ''confidence'') \<longleftrightarrow>
    (\<exists>n. dget d ''confidence'' = Some (JInt n) \<and> 1 \<le> n) \<or> (\<exists>r. dget d ''confidence'' = Some (JFloat r) \<and> 4/5 \<le> r)"
proof -
  have "4/5 \<le> max 0 (min 1 (of_int n :: rat)) \<longleftrightarrow> 1 \<le> n" for n
  proof
    assume "4/5 \<le> max 0 (min 1 (of_int n :: rat))"
    then have "0 < (of_int n :: rat)" by (simp add: max_def min_def split: if_splits)
    then show "1 \<le> n" by simp
  qed (simp add: max_def min_def)
  then show ?thesis
    by (auto simp: clamp_confidence_def jget_def max_def min_def split: option.splits json.splits)
qed

lemma warn_verdict_decision: "d_decision (verdict_to_decision sh intent sn (warn_verdict e f)) = Warn \<and>
    d_violations (verdict_to_decision sh intent sn (warn_verdict e f)) = []"
  by (simp add: verdict_to_decision_def warn_verdict_def sort_violations_eq meets_block_bar_def confidence_threshold_def
      plain_decision_def)

lemma decision_eq:
  fixes v sn defines "bs \<equiv> filter (\<lambda>x. meets_block_bar (sv_confidence v) (v_citations x \<noteq> [])) (map (review_violation sn) (sv_violations v))"
  shows "d_violations (verdict_to_decision sh intent sn v) = (if sv_verdict v = Aligned then [] else bs)"
    and "d_decision (verdict_to_decision sh intent sn v) = (if sv_verdict v = Aligned then Allow else if bs \<noteq> [] then Deny else Warn)"
  by (simp_all add: verdict_to_decision_def sort_violations_eq plain_decision_def bs_def)

lemma decision_cases:
  "d_decision (verdict_to_decision sh intent sn v) =
     (if sv_verdict v = Aligned then Allow
      else if confidence_threshold \<le> sv_confidence v \<and> (\<exists>x \<in> set (sv_violations v). cites x) then Deny else Warn)"
  by (auto simp: decision_eq filter_empty_conv meets_block_bar_def review_citations normalize_cites)

lemma parse_response:
  "fst (parse_supervisor_verdict_with_status loads r) =
     (case extract_json_from_response loads r of
        Some d \<Rightarrow> (case parse_verdict_data d of Some v \<Rightarrow> v | None \<Rightarrow> fst (parse_supervisor_verdict_with_status loads r))
      | None \<Rightarrow> fst (parse_supervisor_verdict_with_status loads r))"
  "extract_json_from_response loads r = None \<or> (\<exists>d. extract_json_from_response loads r = Some d \<and> parse_verdict_data d = None) \<Longrightarrow>
   \<exists>e f. fst (parse_supervisor_verdict_with_status loads r) = warn_verdict e f"
  by (auto simp: parse_supervisor_verdict_with_status_def extract_json_from_response_def split: option.splits)

lemma confident':
  "confidence_threshold \<le> clamp_confidence (jget d ''confidence'') \<longleftrightarrow>
     (\<exists>n. dget d ''confidence'' = Some (JInt n) \<and> 1 \<le> n) \<or> (\<exists>r. dget d ''confidence'' = Some (JFloat r) \<and> confidence_threshold \<le> r)"
  using confident [of d] unfolding confidence_threshold_def by blast

lemma parsed_decision:
  assumes "parse_verdict_data d = Some v"
  shows "d_decision (verdict_to_decision sh intent sn v) = Deny \<longleftrightarrow> block_request d"
    and "d_decision (verdict_to_decision sh intent sn v) = Allow \<longleftrightarrow> dget d ''verdict'' = Some (JStr ''aligned'')"
proof -
  have v: "sv_verdict v = (if dget d ''verdict'' = Some (JStr ''aligned'') then Aligned else Divergent)"
    "sv_confidence v = clamp_confidence (jget d ''confidence'')" "sv_violations v = object_items (dget d ''violations'')"
    "dget d ''verdict'' \<in> {Some (JStr ''aligned''), Some (JStr ''divergent'')}"
    using assms by (auto simp: parse_verdict_data_def Let_def split: if_splits)
  note cf = confident' [of d]
  have items: "(\<exists>x \<in> set (object_items (dget d ''violations'')). cites x) \<longleftrightarrow>
      (\<exists>xs x. dget d ''violations'' = Some (JList xs) \<and> JObj x \<in> set xs \<and> cites x)"
    by (cases "dget d ''violations''"; cases "the (dget d ''violations'')") (auto simp: object_items_def map_filter_mem)
  show "d_decision (verdict_to_decision sh intent sn v) = Allow \<longleftrightarrow> dget d ''verdict'' = Some (JStr ''aligned'')"
    using v(4) by (auto simp: decision_cases v(1))
  show "d_decision (verdict_to_decision sh intent sn v) = Deny \<longleftrightarrow> block_request d"
    using v(4) unfolding decision_cases v(1-3) block_request_def items cf unfolding confidence_threshold_def by auto
qed

lemma verified_verbatim:
  "q \<in> set (verify_citations cs sn) \<Longrightarrow>
   \<exists>body. Option.bind sn sn_text = Some body \<and> take (length (vc_text q)) (drop (vc_start q) body) = vc_text q"
  by (auto simp: verify_citations_def map_filter_mem find_sub_Some split: option.splits if_splits dest!: sym [of "Some _"])

text \<open>
  C38. When a supervisor's response blocks. It denies exactly when the object found in it says
  \<open>divergent\<close> with a numeric confidence of at least 0.8 and has a violation that cites a non-blank
  passage; it allows exactly when the object says \<open>aligned\<close>. Everything else, a response that cannot be
  parsed included, warns. Every violation of a deny has a citation, and a verified citation of it
  occurs verbatim in the plan at its offsets.
\<close>

theorem response_blocks_iff:
  fixes sh :: shown and intent :: "string option" and sn :: "plan_snapshot option"
  shows "(d_decision (verdict_to_decision sh intent sn (fst (parse_supervisor_verdict_with_status loads r))) = Deny \<longleftrightarrow>
      (\<exists>d. extract_json_from_response loads r = Some d \<and> block_request d)) \<and>
    (d_decision (verdict_to_decision sh intent sn (fst (parse_supervisor_verdict_with_status loads r))) = Allow \<longleftrightarrow>
      (\<exists>d. extract_json_from_response loads r = Some d \<and> dget d ''verdict'' = Some (JStr ''aligned''))) \<and>
    (\<forall>v \<in> set (d_violations (verdict_to_decision sh intent sn (fst (parse_supervisor_verdict_with_status loads r)))). v_citations v \<noteq> [] \<and>
      (\<forall>q \<in> set (v_verified v). \<exists>body. Option.bind sn sn_text = Some body \<and>
         take (length (vc_text q)) (drop (vc_start q) body) = vc_text q))"
proof -
  let ?v = "fst (parse_supervisor_verdict_with_status loads r)"
  have dec: "(d_decision (verdict_to_decision sh intent sn (fst (parse_supervisor_verdict_with_status loads r))) = Deny \<longleftrightarrow> (\<exists>d. extract_json_from_response loads r = Some d \<and> block_request d)) \<and>
    (d_decision (verdict_to_decision sh intent sn (fst (parse_supervisor_verdict_with_status loads r))) = Allow \<longleftrightarrow>
      (\<exists>d. extract_json_from_response loads r = Some d \<and> dget d ''verdict'' = Some (JStr ''aligned'')))"
  proof (cases "\<exists>d v. extract_json_from_response loads r = Some d \<and> parse_verdict_data d = Some v")
    case True
    then obtain d v where dv: "extract_json_from_response loads r = Some d" "parse_verdict_data d = Some v" by blast
    then have "?v = v" by (subst parse_response(1)) simp
    with parsed_decision [OF dv(2)] dv(1) show ?thesis by simp
  next
    case False
    then obtain e f where w: "?v = warn_verdict e f"
      using parse_response(2) [of loads r] by (cases "extract_json_from_response loads r") auto
    have "\<not> block_request d \<and> dget d ''verdict'' \<noteq> Some (JStr ''aligned'')" if "extract_json_from_response loads r = Some d" for d
      using False that by (auto simp: parse_verdict_data_def block_request_def Let_def)
    with w show ?thesis by (auto simp: warn_verdict_decision)
  qed
  have "v_citations x \<noteq> [] \<and> (\<forall>q \<in> set (v_verified x). \<exists>body. Option.bind sn sn_text = Some body \<and>
         take (length (vc_text q)) (drop (vc_start q) body) = vc_text q)" if "x \<in> set (d_violations (verdict_to_decision sh intent sn (fst (parse_supervisor_verdict_with_status loads r))))" for x
    using that by (auto simp: decision_eq meets_block_bar_def review_violation_def Let_def verified_verbatim split: if_splits)
  with dec show ?thesis by blast
qed

text \<open>\<open>json.loads\<close> on the one response of the sample.\<close>

definition sample_response :: string where
  "sample_response = ''Verdict:'' @ fence @ ''json {divergent} '' @ fence"

definition sample_verdict_data :: jobj where
  "sample_verdict_data =
     [(''verdict'', JStr ''divergent''), (''confidence'', JFloat (9/10)),
      (''violations'', JList [JObj [(''citations'', JList [JStr '' step 2 '']), (''evidence'', JStr ''skips step 2'')]])]"

definition sample_loads :: loads where
  "sample_loads t = (if t = ''{divergent}'' then Some (JObj sample_verdict_data) else None)"

definition sample_snapshot :: plan_snapshot where
  "sample_snapshot = \<lparr>sn_path = Some ''plan.md'', sn_text = Some ''step 1, step 2'', sn_digest = Some ''d''\<rparr>"

theorem response_blocks_iff_witness:
  "\<exists>sh v q. v \<in> set (d_violations (verdict_to_decision sh None (Some sample_snapshot)
       (fst (parse_supervisor_verdict_with_status sample_loads sample_response)))) \<and> q \<in> set (v_verified v) \<and> vc_start q = 8 \<and>
     take (length (vc_text q)) (drop (vc_start q) ''step 1, step 2'') = vc_text q"
proof -
  let ?sh = "\<lparr>show_value = \<lambda>_. [], show_percent = \<lambda>_. []\<rparr>"
  let ?d = "verdict_to_decision ?sh None (Some sample_snapshot) (fst (parse_supervisor_verdict_with_status sample_loads sample_response))"
  have "map (map vc_start \<circ> v_verified) (d_violations ?d) = [[8]]" by code_simp
  then obtain v q where v: "v \<in> set (d_violations ?d)" "q \<in> set (v_verified v)" "vc_start q = 8" by (cases "d_violations ?d") auto
  have "(\<forall>v \<in> set (d_violations ?d). v_citations v \<noteq> [] \<and>
      (\<forall>q \<in> set (v_verified v). \<exists>body. Option.bind (Some sample_snapshot) sn_text = Some body \<and>
         take (length (vc_text q)) (drop (vc_start q) body) = vc_text q))"
    using response_blocks_iff [where loads = sample_loads and r = sample_response and sh = ?sh and intent = None and sn = "Some sample_snapshot"] by blast
  then have "\<exists>body. Option.bind (Some sample_snapshot) sn_text = Some body \<and>
         take (length (vc_text q)) (drop (vc_start q) body) = vc_text q" using v(1,2) by blast
  then have "take (length (vc_text q)) (drop (vc_start q) ''step 1, step 2'') = vc_text q" by (simp add: sample_snapshot_def)
  with v show ?thesis by blast
qed

end
