(* ===== verification/Patch.thy ===== *)
theory Patch
  imports Engine
begin

text \<open>
  The Codex half of the hook seam: the parser of the \<open>apply_patch\<close> envelope
  (\<open>cli/hooks/codex_patch.py\<close>) and the adapter that turns its operations into actions
  (\<open>cli/hooks/codex_policy.py\<close>, \<open>policy/action_identity.py\<close>).

  The patch is a text of code points below 256. The digest of an action is a parameter: SHA-256 of
  the canonical JSON of the value it is given.
\<close>

section \<open>The envelope\<close>

datatype op_kind = AddOp | UpdateOp | DeleteOp

record patch_file_op =
  po_kind :: op_kind
  po_path :: string
  po_move :: "string option"
  po_added :: string
  po_raw :: string
  po_source :: "string option"

record patch_section =
  se_kind :: op_kind
  se_path :: string
  se_move :: "string option"
  se_headers :: "string list"
  se_body :: "string list"

definition begin_line :: string where
  "begin_line = ''*** Begin Patch''"

definition end_line :: string where
  "end_line = ''*** End Patch''"

definition eof_marker :: string where
  "eof_marker = ''*** End of File''"

definition move_to :: string where
  "move_to = ''*** Move to: ''"

fun header_prefix :: "op_kind \<Rightarrow> string" where
  "header_prefix AddOp = ''*** Add File: ''"
| "header_prefix UpdateOp = ''*** Update File: ''"
| "header_prefix DeleteOp = ''*** Delete File: ''"

text \<open>\<open>_match_header\<close>: the prefixes in their order.\<close>

fun match_prefixes :: "op_kind list \<Rightarrow> string \<Rightarrow> (op_kind \<times> string) option" where
  "match_prefixes [] line = None"
| "match_prefixes (k # ks) line =
     (if prefix (header_prefix k) line then Some (k, strip (drop (length (header_prefix k)) line))
      else match_prefixes ks line)"

definition match_header :: "string \<Rightarrow> (op_kind \<times> string) option" where
  "match_header line = match_prefixes [AddOp, UpdateOp, DeleteOp] line"

definition extract_codex_added_lines :: "string list \<Rightarrow> string" where
  "extract_codex_added_lines body = join_on newline (map (drop 1) (filter (prefix ''+'') body))"

definition finalize :: "patch_section \<Rightarrow> patch_file_op" where
  "finalize s =
     \<lparr>po_kind = se_kind s, po_path = (case se_move s of Some m \<Rightarrow> if m \<noteq> [] then m else se_path s | None \<Rightarrow> se_path s),
      po_move = se_move s,
      po_added = (if se_kind s = DeleteOp then [] else extract_codex_added_lines (se_body s)),
      po_raw = join_on newline (se_headers s @ se_body s),
      po_source = (case se_move s of Some m \<Rightarrow> if m \<noteq> [] then Some (se_path s) else None | None \<Rightarrow> None)\<rparr>"

definition new_section :: "op_kind \<Rightarrow> string \<Rightarrow> string \<Rightarrow> patch_section" where
  "new_section kind path line = \<lparr>se_kind = kind, se_path = path, se_move = None, se_headers = [line], se_body = []\<rparr>"

text \<open>A line that is no header, with the section it belongs to: that section afterwards, or a refusal.\<close>

definition body_line :: "string \<Rightarrow> bool" where
  "body_line line \<longleftrightarrow> line = [] \<or> prefix ''+'' line \<or> prefix ''-'' line \<or> prefix '' '' line \<or> prefix ''@@'' line"

definition no_move :: "patch_section \<Rightarrow> bool" where
  "no_move s \<longleftrightarrow> (case se_move s of Some m \<Rightarrow> m = [] | None \<Rightarrow> True)"

definition extend_section :: "string \<Rightarrow> patch_section option \<Rightarrow> patch_section option" where
  "extend_section line current =
     (if prefix move_to line then
        (let target = strip (drop (length move_to) line) in
         case current of
           None \<Rightarrow> None
         | Some s \<Rightarrow>
             if se_kind s \<noteq> UpdateOp \<or> se_body s \<noteq> [] \<or> \<not> no_move s \<or> target = [] then None
             else Some (s\<lparr>se_move := Some target, se_headers := se_headers s @ [line]\<rparr>))
      else (case current of
          None \<Rightarrow> None
        | Some s \<Rightarrow>
            if line = eof_marker then
              (if se_kind s = DeleteOp then None else Some (s\<lparr>se_body := se_body s @ [line]\<rparr>))
            else if se_kind s = DeleteOp then None
            else if body_line line then Some (s\<lparr>se_body := se_body s @ [line]\<rparr>)
            else None))"

definition close_section :: "patch_section option \<Rightarrow> patch_file_op list" where
  "close_section current = (case current of Some s \<Rightarrow> [finalize s] | None \<Rightarrow> [])"

fun parse_lines :: "string list \<Rightarrow> patch_section option \<Rightarrow> patch_file_op list \<Rightarrow> patch_file_op list option" where
  "parse_lines [] current ops = Some (ops @ close_section current)"
| "parse_lines (line # rest) current ops =
     (case match_header line of
        Some (kind, path) \<Rightarrow>
          if path = [] then None
          else parse_lines rest (Some (new_section kind path line)) (ops @ close_section current)
      | None \<Rightarrow>
          (case extend_section line current of
             None \<Rightarrow> None
           | Some s \<Rightarrow> parse_lines rest (Some s) ops))"

text \<open>\<open>line.rstrip("\r")\<close>, and the blank lines around the envelope.\<close>

definition strip_cr :: "string \<Rightarrow> string" where
  "strip_cr line = rev (dropWhile (\<lambda>c. c = CHR 0x0D) (rev line))"

definition blank_line :: "string \<Rightarrow> bool" where
  "blank_line line \<longleftrightarrow> strip line = []"

definition envelope :: "string \<Rightarrow> string list" where
  "envelope command =
     rev (dropWhile blank_line (rev (dropWhile blank_line (map strip_cr (split_on newline command)))))"

definition parse_apply_patch :: "string \<Rightarrow> patch_file_op list option" where
  "parse_apply_patch command =
     (let lines = envelope command in
      if lines = [] \<or> hd lines \<noteq> begin_line \<or> last lines \<noteq> end_line \<or> length lines < 2 then None
      else parse_lines (butlast (tl lines)) None [])"

section \<open>Actions\<close>

text \<open>\<open>str(Path(p).relative_to(cwd))\<close> for an absolute \<open>p\<close>; other paths are kept.\<close>

definition relative_target :: "string \<Rightarrow> string \<Rightarrow> string" where
  "relative_target cwd p =
     (case (pure_path p, pure_path cwd) of ((anchor, parts), (anchor', base)) \<Rightarrow>
        if anchor = 0 \<or> anchor \<noteq> anchor' \<or> \<not> prefix base parts then p
        else if drop (length base) parts = [] then ''.''
        else join_on (CHR ''/'') (drop (length base) parts))"

fun kind_name :: "op_kind \<Rightarrow> string" where
  "kind_name AddOp = ''add''"
| "kind_name UpdateOp = ''update''"
| "kind_name DeleteOp = ''delete''"

text \<open>\<open>compute_action_fingerprint\<close> up to the digest of the value.\<close>

definition first_str :: "json list \<Rightarrow> json" where
  "first_str vs = (case filter (\<lambda>v. as_str v \<noteq> None) vs of v # _ \<Rightarrow> v | [] \<Rightarrow> JNull)"

definition action_payload :: "string \<Rightarrow> string option \<Rightarrow> jobj \<Rightarrow> string option \<Rightarrow> string option \<Rightarrow> json" where
  "action_payload tool target args new_content raw_diff =
     JObj [(''schema'', JStr ''forge-policy-action-v1''), (''tool_name'', JStr tool), (''target_path'', opt_json target),
       (''content'',
         case raw_diff of
           Some diff \<Rightarrow> JObj [(''kind'', JStr ''raw_diff''), (''raw_diff'', JStr diff)]
         | None \<Rightarrow>
             if tool = ''Edit'' \<and> (dget args ''old_string'' \<noteq> None \<or> dget args ''new_string'' \<noteq> None) then
               JObj [(''kind'', JStr ''edit_fragments''), (''old_string'', first_str [jget args ''old_string'']),
                 (''new_string'', case as_str (jget args ''new_string'') of Some s \<Rightarrow> JStr s | None \<Rightarrow> opt_json new_content),
                 (''replace_all'', JBool (jget args ''replace_all'' = JBool True))]
             else
               JObj [(''kind'', JStr (if tool = ''Write'' then ''write_content'' else ''new_content'')),
                 (''content'', first_str [opt_json new_content, jget args ''content''])])]"

definition max_content_chars :: nat where
  "max_content_chars = 5000"

definition truncated :: "string \<Rightarrow> string" where
  "truncated s =
     (if length s > max_content_chars then take max_content_chars s @ newline # ''... (truncated)'' else s)"

definition nonempty :: "string \<Rightarrow> string option" where
  "nonempty s = (if s = [] then None else Some s)"

definition context_for_op :: "(json \<Rightarrow> string) \<Rightarrow> string \<Rightarrow> string \<Rightarrow> patch_file_op \<Rightarrow> action_context" where
  "context_for_op digest cwd session_name op =
     (let tool = (if po_kind op = AddOp then ''Write'' else ''Edit'');
          target = relative_target cwd (po_path op);
          args = [(''codex_tool_name'', JStr ''apply_patch''), (''path'', JStr (po_path op)),
                  (''move_to'', opt_json (po_move op)), (''kind'', JStr (kind_name (po_kind op)))];
          full_diff = (if po_kind op = UpdateOp then Some (po_raw op) else None)
      in \<lparr>c_origin = ''codex'', c_event = ''PreToolUse.'' @ tool, c_tool = tool, c_args = args, c_root = cwd,
          c_session = session_name, c_path = Some target,
          c_content = map_option codes (nonempty (truncated (po_added op))),
          c_diff = map_option (take max_content_chars) full_diff,
          c_fingerprint = Some (digest (action_payload tool (Some target) args (nonempty (po_added op)) full_diff)),
          c_native = None\<rparr>)"

text \<open>
  \<open>build_contexts\<close>: one action per operation that is no deletion. \<open>cwd\<close> is the resolved directory
  of the payload, \<open>native\<close> the executor boundary when native review is on.
\<close>

definition build_contexts ::
  "(json \<Rightarrow> string) \<Rightarrow> string \<Rightarrow> string \<Rightarrow> boundary option \<Rightarrow> jobj \<Rightarrow> string \<Rightarrow> action_context list" where
  "build_contexts digest cwd session_name native payload tool_name =
     (if tool_name \<noteq> ''apply_patch'' then []
      else (case dget payload ''tool_input'' of
        Some (JObj input) \<Rightarrow>
          (case dget input ''command'' of
             Some (JStr command) \<Rightarrow>
               (case parse_apply_patch command of
                  None \<Rightarrow> []
                | Some ops \<Rightarrow>
                    map (\<lambda>op. (context_for_op digest cwd session_name op)\<lparr>c_native := native\<rparr>)
                      (filter (\<lambda>op. po_kind op \<noteq> DeleteOp) ops))
           | _ \<Rightarrow> [])
      | _ \<Rightarrow> []))"

section \<open>The grammar\<close>

text \<open>
  A section as the documentation of the parser writes it: a header, after an Update header possibly a
  Move line, then body lines, none under a Delete header.
\<close>

definition section_lines :: "patch_section \<Rightarrow> string list" where
  "section_lines s = se_headers s @ se_body s"

definition headers_ok :: "patch_section \<Rightarrow> bool" where
  "headers_ok s \<longleftrightarrow>
     (case se_headers s of
        [h] \<Rightarrow> match_header h = Some (se_kind s, se_path s) \<and> se_move s = None
      | [h, m] \<Rightarrow> match_header h = Some (se_kind s, se_path s) \<and> se_kind s = UpdateOp \<and> prefix move_to m \<and>
          se_move s = Some (strip (drop (length move_to) m)) \<and> strip (drop (length move_to) m) \<noteq> []
      | _ \<Rightarrow> False)"

definition section_ok :: "patch_section \<Rightarrow> bool" where
  "section_ok s \<longleftrightarrow> headers_ok s \<and> se_path s \<noteq> [] \<and> (\<forall>l \<in> set (se_body s). body_line l \<or> l = eof_marker) \<and>
     (se_kind s = DeleteOp \<longrightarrow> se_body s = [])"

lemmas marks = begin_line_def end_line_def eof_marker_def move_to_def match_header_def body_line_def prefix_def

lemma header_line [simp]: "match_header (header_prefix k @ p) = Some (k, strip p)"
  by (cases k) (simp_all add: match_header_def)

lemma move_no_header: "prefix move_to l \<Longrightarrow> match_header l = None"
  by (auto simp: match_header_def move_to_def prefix_def)

lemma body_no_header: "body_line l \<or> l = eof_marker \<Longrightarrow> match_header l = None \<and> \<not> prefix move_to l"
  by (auto simp: match_header_def move_to_def prefix_def body_line_def eof_marker_def)

lemma header_lines [simp]: "section_ok s \<Longrightarrow> section_lines s \<noteq> []"
  by (auto simp: section_ok_def headers_ok_def section_lines_def split: list.splits)

lemma parse_body:
  assumes "\<forall>l \<in> set body. body_line l \<or> l = eof_marker" "se_kind s \<noteq> DeleteOp"
  shows "parse_lines (body @ rest) (Some s) ops = parse_lines rest (Some (s\<lparr>se_body := se_body s @ body\<rparr>)) ops"
  using assms
proof (induction body arbitrary: s)
  case Nil
  then show ?case by simp
next
  case (Cons l body)
  then have l: "match_header l = None" "\<not> prefix move_to l" "body_line l \<or> l = eof_marker"
    using body_no_header [of l] by auto
  then have "extend_section l (Some s) = Some (s\<lparr>se_body := se_body s @ [l]\<rparr>)"
    using Cons.prems by (auto simp: extend_section_def)
  with Cons l show ?case by simp
qed

lemma parse_section:
  assumes "section_ok s"
  shows "parse_lines (section_lines s @ rest) current ops = parse_lines rest (Some s) (ops @ close_section current)"
proof -
  note ok = assms [unfolded section_ok_def headers_ok_def]
  from ok consider (plain) h where "se_headers s = [h]" "match_header h = Some (se_kind s, se_path s)" "se_move s = None"
    | (move) h m where "se_headers s = [h, m]" "match_header h = Some (se_kind s, se_path s)" "se_kind s = UpdateOp" "prefix move_to m"
      "se_move s = Some (strip (drop (length move_to) m))" "strip (drop (length move_to) m) \<noteq> []"
    by (auto split: list.splits)
  then show ?thesis
  proof cases
    case plain
    let ?s = "new_section (se_kind s) (se_path s) h"
    have "parse_lines (section_lines s @ rest) current ops = parse_lines (se_body s @ rest) (Some ?s) (ops @ close_section current)"
      using plain ok by (simp add: section_lines_def)
    also have "\<dots> = parse_lines rest (Some (?s\<lparr>se_body := se_body s\<rparr>)) (ops @ close_section current)"
      using parse_body [of "se_body s" ?s] ok by (cases "se_kind s = DeleteOp") (auto simp: new_section_def)
    also have "?s\<lparr>se_body := se_body s\<rparr> = s" using plain by (simp add: new_section_def)
    finally show ?thesis .
  next
    case move
    let ?s = "(new_section (se_kind s) (se_path s) h)\<lparr>se_move := se_move s, se_headers := [h, m]\<rparr>"
    have "extend_section m (Some (new_section (se_kind s) (se_path s) h)) = Some ?s"
      using move by (simp add: extend_section_def new_section_def no_move_def Let_def)
    with move ok have "parse_lines (section_lines s @ rest) current ops = parse_lines (se_body s @ rest) (Some ?s) (ops @ close_section current)"
      by (simp add: section_lines_def move_no_header)
    also have "\<dots> = parse_lines rest (Some (?s\<lparr>se_body := se_body s\<rparr>)) (ops @ close_section current)"
      using parse_body [of "se_body s" ?s] ok move by (auto simp: new_section_def)
    also have "?s\<lparr>se_body := se_body s\<rparr> = s" using move by (simp add: new_section_def)
    finally show ?thesis .
  qed
qed

lemma parse_sections:
  "list_all section_ok secs \<Longrightarrow>
   parse_lines (concat (map section_lines secs)) current ops = Some (ops @ close_section current @ map finalize secs)"
proof (induction secs arbitrary: current ops)
  case Nil
  then show ?case by simp
next
  case (Cons s secs)
  then show ?case by (simp add: parse_section close_section_def)
qed

lemma extend_ok:
  assumes "extend_section l (Some s) = Some s'" "section_ok s"
  shows "section_ok s' \<and> section_lines s' = section_lines s @ [l]"
proof (cases "prefix move_to l")
  case True
  with assms show ?thesis
    by (auto simp: extend_section_def section_ok_def section_lines_def headers_ok_def no_move_def Let_def split: if_splits list.splits)
next
  case False
  with assms show ?thesis
    by (auto simp: extend_section_def section_ok_def section_lines_def headers_ok_def split: if_splits list.splits)
qed

lemma new_section_lines [simp]: "section_lines (new_section k p l) = [l]"
  by (simp add: section_lines_def new_section_def)

lemma parse_lines_sections:
  assumes "parse_lines lines current ops = Some res" "\<forall>s. current = Some s \<longrightarrow> section_ok s"
  shows "\<exists>secs. list_all section_ok secs \<and> res = ops @ map finalize secs \<and>
    concat (map section_lines secs) = (case current of Some s \<Rightarrow> section_lines s | None \<Rightarrow> []) @ lines"
  using assms
proof (induction lines current ops rule: parse_lines.induct)
  case (1 current ops)
  then show ?case
    by (intro exI [of _ "case current of Some s \<Rightarrow> [s] | None \<Rightarrow> []"]) (auto simp: close_section_def split: option.splits)
next
  case (2 line rest current ops)
  show ?case
  proof (cases "match_header line")
    case (Some kp)
    obtain k p where kp: "kp = (k, p)" by (cases kp)
    have p: "p \<noteq> []" using 2(3) Some kp by (auto split: if_splits)
    have ok: "section_ok (new_section k p line)"
      using Some kp p by (simp add: section_ok_def headers_ok_def new_section_def)
    from 2(2) [OF Some, OF kp [symmetric] p] 2(3) Some kp p ok obtain secs where
      secs: "list_all section_ok secs" "res = (ops @ close_section current) @ map finalize secs"
      "concat (map section_lines secs) = section_lines (new_section k p line) @ rest"
      by auto
    show ?thesis
    proof (cases current)
      case None
      with secs show ?thesis by (intro exI [of _ secs]) (simp add: close_section_def)
    next
      case s: (Some s)
      with secs 2(4) show ?thesis
        by (intro exI [of _ "s # secs"]) (simp add: close_section_def)
    qed
  next
    case None
    then obtain s where s: "extend_section line current = Some s" "parse_lines rest (Some s) ops = Some res"
      using 2(3) by (auto split: option.splits)
    then obtain s0 where s0: "current = Some s0" by (cases current) (auto simp: extend_section_def Let_def split: if_splits)
    with s 2(4) have "section_ok s \<and> section_lines s = section_lines s0 @ [line]" using extend_ok by blast
    with 2(1) [OF None s(1) s(2)] s0 show ?thesis by simp
  qed
qed

lemma parse_lines_iff:
  "parse_lines lines None [] = Some ops \<longleftrightarrow>
     (\<exists>secs. list_all section_ok secs \<and> lines = concat (map section_lines secs) \<and> ops = map finalize secs)"
  using parse_lines_sections [of lines None "[]" ops] parse_sections [of _ None "[]"]
  by (fastforce simp: close_section_def)

text \<open>A text that lists sections, and what the parser makes of it.\<close>

definition render_patch :: "patch_section list \<Rightarrow> string" where
  "render_patch secs = join_on newline (begin_line # concat (map section_lines secs) @ [end_line])"

definition plain_line :: "string \<Rightarrow> bool" where
  "plain_line l \<longleftrightarrow> newline \<notin> set l \<and> strip_cr l = l"

lemma edge_lines [simp]:
  "plain_line begin_line" "plain_line end_line" "\<not> blank_line begin_line" "\<not> blank_line end_line" "begin_line \<noteq> []" "begin_line \<noteq> end_line"
  by code_simp+

lemma envelope_render:
  assumes "\<forall>s \<in> set secs. \<forall>l \<in> set (section_lines s). plain_line l"
  shows "envelope (render_patch secs) = begin_line # concat (map section_lines secs) @ [end_line]"
proof -
  let ?ls = "begin_line # concat (map section_lines secs) @ [end_line]"
  have plain: "\<forall>l \<in> set ?ls. plain_line l" using assms by auto
  then have "split_on newline (render_patch secs) = ?ls"
    unfolding render_patch_def by (intro split_join_on) (auto simp: plain_line_def)
  moreover have "map strip_cr ?ls = ?ls" using plain by (intro map_idI) (auto simp: plain_line_def)
  ultimately show ?thesis by (simp add: envelope_def)
qed

lemma parse_apply_patch_iff:
  "parse_apply_patch command = Some ops \<longleftrightarrow>
     (\<exists>secs. list_all section_ok secs \<and> envelope command = begin_line # concat (map section_lines secs) @ [end_line] \<and>
        ops = map finalize secs)"
proof -
  have shape: "(ls \<noteq> [] \<and> hd ls = begin_line \<and> last ls = end_line \<and> 2 \<le> length ls) \<longleftrightarrow> (\<exists>ms. ls = begin_line # ms @ [end_line])" for ls
    by (cases ls; cases "tl ls" rule: rev_cases) auto
  show ?thesis
  proof (cases "\<exists>ms. envelope command = begin_line # ms @ [end_line]")
    case True
    then obtain ms where ms: "envelope command = begin_line # ms @ [end_line]" by blast
    then show ?thesis using parse_lines_iff [of ms ops] by (auto simp: parse_apply_patch_def)
  next
    case False
    with shape [of "envelope command"] have "parse_apply_patch command = None"
      by (auto simp: parse_apply_patch_def Let_def)
    with False show ?thesis by auto
  qed
qed

text \<open>
  C39. The patch parser accepts exactly its grammar: it answers the operations of the sections the
  envelope consists of, in order, so that every line of the patch belongs to one operation, and it
  answers nothing for any other text. A text that lists sections parses back into them.
\<close>

theorem patch_grammar:
  "(parse_apply_patch command = Some ops \<longleftrightarrow>
     (\<exists>secs. list_all section_ok secs \<and> envelope command = begin_line # concat (map section_lines secs) @ [end_line] \<and>
        ops = map finalize secs)) \<and>
   (list_all section_ok ss \<and> (\<forall>s \<in> set ss. \<forall>l \<in> set (section_lines s). plain_line l) \<longrightarrow>
     parse_apply_patch (render_patch ss) = Some (map finalize ss))"
  using parse_apply_patch_iff [of command ops] parse_apply_patch_iff [of "render_patch ss" "map finalize ss"] envelope_render [of ss] by blast

definition sample_sections :: "patch_section list" where
  "sample_sections =
     [\<lparr>se_kind = AddOp, se_path = ''tests/a.py'', se_move = None, se_headers = [''*** Add File: tests/a.py''], se_body = [''+x'', eof_marker]\<rparr>,
      \<lparr>se_kind = UpdateOp, se_path = ''src/a.py'', se_move = Some ''src/b.py'',
        se_headers = [''*** Update File: src/a.py'', ''*** Move to: src/b.py''], se_body = [''@@'', ''-x'', ''+++y'']\<rparr>,
      \<lparr>se_kind = DeleteOp, se_path = ''c'', se_move = None, se_headers = [''*** Delete File: c''], se_body = []\<rparr>]"

theorem patch_grammar_witness:
  "\<exists>ops. parse_apply_patch (render_patch sample_sections) = Some ops \<and>
     map po_path ops = [''tests/a.py'', ''src/b.py'', ''c''] \<and> map po_added ops = [''x'', ''++y'', []]"
proof -
  have ok: "list_all section_ok sample_sections" "\<forall>s \<in> set sample_sections. \<forall>l \<in> set (section_lines s). plain_line l"
    by code_simp+
  have "map (po_path \<circ> finalize) sample_sections = [''tests/a.py'', ''src/b.py'', ''c''] \<and> map (po_added \<circ> finalize) sample_sections = [''x'', ''++y'', []]"
    by code_simp
  with ok patch_grammar [where ss = sample_sections] show ?thesis by auto
qed

section \<open>What the policies see\<close>

lemma context_path [simp]:
  "c_path ((context_for_op digest cwd name op)\<lparr>c_native := native\<rparr>) = Some (relative_target cwd (po_path op))"
  by (simp add: context_for_op_def Let_def)

lemma context_writes [simp]: "writes_file ((context_for_op digest cwd name op)\<lparr>c_native := native\<rparr>)"
  by (simp add: context_for_op_def Let_def writes_file_def)

lemma build_contexts_eq:
  assumes "dget payload ''tool_input'' = Some (JObj input)" "dget input ''command'' = Some (JStr command)"
    and "parse_apply_patch command = Some ops"
  shows "build_contexts digest cwd name native payload ''apply_patch'' =
    map (\<lambda>op. (context_for_op digest cwd name op)\<lparr>c_native := native\<rparr>) (filter (\<lambda>op. po_kind op \<noteq> DeleteOp) ops)"
  using assms by (simp add: build_contexts_def)

text \<open>Beyond the limit the policies see nothing: only the first characters of an operation reach them.\<close>

lemma content_beyond_limit:
  assumes "max_content_chars < length (po_added a)" "max_content_chars < length (po_added b)"
    and "take max_content_chars (po_added a) = take max_content_chars (po_added b)"
  shows "c_content (context_for_op digest cwd name a) = c_content (context_for_op digest cwd name b)"
  using assms by (simp add: context_for_op_def Let_def truncated_def)

text \<open>Directories are compared as texts: a path that leaves \<open>tests\<close> by dots counts as a test file.\<close>

lemma dots_count_as_tests: "is_under_directory (Some ''tests/../src/a.py'') ''tests''"
  by code_simp

end
