(* ===== verification/Journal.thy ===== *)
theory Journal
  imports Names
begin

text \<open>
  Session event journals, \<open>session/events.py\<close>: the envelope of an event and its strict validation,
  the append of the evidence domains, and the checkpoint of the review domain, which keeps the
  spending state of Stop reviews in the last record of a journal that is compacted as it grows.

  The payload is a value of the domain (\<open>'p\<close>); its validator is an argument. \<open>iso\<close> tells which
  timestamps \<open>parse_iso\<close> accepts, \<open>sz\<close> is the number of bytes of an event's line. Error messages
  are reduced to the record number and the field.
\<close>

section \<open>Events\<close>

record 'p event =
  ev_schema :: int
  ev_id :: string
  ev_timestamp :: string
  ev_session :: string
  ev_runtime :: string
  ev_type :: string
  ev_run_id :: "string option"
  ev_origin :: string
  ev_operation :: "string option"
  ev_outcome :: string
  ev_reason :: "string option"
  ev_payload :: 'p

text \<open>A record of the journal: its fields other than the payload, and what is at \<open>payload\<close>.\<close>

datatype 'p payload_field = NoPayload | NotObject | Payload 'p

record 'p raw =
  raw_fields :: jobj
  raw_payload :: "'p payload_field"

datatype journal_error =
    BadEvent "nat option" "string option"
  | PathUnsafe
  | ReadFailed
  | WriteFailed
  | LockBusy
  | Callback string

definition event_schema_version :: int where
  "event_schema_version = 1"

definition event_origins :: "string list" where
  "event_origins = [''external_cli'', ''session_derivation'', ''launcher'', ''claude_authority_hook'',
     ''codex_policy_hook'', ''codex_review_hook'']"

definition event_operations :: "string list" where
  "event_operations = [''start'', ''resume'', ''fork'', ''incognito'', ''set'', ''clear'', ''tool_request'', ''runtime_event'']"

definition event_outcomes :: "string list" where
  "event_outcomes = [''success'', ''denied'', ''refused'', ''cancelled'', ''error'']"

definition agent_runtimes :: "string list" where
  "agent_runtimes = [''claude_code'', ''codex'']"

text \<open>The envelope fields other than \<open>payload\<close>.\<close>

definition envelope_fields :: "string list" where
  "envelope_fields = [''schema_version'', ''event_id'', ''timestamp'', ''session'', ''runtime'', ''event_type'', ''run_id'',
     ''origin_surface'', ''operation'', ''outcome'', ''reason_code'']"

definition digit :: "char \<Rightarrow> bool" where
  "digit c \<longleftrightarrow> c \<in> set ''0123456789''"

definition hex_digit :: "char \<Rightarrow> bool" where
  "hex_digit c \<longleftrightarrow> c \<in> set ''0123456789abcdef''"

text \<open>\<open>_EVENT_ID_RE\<close>, \<open>RUN_ID_RE\<close>, \<open>_TOKEN_RE\<close> and \<open>_RFC3339_UTC_RE\<close>, with \<open>fullmatch\<close>.\<close>

definition valid_event_id :: "string \<Rightarrow> bool" where
  "valid_event_id s \<longleftrightarrow> prefix ''sevt_'' s \<and> length s = 37 \<and> list_all hex_digit (drop 5 s)"

definition valid_run_id :: "string \<Rightarrow> bool" where
  "valid_run_id s \<longleftrightarrow> prefix ''run_'' s \<and> length s = 16 \<and> list_all hex_digit (drop 4 s)"

definition token_char :: "char \<Rightarrow> bool" where
  "token_char c \<longleftrightarrow> c \<in> set ''abcdefghijklmnopqrstuvwxyz0123456789_''"

definition valid_token :: "string \<Rightarrow> bool" where
  "valid_token s \<longleftrightarrow> s \<noteq> [] \<and> hd s \<in> set ''abcdefghijklmnopqrstuvwxyz'' \<and> list_all token_char s"

definition utc_zone :: "string \<Rightarrow> bool" where
  "utc_zone s \<longleftrightarrow> s = ''Z'' \<or> s = ''+00:00''"

definition utc_timestamp :: "string \<Rightarrow> bool" where
  "utc_timestamp t \<longleftrightarrow>
     list_all2 (\<lambda>p c. if p = CHR ''d'' then digit c else c = p) ''dddd-dd-ddTdd:dd:dd'' (take 19 t) \<and>
     (case drop 19 t of
        c # rest \<Rightarrow> if c = CHR ''.'' then takeWhile digit rest \<noteq> [] \<and> utc_zone (dropWhile digit rest) else utc_zone (c # rest)
      | [] \<Rightarrow> False)"

section \<open>Validation\<close>

text \<open>A field that must be a non-empty string, null or a string, with a test.\<close>

definition string_field :: "jobj \<Rightarrow> string \<Rightarrow> nat option \<Rightarrow> (string \<Rightarrow> bool) \<Rightarrow> journal_error + string" where
  "string_field d k n ok =
     (case str_at d k of
        Some s \<Rightarrow> if s \<noteq> [] \<and> ok s then Inr s else Inl (BadEvent n (Some k))
      | None \<Rightarrow> Inl (BadEvent n (Some k)))"

definition nullable_field :: "jobj \<Rightarrow> string \<Rightarrow> nat option \<Rightarrow> (string \<Rightarrow> bool) \<Rightarrow> journal_error + string option" where
  "nullable_field d k n ok =
     (case jget d k of
        JNull \<Rightarrow> Inr None
      | JStr s \<Rightarrow> if ok s then Inr (Some s) else Inl (BadEvent n (Some k))
      | _ \<Rightarrow> Inl (BadEvent n (Some k)))"

definition bind_result :: "('e + 'a) \<Rightarrow> ('a \<Rightarrow> 'e + 'b) \<Rightarrow> 'e + 'b" where
  "bind_result x f = (case x of Inl e \<Rightarrow> Inl e | Inr a \<Rightarrow> f a)"

record 'p domain =
  dm_payload :: "string \<Rightarrow> 'p \<Rightarrow> bool"
  dm_event :: "'p event \<Rightarrow> bool"
  dm_iso :: "string \<Rightarrow> bool"

definition validate_session_event :: "'p domain \<Rightarrow> string option \<Rightarrow> nat option \<Rightarrow> 'p raw \<Rightarrow> journal_error + 'p event" where
  "validate_session_event dm expected n r =
     (let d = raw_fields r in
      if \<not> set (dkeys d) \<subseteq> set envelope_fields then Inl (BadEvent n None)
      else if \<not> set envelope_fields \<subseteq> set (dkeys d) \<or> raw_payload r = NoPayload then Inl (BadEvent n None)
      else if jget d ''schema_version'' \<noteq> JInt event_schema_version then Inl (BadEvent n (Some ''schema_version''))
      else
        bind_result (string_field d ''event_id'' n valid_event_id) (\<lambda>eid.
        bind_result (string_field d ''timestamp'' n (\<lambda>t. dm_iso dm t \<and> utc_timestamp t)) (\<lambda>ts.
        bind_result (string_field d ''session'' n (\<lambda>s. validate_name s = Inr () \<and> (case expected of Some x \<Rightarrow> s = x | None \<Rightarrow> True))) (\<lambda>session.
        bind_result (string_field d ''runtime'' n (\<lambda>s. s \<in> set agent_runtimes)) (\<lambda>runtime.
        bind_result (string_field d ''event_type'' n valid_token) (\<lambda>ty.
        bind_result (nullable_field d ''run_id'' n valid_run_id) (\<lambda>run.
        bind_result (string_field d ''origin_surface'' n (\<lambda>s. s \<in> set event_origins)) (\<lambda>origin.
        bind_result (nullable_field d ''operation'' n (\<lambda>s. s \<in> set event_operations)) (\<lambda>operation.
        bind_result (string_field d ''outcome'' n (\<lambda>s. s \<in> set event_outcomes)) (\<lambda>outcome.
        bind_result (nullable_field d ''reason_code'' n valid_token) (\<lambda>reason.
          (case raw_payload r of
             Payload p \<Rightarrow>
               if \<not> dm_payload dm ty p then Inl (BadEvent n (Some ''payload''))
               else (let e = \<lparr>ev_schema = event_schema_version, ev_id = eid, ev_timestamp = ts, ev_session = session,
                       ev_runtime = runtime, ev_type = ty, ev_run_id = run, ev_origin = origin, ev_operation = operation,
                       ev_outcome = outcome, ev_reason = reason, ev_payload = p\<rparr>
                     in if dm_event dm e then Inr e else Inl (BadEvent n None))
           | _ \<Rightarrow> Inl (BadEvent n (Some ''payload''))))))))))))))"

definition opt_str :: "string option \<Rightarrow> json" where
  "opt_str v = (case v of Some s \<Rightarrow> JStr s | None \<Rightarrow> JNull)"

text \<open>\<open>asdict(event)\<close>\<close>

definition raw_of :: "'p event \<Rightarrow> 'p raw" where
  "raw_of e =
     \<lparr>raw_fields = [(''schema_version'', JInt (ev_schema e)), (''event_id'', JStr (ev_id e)), (''timestamp'', JStr (ev_timestamp e)),
        (''session'', JStr (ev_session e)), (''runtime'', JStr (ev_runtime e)), (''event_type'', JStr (ev_type e)),
        (''run_id'', opt_str (ev_run_id e)), (''origin_surface'', JStr (ev_origin e)), (''operation'', opt_str (ev_operation e)),
        (''outcome'', JStr (ev_outcome e)), (''reason_code'', opt_str (ev_reason e))],
      raw_payload = Payload (ev_payload e)\<rparr>"

definition new_session_event ::
  "'p domain \<Rightarrow> string \<Rightarrow> string \<Rightarrow> string \<Rightarrow> string \<Rightarrow> string \<Rightarrow> string option \<Rightarrow> string \<Rightarrow> string option \<Rightarrow> string \<Rightarrow>
   string option \<Rightarrow> 'p \<Rightarrow> journal_error + 'p event" where
  "new_session_event dm eid ts session runtime ty run origin operation outcome reason payload =
     validate_session_event dm (Some session) None
       (raw_of \<lparr>ev_schema = event_schema_version, ev_id = eid, ev_timestamp = ts, ev_session = session, ev_runtime = runtime,
                ev_type = ty, ev_run_id = run, ev_origin = origin, ev_operation = operation, ev_outcome = outcome,
                ev_reason = reason, ev_payload = payload\<rparr>)"

section \<open>The journal\<close>

text \<open>
  A line of the file: a JSON object, white space, or something else. The file has a size; its last
  line may lack the newline after an interrupted append.
\<close>

datatype 'p line = RecordLine "'p raw" | BlankLine | BadLine

datatype 'p journal = NoJournal | UnreadableJournal | JournalOf "'p line list" nat bool

fun journal_exists :: "'p journal \<Rightarrow> bool" where
  "journal_exists NoJournal = False"
| "journal_exists _ = True"

datatype marker_file = NoMarker | GoodMarker | BadMarker

record 'p journal_dir =
  jd_journal :: "'p journal"
  jd_marker :: marker_file

text \<open>The path of a journal below the root, and the owner directory of the review domain.\<close>

definition session_event_domains :: "string list" where
  "session_event_domains = [''authority'', ''routing'', ''review'']"

definition journal_parts :: "string \<Rightarrow> string \<Rightarrow> string option \<Rightarrow> string option \<Rightarrow> journal_error + string list" where
  "journal_parts session domain review_id identity =
     (let base = [''.forge'', ''artifacts'', session, domain] in
      if domain \<notin> set session_event_domains \<or> validate_name session \<noteq> Inr () then Inl PathUnsafe
      else if domain = ''review'' then
        (case (case review_id of Some r \<Rightarrow> if r \<noteq> [] then Some r else identity | None \<Rightarrow> identity) of
           None \<Rightarrow> Inr (base @ [''events.jsonl''])
         | Some owner \<Rightarrow>
             if length owner \<noteq> 32 \<or> \<not> list_all hex_digit owner then Inl PathUnsafe
             else Inr (base @ [owner, ''events.jsonl'']))
      else if review_id \<noteq> None then Inl PathUnsafe
      else Inr (base @ [''events.jsonl'']))"

fun read_lines :: "'p domain \<Rightarrow> string \<Rightarrow> nat \<Rightarrow> string list \<Rightarrow> 'p line list \<Rightarrow> journal_error + 'p event list" where
  "read_lines dm session n ids [] = Inr []"
| "read_lines dm session n ids (BlankLine # ls) = Inl (BadEvent (Some n) None)"
| "read_lines dm session n ids (BadLine # ls) = Inl (BadEvent (Some n) None)"
| "read_lines dm session n ids (RecordLine r # ls) =
     bind_result (validate_session_event dm (Some session) (Some n) r) (\<lambda>e.
       if ev_id e \<in> set ids then Inl (BadEvent (Some n) (Some ''event_id''))
       else bind_result (read_lines dm session (Suc n) (ev_id e # ids) ls) (\<lambda>es. Inr (e # es)))"

definition read_session_events :: "'p domain \<Rightarrow> string \<Rightarrow> nat option \<Rightarrow> 'p journal \<Rightarrow> journal_error + 'p event list" where
  "read_session_events dm session max_bytes j =
     (case j of
        NoJournal \<Rightarrow> Inr []
      | UnreadableJournal \<Rightarrow> Inl ReadFailed
      | JournalOf ls bytes whole \<Rightarrow>
          if (case max_bytes of Some m \<Rightarrow> m < bytes | None \<Rightarrow> False) then Inl ReadFailed
          else if ls \<noteq> [] \<and> \<not> whole then Inl (BadEvent (Some (length ls)) None)
          else read_lines dm session 1 [] ls)"

text \<open>
  An append writes the line in pieces and syncs: it may stop before the first byte, after some of
  them, or after all of them. A line that follows a torn one joins it.
\<close>

datatype append_outcome = AppendOk | AppendNothing | AppendTorn nat | AppendUnsynced

definition put_line :: "'p line \<Rightarrow> nat \<Rightarrow> bool \<Rightarrow> 'p journal \<Rightarrow> 'p journal" where
  "put_line l bytes whole j =
     (case j of
        NoJournal \<Rightarrow> JournalOf [l] bytes whole
      | UnreadableJournal \<Rightarrow> UnreadableJournal
      | JournalOf ls b ended \<Rightarrow>
          if ls \<noteq> [] \<and> \<not> ended then JournalOf (butlast ls @ [BadLine]) (b + bytes) whole
          else JournalOf (ls @ [l]) (b + bytes) whole)"

definition append_session_event ::
  "'p domain \<Rightarrow> ('p event \<Rightarrow> nat) \<Rightarrow> append_outcome \<Rightarrow> 'p raw \<Rightarrow> ('p journal, journal_error, unit) op" where
  "append_session_event dm sz out r =
     (case str_at (raw_fields r) ''session'' of
        None \<Rightarrow> raise (BadEvent None (Some ''session''))
      | Some session \<Rightarrow>
          and_then (check (validate_session_event dm (Some session) None r)) (\<lambda>e. on_state (\<lambda>j.
            if j = UnreadableJournal then raise WriteFailed
            else (\<lambda>_. case out of
                AppendOk \<Rightarrow> ([put_line (RecordLine (raw_of e)) (sz e) True j], Inr ())
              | AppendNothing \<Rightarrow> ([], Inl WriteFailed)
              | AppendTorn k \<Rightarrow> ([put_line BadLine (min k (sz e)) False j], Inl WriteFailed)
              | AppendUnsynced \<Rightarrow> ([put_line (RecordLine (raw_of e)) (sz e) True j], Inl WriteFailed)))))"

section \<open>The checkpoint of the review domain\<close>

definition checkpoint_read_limit :: nat where
  "checkpoint_read_limit = 2000000"

definition checkpoint_event_limit :: nat where
  "checkpoint_event_limit = 900000"

definition checkpoint_retained_limit :: nat where
  "checkpoint_retained_limit = 1800000"

definition checkpoint_records :: nat where
  "checkpoint_records = 16"

text \<open>The common prefix of reader and writer: the records, or what is wrong with the history.\<close>

definition checkpoint_history :: "'p domain \<Rightarrow> string \<Rightarrow> 'p journal_dir \<Rightarrow> journal_error + 'p event list" where
  "checkpoint_history dm session d =
     (if jd_marker d = BadMarker then Inl ReadFailed
      else if jd_marker d = GoodMarker \<and> jd_journal d = NoJournal then Inl ReadFailed
      else bind_result (read_session_events dm session (Some checkpoint_read_limit) (jd_journal d)) (\<lambda>rows.
        if journal_exists (jd_journal d) \<and> rows = [] then Inl ReadFailed else Inr rows))"

definition last_record :: "'a list \<Rightarrow> 'a option" where
  "last_record rows = (if rows = [] then None else Some (last rows))"

definition read_review_checkpoint :: "'p domain \<Rightarrow> string \<Rightarrow> 'p journal_dir \<Rightarrow> journal_error + 'p event option" where
  "read_review_checkpoint dm session d = bind_result (checkpoint_history dm session d) (\<lambda>rows. Inr (last_record rows))"

text \<open>The rows that stay in the file beside the new one: none once it would grow too large.\<close>

definition retained :: "('p event \<Rightarrow> nat) \<Rightarrow> 'p event list \<Rightarrow> 'p event \<Rightarrow> 'p event list" where
  "retained sz rows e =
     (if checkpoint_retained_limit < sum_list (map sz rows) + sz e \<or> checkpoint_records \<le> length rows then [] else rows)"

definition journal_of :: "('p event \<Rightarrow> nat) \<Rightarrow> 'p event list \<Rightarrow> 'p journal" where
  "journal_of sz rows = JournalOf (map (RecordLine \<circ> raw_of) rows) (sum_list (map sz rows)) True"

definition establish_marker :: "wout \<Rightarrow> ('p journal_dir, journal_error, unit) op" where
  "establish_marker out = on_state (\<lambda>d. if jd_marker d = NoMarker then durable WriteFailed out (\<lambda>d. d\<lparr>jd_marker := GoodMarker\<rparr>) else ret ())"

definition update_review_checkpoint ::
  "'p domain \<Rightarrow> ('p event \<Rightarrow> nat) \<Rightarrow> string \<Rightarrow> bool \<Rightarrow> wout \<Rightarrow> wout \<Rightarrow>
   ('p event option \<Rightarrow> journal_error + 'p event option) \<Rightarrow> ('p journal_dir, journal_error, 'p event option) op" where
  "update_review_checkpoint dm sz session lock_ok out1 out2 update =
     (if \<not> lock_ok then raise LockBusy
      else and_then (on_state (\<lambda>d. check (checkpoint_history dm session d))) (\<lambda>rows.
           and_then (check (update (last_record rows))) (\<lambda>candidate.
             case candidate of
               None \<Rightarrow> ret (last_record rows)
             | Some c \<Rightarrow>
                 and_then (check (validate_session_event dm (Some session) None (raw_of c))) (\<lambda>e.
                   if checkpoint_event_limit < sz e then raise WriteFailed
                   else and_then (durable WriteFailed out1 (\<lambda>d. d\<lparr>jd_journal := journal_of sz (retained sz rows e @ [e])\<rparr>)) (\<lambda>_.
                        and_then (establish_marker out2) (\<lambda>_. ret (Some e)))))))"

section \<open>Lemmas on events\<close>

lemma bind_result_Inr [simp]: "bind_result x f = Inr y \<longleftrightarrow> (\<exists>a. x = Inr a \<and> f a = Inr y)"
  by (cases x) (auto simp: bind_result_def)

lemma bind_result_simps [simp]: "bind_result (Inr a) f = f a" "bind_result (Inl e) f = Inl e"
  by (simp_all add: bind_result_def)

lemma string_field_Inr [simp]: "string_field d k n ok = Inr s \<longleftrightarrow> str_at d k = Some s \<and> s \<noteq> [] \<and> ok s"
  by (auto simp: string_field_def split: option.splits)

lemma nullable_field_Inr [simp]:
  "nullable_field d k n ok = Inr v \<longleftrightarrow> jget d k = opt_str v \<and> (\<forall>s. v = Some s \<longrightarrow> ok s)"
  by (auto simp: nullable_field_def opt_str_def split: json.splits option.splits)

text \<open>What a validated event satisfies, and that its record validates to it.\<close>

definition event_ok :: "'p domain \<Rightarrow> string option \<Rightarrow> 'p event \<Rightarrow> bool" where
  "event_ok dm expected e \<longleftrightarrow>
     ev_schema e = event_schema_version \<and> valid_event_id (ev_id e) \<and> dm_iso dm (ev_timestamp e) \<and> utc_timestamp (ev_timestamp e) \<and>
     validate_name (ev_session e) = Inr () \<and> (\<forall>x. expected = Some x \<longrightarrow> ev_session e = x) \<and> ev_runtime e \<in> set agent_runtimes \<and>
     valid_token (ev_type e) \<and> (\<forall>s. ev_run_id e = Some s \<longrightarrow> valid_run_id s) \<and> ev_origin e \<in> set event_origins \<and>
     (\<forall>s. ev_operation e = Some s \<longrightarrow> s \<in> set event_operations) \<and> ev_outcome e \<in> set event_outcomes \<and>
     (\<forall>s. ev_reason e = Some s \<longrightarrow> valid_token s) \<and> dm_payload dm (ev_type e) (ev_payload e) \<and> dm_event dm e"

lemma raw_of_fields [simp]:
  "dkeys (raw_fields (raw_of e)) = envelope_fields"
  "raw_payload (raw_of e) = Payload (ev_payload e)"
  "jget (raw_fields (raw_of e)) ''schema_version'' = JInt (ev_schema e)"
  "str_at (raw_fields (raw_of e)) ''event_id'' = Some (ev_id e)"
  "str_at (raw_fields (raw_of e)) ''timestamp'' = Some (ev_timestamp e)"
  "str_at (raw_fields (raw_of e)) ''session'' = Some (ev_session e)"
  "str_at (raw_fields (raw_of e)) ''runtime'' = Some (ev_runtime e)"
  "str_at (raw_fields (raw_of e)) ''event_type'' = Some (ev_type e)"
  "jget (raw_fields (raw_of e)) ''run_id'' = opt_str (ev_run_id e)"
  "str_at (raw_fields (raw_of e)) ''origin_surface'' = Some (ev_origin e)"
  "jget (raw_fields (raw_of e)) ''operation'' = opt_str (ev_operation e)"
  "str_at (raw_fields (raw_of e)) ''outcome'' = Some (ev_outcome e)"
  "jget (raw_fields (raw_of e)) ''reason_code'' = opt_str (ev_reason e)"
  by (simp_all add: raw_of_def envelope_fields_def str_at_def jget_def)

lemma opt_str_eq [simp]: "opt_str v = opt_str w \<longleftrightarrow> v = w"
  by (auto simp: opt_str_def split: option.splits)

lemma payload_case_Inr:
  "(case x of Payload p \<Rightarrow> f p | _ \<Rightarrow> Inl e) = Inr y \<longleftrightarrow> (\<exists>p. x = Payload p \<and> f p = Inr y)"
  by (cases x) auto

lemma if_else_Inr: "(if c then Inr a else Inl e) = Inr y \<longleftrightarrow> c \<and> y = a"
  by auto

lemma expected_session: "(case expected of Some x \<Rightarrow> s = x | None \<Rightarrow> True) \<longleftrightarrow> (\<forall>x. expected = Some x \<longrightarrow> s = x)"
  by (cases expected) auto

lemma validated_ok:
  assumes "validate_session_event dm expected n r = Inr e"
  shows "event_ok dm expected e"
  using assms unfolding validate_session_event_def Let_def payload_case_Inr if_else_Inr guard_Inr bind_result_Inr
    string_field_Inr nullable_field_Inr expected_session event_ok_def
  by (elim exE conjE) simp

lemma raw_of_keys: "fst ` set (raw_fields (raw_of e)) = set envelope_fields"
  by (metis raw_of_fields(1) set_map)

lemma event_ok_nonempty:
  assumes "event_ok dm expected e"
  shows "ev_id e \<noteq> []" "ev_timestamp e \<noteq> []" "ev_session e \<noteq> []" "ev_runtime e \<noteq> []" "ev_type e \<noteq> []"
    "ev_origin e \<noteq> []" "ev_outcome e \<noteq> []"
proof -
  have "[] \<notin> set agent_runtimes" "[] \<notin> set event_origins" "[] \<notin> set event_outcomes" "\<not> utc_timestamp []" "\<not> valid_event_id []"
    "\<not> valid_token []" "validate_name [] \<noteq> Inr ()"
    by code_simp+
  with assms show "ev_id e \<noteq> []" "ev_timestamp e \<noteq> []" "ev_session e \<noteq> []" "ev_runtime e \<noteq> []" "ev_type e \<noteq> []"
    "ev_origin e \<noteq> []" "ev_outcome e \<noteq> []"
    unfolding event_ok_def by metis+
qed

lemma validate_raw_of: "validate_session_event dm expected n (raw_of e) = Inr e' \<longleftrightarrow> e' = e \<and> event_ok dm expected e"
proof
  assume v: "validate_session_event dm expected n (raw_of e) = Inr e'"
  then have "e' = e"
    unfolding validate_session_event_def Let_def payload_case_Inr if_else_Inr guard_Inr bind_result_Inr
      string_field_Inr nullable_field_Inr expected_session
    by (elim exE conjE) (simp add: raw_of_keys)
  with validated_ok [OF v] show "e' = e \<and> event_ok dm expected e" by simp
next
  assume e: "e' = e \<and> event_ok dm expected e"
  then have ok: "event_ok dm expected e" by simp
  show "validate_session_event dm expected n (raw_of e) = Inr e'"
    using e event_ok_nonempty [OF ok]
    by (cases e) (simp add: validate_session_event_def Let_def event_ok_def raw_of_keys expected_session)
qed

section \<open>Reading back\<close>

definition rows_ok :: "'p domain \<Rightarrow> string \<Rightarrow> 'p event list \<Rightarrow> bool" where
  "rows_ok dm session rows \<longleftrightarrow> (\<forall>e \<in> set rows. event_ok dm (Some session) e) \<and> distinct (map ev_id rows)"

lemma read_lines_rows:
  "read_lines dm session n ids ls = Inr es \<Longrightarrow> rows_ok dm session es \<and> set (map ev_id es) \<inter> set ids = {}"
proof (induction dm session n ids ls arbitrary: es rule: read_lines.induct)
  case (4 dm session n ids r ls)
  then obtain e es' where e: "validate_session_event dm (Some session) (Some n) r = Inr e" "ev_id e \<notin> set ids"
    "read_lines dm session (Suc n) (ev_id e # ids) ls = Inr es'" "es = e # es'"
    by (auto split: if_splits)
  from 4(1) [OF e(2,3)] e validated_ok [OF e(1)] show ?case by (auto simp: rows_ok_def)
qed (auto simp: rows_ok_def)

lemma read_lines_raw_of:
  "rows_ok dm session rows \<Longrightarrow> set (map ev_id rows) \<inter> set ids = {} \<Longrightarrow>
   read_lines dm session n ids (map (RecordLine \<circ> raw_of) rows) = Inr rows"
proof (induction rows arbitrary: n ids)
  case Nil
  then show ?case by simp
next
  case (Cons e rows)
  then have e: "validate_session_event dm (Some session) (Some n) (raw_of e) = Inr e" by (simp add: validate_raw_of rows_ok_def)
  have "rows_ok dm session rows" "set (map ev_id rows) \<inter> set (ev_id e # ids) = {}"
    using Cons.prems by (auto simp: rows_ok_def)
  from Cons.IH [OF this] Cons.prems e show ?case by simp
qed

lemma history_rows: "checkpoint_history dm session d = Inr rows \<Longrightarrow> rows_ok dm session rows"
  by (auto simp: checkpoint_history_def read_session_events_def rows_ok_def dest!: read_lines_rows split: journal.splits if_splits)

text \<open>A journal of rows within the limits reads back as its rows, with or without the marker.\<close>

lemma history_journal_of:
  assumes "rows_ok dm session rows" "rows \<noteq> []" "sum_list (map sz rows) \<le> checkpoint_read_limit" "jd_marker d \<noteq> BadMarker"
  shows "checkpoint_history dm session (d\<lparr>jd_journal := journal_of sz rows\<rparr>) = Inr rows"
  using assms by (simp add: checkpoint_history_def read_session_events_def journal_of_def read_lines_raw_of)

lemma retained_rows: "set (retained sz rows e) \<subseteq> set rows" "distinct (map ev_id rows) \<Longrightarrow> distinct (map ev_id (retained sz rows e))"
  by (auto simp: retained_def)

lemma retained_size:
  "sz e \<le> checkpoint_event_limit \<Longrightarrow> sum_list (map sz (retained sz rows e @ [e])) \<le> checkpoint_read_limit"
  by (auto simp: retained_def checkpoint_event_limit_def checkpoint_read_limit_def checkpoint_retained_limit_def)

section \<open>The checkpoint is one cell\<close>

text \<open>The specification: a cell that is read, and replaced when the callback answers a new event.\<close>

definition cell_update ::
  "('p event option \<Rightarrow> journal_error + 'p event option) \<Rightarrow> 'p event option \<Rightarrow> 'p event option \<times> (journal_error + 'p event option)" where
  "cell_update update prev =
     (case update prev of
        Inl e \<Rightarrow> (prev, Inl e)
      | Inr None \<Rightarrow> (prev, Inr prev)
      | Inr (Some e) \<Rightarrow> (Some e, Inr (Some e)))"

text \<open>The new event was minted: no record of the journal has its id.\<close>

definition minted :: "'p domain \<Rightarrow> string \<Rightarrow> 'p journal_dir \<Rightarrow> 'p event \<Rightarrow> bool" where
  "minted dm session d e \<longleftrightarrow> (case checkpoint_history dm session d of Inr rows \<Rightarrow> ev_id e \<notin> set (map ev_id rows) | Inl _ \<Rightarrow> True)"

lemma history_appended:
  assumes "checkpoint_history dm session d = Inr rows" "event_ok dm (Some session) e" "ev_id e \<notin> set (map ev_id rows)"
    and "sz e \<le> checkpoint_event_limit"
  shows "checkpoint_history dm session (d\<lparr>jd_journal := journal_of sz (retained sz rows e @ [e])\<rparr>) = Inr (retained sz rows e @ [e])"
proof (rule history_journal_of)
  note ok = history_rows [OF assms(1)]
  have "ev_id e \<notin> ev_id ` set (retained sz rows e)" using assms(3) retained_rows(1) [of sz rows e] by auto
  with ok assms(2) retained_rows(1) [of sz rows e] retained_rows(2) [of rows sz e]
  show "rows_ok dm session (retained sz rows e @ [e])" by (auto simp: rows_ok_def)
  show "jd_marker d \<noteq> BadMarker" using assms(1) by (auto simp: checkpoint_history_def)
  show "sum_list (map sz (retained sz rows e @ [e])) \<le> checkpoint_read_limit" by (rule retained_size [of sz e rows, OF assms(4)])
qed simp

lemma history_marker:
  "checkpoint_history dm session d = Inr rows \<Longrightarrow> jd_journal d \<noteq> NoJournal \<Longrightarrow>
   checkpoint_history dm session (d\<lparr>jd_marker := GoodMarker\<rparr>) = Inr rows"
  by (simp add: checkpoint_history_def split: if_splits)

text \<open>The states of a run, from the history it finds.\<close>

lemma update_review_checkpoint_run:
  assumes "checkpoint_history dm session d = Inr rows" "update (last_record rows) = Inr (Some e)"
    and "ev_id e \<notin> set (map ev_id rows)" "run = update_review_checkpoint dm sz session True out1 out2 update d"
  shows "(\<forall>d' \<in> set (fst run). read_review_checkpoint dm session d' = Inr (Some e)) \<and>
    (\<forall>r. snd run = Inr r \<longrightarrow> r = Some e \<and> fst run \<noteq> [])"
proof (cases "event_ok dm (Some session) e \<and> sz e \<le> checkpoint_event_limit")
  case False
  have "fst run = [] \<and> (\<exists>x. snd run = Inl x)"
  proof (cases "validate_session_event dm (Some session) None (raw_of e)")
    case (Inl x)
    with assms show ?thesis by (simp add: update_review_checkpoint_def and_then_check_eq)
  next
    case (Inr e')
    then have "e' = e \<and> event_ok dm (Some session) e" by (simp add: validate_raw_of)
    with False assms Inr show ?thesis by (simp add: update_review_checkpoint_def and_then_check_eq)
  qed
  then show ?thesis by auto
next
  case True
  then have v: "validate_session_event dm (Some session) None (raw_of e) = Inr e" by (simp add: validate_raw_of)
  let ?d = "d\<lparr>jd_journal := journal_of sz (retained sz rows e @ [e])\<rparr>"
  have h: "checkpoint_history dm session ?d = Inr (retained sz rows e @ [e])"
    using history_appended [OF assms(1) _ assms(3)] True by blast
  have h': "checkpoint_history dm session (?d\<lparr>jd_marker := GoodMarker\<rparr>) = Inr (retained sz rows e @ [e])"
    by (rule history_marker [OF h]) (simp add: journal_of_def)
  have run: "run = and_then (durable WriteFailed out1 (\<lambda>d. d\<lparr>jd_journal := journal_of sz (retained sz rows e @ [e])\<rparr>))
      (\<lambda>_. and_then (establish_marker out2) (\<lambda>_. ret (Some e))) d"
    using True v assms by (simp add: update_review_checkpoint_def and_then_check_eq)
  show ?thesis
    using h h' unfolding run establish_marker_def
    by (cases out1; cases out2; cases "jd_marker d = NoMarker")
      (simp_all add: and_then_def read_review_checkpoint_def last_record_def)
qed

text \<open>
  C22. The review checkpoint is one atomic cell. From a history that reads as the value \<open>prev\<close>, every
  state a run makes durable reads as \<open>prev\<close> or as the event the callback answered, whichever write fails
  and wherever the process dies; a run that returns has done the update of the specification, result
  and state. A history that was established and lost is an error, never an empty cell.
\<close>

theorem checkpoint_refines_cell:
  assumes "read_review_checkpoint dm session d = Inr prev"
    and "\<forall>e. update prev = Inr (Some e) \<longrightarrow> minted dm session d e"
    and "update_review_checkpoint dm sz session lock_ok out1 out2 update d = (trace, res)"
  shows "(\<forall>d' \<in> set trace. read_review_checkpoint dm session d' \<in> {Inr prev, Inr (fst (cell_update update prev))}) \<and>
    (\<forall>r. res = Inr r \<longrightarrow> res = snd (cell_update update prev) \<and>
       read_review_checkpoint dm session (final d trace) = Inr (fst (cell_update update prev))) \<and>
    (prev = None \<longrightarrow> jd_journal d = NoJournal \<and> jd_marker d = NoMarker)"
proof -
  from assms(1) obtain rows where rows: "checkpoint_history dm session d = Inr rows" "prev = last_record rows"
    by (auto simp: read_review_checkpoint_def)
  have none: "jd_journal d = NoJournal \<and> jd_marker d = NoMarker" if "prev = None"
  proof -
    have "rows = []" using that rows(2) by (simp add: last_record_def split: if_splits)
    with rows(1) show ?thesis
      by (cases "jd_marker d"; cases "jd_journal d") (auto simp: checkpoint_history_def split: if_splits)
  qed
  have run: "update_review_checkpoint dm sz session lock_ok out1 out2 update d = (trace, res)" by (rule assms(3))
  show ?thesis
  proof (cases "\<exists>e. lock_ok \<and> update prev = Inr (Some e)")
    case False
    then have "trace = [] \<and> (\<forall>r. res = Inr r \<longrightarrow> update prev = Inr None \<and> r = prev)"
      using run rows by (cases lock_ok; cases "update prev")
        (auto simp: update_review_checkpoint_def and_then_check_eq split: option.splits)
    with none assms(1) show ?thesis by (auto simp: cell_update_def)
  next
    case True
    then obtain e where e: lock_ok "update prev = Inr (Some e)" by blast
    have "ev_id e \<notin> set (map ev_id rows)" using assms(2) e(2) rows(1) by (simp add: minted_def)
    from update_review_checkpoint_run [OF rows(1) _ this, of update "(trace, res)" sz out1 out2] e run rows(2)
    have all: "\<forall>d' \<in> set trace. read_review_checkpoint dm session d' = Inr (Some e)"
      and res: "\<And>r. res = Inr r \<Longrightarrow> r = Some e \<and> trace \<noteq> []" by auto
    have "read_review_checkpoint dm session (final d trace) = Inr (Some e)" if "trace \<noteq> []"
      using all that final_in [of d trace] by (auto simp: final_def)
    with all res none e show ?thesis by (auto simp: cell_update_def)
  qed
qed

definition sample_domain :: "unit domain" where
  "sample_domain = \<lparr>dm_payload = (\<lambda>_ _. True), dm_event = (\<lambda>_. True), dm_iso = (\<lambda>_. True)\<rparr>"

definition sample_event :: "unit event" where
  "sample_event =
     \<lparr>ev_schema = 1, ev_id = ''sevt_0123456789abcdef0123456789abcdef'', ev_timestamp = ''2026-01-02T03:04:05Z'', ev_session = ''demo'',
      ev_runtime = ''codex'', ev_type = ''review_checkpoint'', ev_run_id = None, ev_origin = ''codex_review_hook'',
      ev_operation = Some ''runtime_event'', ev_outcome = ''success'', ev_reason = None, ev_payload = ()\<rparr>"

definition empty_journal :: "unit journal_dir" where
  "empty_journal = \<lparr>jd_journal = NoJournal, jd_marker = NoMarker\<rparr>"

text \<open>The journal is replaced, the marker is not: the write of the marker fails.\<close>

theorem checkpoint_refines_cell_witness:
  "\<exists>d'. fst (update_review_checkpoint sample_domain (\<lambda>_. 300) ''demo'' True WriteOk FailBefore (\<lambda>_. Inr (Some sample_event)) empty_journal) = [d'] \<and>
     jd_marker d' = NoMarker \<and> read_review_checkpoint sample_domain ''demo'' d' = Inr (Some sample_event)"
proof -
  let ?run = "update_review_checkpoint sample_domain (\<lambda>_. 300) ''demo'' True WriteOk FailBefore (\<lambda>_. Inr (Some sample_event)) empty_journal"
  have r: "read_review_checkpoint sample_domain ''demo'' empty_journal = Inr None"
    by (simp add: read_review_checkpoint_def checkpoint_history_def empty_journal_def read_session_events_def last_record_def)
  have m: "minted sample_domain ''demo'' empty_journal e" for e
    by (simp add: minted_def checkpoint_history_def empty_journal_def read_session_events_def)
  have "event_ok sample_domain (Some ''demo'') sample_event"
  proof -
    have "valid_event_id (ev_id sample_event)" "utc_timestamp (ev_timestamp sample_event)" "validate_name (ev_session sample_event) = Inr ()"
      "valid_token (ev_type sample_event)" "ev_runtime sample_event \<in> set agent_runtimes" "ev_origin sample_event \<in> set event_origins"
      "\<forall>s \<in> set_option (ev_operation sample_event). s \<in> set event_operations" "ev_outcome sample_event \<in> set event_outcomes"
      by code_simp+
    then show ?thesis
      unfolding event_ok_def by (simp add: sample_domain_def) (simp add: sample_event_def event_schema_version_def)
  qed
  then have v: "validate_session_event sample_domain (Some ''demo'') None (raw_of sample_event) = Inr sample_event"
    by (simp add: validate_raw_of)
  let ?d = "empty_journal\<lparr>jd_journal := journal_of (\<lambda>_. 300) [sample_event]\<rparr>"
  have d: "fst ?run = [?d]" "jd_marker ?d = NoMarker"
    using r v by (simp_all add: update_review_checkpoint_def and_then_check_eq empty_journal_def checkpoint_history_def
        read_session_events_def last_record_def retained_def checkpoint_event_limit_def establish_marker_def and_then_def)
  have j: "jd_journal ?d \<noteq> NoJournal" by (simp add: journal_of_def)
  have "read_review_checkpoint sample_domain ''demo'' ?d \<noteq> Inr None"
  proof
    assume "read_review_checkpoint sample_domain ''demo'' ?d = Inr None"
    from checkpoint_refines_cell [OF this _ prod.collapse [symmetric], of "\<lambda>_. Inr None"] j show False by auto
  qed
  with checkpoint_refines_cell [OF r _ prod.collapse [symmetric], of "\<lambda>_. Inr (Some sample_event)" "\<lambda>_. 300" True WriteOk FailBefore] m d
  have "read_review_checkpoint sample_domain ''demo'' ?d = Inr (Some sample_event)" by (simp add: cell_update_def)
  with d show ?thesis by blast
qed

section \<open>Appending\<close>

lemma read_lines_append:
  "read_lines dm session n ids ls = Inr es \<Longrightarrow> event_ok dm (Some session) e \<Longrightarrow> ev_id e \<notin> set ids \<union> set (map ev_id es) \<Longrightarrow>
   read_lines dm session n ids (ls @ [RecordLine (raw_of e)]) = Inr (es @ [e])"
proof (induction dm session n ids ls arbitrary: es rule: read_lines.induct)
  case (1 dm session n ids)
  then have "validate_session_event dm (Some session) (Some n) (raw_of e) = Inr e" by (simp add: validate_raw_of)
  with 1 show ?case by simp
next
  case (4 dm session n ids r ls)
  then obtain x es' where x: "validate_session_event dm (Some session) (Some n) r = Inr x" "ev_id x \<notin> set ids"
    "read_lines dm session (Suc n) (ev_id x # ids) ls = Inr es'" "es = x # es'"
    by (auto split: if_splits)
  from 4(1) [OF x(2,3) 4(3)] x 4(4) show ?case by auto
qed simp_all

text \<open>An append that returns is read back; one that was torn makes every later read fail.\<close>

lemma append_reads_back:
  assumes "read_session_events dm session None j = Inr es" "validate_session_event dm (Some session) None r = Inr e"
    and "str_at (raw_fields r) ''session'' = Some session" "ev_id e \<notin> set (map ev_id es)"
    and "append_session_event dm sz out r j = (trace, Inr ())"
  shows "read_session_events dm session None (final j trace) = Inr (es @ [e])"
proof -
  have j: "j \<noteq> UnreadableJournal" using assms(1) by (auto simp: read_session_events_def)
  have t: "trace = [put_line (RecordLine (raw_of e)) (sz e) True j]"
    using assms(2,3,5) j by (cases out) (auto simp: append_session_event_def)
  have ok: "event_ok dm (Some session) e" by (rule validated_ok [OF assms(2)])
  show ?thesis
  proof (cases j)
    case NoJournal
    with assms(1) t read_lines_append [of dm session 1 "[]" "[]" "[]" e] ok show ?thesis
      by (simp add: read_session_events_def put_line_def)
  next
    case (JournalOf ls b ended)
    with assms(1) have l: "ls = [] \<or> ended" "read_lines dm session 1 [] ls = Inr es"
      by (auto simp: read_session_events_def split: if_splits)
    with JournalOf t read_lines_append [OF l(2) ok] assms(4) show ?thesis
      by (auto simp: read_session_events_def put_line_def)
  qed (use j in simp)
qed

lemma read_lines_bad: "BadLine \<in> set ls \<Longrightarrow> read_lines dm session n ids ls \<noteq> Inr es"
  by (induction dm session n ids ls arbitrary: es rule: read_lines.induct) auto

lemma torn_append_blocks:
  assumes "append_session_event dm sz (AppendTorn k) r j = (trace, res)" "trace \<noteq> []"
    and "append_session_event dm' sz' out r' (final j trace) = (trace', res')"
  shows "\<nexists>es. read_session_events dm session None (final j trace) = Inr es"
    and "\<nexists>es. read_session_events dm session None (final (final j trace) trace') = Inr es"
proof -
  obtain m where t: "trace = [put_line BadLine m False j]" "j \<noteq> UnreadableJournal"
    using assms(1,2) by (auto simp: append_session_event_def and_then_check_eq split: option.splits sum.splits if_splits)
  then obtain ls b where j: "final j trace = JournalOf (ls @ [BadLine]) b False"
  proof (cases j)
    case NoJournal
    then have "final j trace = JournalOf ([] @ [BadLine]) m False" by (simp add: t put_line_def)
    then show thesis by (rule that)
  next
    case (JournalOf l n w)
    then have "final j trace = JournalOf ((if l \<noteq> [] \<and> \<not> w then butlast l else l) @ [BadLine]) (n + m) False"
      by (simp add: t put_line_def)
    then show thesis by (rule that)
  qed (use t in simp)
  then show "\<nexists>es. read_session_events dm session None (final j trace) = Inr es" by (simp add: read_session_events_def)
  have "\<exists>ls b ended. final (final j trace) trace' = JournalOf ls b ended \<and> BadLine \<in> set ls"
    using assms(3) unfolding j
    by (auto simp: append_session_event_def and_then_check_eq put_line_def split: option.splits sum.splits append_outcome.splits)
  then show "\<nexists>es. read_session_events dm session None (final (final j trace) trace') = Inr es"
    using read_lines_bad by (fastforce simp: read_session_events_def split: if_splits)
qed

end
