(* ===== verification/Evidence.thy ===== *)
theory Evidence
  imports Journal Rules "HOL-Library.Word"
begin

text \<open>
  The evidence of a turn, \<open>policy/semantic/turn_evidence.py\<close>: immutable snapshots of a worktree in a
  content-addressed storage, the comparison of two of them with the tool actions that were observed,
  and the rebase that carries pending work into the next turn.

  Taking a snapshot (git and the file system) is a parameter of the model: \<open>stored\<close> is what a capture
  leaves in the storage. \<open>dig\<close> is the digest of a snapshot, \<open>diff\<close> the unified diff of two texts,
  \<open>bytes_of\<close> the size of the encoded evidence. Native identifiers are UUIDs, 128-bit words.
\<close>

type_synonym uuid = "128 word"

section \<open>Snapshots\<close>

record item =
  it_mode :: int
  it_size :: int
  it_digest :: "string option"
  it_unsupported :: "string option"
  it_target :: "string option"
  it_mtime :: "int option"

record snapshot =
  sp_root :: string
  sp_git :: string
  sp_head :: string
  sp_index :: string
  sp_files :: "(string, item) dict"
  sp_omissions :: "string list"

record reference =
  rf_digest :: string
  rf_root :: string
  rf_files :: nat
  rf_omissions :: "string list"

record evidence_store =
  es_snapshots :: "(string, snapshot) dict"
  es_blobs :: "(string, string) dict"

definition hex_text :: "nat \<Rightarrow> string \<Rightarrow> bool" where
  "hex_text n s \<longleftrightarrow> length s = n \<and> list_all hex_digit s"

text \<open>\<open>sorted(set(...))\<close> of strings.\<close>

definition sorted_set :: "string list \<Rightarrow> string list" where
  "sorted_set xs = sort (remdups xs)"

text \<open>What \<open>capture\<close> returns for the state of the worktree it saw, and the manifest it leaves behind.\<close>

definition reference_of :: "(snapshot \<Rightarrow> string) \<Rightarrow> snapshot \<Rightarrow> reference" where
  "reference_of dig s =
     \<lparr>rf_digest = dig s, rf_root = sp_root s, rf_files = length (sp_files s), rf_omissions = sp_omissions s\<rparr>"

definition stored :: "(snapshot \<Rightarrow> string) \<Rightarrow> snapshot \<Rightarrow> evidence_store \<Rightarrow> evidence_store" where
  "stored dig s st = st\<lparr>es_snapshots := dset (es_snapshots st) (dig s) s\<rparr>"

text \<open>
  A capture also writes the content of every regular file under its digest; \<open>content\<close> is the content
  that has a digest.
\<close>

definition store_capture :: "(snapshot \<Rightarrow> string) \<Rightarrow> (string \<Rightarrow> string) \<Rightarrow> snapshot \<Rightarrow> evidence_store \<Rightarrow> evidence_store" where
  "store_capture dig content s st =
     stored dig s (st\<lparr>es_blobs := fold (\<lambda>d b. dset b d (content d)) (List.map_filter (it_digest \<circ> snd) (sp_files s)) (es_blobs st)\<rparr>)"

definition load :: "(snapshot \<Rightarrow> string) \<Rightarrow> evidence_store \<Rightarrow> reference \<Rightarrow> string + snapshot" where
  "load dig st ref =
     (if \<not> hex_text 64 (rf_digest ref) then Inl ''Invalid review evidence digest''
      else (case dget (es_snapshots st) (rf_digest ref) of
        None \<Rightarrow> Inl ''FileNotFoundError''
      | Some s \<Rightarrow>
          if dig s \<noteq> rf_digest ref then Inl ''Review snapshot digest changed''
          else if sp_root s \<noteq> rf_root ref then Inl ''Review snapshot identity changed''
          else Inr s))"

definition same_repository :: "snapshot \<Rightarrow> snapshot \<Rightarrow> bool" where
  "same_repository a b \<longleftrightarrow> sp_root a = sp_root b \<and> sp_git a = sp_git b \<and> sp_head a = sp_head b \<and> sp_index a = sp_index b"

section \<open>Comparison\<close>

datatype phase = Request | OutcomeSeen | DeniedRequest

record action =
  ac_id :: string
  ac_phase :: phase
  ac_turn :: uuid
  ac_tool :: string
  ac_paths :: "string list"
  ac_issue :: "string option"
  ac_values :: json

record change =
  ch_path :: string
  ch_before :: "item option"
  ch_after :: "item option"
  ch_diff :: "string option"
  ch_kind :: "string option"
  ch_renamed :: "string option"

text \<open>Evidence; \<open>en_counts\<close> replaces changes and actions when they exceed the limit of the prompt.\<close>

record evidence =
  en_before :: "string option"
  en_after :: "string option"
  en_changes :: "change list"
  en_actions :: "action list"
  en_omissions :: "string list"
  en_complete :: bool
  en_counts :: "(nat \<times> nat) option"
  en_provenance :: "uuid list"

definition utf8_length :: "string \<Rightarrow> nat" where
  "utf8_length s = sum_list (map (\<lambda>c. if (of_char c :: nat) < 128 then 1 else 2) s)"

definition newlines :: "string \<Rightarrow> nat" where
  "newlines s = length (filter (\<lambda>c. c = CHR 0x0A) s)"

definition diff_input_limit :: "string \<Rightarrow> string \<Rightarrow> bool" where
  "diff_input_limit a b \<longleftrightarrow> 256000 < int (utf8_length a + utf8_length b) \<or> 8000 < int (newlines a + newlines b)"

definition text_of_item :: "evidence_store \<Rightarrow> item option \<Rightarrow> string + string" where
  "text_of_item st i =
     (case i of
        None \<Rightarrow> Inr []
      | Some x \<Rightarrow>
          (case it_digest x of
             None \<Rightarrow> Inl ''Invalid review evidence digest''
           | Some d \<Rightarrow>
               if \<not> hex_text 64 d then Inl ''Invalid review evidence digest''
               else (case dget (es_blobs st) d of None \<Rightarrow> Inl ''FileNotFoundError'' | Some t \<Rightarrow> Inr t)))"

definition unsupported :: "item option \<Rightarrow> bool" where
  "unsupported i \<longleftrightarrow> (case i of None \<Rightarrow> False | Some x \<Rightarrow> (case it_unsupported x of Some u \<Rightarrow> u \<noteq> [] | None \<Rightarrow> False))"

definition change_kind :: "item option \<Rightarrow> item option \<Rightarrow> string" where
  "change_kind left right = (if left = None then ''add'' else if right = None then ''delete'' else ''modify'')"

text \<open>One path of the loop: nothing, or a change with what it omits.\<close>

definition change_at ::
  "(string \<Rightarrow> string \<Rightarrow> string \<Rightarrow> string) \<Rightarrow> evidence_store \<Rightarrow> snapshot \<Rightarrow> snapshot \<Rightarrow> string \<Rightarrow>
   string + (change \<times> string option) list" where
  "change_at diff st old new path =
     (let left = dget (sp_files old) path; right = dget (sp_files new) path;
          plain = \<lparr>ch_path = path, ch_before = left, ch_after = right, ch_diff = None, ch_kind = None, ch_renamed = None\<rparr>
      in if left = right then Inr []
         else if unsupported left \<or> unsupported right then Inr [(plain, Some (''unsupported_change:'' @ path))]
         else (case text_of_item st left of Inl e \<Rightarrow> Inl e
         | Inr a \<Rightarrow> (case text_of_item st right of Inl e \<Rightarrow> Inl e
         | Inr b \<Rightarrow>
             if diff_input_limit a b then Inr [(plain, Some (''diff_input_limit:'' @ path))]
             else Inr [(plain\<lparr>ch_diff := Some (diff path a b), ch_kind := Some (change_kind left right)\<rparr>, None)])))"

text \<open>Renames: an added file with the digest of a deleted one.\<close>

definition deleted_digests :: "change list \<Rightarrow> (string option, string) dict" where
  "deleted_digests cs =
     fold (\<lambda>c d. if ch_kind c = Some ''delete'' then dset d (Option.bind (ch_before c) it_digest) (ch_path c) else d) cs []"

definition mark_renames :: "change list \<Rightarrow> change list" where
  "mark_renames cs =
     map (\<lambda>c. if ch_kind c = Some ''add''
            then (case dget (deleted_digests cs) (Option.bind (ch_after c) it_digest) of
                    Some p \<Rightarrow> c\<lparr>ch_renamed := Some p\<rparr> | None \<Rightarrow> c)
            else c) cs"

definition action_key :: "action \<Rightarrow> uuid \<times> string" where
  "action_key a = (ac_turn a, ac_id a)"

definition effective_actions :: "action list \<Rightarrow> action list" where
  "effective_actions as =
     filter (\<lambda>a. action_key a \<notin> action_key ` {d \<in> set as. ac_phase d = DeniedRequest}) as"

definition keys_in :: "phase \<Rightarrow> action list \<Rightarrow> (uuid \<times> string) set" where
  "keys_in ph as = action_key ` {a \<in> set as. ac_phase a = ph}"

text \<open>The path of an action as the snapshots spell it, or nothing outside the root.\<close>

definition posix_path :: "string \<Rightarrow> string \<Rightarrow> string option" where
  "posix_path base p =
     (case (pure_path p, pure_path base) of ((anchor, parts), (anchor', prefix_parts)) \<Rightarrow>
        let joined = (\<lambda>ps. if ps = [] then ''.'' else join_on (CHR ''/'') ps) in
        if anchor = 0 then Some (joined parts)
        else if anchor = anchor' \<and> prefix prefix_parts parts then Some (joined (drop (length prefix_parts) parts))
        else None)"

definition action_omissions :: "snapshot \<Rightarrow> snapshot \<Rightarrow> action \<Rightarrow> string list" where
  "action_omissions old new a =
     concat (map (\<lambda>v. case posix_path (sp_root old) v of
         None \<Rightarrow> [''tool_path_outside_snapshot'']
       | Some p \<Rightarrow> if dget (sp_files old) p = None \<and> dget (sp_files new) p = None then [''tool_path_outside_snapshot''] else [])
       (ac_paths a)) @
     (case ac_issue a of Some i \<Rightarrow> if i \<noteq> [] then [i] else [] | None \<Rightarrow> [])"

definition max_evidence_bytes :: int where
  "max_evidence_bytes = 24000"

definition compare ::
  "(snapshot \<Rightarrow> string) \<Rightarrow> (string \<Rightarrow> string \<Rightarrow> string \<Rightarrow> string) \<Rightarrow> (evidence \<Rightarrow> int) \<Rightarrow> evidence_store \<Rightarrow> reference \<Rightarrow> reference \<Rightarrow>
   action list \<Rightarrow> string + evidence" where
  "compare dig diff bytes_of st before after actions =
     (case load dig st before of Inl e \<Rightarrow> Inl e
      | Inr old \<Rightarrow> (case load dig st after of Inl e \<Rightarrow> Inl e
      | Inr new \<Rightarrow>
     (case collect_all (change_at diff st old new) (sorted_set (dkeys (sp_files old) @ dkeys (sp_files new))) of Inl e \<Rightarrow> Inl e
      | Inr found \<Rightarrow>
          let changes = mark_renames (map fst found);
              acts = effective_actions actions;
              omissions = sp_omissions old @ sp_omissions new
                @ (if same_repository old new then [] else [''repository_identity_or_index_changed''])
                @ List.map_filter snd found
                @ (if keys_in Request acts \<noteq> keys_in OutcomeSeen acts then [''missing_tool_event''] else [])
                @ (if changes \<noteq> [] \<and> acts = [] then [''changes_without_observed_actions''] else [])
                @ concat (map (action_omissions old new) acts);
              full = \<lparr>en_before = Some (rf_digest before), en_after = Some (rf_digest after), en_changes = changes,
                en_actions = acts, en_omissions = sorted_set omissions, en_complete = (omissions = []), en_counts = None,
                en_provenance = []\<rparr>
          in Inr (if max_evidence_bytes < bytes_of full
             then full\<lparr>en_changes := [], en_actions := [], en_omissions := [''review_prompt_byte_limit''], en_complete := False,
                    en_counts := Some (length changes, length acts)\<rparr>
             else full))))"

section \<open>Carrying pending work\<close>

definition changed_paths :: "snapshot \<Rightarrow> snapshot \<Rightarrow> string list" where
  "changed_paths a b =
     filter (\<lambda>p. dget (sp_files a) p \<noteq> dget (sp_files b) p) (sorted_set (dkeys (sp_files a) @ dkeys (sp_files b)))"

text \<open>One path that was changed between baseline and observation: a conflict, or its old item again.\<close>

definition carry_path ::
  "snapshot \<Rightarrow> snapshot \<Rightarrow> snapshot \<Rightarrow> string \<Rightarrow> (string, item) dict \<times> string list \<Rightarrow> (string, item) dict \<times> string list" where
  "carry_path before observed start path acc =
     (case acc of (files, conflicts) \<Rightarrow>
        if dget (sp_files start) path \<noteq> dget (sp_files observed) path then (files, conflicts @ [path])
        else (case dget (sp_files before) path of
                None \<Rightarrow> (ddel files path, conflicts)
              | Some i \<Rightarrow> (dset files path i, conflicts)))"

definition rebase :: "snapshot \<Rightarrow> snapshot \<Rightarrow> snapshot \<Rightarrow> snapshot \<times> string list \<times> string list" where
  "rebase before observed start =
     (let omissions = sp_omissions start @ sp_omissions before @ sp_omissions observed
            @ (if same_repository before observed then [] else [''repository_identity_or_index_changed''])
      in case fold (carry_path before observed start) (changed_paths before observed) (sp_files start, []) of
           (files, conflicts) \<Rightarrow>
             (start\<lparr>sp_files := files, sp_omissions := sorted_set omissions\<rparr>, changed_paths observed start, sort conflicts))"

definition rebase_pending ::
  "(snapshot \<Rightarrow> string) \<Rightarrow> evidence_store \<Rightarrow> reference \<Rightarrow> reference \<Rightarrow> reference \<Rightarrow>
   string + (evidence_store \<times> reference \<times> string list \<times> string list)" where
  "rebase_pending dig st baseline observed current =
     (case load dig st baseline of Inl e \<Rightarrow> Inl e
      | Inr before \<Rightarrow> (case load dig st observed of Inl e \<Rightarrow> Inl e
      | Inr obs \<Rightarrow> (case load dig st current of Inl e \<Rightarrow> Inl e
      | Inr start \<Rightarrow>
          (case rebase before obs start of (result, unattributed, conflicts) \<Rightarrow>
             Inr (stored dig result st,
                  current\<lparr>rf_digest := dig result, rf_files := length (sp_files result), rf_omissions := sp_omissions result\<rparr>,
                  unattributed, conflicts)))))"

text \<open>Only what the checkpoint refers to stays in the storage.\<close>

definition prune :: "(snapshot \<Rightarrow> string) \<Rightarrow> evidence_store \<Rightarrow> reference list \<Rightarrow> string + evidence_store" where
  "prune dig st refs =
     (case collect_all (\<lambda>r. case load dig st r of Inl e \<Rightarrow> Inl e | Inr s \<Rightarrow> Inr [(r, s)]) refs of Inl e \<Rightarrow> Inl e
      | Inr loaded \<Rightarrow>
          let keep = map (rf_digest \<circ> fst) loaded;
              blobs = List.map_filter it_digest (concat (map (map snd \<circ> sp_files \<circ> snd) loaded))
          in Inr (st\<lparr>es_snapshots := filter (\<lambda>(d, _). d \<in> set keep) (es_snapshots st),
                     es_blobs := filter (\<lambda>(d, _). d \<in> set blobs) (es_blobs st)\<rparr>))"

section \<open>Lemmas\<close>

lemma sorted_set_simps [simp]: "set (sorted_set xs) = set xs" "distinct (sorted_set xs)" "sorted (sorted_set xs)"
  by (simp_all add: sorted_set_def)

lemma differ_key: "dget d p \<noteq> dget d' p \<Longrightarrow> p \<in> set (dkeys d @ dkeys d')"
  by (auto simp: dkey_iff)

lemma changed_paths_iff [simp]:
  "p \<in> set (changed_paths a b) \<longleftrightarrow> dget (sp_files a) p \<noteq> dget (sp_files b) p"
  using differ_key [of "sp_files a" p "sp_files b"] by (auto simp: changed_paths_def)

lemma changed_paths_sorted: "distinct (changed_paths a b)" "sorted (changed_paths a b)"
  by (simp_all add: changed_paths_def sorted_wrt_filter)

lemma carry_path_conflicts:
  "snd (carry_path b ob s q acc) = snd acc @ (if dget (sp_files s) q \<noteq> dget (sp_files ob) q then [q] else [])"
  by (cases acc) (auto simp: carry_path_def split: option.splits)

lemma carry_path_files:
  "dget (fst (carry_path b ob s q acc)) p =
     (if p = q \<and> dget (sp_files s) q = dget (sp_files ob) q then dget (sp_files b) q else dget (fst acc) p)"
  by (cases acc) (auto simp: carry_path_def split: option.splits)

lemma carry_paths:
  "snd (fold (carry_path b ob s) ps acc) = snd acc @ filter (\<lambda>p. dget (sp_files s) p \<noteq> dget (sp_files ob) p) ps"
  "dget (fst (fold (carry_path b ob s) ps acc)) p =
     (if p \<in> set ps \<and> dget (sp_files s) p = dget (sp_files ob) p then dget (sp_files b) p else dget (fst acc) p)"
proof (induction ps arbitrary: acc)
  case (Cons q ps)
  { case 1 show ?case by (simp add: Cons(1) carry_path_conflicts) }
  { case 2 show ?case by (auto simp: Cons(2) carry_path_files) }
qed simp_all

text \<open>The rebase, path by path.\<close>

lemma rebase_files:
  assumes "rebase before observed start = (r, unattributed, conflicts)"
  shows "dget (sp_files r) p =
      (if dget (sp_files before) p \<noteq> dget (sp_files observed) p \<and> dget (sp_files start) p = dget (sp_files observed) p
       then dget (sp_files before) p else dget (sp_files start) p)"
    and "p \<in> set unattributed \<longleftrightarrow> dget (sp_files observed) p \<noteq> dget (sp_files start) p"
    and "p \<in> set conflicts \<longleftrightarrow>
      dget (sp_files before) p \<noteq> dget (sp_files observed) p \<and> dget (sp_files start) p \<noteq> dget (sp_files observed) p"
    and "sp_root r = sp_root start"
proof -
  let ?f = "fold (carry_path before observed start) (changed_paths before observed) (sp_files start, [])"
  from assms have r: "sp_files r = fst ?f" "unattributed = changed_paths observed start" "conflicts = sort (snd ?f)"
    "sp_root r = sp_root start"
    by (auto simp: rebase_def Let_def split: prod.splits)
  show "dget (sp_files r) p =
      (if dget (sp_files before) p \<noteq> dget (sp_files observed) p \<and> dget (sp_files start) p = dget (sp_files observed) p
       then dget (sp_files before) p else dget (sp_files start) p)"
    unfolding r(1) carry_paths(2) by simp
  show "p \<in> set unattributed \<longleftrightarrow> dget (sp_files observed) p \<noteq> dget (sp_files start) p" by (simp add: r(2))
  show "p \<in> set conflicts \<longleftrightarrow>
      dget (sp_files before) p \<noteq> dget (sp_files observed) p \<and> dget (sp_files start) p \<noteq> dget (sp_files observed) p"
    unfolding r(3) by (auto simp: carry_paths(1))
  show "sp_root r = sp_root start" by (rule r(4))
qed

text \<open>What a comparison reports on: the paths on which the two snapshots differ.\<close>

lemma change_at_paths:
  "change_at diff st old new p = Inr cs \<Longrightarrow>
   map (ch_path \<circ> fst) cs = (if dget (sp_files old) p = dget (sp_files new) p then [] else [p])"
  by (auto simp: change_at_def Let_def split: if_splits sum.splits)

lemma collect_changes:
  "collect_all (change_at diff st old new) ps = Inr found \<Longrightarrow>
   map (ch_path \<circ> fst) found = filter (\<lambda>p. dget (sp_files old) p \<noteq> dget (sp_files new) p) ps"
proof (induction ps arbitrary: found)
  case (Cons p ps)
  then obtain x y where x: "change_at diff st old new p = Inr x" and y: "collect_all (change_at diff st old new) ps = Inr y"
    and f: "found = x @ y"
    by (auto split: sum.splits)
  from change_at_paths [OF x] Cons.IH [OF y] show ?case unfolding f map_append comp_def by simp
qed simp

lemma mark_renames_paths [simp]: "map ch_path (mark_renames cs) = map ch_path cs"
  by (auto simp: mark_renames_def comp_def split: option.splits)

lemma compare_paths:
  assumes "compare dig diff bytes_of st before after actions = Inr ev" "en_counts ev = None"
    and "load dig st before = Inr old" "load dig st after = Inr new"
  shows "map ch_path (en_changes ev) = changed_paths old new"
proof -
  from assms obtain found where f: "collect_all (change_at diff st old new) (sorted_set (dkeys (sp_files old) @ dkeys (sp_files new))) = Inr found"
    and e: "en_changes ev = mark_renames (map fst found)"
    by (auto simp: compare_def Let_def split: sum.splits if_splits)
  from collect_changes [OF f] show ?thesis by (simp add: e changed_paths_def comp_def)
qed

lemma loaded: "load dig st ref = Inr s \<Longrightarrow> hex_text 64 (rf_digest ref) \<and> dget (es_snapshots st) (rf_digest ref) = Some s \<and>
    dig s = rf_digest ref \<and> sp_root s = rf_root ref"
  by (auto simp: load_def split: if_splits option.splits)

lemma load_stored:
  "load dig (stored dig x st) ref = (if rf_digest ref = dig x
     then (if \<not> hex_text 64 (dig x) then Inl ''Invalid review evidence digest''
           else if sp_root x \<noteq> rf_root ref then Inl ''Review snapshot identity changed'' else Inr x)
     else load dig st ref)"
  by (simp add: load_def stored_def)

section \<open>Pending work is carried exactly\<close>

text \<open>
  C21. Pending work reaches the next review, and nothing else does. When a new prompt rebases the
  work between baseline and observation onto the worktree it starts from, the stored snapshot is
  such that a comparison with an unchanged worktree reports precisely the pending paths nobody else
  touched; the pending paths that changed again are the conflicts, and every path changed outside the
  observed turn is unattributed.
\<close>

theorem pending_carried_exactly:
  assumes "rebase_pending dig st baseline observed current = Inr (st', carried, unattributed, conflicts)"
    and "load dig st baseline = Inr before" "load dig st observed = Inr seen" "load dig st current = Inr start"
    and "hex_text 64 (rf_digest carried)" "rf_digest carried = rf_digest current \<longrightarrow> load dig st' current = Inr start"
    and "compare dig diff bytes_of st' carried current actions = Inr ev" "en_counts ev = None"
  shows "(\<forall>p. (p \<in> set (map ch_path (en_changes ev)) \<longleftrightarrow> p \<in> set (changed_paths before seen) \<and> p \<notin> set unattributed) \<and>
      (p \<in> set conflicts \<longleftrightarrow> p \<in> set (changed_paths before seen) \<and> p \<in> set unattributed) \<and>
      (p \<in> set unattributed \<longleftrightarrow> dget (sp_files seen) p \<noteq> dget (sp_files start) p)) \<and>
    distinct (map ch_path (en_changes ev))"
proof -
  from assms(1-4) obtain r where r: "rebase before seen start = (r, unattributed, conflicts)" "st' = stored dig r st"
      "rf_digest carried = dig r" "rf_root carried = rf_root current"
    by (auto simp: rebase_pending_def split: prod.splits)
  note f = rebase_files [OF r(1)]
  have root: "sp_root r = rf_root carried" using f(4) loaded [OF assms(4)] r(4) by simp
  have l: "load dig st' carried = Inr r" using assms(5) r root by (simp add: load_stored)
  have l': "load dig st' current = Inr start"
    using assms(4,6) r by (cases "rf_digest current = dig r") (auto simp: load_stored)
  have "map ch_path (en_changes ev) = changed_paths r start" by (rule compare_paths [OF assms(7,8) l l'])
  then show ?thesis using changed_paths_sorted(1) [of r start] f(1-3) by auto
qed

definition sample_item :: "nat \<Rightarrow> item" where
  "sample_item n = \<lparr>it_mode = 33188, it_size = int n, it_digest = Some (replicate 64 (CHR ''a'')), it_unsupported = None,
     it_target = None, it_mtime = None\<rparr>"

definition sample_tree :: "nat \<Rightarrow> nat \<Rightarrow> snapshot" where
  "sample_tree a b =
     \<lparr>sp_root = ''/w'', sp_git = ''g'', sp_head = ''h'', sp_index = ''i'',
      sp_files = [(''a.py'', sample_item a), (''b.py'', sample_item b)], sp_omissions = []\<rparr>"

text \<open>A digest that tells the snapshots of the sample apart.\<close>

definition sample_digest :: "snapshot \<Rightarrow> string" where
  "sample_digest s = (let k = (\<lambda>p. case dget (sp_files s) p of Some i \<Rightarrow> nat (it_size i) | None \<Rightarrow> 0)
     in replicate (k ''a.py'') (CHR ''1'') @ CHR ''0'' # replicate (k ''b.py'') (CHR ''2'') @ replicate (63 - k ''a.py'' - k ''b.py'') (CHR ''0''))"

text \<open>
  The turn changed both files, then somebody changed \<open>b.py\<close> again: \<open>a.py\<close> is carried, \<open>b.py\<close> is a conflict.
\<close>

definition sample_storage :: evidence_store where
  "sample_storage = \<lparr>es_snapshots = map (\<lambda>s. (sample_digest s, s)) [sample_tree 1 1, sample_tree 2 2, sample_tree 2 3],
     es_blobs = [(replicate 64 (CHR ''a''), ''text'')]\<rparr>"

theorem pending_carried_exactly_witness:
  "\<exists>st' carried ev. rebase_pending sample_digest sample_storage (reference_of sample_digest (sample_tree 1 1))
       (reference_of sample_digest (sample_tree 2 2)) (reference_of sample_digest (sample_tree 2 3))
     = Inr (st', carried, [''b.py''], [''b.py'']) \<and>
     compare sample_digest (\<lambda>_ _ _. []) (\<lambda>_. 0) st' carried (reference_of sample_digest (sample_tree 2 3)) [] = Inr ev \<and>
     ''a.py'' \<in> set (map ch_path (en_changes ev))"
proof -
  let ?b = "sample_tree 1 1" and ?o = "sample_tree 2 2" and ?c = "sample_tree 2 3" and ?r = "reference_of sample_digest"
  let ?run = "rebase_pending sample_digest sample_storage (?r ?b) (?r ?o) (?r ?c)"
  obtain st' carried where run: "?run = Inr (st', carried, [''b.py''], [''b.py''])"
    and x: "hex_text 64 (rf_digest carried)" "rf_digest carried \<noteq> rf_digest (?r ?c)"
      "\<exists>ev. compare sample_digest (\<lambda>_ _ _. []) (\<lambda>_. 0) st' carried (?r ?c) [] = Inr ev \<and> en_counts ev = None"
  proof -
    have "case ?run of Inl e \<Rightarrow> False | Inr (st', carried, un, co) \<Rightarrow> un = [''b.py''] \<and> co = [''b.py''] \<and>
       hex_text 64 (rf_digest carried) \<and> rf_digest carried \<noteq> rf_digest (?r ?c) \<and>
       (case compare sample_digest (\<lambda>_ _ _. []) (\<lambda>_. 0) st' carried (?r ?c) [] of Inl e \<Rightarrow> False | Inr ev \<Rightarrow> en_counts ev = None)"
      by code_simp
    then show ?thesis by (auto split: sum.splits intro: that)
  qed
  then obtain ev where ev: "compare sample_digest (\<lambda>_ _ _. []) (\<lambda>_. 0) st' carried (?r ?c) [] = Inr ev" "en_counts ev = None" by blast
  have l: "load sample_digest sample_storage (?r ?b) = Inr ?b" "load sample_digest sample_storage (?r ?o) = Inr ?o"
    "load sample_digest sample_storage (?r ?c) = Inr ?c"
    by code_simp+
  have "rf_digest carried = rf_digest (?r ?c) \<longrightarrow> load sample_digest st' (?r ?c) = Inr ?c" using x(2) by simp
  from pending_carried_exactly [OF run l x(1) this ev]
  have "''a.py'' \<in> set (map ch_path (en_changes ev)) \<longleftrightarrow> ''a.py'' \<in> set (changed_paths ?b ?o) \<and> ''a.py'' \<notin> set [''b.py'']" by blast
  moreover have "''a.py'' \<in> set (changed_paths ?b ?o)" by code_simp
  ultimately have "''a.py'' \<in> set (map ch_path (en_changes ev))" by simp
  with run ev show ?thesis by blast
qed

end
