(* ===== verification/StopReview.thy ===== *)
theory StopReview
  imports Evidence Verdict
begin

text \<open>
  Supervision at Stop, \<open>policy/semantic/stop_review.py\<close>: one review at most per explicit turn, over the
  evidence of the turn, with the spending state in the checkpoint of the review journal.

  Each operation is the callback its \<open>_update\<close> runs under the lock of the journal, on the state the
  checkpoint holds and on the evidence storage; \<open>apply_update\<close> commits its answer. The processes that
  review, act and prompt interleave as a step relation on the checkpoint. Captures of the worktree,
  the reviewer model, digests, clocks and the plan file are parameters. The configuration is
  represented by its digest. The time of the last update is left out of the state.
\<close>

section \<open>State\<close>

datatype status = Collecting | Reviewing | Reviewed | Unavailable | Unreviewed | Incomplete | NoChanges | PartialReview

record excluded =
  ex_turns :: nat
  ex_turn :: uuid
  ex_thread :: uuid
  ex_reason :: string

record review_state =
  rv_identity :: string
  rv_root :: string
  rv_checkout :: string
  rv_thread :: uuid
  rv_turn :: uuid
  rv_watermark :: uuid
  rv_config :: string
  rv_spent :: bool
  rv_dispatched :: "bool option"
  rv_status :: status
  rv_reason :: "string option"
  rv_outstanding :: bool
  rv_provenance :: "uuid list"
  rv_actions :: "action list"
  rv_correction :: bool
  rv_baseline :: "reference option"
  rv_start :: "reference option"
  rv_observed :: "reference option"
  rv_reviewed :: "reference option"
  rv_excluded :: "excluded option"
  rv_unattributed :: "nat \<times> string list"
  rv_reset :: bool
  rv_blocked :: "uuid option"
  rv_carry :: "string list"
  rv_attempt :: "string option"
  rv_evidence :: "evidence option"
  rv_evidence_digest :: "string option"
  rv_plan_digest :: "string option"
  rv_reviewer :: "string option"
  rv_decision :: "policy_decision option"
  rv_coverage :: "(bool \<times> string list) option"
  rv_baseline_error :: "string option"

record turn_context =
  cx_root :: string
  cx_session :: string
  cx_checkout :: string
  cx_thread :: uuid
  cx_turn :: uuid
  cx_config :: string
  cx_identity :: string

record stop_outcome =
  so_status :: status
  so_reason :: "string option"
  so_decision :: "policy_decision option"
  so_correction :: bool
  so_complete :: bool

record supervisor_run =
  sr_decision :: policy_decision
  sr_run_ok :: bool
  sr_parsed :: bool
  sr_dispatched :: "bool option"

text \<open>Digests and the contents they name, diffs, the sizes of the JSON encodings, and the timestamps.\<close>

record review_env =
  re_dig :: "snapshot \<Rightarrow> string"
  re_diff :: "string \<Rightarrow> string \<Rightarrow> string \<Rightarrow> string"
  re_bytes :: "evidence \<Rightarrow> int"
  re_evidence_digest :: "evidence \<Rightarrow> string"
  re_action_bytes :: "action \<Rightarrow> int"
  re_content :: "string \<Rightarrow> string"
  re_iso :: "string \<Rightarrow> bool"

definition max_actions :: nat where
  "max_actions = 48"

definition max_action_bytes :: int where
  "max_action_bytes = 8000"

definition max_provenance_turns :: nat where
  "max_provenance_turns = 32"

definition shown_paths :: nat where
  "shown_paths = 32"

section \<open>Validation\<close>

text \<open>
  A native identifier is a UUID of version 7 (RFC 4122 variant). \<open>UUID.version\<close> reads the version
  only for that variant.
\<close>

definition native_id :: "uuid \<Rightarrow> bool" where
  "native_id u \<longleftrightarrow> bit u 63 \<and> \<not> bit u 62 \<and> take_bit 4 (drop_bit 76 u) = 7"

definition absolute_path :: "string \<Rightarrow> bool" where
  "absolute_path p \<longleftrightarrow> fst (pure_path p) \<noteq> 0"

definition context_ok :: "turn_context \<Rightarrow> bool" where
  "context_ok ctx \<longleftrightarrow> hex_text 32 (cx_identity ctx) \<and> native_id (cx_thread ctx) \<and> native_id (cx_turn ctx)"

definition excluded_reasons :: "string list" where
  "excluded_reasons = [''operator_reset'', ''partial_evidence'', ''unattributed_pending_work'', ''missing_turn_start'', ''missing_observation'']"

definition excluded_valid :: "excluded option \<Rightarrow> bool" where
  "excluded_valid x \<longleftrightarrow> (case x of None \<Rightarrow> True
     | Some e \<Rightarrow> 1 \<le> ex_turns e \<and> ex_reason e \<in> set excluded_reasons \<and> native_id (ex_turn e) \<and> native_id (ex_thread e))"

definition reference_valid :: "string \<Rightarrow> reference option \<Rightarrow> bool" where
  "reference_valid checkout r \<longleftrightarrow> (case r of None \<Rightarrow> True | Some x \<Rightarrow> hex_text 64 (rf_digest x) \<and> rf_root x = checkout)"

definition action_valid :: "review_env \<Rightarrow> uuid list \<Rightarrow> action \<Rightarrow> bool" where
  "action_valid env turns a \<longleftrightarrow> ac_id a \<noteq> [] \<and> ac_turn a \<in> set turns \<and> re_action_bytes env a \<le> max_action_bytes"

definition hex_some :: "nat \<Rightarrow> string option \<Rightarrow> bool" where
  "hex_some n v \<longleftrightarrow> (case v of Some s \<Rightarrow> hex_text n s | None \<Rightarrow> False)"

definition spending_valid :: "review_env \<Rightarrow> review_state \<Rightarrow> bool" where
  "spending_valid env s \<longleftrightarrow>
     (if rv_spent s
      then hex_some 32 (rv_attempt s) \<and> hex_some 64 (rv_evidence_digest s) \<and> hex_some 64 (rv_plan_digest s) \<and>
           rv_reviewed s \<noteq> None \<and>
           (case rv_evidence s of None \<Rightarrow> False | Some e \<Rightarrow> rv_evidence_digest s = Some (re_evidence_digest env e))
      else rv_status s \<notin> {Reviewing, Reviewed, PartialReview, Incomplete, Unreviewed} \<and> rv_attempt s = None \<and>
           rv_evidence s = None \<and> rv_decision s = None)"

definition validate_payload :: "review_env \<Rightarrow> string \<Rightarrow> review_state \<Rightarrow> bool" where
  "validate_payload env ty s \<longleftrightarrow>
     ty = ''review_checkpoint'' \<and> excluded_valid (rv_excluded s) \<and> native_id (rv_turn s) \<and> native_id (rv_thread s) \<and>
     hex_text 32 (rv_identity s) \<and> length (snd (rv_unattributed s)) \<le> shown_paths \<and> rv_turn s = rv_watermark s \<and>
     (case rv_blocked s of None \<Rightarrow> True | Some b \<Rightarrow> native_id b \<and> rv_watermark s < b) \<and>
     length (rv_actions s) \<le> max_actions \<and> length (rv_provenance s) \<le> max_provenance_turns \<and>
     absolute_path (rv_root s) \<and> absolute_path (rv_checkout s) \<and> hex_text 64 (rv_config s) \<and>
     list_all (reference_valid (rv_checkout s)) [rv_baseline s, rv_reviewed s, rv_start s, rv_observed s] \<and>
     rv_provenance s \<noteq> [] \<and> last (rv_provenance s) = rv_turn s \<and> list_all native_id (rv_provenance s) \<and>
     list_all (action_valid env (rv_provenance s)) (rv_actions s) \<and> spending_valid env s \<and>
     (rv_correction s \<longrightarrow> rv_spent s)"

definition review_domain :: "review_env \<Rightarrow> review_state domain" where
  "review_domain env = \<lparr>dm_payload = validate_payload env, dm_event = (\<lambda>_. True), dm_iso = re_iso env\<rparr>"

section \<open>Updates of the checkpoint\<close>

text \<open>A callback: the storage and the state of the checkpoint in, the storage and a new state or none out.\<close>

type_synonym 'x callback = "evidence_store \<Rightarrow> review_state option \<Rightarrow> evidence_store \<times> (string + review_state option \<times> 'x)"

text \<open>An event is minted with an id and a time.\<close>

type_synonym mint = "string \<times> string"

definition same_scope :: "turn_context \<Rightarrow> review_state \<Rightarrow> string + unit" where
  "same_scope ctx s =
     (if rv_identity s \<noteq> cx_identity ctx then Inl ''Review checkpoint belongs to another session lifetime''
      else if rv_root s \<noteq> cx_root ctx \<or> rv_checkout s \<noteq> cx_checkout ctx then Inl ''Review checkpoint belongs to another checkout''
      else Inr ())"

definition current_turn :: "turn_context \<Rightarrow> review_state \<Rightarrow> bool" where
  "current_turn ctx s \<longleftrightarrow> rv_thread s = cx_thread ctx \<and> rv_turn s = cx_turn ctx"

definition token_of :: "string \<Rightarrow> string" where
  "token_of r = map (\<lambda>c. if token_char c then c else CHR ''_'') r"

definition reason_code :: "review_state \<Rightarrow> string option" where
  "reason_code s = (case rv_reason s of Some r \<Rightarrow> if r \<noteq> [] then Some (token_of r) else None | None \<Rightarrow> None)"

definition review_event :: "review_env \<Rightarrow> turn_context \<Rightarrow> mint \<Rightarrow> review_state \<Rightarrow> journal_error + review_state event" where
  "review_event env ctx m s =
     new_session_event (review_domain env) (fst m) (snd m) (cx_session ctx) ''codex'' ''review_checkpoint'' None
       ''codex_review_hook'' (Some ''runtime_event'') ''success'' (reason_code s) s"

text \<open>\<open>identity\<close> is the review identity of the session in its manifest, if it still exists.\<close>

definition owned_callback ::
  "review_env \<Rightarrow> turn_context \<Rightarrow> string option \<Rightarrow> mint \<Rightarrow> 'x callback \<Rightarrow> evidence_store \<Rightarrow> review_state event option \<Rightarrow>
   evidence_store \<times> (journal_error + review_state event option \<times> 'x)" where
  "owned_callback env ctx identity m f st prev =
     (if identity \<noteq> Some (cx_identity ctx) then (st, Inl (Callback ''Stop event belongs to a deleted or replaced session''))
      else (case (case prev of None \<Rightarrow> Inr () | Some e \<Rightarrow> same_scope ctx (ev_payload e)) of
        Inl e \<Rightarrow> (st, Inl (Callback e))
      | Inr _ \<Rightarrow>
          (case f st (map_option ev_payload prev) of
             (st', Inl e) \<Rightarrow> (st', Inl (Callback e))
           | (st', Inr (None, x)) \<Rightarrow> (st', Inr (None, x))
           | (st', Inr (Some s, x)) \<Rightarrow>
               (case review_event env ctx m s of
                  Inl e \<Rightarrow> (st', Inl e)
                | Inr e \<Rightarrow> (st', Inr (Some e, x))))))"

text \<open>
  What an update leaves in the checkpoint and what its caller gets, \<open>None\<close> for an exception. The write
  may fail before the record is durable or raise after it.
\<close>

definition apply_update :: "wout \<Rightarrow> journal_error + 'e option \<times> 'x \<Rightarrow> 'e option \<Rightarrow> 'e option \<times> 'x option" where
  "apply_update out r prev =
     (case r of
        Inl e \<Rightarrow> (prev, None)
      | Inr (None, x) \<Rightarrow> (prev, Some x)
      | Inr (Some e, x) \<Rightarrow>
          (case out of WriteOk \<Rightarrow> (Some e, Some x) | FailBefore \<Rightarrow> (prev, None) | FailAfter \<Rightarrow> (Some e, None)))"

section \<open>The start of a turn\<close>

definition new_state :: "turn_context \<Rightarrow> reference option \<Rightarrow> review_state" where
  "new_state ctx snap =
     \<lparr>rv_identity = cx_identity ctx, rv_root = cx_root ctx, rv_checkout = cx_checkout ctx, rv_thread = cx_thread ctx,
      rv_turn = cx_turn ctx, rv_watermark = cx_turn ctx, rv_config = cx_config ctx, rv_spent = False,
      rv_dispatched = Some False, rv_status = Collecting, rv_reason = None, rv_outstanding = False,
      rv_provenance = [cx_turn ctx], rv_actions = [], rv_correction = False, rv_baseline = snap, rv_start = snap,
      rv_observed = snap, rv_reviewed = None, rv_excluded = None, rv_unattributed = (0, []), rv_reset = False,
      rv_blocked = None, rv_carry = [], rv_attempt = None, rv_evidence = None, rv_evidence_digest = None,
      rv_plan_digest = None, rv_reviewer = None, rv_decision = None, rv_coverage = None, rv_baseline_error = None\<rparr>"

definition unavailable :: "string \<Rightarrow> review_state \<Rightarrow> review_state" where
  "unavailable reason s = s\<lparr>rv_status := Unavailable, rv_reason := Some reason, rv_outstanding := True\<rparr>"

definition exclude :: "review_state \<Rightarrow> review_state \<Rightarrow> string \<Rightarrow> review_state" where
  "exclude s source reason =
     (let previous = rv_excluded s;
          mark = (case previous of Some x \<Rightarrow> ex_turn x | None \<Rightarrow> 0);
          added = length (filter (\<lambda>t. mark < t) (rv_provenance source))
      in if previous \<noteq> None \<and> added = 0 then s
         else s\<lparr>rv_excluded := Some \<lparr>ex_turns = (case previous of Some x \<Rightarrow> ex_turns x | None \<Rightarrow> 0) + added,
                  ex_turn = rv_turn source, ex_thread = rv_thread source, ex_reason = reason\<rparr>\<rparr>)"

definition seen_until :: "review_state option \<Rightarrow> uuid" where
  "seen_until old = (case old of None \<Rightarrow> 0
     | Some s \<Rightarrow> max (rv_watermark s) (case rv_blocked s of Some b \<Rightarrow> b | None \<Rightarrow> rv_turn s))"

definition pending :: "review_state \<Rightarrow> bool" where
  "pending s \<longleftrightarrow> \<not> rv_reset s \<and>
     (rv_outstanding s \<or>
      rv_status s = Collecting \<and> (rv_actions s \<noteq> [] \<or> rv_carry s \<noteq> [] \<or> rv_baseline s \<noteq> rv_observed s))"

definition references :: "review_state option \<Rightarrow> reference list" where
  "references old = (case old of None \<Rightarrow> [] | Some s \<Rightarrow> List.map_filter id [rv_baseline s, rv_reviewed s, rv_observed s])"

definition error_name :: "string \<Rightarrow> string" where
  "error_name e = (if e = ''FileNotFoundError'' then e else ''ValueError'')"

text \<open>Prune, then capture: the storage, and the reference or the name of the exception.\<close>

definition prune_and_capture ::
  "review_env \<Rightarrow> reference list \<Rightarrow> string + snapshot \<Rightarrow> evidence_store \<Rightarrow> evidence_store \<times> (string + reference)" where
  "prune_and_capture env refs cap st =
     (case prune (re_dig env) st refs of
        Inl e \<Rightarrow> (st, Inl (error_name e))
      | Inr st1 \<Rightarrow>
          (case cap of
             Inl e \<Rightarrow> (st1, Inl e)
           | Inr s \<Rightarrow> (store_capture (re_dig env) (re_content env) s st1, Inr (reference_of (re_dig env) s))))"

definition carry_work ::
  "turn_context \<Rightarrow> review_state \<Rightarrow> reference \<Rightarrow> string list \<Rightarrow> string list \<Rightarrow> review_state \<Rightarrow> review_state" where
  "carry_work ctx old baseline unattributed conflicts s =
     (let s1 = s\<lparr>rv_baseline := Some baseline, rv_outstanding := True, rv_provenance := rv_provenance old @ [cx_turn ctx],
            rv_actions := rv_actions old, rv_carry := rv_carry old,
            rv_unattributed := (length unattributed, take shown_paths unattributed)\<rparr>
      in if conflicts = [] then s1
         else exclude (s1\<lparr>rv_actions := [], rv_carry := rv_carry old @ [''unattributed_pending_work'']\<rparr>) old ''unattributed_pending_work'')"

definition begin_turn :: "review_env \<Rightarrow> turn_context \<Rightarrow> string + snapshot \<Rightarrow> unit callback" where
  "begin_turn env ctx cap st old =
     (if cx_turn ctx \<le> seen_until old then (st, Inr (None, ()))
      else if (case old of Some s \<Rightarrow> pending s \<and> max_provenance_turns \<le> length (rv_provenance s) | None \<Rightarrow> False)
      then (st, Inr (map_option (\<lambda>s. (unavailable ''carry_limit'' s)\<lparr>rv_blocked := Some (cx_turn ctx)\<rparr>) old, ()))
      else
        (case prune_and_capture env (case old of Some s \<Rightarrow> if rv_reset s then [] else references old | None \<Rightarrow> []) cap st of (st1, captured) \<Rightarrow>
           (let fresh = (new_state ctx (case captured of Inr r \<Rightarrow> Some r | Inl _ \<Rightarrow> None))\<lparr>rv_excluded := Option.bind old rv_excluded\<rparr>;
                failed = (\<lambda>s. case captured of Inr _ \<Rightarrow> s
                  | Inl e \<Rightarrow> (unavailable ''baseline_unavailable'' s)\<lparr>rv_baseline_error := Some e\<rparr>)
            in case old of
                 None \<Rightarrow> (st1, Inr (Some (failed fresh), ()))
               | Some s \<Rightarrow>
                   if rv_reset s then (st1, Inr (Some (failed (exclude fresh s ''operator_reset'')), ()))
                   else if pending s then
                     (case (captured, rv_baseline s, rv_observed s) of
                        (Inr current, Some baseline, Some seen) \<Rightarrow>
                          (case rebase_pending (re_dig env) st1 baseline seen current of
                             Inl e \<Rightarrow> (st1, Inl e)
                           | Inr (st2, carried, unattributed, conflicts) \<Rightarrow>
                               (st2, Inr (Some (failed (carry_work ctx s carried unattributed conflicts fresh)), ())))
                      | _ \<Rightarrow> (st1, Inr (Some (failed (exclude fresh s ''missing_observation'')), ())))
                   else
                     (case (captured, rv_observed s) of
                        (Inr current, Some seen) \<Rightarrow>
                          (case rebase_pending (re_dig env) st1 seen seen current of
                             Inl e \<Rightarrow> (st1, Inl e)
                           | Inr (st2, carried, unattributed, conflicts) \<Rightarrow>
                               (st2, Inr (Some (failed (fresh\<lparr>rv_unattributed := (length unattributed, take shown_paths unattributed)\<rparr>)), ())))
                      | _ \<Rightarrow> (st1, Inr (Some (failed fresh), ()))))))"

section \<open>Tool actions\<close>

definition same_action :: "action \<Rightarrow> action \<Rightarrow> bool" where
  "same_action a b \<longleftrightarrow> ac_id a = ac_id b \<and> ac_turn a = ac_turn b"

definition add_action :: "review_env \<Rightarrow> action \<Rightarrow> string + snapshot \<Rightarrow> evidence_store \<Rightarrow> review_state \<Rightarrow> evidence_store \<times> review_state" where
  "add_action env a cap st s =
     (let s1 = (if rv_spent s then s\<lparr>rv_status := Unreviewed, rv_reason := Some ''actions_after_review'', rv_outstanding := True\<rparr> else s);
          s2 = (if max_actions \<le> length (rv_actions s1)
            then (unavailable ''action_limit'' s1)\<lparr>rv_carry := sorted_set (rv_carry s1 @ [''action_limit''])\<rparr>
            else s1\<lparr>rv_actions := rv_actions s1 @ [a]\<rparr>)
      in if ac_phase a \<noteq> OutcomeSeen then (st, s2)
         else (case cap of
                 Inl e \<Rightarrow> (st, s2\<lparr>rv_carry := sorted_set (rv_carry s2 @ [''observation_unavailable''])\<rparr>)
               | Inr snap \<Rightarrow> (store_capture (re_dig env) (re_content env) snap st, s2\<lparr>rv_observed := Some (reference_of (re_dig env) snap)\<rparr>)))"

definition record_action :: "review_env \<Rightarrow> turn_context \<Rightarrow> action \<Rightarrow> string + snapshot \<Rightarrow> string + snapshot \<Rightarrow> unit callback" where
  "record_action env ctx a cap1 cap2 st old =
     (case old of
        None \<Rightarrow> (st, Inr (None, ()))
      | Some s \<Rightarrow>
          if \<not> current_turn ctx s then (st, Inr (None, ()))
          else if rv_config s \<noteq> cx_config ctx then (st, Inr (Some (unavailable ''configuration_changed'' s), ()))
          else if rv_reset s \<or> rv_blocked s \<noteq> None then (st, Inr (None, ()))
          else if ac_phase a = DeniedRequest then
            (st, Inr (Some (s\<lparr>rv_actions := filter (\<lambda>b. \<not> same_action b a) (rv_actions s)\<rparr>), ()))
          else if list_ex (\<lambda>b. same_action b a \<and> ac_phase b = ac_phase a) (rv_actions s) then (st, Inr (None, ()))
          else if rv_spent s \<and> \<not> rv_outstanding s then
            (case cap1 of
               Inl e \<Rightarrow> (st, Inl e)
             | Inr snap \<Rightarrow>
                 (let r = Some (reference_of (re_dig env) snap)
                  in case add_action env a cap2 (store_capture (re_dig env) (re_content env) snap st)
                       (s\<lparr>rv_baseline := r, rv_actions := [], rv_observed := r, rv_carry := []\<rparr>) of
                       (st', s') \<Rightarrow> (st', Inr (Some s', ()))))
          else (case add_action env a cap2 st s of (st', s') \<Rightarrow> (st', Inr (Some s', ()))))"

section \<open>The review at Stop\<close>

definition outcome_of :: "status \<Rightarrow> string option \<Rightarrow> stop_outcome" where
  "outcome_of st reason = \<lparr>so_status = st, so_reason = reason, so_decision = None, so_correction = False, so_complete = False\<rparr>"

text \<open>Evidence of the turn as the reviewer will see it: gaps carried, provenance, and the limit of the prompt.\<close>

definition frozen_evidence :: "review_env \<Rightarrow> review_state \<Rightarrow> evidence \<Rightarrow> evidence" where
  "frozen_evidence env s ev =
     (let ev1 = (if rv_carry s \<noteq> [] then ev\<lparr>en_omissions := sorted_set (en_omissions ev @ rv_carry s), en_complete := False\<rparr> else ev);
          ev2 = ev1\<lparr>en_provenance := rv_provenance s\<rparr>
      in if max_evidence_bytes < re_bytes env ev2
         then \<lparr>en_before = None, en_after = None, en_changes = [], en_actions = [], en_omissions = [''review_prompt_byte_limit''],
               en_complete = False, en_counts = Some (length (en_changes ev2), length (en_actions ev2)), en_provenance = rv_provenance s\<rparr>
         else ev2)"

definition has_outcome :: "action list \<Rightarrow> bool" where
  "has_outcome as \<longleftrightarrow> list_ex (\<lambda>a. ac_phase a = OutcomeSeen) as"

text \<open>A Stop in a turn whose allowance is spent: the stored verdict is never replayed.\<close>

definition continue_spent :: "review_env \<Rightarrow> string + snapshot \<Rightarrow> (stop_outcome \<times> review_state option) callback" where
  "continue_spent env cap st old =
     (case old of None \<Rightarrow> (st, Inr (None, outcome_of Unavailable None, None)) | Some s \<Rightarrow>
     (let lost = (\<lambda>s. s\<lparr>rv_status := Incomplete, rv_reason := Some ''reserved_without_completed_review'', rv_outstanding := True\<rparr>);
          s1 = (if rv_status s = Reviewing then lost s else s);
          answer = (\<lambda>s. Inr (Some s, outcome_of (rv_status s) (rv_reason s), None))
      in case rv_reviewed s1 of
           None \<Rightarrow> (st, answer (lost s1))
         | Some r \<Rightarrow>
             (case cap of
                Inl e \<Rightarrow> (st, Inl e)
              | Inr snap \<Rightarrow>
                  (let s2 = s1\<lparr>rv_observed := Some (reference_of (re_dig env) snap)\<rparr>;
                       s3 = (if re_dig env snap \<noteq> rf_digest r
                         then s2\<lparr>rv_status := Unreviewed, rv_reason := Some ''changes_after_review'', rv_outstanding := True\<rparr>
                         else if rv_correction s2
                         then s2\<lparr>rv_status := Unreviewed, rv_reason := Some ''correction_not_reassessed'', rv_outstanding := True\<rparr>
                         else s2)
                   in (store_capture (re_dig env) (re_content env) snap st, answer s3)))))"

text \<open>A Stop in a turn that nothing started: recorded as excluded, never reviewed.\<close>

definition missing_start :: "turn_context \<Rightarrow> review_state option \<Rightarrow> review_state" where
  "missing_start ctx old =
     (let m = (new_state ctx None)\<lparr>rv_excluded := Option.bind old rv_excluded\<rparr>;
          m1 = (case old of Some s \<Rightarrow> if rv_outstanding s \<or> rv_status s = Collecting then exclude m s ''missing_turn_start'' else m | None \<Rightarrow> m)
      in (exclude m1 m1 ''missing_turn_start'')\<lparr>rv_status := Unavailable, rv_reason := Some ''missing_turn_start''\<rparr>)"

text \<open>The decision on fresh evidence: exclude it, skip it, refuse, or reserve the review.\<close>

definition reserve_fresh ::
  "review_env \<Rightarrow> plan_snapshot \<Rightarrow> string \<Rightarrow> string \<Rightarrow> reference \<Rightarrow> evidence \<Rightarrow> review_state \<Rightarrow>
   review_state \<times> stop_outcome \<times> review_state option" where
  "reserve_fresh env plan attempt reviewer now_ref ev s =
     (let s1 = s\<lparr>rv_coverage := Some (en_complete ev, en_omissions ev)\<rparr> in
      if \<not> en_complete ev \<and> en_changes ev = [] \<and> \<not> has_outcome (en_actions ev)
      then ((exclude s1 s1 ''partial_evidence'')\<lparr>rv_status := Unavailable, rv_reason := Some ''incomplete_evidence'', rv_outstanding := False\<rparr>,
            outcome_of Unavailable (Some ''incomplete_evidence''), None)
      else if en_changes ev = [] \<and> \<not> has_outcome (rv_actions s1) \<and> \<not> rv_outstanding s1
      then (s1\<lparr>rv_status := NoChanges, rv_reason := Some ''complete_unchanged_turn'', rv_reviewed := Some now_ref\<rparr>,
            (outcome_of NoChanges None)\<lparr>so_complete := True\<rparr>, None)
      else if sn_text plan = None \<or> sn_text plan = Some []
      then (unavailable ''plan_unavailable'' s1, outcome_of Unavailable (Some ''plan_unavailable''), None)
      else (let s2 = s1\<lparr>rv_spent := True, rv_dispatched := None, rv_status := Reviewing, rv_reason := None, rv_outstanding := True,
                  rv_reviewed := Some now_ref, rv_attempt := Some attempt, rv_evidence := Some ev,
                  rv_evidence_digest := Some (re_evidence_digest env ev), rv_plan_digest := sn_digest plan, rv_reviewer := Some reviewer\<rparr>
            in (s2, outcome_of Incomplete (Some ''reserved_without_completed_review''), Some s2)))"

definition reserve ::
  "review_env \<Rightarrow> turn_context \<Rightarrow> plan_snapshot \<Rightarrow> string + snapshot \<Rightarrow> string \<Rightarrow> string \<Rightarrow> (stop_outcome \<times> review_state option) callback" where
  "reserve env ctx plan cap attempt reviewer st old =
     (let absent = (if (case old of None \<Rightarrow> True | Some s \<Rightarrow> rv_watermark s < cx_turn ctx)
            then Inr (Some (missing_start ctx old), outcome_of Unavailable (Some ''missing_turn_start''), None)
            else Inr (None, outcome_of Unavailable (Some ''missing_or_stale_turn''), None))
      in case old of
           None \<Rightarrow> (st, absent)
         | Some s \<Rightarrow>
             if rv_reset s then (st, Inr (None, outcome_of Unavailable (Some ''new_explicit_turn_required''), None))
             else if rv_blocked s \<noteq> None then (st, Inr (None, outcome_of Unavailable (Some ''carry_limit''), None))
             else if \<not> current_turn ctx s then (st, absent)
             else if rv_config s \<noteq> cx_config ctx
             then (st, Inr (Some (unavailable ''configuration_changed'' s), outcome_of Unavailable (Some ''configuration_changed''), None))
             else if rv_spent s then continue_spent env cap st old
             else if rv_baseline s = None \<or> rv_reason s = Some ''configuration_changed''
             then (st, Inr (None, outcome_of Unavailable (Some (case rv_reason s of Some r \<Rightarrow> if r \<noteq> [] then r else ''missing_baseline'' | None \<Rightarrow> ''missing_baseline'')), None))
             else (case cap of
                     Inl e \<Rightarrow> (st, Inl e)
                   | Inr snap \<Rightarrow>
                       (let st1 = store_capture (re_dig env) (re_content env) snap st; now_ref = reference_of (re_dig env) snap in
                        case compare (re_dig env) (re_diff env) (re_bytes env) st1 (the (rv_baseline s)) now_ref (rv_actions s) of
                          Inl e \<Rightarrow> (st1, Inl e)
                        | Inr ev \<Rightarrow>
                            (st1, Inr (map_prod Some id (reserve_fresh env plan attempt reviewer now_ref
                               (frozen_evidence env s ev) (s\<lparr>rv_observed := Some now_ref\<rparr>)))))))"

definition fingerprint :: "plan_snapshot \<Rightarrow> string" where
  "fingerprint p = (case sn_path p of Some x \<Rightarrow> x | None \<Rightarrow> ''None'') @ '':'' @
     (case sn_digest p of Some d \<Rightarrow> if d \<noteq> [] then d else ''unavailable'' | None \<Rightarrow> ''unavailable'')"

text \<open>Only the owner of the reservation writes its result.\<close>

definition owner :: "turn_context \<Rightarrow> review_state \<Rightarrow> review_state option \<Rightarrow> bool" where
  "owner ctx frozen old \<longleftrightarrow> (case old of None \<Rightarrow> False | Some s \<Rightarrow> current_turn ctx s \<and> rv_attempt s = rv_attempt frozen)"

definition save_result :: "turn_context \<Rightarrow> review_state \<Rightarrow> supervisor_run \<Rightarrow> unit callback" where
  "save_result ctx frozen res st old =
     (if \<not> owner ctx frozen old then (st, Inr (None, ()))
      else (st, Inr (map_option (\<lambda>s. s\<lparr>rv_decision := Some (sr_decision res), rv_dispatched := sr_dispatched res\<rparr>) old, ())))"

text \<open>
  Freshness after the verdict, from a second capture, the plan read again, the current configuration and the clock:
  whether completion failed, and whether the verdict is stale.
\<close>

definition completion ::
  "review_env \<Rightarrow> turn_context \<Rightarrow> review_state \<Rightarrow> plan_snapshot \<Rightarrow> plan_snapshot \<Rightarrow> string + snapshot \<Rightarrow> string + string \<Rightarrow> bool \<Rightarrow> bool \<times> bool" where
  "completion env ctx frozen plan latest cap config late =
     (case cap of
        Inl _ \<Rightarrow> (True, True)
      | Inr after \<Rightarrow>
          (case config of
             Inl _ \<Rightarrow> (True, True)
           | Inr digest \<Rightarrow>
               if late then (True, True)
               else (False, Some (re_dig env after) \<noteq> map_option rf_digest (rv_reviewed frozen) \<or>
                       fingerprint latest \<noteq> fingerprint plan \<or> digest \<noteq> cx_config ctx)))"

definition unusable :: "supervisor_run \<Rightarrow> bool" where
  "unusable res \<longleftrightarrow> \<not> sr_run_ok res \<or> \<not> sr_parsed res \<or> d_fail_open (sr_decision res) \<or>
     (case d_failure (sr_decision res) of Some f \<Rightarrow> f \<noteq> [] | None \<Rightarrow> False)"

definition failure_reason :: "supervisor_run \<Rightarrow> string" where
  "failure_reason res = (case d_failure (sr_decision res) of Some f \<Rightarrow> if f \<noteq> [] then f else ''review_unavailable'' | None \<Rightarrow> ''review_unavailable'')"

definition finish :: "turn_context \<Rightarrow> review_state \<Rightarrow> supervisor_run \<Rightarrow> bool \<times> bool \<Rightarrow> stop_outcome callback" where
  "finish ctx frozen res fresh st old =
     (case old of
        None \<Rightarrow> (st, Inr (None, outcome_of Unavailable (Some ''turn_changed_during_review'')))
      | Some s0 \<Rightarrow>
          if \<not> owner ctx frozen old then (st, Inr (None, outcome_of Unavailable (Some ''turn_changed_during_review'')))
          else (let s = s0\<lparr>rv_decision := Some (sr_decision res), rv_dispatched := sr_dispatched res\<rparr> in
            if rv_reset s then (st, Inr (Some s, outcome_of Unavailable (Some ''new_explicit_turn_required'')))
            else if rv_blocked s \<noteq> None then (st, Inr (Some s, outcome_of Unavailable (Some ''carry_limit'')))
            else if fst fresh then (st, Inr (Some (unavailable ''completion_unavailable'' s), outcome_of Unavailable (Some ''completion_unavailable'')))
            else if snd fresh
            then (st, Inr (Some (s\<lparr>rv_status := Unreviewed, rv_reason := Some ''stale_review'', rv_outstanding := True\<rparr>),
                    outcome_of Unreviewed (Some ''stale_review'')))
            else if unusable res
            then (st, Inr (Some (unavailable (failure_reason res) s), outcome_of Unavailable (Some (failure_reason res))))
            else if \<not> (case rv_evidence frozen of Some ev \<Rightarrow> en_complete ev | None \<Rightarrow> False)
            then (st, Inr (Some ((exclude s s ''partial_evidence'')\<lparr>rv_status := PartialReview, rv_reason := Some ''incomplete_evidence'', rv_outstanding := False\<rparr>),
                    (outcome_of PartialReview (Some ''incomplete_evidence''))\<lparr>so_decision := Some (sr_decision res)\<rparr>))
            else (let deny = (d_decision (sr_decision res) = Deny)
                  in (st, Inr (Some (s\<lparr>rv_status := Reviewed, rv_reason := None, rv_outstanding := deny, rv_correction := deny\<rparr>),
                       (outcome_of Reviewed None)\<lparr>so_decision := Some (sr_decision res), so_correction := deny, so_complete := True\<rparr>)))))"

section \<open>Reset and status\<close>

text \<open>The operator excludes pending work: the preview writes nothing, the turn is not refunded.\<close>

definition reset_state :: "review_state \<Rightarrow> review_state" where
  "reset_state s = (unavailable ''operator_reset'' s)\<lparr>rv_reset := True\<rparr>"

definition reset_review ::
  "review_env \<Rightarrow> string \<Rightarrow> mint \<Rightarrow> bool \<Rightarrow> review_state event option \<Rightarrow>
   journal_error + review_state event option \<times> (bool \<times> (uuid \<times> bool \<times> nat) option)" where
  "reset_review env session m apply_it prev =
     (case prev of
        None \<Rightarrow> Inr (None, False, None)
      | Some e \<Rightarrow>
          (let s = ev_payload e; report = Some (rv_turn s, rv_spent s, length (rv_provenance s)) in
           if \<not> apply_it then Inr (None, False, report)
           else map_sum id (\<lambda>x. (Some x, True, report))
             (new_session_event (review_domain env) (fst m) (snd m) session ''codex'' ''review_checkpoint'' None ''external_cli''
                (Some ''set'') ''success'' (Some ''operator_reset'') (reset_state s))))"

record public_status =
  pb_state :: status
  pb_reason :: "string option"
  pb_spent :: bool
  pb_dispatched :: "bool option"
  pb_turn :: "uuid option"
  pb_latest :: "uuid option"
  pb_outstanding :: bool
  pb_correction :: bool
  pb_reset_required :: bool

definition review_status :: "string option \<Rightarrow> journal_error + review_state event option \<Rightarrow> public_status" where
  "review_status config read =
     (let none = \<lparr>pb_state = Unavailable, pb_reason = Some ''review_history_unavailable'', pb_spent = False, pb_dispatched = None,
            pb_turn = None, pb_latest = None, pb_outstanding = False, pb_correction = False, pb_reset_required = False\<rparr>
      in case read of
           Inl _ \<Rightarrow> none
         | Inr None \<Rightarrow> none\<lparr>pb_reason := Some ''new_explicit_turn_required'', pb_dispatched := Some False\<rparr>
         | Inr (Some e) \<Rightarrow>
             (let s = ev_payload e; changed = (case config of Some c \<Rightarrow> c \<noteq> rv_config s | None \<Rightarrow> False)
              in \<lparr>pb_state = (if changed then Unavailable else if rv_status s = Reviewing then Incomplete else rv_status s),
                  pb_reason = (if changed then Some ''configuration_changed''
                    else if rv_status s = Reviewing then Some ''reserved_without_completed_review'' else rv_reason s),
                  pb_spent = rv_spent s, pb_dispatched = (if rv_spent s then rv_dispatched s else Some False),
                  pb_turn = Some (rv_turn s),
                  pb_latest = Some (case rv_blocked s of Some b \<Rightarrow> b | None \<Rightarrow> rv_turn s),
                  pb_outstanding = rv_outstanding s, pb_correction = rv_correction s,
                  pb_reset_required = (rv_reason s = Some ''carry_limit'' \<or> (case rv_baseline_error s of Some x \<Rightarrow> x \<noteq> [] | None \<Rightarrow> False))\<rparr>))"

section \<open>Operations as one interface\<close>

text \<open>What a hook process runs on the checkpoint; an answer is an outcome and a reservation, where there is one.\<close>

datatype operation =
    BeginTurn "string + snapshot"
  | RecordAction action "string + snapshot" "string + snapshot"
  | Reserve plan_snapshot "string + snapshot" string string
  | SaveResult review_state supervisor_run
  | Finish review_state supervisor_run "bool \<times> bool"

type_synonym answer = "stop_outcome option \<times> review_state option"

definition answering :: "('x \<Rightarrow> answer) \<Rightarrow> 'x callback \<Rightarrow> answer callback" where
  "answering g f = (\<lambda>st old. map_prod id (map_sum id (map_prod id g)) (f st old))"

definition run_operation :: "review_env \<Rightarrow> turn_context \<Rightarrow> operation \<Rightarrow> answer callback" where
  "run_operation env ctx op =
     (case op of
        BeginTurn cap \<Rightarrow> answering (\<lambda>_. (None, None)) (begin_turn env ctx cap)
      | RecordAction a cap1 cap2 \<Rightarrow> answering (\<lambda>_. (None, None)) (record_action env ctx a cap1 cap2)
      | Reserve plan cap attempt reviewer \<Rightarrow> answering (map_prod Some id) (reserve env ctx plan cap attempt reviewer)
      | SaveResult frozen res \<Rightarrow> answering (\<lambda>_. (None, None)) (save_result ctx frozen res)
      | Finish frozen res fresh \<Rightarrow> answering (\<lambda>out. (Some out, None)) (finish ctx frozen res fresh))"

section \<open>Lemmas on validity\<close>

definition well_typed :: "review_env \<Rightarrow> review_state \<Rightarrow> bool" where
  "well_typed env s \<longleftrightarrow> validate_payload env ''review_checkpoint'' s \<and> (case reason_code s of Some r \<Rightarrow> valid_token r | None \<Rightarrow> True)"

text \<open>What the model assumes of digests, contexts, captures, actions and reviewer results.\<close>

definition env_ok :: "review_env \<Rightarrow> bool" where
  "env_ok env \<longleftrightarrow> (\<forall>s. hex_text 64 (re_dig env s)) \<and> (\<forall>e. hex_text 64 (re_evidence_digest env e))"

definition scope_ok :: "turn_context \<Rightarrow> bool" where
  "scope_ok ctx \<longleftrightarrow> context_ok ctx \<and> absolute_path (cx_root ctx) \<and> absolute_path (cx_checkout ctx) \<and>
     hex_text 64 (cx_config ctx) \<and> validate_name (cx_session ctx) = Inr ()"

definition capture_ok :: "turn_context \<Rightarrow> string + snapshot \<Rightarrow> bool" where
  "capture_ok ctx cap \<longleftrightarrow> (case cap of Inl _ \<Rightarrow> True | Inr s \<Rightarrow> sp_root s = cx_checkout ctx)"

definition run_ok :: "supervisor_run \<Rightarrow> bool" where
  "run_ok res \<longleftrightarrow> valid_token (token_of (failure_reason res))"

definition operation_ok :: "review_env \<Rightarrow> turn_context \<Rightarrow> operation \<Rightarrow> bool" where
  "operation_ok env ctx op \<longleftrightarrow>
     (case op of
        BeginTurn cap \<Rightarrow> capture_ok ctx cap
      | RecordAction a cap1 cap2 \<Rightarrow> action_valid env [cx_turn ctx] a \<and> capture_ok ctx cap1 \<and> capture_ok ctx cap2
      | Reserve plan cap attempt reviewer \<Rightarrow>
          capture_ok ctx cap \<and> hex_text 32 attempt \<and> (sn_text plan \<noteq> None \<longrightarrow> hex_some 64 (sn_digest plan))
      | SaveResult frozen res \<Rightarrow> rv_spent frozen \<and> well_typed env frozen
      | Finish frozen res fresh \<Rightarrow> rv_spent frozen \<and> well_typed env frozen \<and> run_ok res)"

lemma native_id_pos: "native_id u \<Longrightarrow> 0 < u"
proof (rule ccontr)
  assume "native_id u" "\<not> 0 < u"
  then have "u = 0" "bit u 63" by (simp_all add: native_id_def word_neq_0_conv [symmetric] del: word_neq_0_conv)
  then show False by simp
qed

lemma fixed_reasons [simp]:
  "valid_token (token_of ''carry_limit'')" "valid_token (token_of ''baseline_unavailable'')"
  "valid_token (token_of ''configuration_changed'')" "valid_token (token_of ''action_limit'')"
  "valid_token (token_of ''actions_after_review'')" "valid_token (token_of ''reserved_without_completed_review'')"
  "valid_token (token_of ''changes_after_review'')" "valid_token (token_of ''correction_not_reassessed'')"
  "valid_token (token_of ''missing_turn_start'')" "valid_token (token_of ''incomplete_evidence'')"
  "valid_token (token_of ''complete_unchanged_turn'')" "valid_token (token_of ''plan_unavailable'')"
  "valid_token (token_of ''completion_unavailable'')" "valid_token (token_of ''stale_review'')"
  "valid_token (token_of ''operator_reset'')"
  by code_simp+

lemma fixed_exclusions [simp]:
  "''operator_reset'' \<in> set excluded_reasons" "''partial_evidence'' \<in> set excluded_reasons"
  "''unattributed_pending_work'' \<in> set excluded_reasons" "''missing_turn_start'' \<in> set excluded_reasons"
  "''missing_observation'' \<in> set excluded_reasons"
  by code_simp+

text \<open>The validator, as the facts a proof uses.\<close>

lemma well_typed_iff:
  "well_typed env s \<longleftrightarrow>
     excluded_valid (rv_excluded s) \<and> native_id (rv_turn s) \<and> native_id (rv_thread s) \<and> hex_text 32 (rv_identity s) \<and>
     length (snd (rv_unattributed s)) \<le> shown_paths \<and> rv_watermark s = rv_turn s \<and>
     (\<forall>b. rv_blocked s = Some b \<longrightarrow> native_id b \<and> rv_turn s < b) \<and>
     length (rv_actions s) \<le> max_actions \<and> length (rv_provenance s) \<le> max_provenance_turns \<and>
     absolute_path (rv_root s) \<and> absolute_path (rv_checkout s) \<and> hex_text 64 (rv_config s) \<and>
     reference_valid (rv_checkout s) (rv_baseline s) \<and> reference_valid (rv_checkout s) (rv_reviewed s) \<and>
     reference_valid (rv_checkout s) (rv_start s) \<and> reference_valid (rv_checkout s) (rv_observed s) \<and>
     rv_provenance s \<noteq> [] \<and> last (rv_provenance s) = rv_turn s \<and> list_all native_id (rv_provenance s) \<and>
     list_all (action_valid env (rv_provenance s)) (rv_actions s) \<and> spending_valid env s \<and>
     (rv_correction s \<longrightarrow> rv_spent s) \<and> (\<forall>r. reason_code s = Some r \<longrightarrow> valid_token r)"
  by (auto simp: well_typed_def validate_payload_def split: option.splits)

lemma spending_valid_iff:
  "spending_valid env s \<longleftrightarrow>
     (rv_spent s \<longrightarrow> hex_some 32 (rv_attempt s) \<and> hex_some 64 (rv_evidence_digest s) \<and> hex_some 64 (rv_plan_digest s) \<and>
        rv_reviewed s \<noteq> None \<and> (\<exists>e. rv_evidence s = Some e \<and> rv_evidence_digest s = Some (re_evidence_digest env e))) \<and>
     (\<not> rv_spent s \<longrightarrow> rv_status s \<notin> {Reviewing, Reviewed, PartialReview, Incomplete, Unreviewed} \<and> rv_attempt s = None \<and>
        rv_evidence s = None \<and> rv_decision s = None)"
  by (auto simp: spending_valid_def split: option.splits)

lemma reason_code_iff: "reason_code s = Some r \<longleftrightarrow> (\<exists>x. rv_reason s = Some x \<and> x \<noteq> [] \<and> r = token_of x)"
  by (auto simp: reason_code_def split: option.splits)

lemmas well_typed_simps = well_typed_iff spending_valid_iff reason_code_iff

lemma reference_valid_None [simp]: "reference_valid c None"
  by (simp add: reference_valid_def)

lemma reference_valid_of [simp]:
  "env_ok env \<Longrightarrow> reference_valid c (Some (reference_of (re_dig env) snap)) \<longleftrightarrow> sp_root snap = c"
  by (simp add: reference_valid_def reference_of_def env_ok_def)

lemma excluded_valid_None [simp]: "excluded_valid None"
  by (simp add: excluded_valid_def)

lemma well_typed_unavailable:
  "well_typed env s \<Longrightarrow> valid_token (token_of r) \<Longrightarrow> well_typed env (unavailable r s)"
  by (auto simp: well_typed_simps unavailable_def)

lemma exclude_fields [simp]:
  "rv_identity (exclude s src r) = rv_identity s" "rv_root (exclude s src r) = rv_root s"
  "rv_checkout (exclude s src r) = rv_checkout s" "rv_thread (exclude s src r) = rv_thread s"
  "rv_turn (exclude s src r) = rv_turn s" "rv_watermark (exclude s src r) = rv_watermark s"
  "rv_config (exclude s src r) = rv_config s" "rv_spent (exclude s src r) = rv_spent s"
  "rv_status (exclude s src r) = rv_status s" "rv_reason (exclude s src r) = rv_reason s"
  "rv_outstanding (exclude s src r) = rv_outstanding s" "rv_provenance (exclude s src r) = rv_provenance s"
  "rv_actions (exclude s src r) = rv_actions s" "rv_correction (exclude s src r) = rv_correction s"
  "rv_baseline (exclude s src r) = rv_baseline s" "rv_start (exclude s src r) = rv_start s"
  "rv_observed (exclude s src r) = rv_observed s" "rv_reviewed (exclude s src r) = rv_reviewed s"
  "rv_unattributed (exclude s src r) = rv_unattributed s" "rv_reset (exclude s src r) = rv_reset s"
  "rv_blocked (exclude s src r) = rv_blocked s" "rv_carry (exclude s src r) = rv_carry s"
  "rv_attempt (exclude s src r) = rv_attempt s" "rv_evidence (exclude s src r) = rv_evidence s"
  "rv_evidence_digest (exclude s src r) = rv_evidence_digest s" "rv_plan_digest (exclude s src r) = rv_plan_digest s"
  "rv_decision (exclude s src r) = rv_decision s"
  by (simp_all add: exclude_def Let_def)

lemma exclude_valid:
  assumes "excluded_valid (rv_excluded s)" "well_typed env src" "r \<in> set excluded_reasons"
  shows "excluded_valid (rv_excluded (exclude s src r))"
proof (cases "rv_excluded s")
  case None
  have "rv_provenance src \<noteq> []" "list_all native_id (rv_provenance src)" using assms(2) by (simp_all add: well_typed_iff)
  then have "last (rv_provenance src) \<in> {t \<in> set (rv_provenance src). 0 < t}"
    by (auto simp: list_all_iff intro: native_id_pos)
  then have "filter (\<lambda>t. 0 < t) (rv_provenance src) \<noteq> []" by (auto simp: filter_empty_conv)
  then have "1 \<le> length (filter (\<lambda>t. 0 < t) (rv_provenance src))" by (cases "filter (\<lambda>t. 0 < t) (rv_provenance src)") auto
  with None assms show ?thesis by (simp add: exclude_def Let_def excluded_valid_def well_typed_iff)
next
  case (Some x)
  with assms show ?thesis by (auto simp: exclude_def Let_def excluded_valid_def well_typed_iff)
qed

lemma well_typed_exclude:
  assumes "well_typed env s" "well_typed env src" "r \<in> set excluded_reasons"
  shows "well_typed env (exclude s src r)"
proof -
  have "excluded_valid (rv_excluded (exclude s src r))"
    by (rule exclude_valid [OF _ assms(2,3)]) (use assms(1) in \<open>simp add: well_typed_iff\<close>)
  then show ?thesis
    using assms(1) unfolding well_typed_simps by simp
qed

lemma well_typed_new_state:
  "env_ok env \<Longrightarrow> scope_ok ctx \<Longrightarrow> reference_valid (cx_checkout ctx) ref \<Longrightarrow> excluded_valid x \<Longrightarrow>
   well_typed env ((new_state ctx ref)\<lparr>rv_excluded := x\<rparr>)"
  by (simp add: well_typed_simps new_state_def scope_ok_def context_ok_def shown_paths_def max_actions_def
      max_provenance_turns_def)
text \<open>Each operation keeps the state well typed.\<close>

definition typed_for :: "review_env \<Rightarrow> turn_context \<Rightarrow> review_state \<Rightarrow> bool" where
  "typed_for env ctx s \<longleftrightarrow> well_typed env s \<and> rv_checkout s = cx_checkout ctx"

lemma well_typed_frame:
  "well_typed env s \<Longrightarrow> well_typed env (s\<lparr>rv_baseline_error := x\<rparr>)"
  "well_typed env s \<Longrightarrow> well_typed env (s\<lparr>rv_carry := c\<rparr>)"
  "well_typed env s \<Longrightarrow> well_typed env (s\<lparr>rv_coverage := v\<rparr>)"
  "well_typed env s \<Longrightarrow> length (snd u) \<le> shown_paths \<Longrightarrow> well_typed env (s\<lparr>rv_unattributed := u\<rparr>)"
  "well_typed env s \<Longrightarrow> reference_valid (rv_checkout s) ref \<Longrightarrow> well_typed env (s\<lparr>rv_observed := ref\<rparr>)"
  "well_typed env s \<Longrightarrow> set as \<subseteq> set (rv_actions s) \<Longrightarrow> length as \<le> length (rv_actions s) \<Longrightarrow> well_typed env (s\<lparr>rv_actions := as\<rparr>)"
  by (auto simp: well_typed_simps list_all_iff)

lemma captured_reference:
  assumes "env_ok env" "capture_ok ctx cap" "prune_and_capture env refs cap st = (st1, captured)"
  shows "reference_valid (cx_checkout ctx) (case captured of Inr r \<Rightarrow> Some r | Inl _ \<Rightarrow> None)"
    and "captured = Inr r \<Longrightarrow> rf_root r = cx_checkout ctx"
  using assms by (auto simp: prune_and_capture_def capture_ok_def reference_of_def reference_valid_def env_ok_def split: sum.splits)

lemma rebased_reference:
  "env_ok env \<Longrightarrow> rebase_pending (re_dig env) st b seen current = Inr (st', carried, un, co) \<Longrightarrow>
   reference_valid (rf_root current) (Some carried)"
  by (auto simp: rebase_pending_def reference_valid_def env_ok_def split: sum.splits prod.splits)

lemma carry_work_typed:
  assumes "env_ok env" "scope_ok ctx" "reference_valid (cx_checkout ctx) ref" "typed_for env ctx old"
    and "length (rv_provenance old) < max_provenance_turns" "reference_valid (cx_checkout ctx) (Some carried)"
  shows "well_typed env (carry_work ctx old carried un co ((new_state ctx ref)\<lparr>rv_excluded := rv_excluded old\<rparr>))"
proof -
  let ?s = "(new_state ctx ref)\<lparr>rv_excluded := rv_excluded old\<rparr>"
  let ?s1 = "?s\<lparr>rv_baseline := Some carried, rv_outstanding := True, rv_provenance := rv_provenance old @ [cx_turn ctx],
            rv_actions := rv_actions old, rv_carry := rv_carry old, rv_unattributed := (length un, take shown_paths un)\<rparr>"
  have "well_typed env ?s1"
    using assms unfolding typed_for_def well_typed_simps
    by (auto simp: new_state_def scope_ok_def context_ok_def max_actions_def max_provenance_turns_def list_all_iff action_valid_def)
  then have "well_typed env ?s1 \<and> well_typed env (?s1\<lparr>rv_actions := [], rv_carry := c\<rparr>)" for c
    by (auto simp: well_typed_simps)
  with assms(4) show ?thesis
    by (auto simp: carry_work_def Let_def typed_for_def intro!: well_typed_exclude)
qed

lemma begin_turn_typed:
  assumes "env_ok env" "scope_ok ctx" "capture_ok ctx cap" "\<And>s. old = Some s \<Longrightarrow> typed_for env ctx s"
    and "begin_turn env ctx cap st old = (st', Inr (Some s', x))"
  shows "well_typed env s'"
proof -
  have blocked: ?thesis
    if "old = Some s" "seen_until old < cx_turn ctx" "s' = (unavailable ''carry_limit'' s)\<lparr>rv_blocked := Some (cx_turn ctx)\<rparr>" for s
  proof -
    have "rv_turn s < cx_turn ctx" using that(1,2) assms(4) [of s] by (simp add: seen_until_def typed_for_def well_typed_iff)
    with that assms(2) assms(4) [of s] show ?thesis
      by (auto simp: typed_for_def well_typed_simps unavailable_def scope_ok_def context_ok_def)
  qed
  let ?refs = "case old of Some s \<Rightarrow> if rv_reset s then [] else references old | None \<Rightarrow> []"
  obtain st1 captured where c: "prune_and_capture env ?refs cap st = (st1, captured)" by (rule prod.exhaust)
  let ?ref = "case captured of Inr r \<Rightarrow> Some r | Inl _ \<Rightarrow> None"
  let ?fresh = "(new_state ctx ?ref)\<lparr>rv_excluded := Option.bind old rv_excluded\<rparr>"
  note ref = captured_reference [OF assms(1,3) c]
  have x: "excluded_valid (Option.bind old rv_excluded)"
    using assms(4) by (cases old) (auto simp: typed_for_def well_typed_iff)
  have fresh: "well_typed env ?fresh" by (rule well_typed_new_state [OF assms(1,2) ref(1) x])
  note rules = well_typed_unavailable well_typed_exclude well_typed_frame(1,4)
  show ?thesis
  proof (cases old)
    case None
    with assms(5) c fresh show ?thesis by (auto simp: begin_turn_def Let_def intro!: rules split: if_splits sum.splits)
  next
    case (Some s)
    have s: "typed_for env ctx s" "well_typed env s" using assms(4) [OF Some] by (simp_all add: typed_for_def)
    show ?thesis
    proof (cases "cx_turn ctx \<le> seen_until old \<or> pending s \<and> max_provenance_turns \<le> length (rv_provenance s)")
      case True
      with assms(5) Some blocked [OF Some] show ?thesis by (auto simp: begin_turn_def not_le split: if_splits)
    next
      case False
      have carry: "well_typed env (carry_work ctx s carried un co ?fresh)"
        if "pending s" "captured = Inr r" "rebase_pending (re_dig env) st1 b seen r = Inr (st2, carried, un, co)" for r b seen st2 carried un co
        using carry_work_typed [OF assms(1,2) ref(1) s(1), of carried un co] rebased_reference [OF assms(1) that(3)] ref(2) [OF that(2)]
          that False Some by simp
      from assms(5) c False Some s fresh carry show ?thesis
        by (auto simp: begin_turn_def Let_def intro!: rules split: if_splits sum.splits option.splits prod.splits)
    qed
  qed
qed
lemma add_action_typed:
  assumes "env_ok env" "well_typed env s" "action_valid env [rv_turn s] a"
    and "\<And>snap. cap = Inr snap \<Longrightarrow> sp_root snap = rv_checkout s" "add_action env a cap st s = (st', s')"
  shows "well_typed env s'"
proof -
  let ?s1 = "if rv_spent s then s\<lparr>rv_status := Unreviewed, rv_reason := Some ''actions_after_review'', rv_outstanding := True\<rparr> else s"
  have s1: "well_typed env ?s1" using assms(2) by (auto simp: well_typed_simps)
  let ?s2 = "if max_actions \<le> length (rv_actions ?s1)
      then (unavailable ''action_limit'' ?s1)\<lparr>rv_carry := sorted_set (rv_carry ?s1 @ [''action_limit''])\<rparr>
      else ?s1\<lparr>rv_actions := rv_actions ?s1 @ [a]\<rparr>"
  have a: "action_valid env (rv_provenance s) a"
    using assms(2,3) last_in_set [of "rv_provenance s"] by (auto simp: action_valid_def well_typed_iff)
  have s2: "well_typed env ?s2"
  proof (cases "max_actions \<le> length (rv_actions ?s1)")
    case True
    with s1 show ?thesis by (simp add: well_typed_frame well_typed_unavailable)
  next
    case False
    moreover have "well_typed env (?s1\<lparr>rv_actions := rv_actions ?s1 @ [a]\<rparr>)"
      using s1 a False unfolding well_typed_simps by simp
    ultimately show ?thesis by simp
  qed
  define s2 where "s2 = ?s2"
  have "add_action env a cap st s =
     (if ac_phase a \<noteq> OutcomeSeen then (st, s2)
      else (case cap of
          Inl e \<Rightarrow> (st, s2\<lparr>rv_carry := sorted_set (rv_carry s2 @ [''observation_unavailable''])\<rparr>)
        | Inr snap \<Rightarrow> (store_capture (re_dig env) (re_content env) snap st, s2\<lparr>rv_observed := Some (reference_of (re_dig env) snap)\<rparr>)))"
    unfolding add_action_def Let_def s2_def by (rule refl)
  moreover have "rv_checkout s2 = rv_checkout s" by (simp add: s2_def unavailable_def)
  moreover have "well_typed env s2" unfolding s2_def by (rule s2)
  ultimately show ?thesis using assms(1,4,5) by (auto split: if_splits sum.splits intro!: well_typed_frame)
qed

lemma record_action_typed:
  assumes "env_ok env" "capture_ok ctx cap1" "capture_ok ctx cap2" "action_valid env [cx_turn ctx] a"
    and "\<And>s. old = Some s \<Longrightarrow> typed_for env ctx s" "record_action env ctx a cap1 cap2 st old = (st', Inr (Some s', x))"
  shows "well_typed env s'"
proof (cases old)
  case (Some s)
  have s: "well_typed env s" "rv_checkout s = cx_checkout ctx" using assms(5) [OF Some] by (simp_all add: typed_for_def)
  have fresh: "well_typed env (s\<lparr>rv_baseline := Some r, rv_actions := [], rv_observed := Some r, rv_carry := []\<rparr>)"
    if "reference_valid (rv_checkout s) (Some r)" for r
    using s(1) that by (auto simp: well_typed_simps)
  have "set (filter P xs) \<subseteq> set xs \<and> length (filter P xs) \<le> length xs" for P and xs :: "action list" by auto
  then have filter: "well_typed env (s\<lparr>rv_actions := filter P (rv_actions s)\<rparr>)" for P
    using s(1) by (intro well_typed_frame) blast+
  have roots: "sp_root snap = rv_checkout s" if "cap1 = Inr snap \<or> cap2 = Inr snap" for snap
    using assms(2,3) s(2) that by (auto simp: capture_ok_def)
  have add: "well_typed env s'"
    if "add_action env a cap2 st1 t = (st2, s')" "well_typed env t" "rv_turn t = cx_turn ctx" "rv_checkout t = rv_checkout s" for st1 t st2
    by (rule add_action_typed [OF assms(1) that(2) _ _ that(1)]) (use assms(4) that roots in auto)
  from assms(6) Some show ?thesis
    using s filter roots fresh assms(1,4)
    by (auto simp: record_action_def Let_def current_turn_def intro: well_typed_unavailable add split: if_splits sum.splits prod.splits)
qed (use assms(6) in \<open>simp add: record_action_def\<close>)
lemma missing_start_typed:
  assumes "env_ok env" "scope_ok ctx" "\<And>s. old = Some s \<Longrightarrow> typed_for env ctx s"
  shows "well_typed env (missing_start ctx old)"
proof -
  let ?m = "(new_state ctx None)\<lparr>rv_excluded := Option.bind old rv_excluded\<rparr>"
  let ?m1 = "case old of Some s \<Rightarrow> if rv_outstanding s \<or> rv_status s = Collecting then exclude ?m s ''missing_turn_start'' else ?m | None \<Rightarrow> ?m"
  have "excluded_valid (Option.bind old rv_excluded)"
    using assms(3) by (cases old) (auto simp: typed_for_def well_typed_iff)
  then have m: "well_typed env ?m" using well_typed_new_state [OF assms(1,2)] by simp
  then have m1: "well_typed env ?m1"
    using assms(3) by (auto simp: typed_for_def intro: well_typed_exclude split: option.splits)
  have "well_typed env (exclude ?m1 ?m1 ''missing_turn_start'')" by (rule well_typed_exclude [OF m1 m1]) simp
  moreover have "\<not> rv_spent (exclude ?m1 ?m1 ''missing_turn_start'')" by (auto simp: new_state_def split: option.splits)
  moreover have "well_typed env s \<Longrightarrow> \<not> rv_spent s \<Longrightarrow>
      well_typed env (s\<lparr>rv_status := Unavailable, rv_reason := Some ''missing_turn_start''\<rparr>)" for s
    by (auto simp: well_typed_simps)
  ultimately show ?thesis unfolding missing_start_def Let_def by blast
qed

lemma continue_spent_typed:
  assumes "env_ok env" "capture_ok ctx cap" "typed_for env ctx s" "rv_spent s"
    and "continue_spent env cap st (Some s) = (st', Inr (Some s', x))"
  shows "well_typed env s'"
proof -
  have upd: "well_typed env (t\<lparr>rv_status := u, rv_reason := Some r, rv_outstanding := b\<rparr>)"
    if "well_typed env t" "rv_spent t" "valid_token (token_of r)" for t u r b
    using that by (auto simp: well_typed_simps)
  have upd': "well_typed env (t\<lparr>rv_observed := r\<rparr>)" if "well_typed env t" "reference_valid (rv_checkout t) r" for t r
    using that by (rule well_typed_frame)
  from assms show ?thesis
    by (auto simp: continue_spent_def Let_def typed_for_def capture_ok_def intro!: upd upd' split: if_splits option.splits sum.splits)
qed

lemma reserve_fresh_typed:
  assumes "env_ok env" "well_typed env s" "\<not> rv_spent s" "reference_valid (rv_checkout s) (Some ref)" "hex_text 32 attempt"
    and "sn_text plan \<noteq> None \<Longrightarrow> hex_some 64 (sn_digest plan)"
    and "reserve_fresh env plan attempt reviewer ref ev s = (s', out, res)"
  shows "well_typed env s'"
proof -
  let ?s1 = "s\<lparr>rv_coverage := Some (en_complete ev, en_omissions ev)\<rparr>"
  have s1: "well_typed env ?s1" "\<not> rv_spent ?s1" using assms(2,3) by (auto intro: well_typed_frame)
  have x: "well_typed env (t\<lparr>rv_status := Unavailable, rv_reason := Some ''incomplete_evidence'', rv_outstanding := False\<rparr>)"
    if "well_typed env t" "\<not> rv_spent t" for t
    using that by (auto simp: well_typed_simps)
  have n: "well_typed env (?s1\<lparr>rv_status := NoChanges, rv_reason := Some ''complete_unchanged_turn'', rv_reviewed := Some ref\<rparr>)"
    using s1 assms(4) by (auto simp: well_typed_simps)
  have r: "well_typed env (?s1\<lparr>rv_spent := True, rv_dispatched := None, rv_status := Reviewing, rv_reason := None, rv_outstanding := True,
       rv_reviewed := Some ref, rv_attempt := Some attempt, rv_evidence := Some ev,
       rv_evidence_digest := Some (re_evidence_digest env ev), rv_plan_digest := sn_digest plan, rv_reviewer := Some reviewer\<rparr>)"
    if "hex_some 64 (sn_digest plan)"
    using s1 assms(1,4,5) that by (auto simp: well_typed_simps hex_some_def env_ok_def)
  from assms(6,7) s1 n r show ?thesis
    by (auto simp: reserve_fresh_def Let_def intro!: x well_typed_exclude well_typed_unavailable split: if_splits)
qed

lemma reserve_typed:
  assumes "env_ok env" "scope_ok ctx" "capture_ok ctx cap" "hex_text 32 attempt" "sn_text plan \<noteq> None \<Longrightarrow> hex_some 64 (sn_digest plan)"
    and "\<And>s. old = Some s \<Longrightarrow> typed_for env ctx s" "reserve env ctx plan cap attempt reviewer st old = (st', Inr (Some s', x))"
  shows "well_typed env s'"
proof (cases old)
  case None
  with assms(7) missing_start_typed [OF assms(1,2), of old] show ?thesis by (auto simp: reserve_def)
next
  case (Some s)
  have s: "typed_for env ctx s" "well_typed env s" "rv_checkout s = cx_checkout ctx" using assms(6) [OF Some] by (simp_all add: typed_for_def)
  have spent: ?thesis if "rv_spent s" "continue_spent env cap st (Some s) = (st', Inr (Some s', x))"
    by (rule continue_spent_typed [OF assms(1,3) s(1) that])
  have fresh: ?thesis
    if "map_prod Some id (reserve_fresh env plan attempt reviewer ref ev (s\<lparr>rv_observed := Some ref\<rparr>)) = (Some s', y)"
      "\<not> rv_spent s" "reference_valid (cx_checkout ctx) (Some ref)" for ref ev y
    using that s reserve_fresh_typed [OF assms(1) _ _ _ assms(4,5), of "s\<lparr>rv_observed := Some ref\<rparr>" ref reviewer ev s' "fst y" "snd y"]
      well_typed_frame(5) [OF s(2), of "Some ref"]
    by (cases "reserve_fresh env plan attempt reviewer ref ev (s\<lparr>rv_observed := Some ref\<rparr>)") auto
  from assms(1,3,7) Some s missing_start_typed [OF assms(1,2,6), of old] spent show ?thesis
    by (auto simp: reserve_def Let_def capture_ok_def intro: fresh well_typed_unavailable split: if_splits sum.splits prod.splits)
qed

lemma owner_spent: "rv_spent frozen \<Longrightarrow> well_typed env frozen \<Longrightarrow> well_typed env s \<Longrightarrow> owner ctx frozen (Some s) \<Longrightarrow> rv_spent s"
  by (auto simp: owner_def well_typed_simps hex_some_def split: option.splits)

lemma decided_typed:
  "well_typed env s \<Longrightarrow> rv_spent s \<Longrightarrow> well_typed env (s\<lparr>rv_decision := d, rv_dispatched := x\<rparr>)"
  by (auto simp: well_typed_simps)

lemma save_result_typed:
  assumes "rv_spent frozen" "well_typed env frozen" "\<And>s. old = Some s \<Longrightarrow> typed_for env ctx s"
    and "save_result ctx frozen res st old = (st', Inr (Some s', x))"
  shows "well_typed env s'"
proof (cases old)
  case (Some s)
  with assms show ?thesis
    by (auto simp: save_result_def typed_for_def intro!: decided_typed owner_spent [of frozen env s ctx] split: if_splits)
qed (use assms(4) in \<open>simp add: save_result_def owner_def\<close>)

lemma finish_typed:
  assumes "rv_spent frozen" "well_typed env frozen" "run_ok res" "\<And>s. old = Some s \<Longrightarrow> typed_for env ctx s"
    and "finish ctx frozen res fresh st old = (st', Inr (Some s', x))"
  shows "well_typed env s'"
proof (cases old)
  case (Some s0)
  let ?s = "s0\<lparr>rv_decision := Some (sr_decision res), rv_dispatched := sr_dispatched res\<rparr>"
  from assms(4,5) Some have o: "owner ctx frozen (Some s0)" "well_typed env s0" by (auto simp: finish_def typed_for_def split: if_splits)
  have s: "well_typed env ?s" "rv_spent ?s"
    using o owner_spent [OF assms(1,2) o(2,1)] by (simp_all add: decided_typed)
  have upd: "well_typed env (t\<lparr>rv_status := u, rv_reason := Some r, rv_outstanding := b\<rparr>)"
    if "well_typed env t" "rv_spent t" "valid_token (token_of r)" for t u r b
    using that by (auto simp: well_typed_simps)
  have reviewed: "well_typed env (?s\<lparr>rv_status := Reviewed, rv_reason := None, rv_outstanding := b, rv_correction := b\<rparr>)" for b
    using s by (auto simp: well_typed_simps)
  have ex: "well_typed env (exclude ?s ?s ''partial_evidence'')" by (rule well_typed_exclude [OF s(1) s(1)]) simp
  have un: "well_typed env (unavailable ''completion_unavailable'' ?s)" "well_typed env (unavailable (failure_reason res) ?s)"
    using s(1) assms(3) by (auto simp: run_ok_def intro: well_typed_unavailable)
  from assms(5) Some o(1) s ex un show ?thesis
    unfolding finish_def Let_def option.case
    by (simp split: if_splits) (auto intro: upd reviewed)
qed (use assms(5) in \<open>simp add: finish_def\<close>)
section \<open>Well-typed checkpoints are never refused\<close>

definition mint_ok :: "review_env \<Rightarrow> mint \<Rightarrow> bool" where
  "mint_ok env m \<longleftrightarrow> valid_event_id (fst m) \<and> re_iso env (snd m) \<and> utc_timestamp (snd m)"

lemma review_event_ok:
  assumes "well_typed env s" "validate_name (cx_session ctx) = Inr ()" "mint_ok env m"
  shows "\<exists>e. review_event env ctx m s = Inr e \<and> ev_payload e = s \<and> event_ok (review_domain env) (Some (cx_session ctx)) e"
proof -
  have names: "''codex'' \<in> set agent_runtimes" "valid_token ''review_checkpoint''" "''codex_review_hook'' \<in> set event_origins"
    "''runtime_event'' \<in> set event_operations" "''success'' \<in> set event_outcomes"
    by code_simp+
  show ?thesis
    unfolding review_event_def new_session_event_def validate_raw_of
    using assms names by (auto simp: event_ok_def mint_ok_def review_domain_def well_typed_def)
qed

lemma review_event_valid:
  assumes "review_event env ctx m s = Inr e"
  shows "ev_payload e = s \<and> validate_payload env (ev_type e) s"
  using assms unfolding review_event_def new_session_event_def validate_raw_of
  by (auto simp: event_ok_def review_domain_def)

lemma answering_Inr: "answering g f st old = (st', Inr (n, y)) \<longleftrightarrow> (\<exists>x. f st old = (st', Inr (n, x)) \<and> y = g x)"
  by (cases "f st old"; cases "snd (f st old)") (auto simp: answering_def)

lemma operation_typed:
  assumes "env_ok env" "scope_ok ctx" "operation_ok env ctx op" "\<And>s. old = Some s \<Longrightarrow> typed_for env ctx s"
    and "run_operation env ctx op st old = (st', Inr (Some s', x))"
  shows "well_typed env s'"
proof (cases op)
  case (BeginTurn cap)
  with assms begin_turn_typed [OF assms(1,2) _ assms(4)] show ?thesis
    by (auto simp: run_operation_def operation_ok_def answering_Inr)
next
  case (RecordAction a cap1 cap2)
  with assms record_action_typed [OF assms(1) _ _ _ assms(4)] show ?thesis
    by (auto simp: run_operation_def operation_ok_def answering_Inr)
next
  case (Reserve plan cap attempt reviewer)
  with assms(5) obtain y where "reserve env ctx plan cap attempt reviewer st old = (st', Inr (Some s', y))"
    by (auto simp: run_operation_def answering_Inr)
  from reserve_typed [OF assms(1,2) _ _ _ assms(4) this] assms(3) Reserve show ?thesis by (simp add: operation_ok_def)
next
  case (SaveResult frozen res)
  with assms save_result_typed [OF _ _ assms(4)] show ?thesis
    by (auto simp: run_operation_def operation_ok_def answering_Inr)
next
  case (Finish frozen res fresh)
  with assms(5) obtain y where "finish ctx frozen res fresh st old = (st', Inr (Some s', y))"
    by (auto simp: run_operation_def answering_Inr)
  from finish_typed [OF _ _ _ assms(4) this] assms(3) Finish show ?thesis by (simp add: operation_ok_def)
qed

text \<open>
  C19. Well-typed checkpoints do not get stuck on their own validator. From a well-typed checkpoint, every
  operation of a hook on well-formed input either answers with an event that the strict validation of
  the journal accepts and whose state is well typed again, or keeps the checkpoint, or raises an
  exception of its own (another session or checkout, evidence that cannot be captured or read): no new
  state is ever refused as malformed.
\<close>

theorem review_never_stuck:
  assumes "env_ok env" "scope_ok ctx" "mint_ok env m" "operation_ok env ctx op"
    and "\<forall>e. prev = Some e \<longrightarrow> well_typed env (ev_payload e)"
    and "owned_callback env ctx identity m (run_operation env ctx op) st prev = (st', r)"
  shows "(\<forall>err. r = Inl err \<longrightarrow> (\<exists>why. err = Callback why)) \<and>
    (\<forall>e x. r = Inr (Some e, x) \<longrightarrow> validate_session_event (review_domain env) (Some (cx_session ctx)) None (raw_of e) = Inr e \<and>
       well_typed env (ev_payload e))"
proof -
  have same: "typed_for env ctx s" if "map_option ev_payload prev = Some s" "same_scope ctx s = Inr u" for s u
    using assms(5) that by (auto simp: typed_for_def same_scope_def split: if_splits)
  have name: "validate_name (cx_session ctx) = Inr ()" using assms(2) by (simp add: scope_ok_def)
  have "\<exists>e. review_event env ctx m s = Inr e \<and> ev_payload e = s \<and> event_ok (review_domain env) (Some (cx_session ctx)) e \<and> well_typed env s"
    if "run_operation env ctx op st (map_option ev_payload prev) = (st', Inr (Some s, x))"
      "\<And>t. map_option ev_payload prev = Some t \<Longrightarrow> typed_for env ctx t" for s x
    using operation_typed [OF assms(1,2,4) that(2,1)] review_event_ok [OF _ name assms(3)] by blast
  with assms(6) same show ?thesis
    by (cases prev) (auto simp: owned_callback_def validate_raw_of split: if_splits sum.splits option.splits prod.splits)
qed

definition review_sample :: review_env where
  "review_sample = \<lparr>re_dig = (\<lambda>s. if hex_text 64 (sample_digest s) then sample_digest s else replicate 64 (CHR ''0'')),
     re_diff = (\<lambda>_ _ _. []), re_bytes = (\<lambda>_. 0), re_evidence_digest = (\<lambda>_. replicate 64 (CHR ''e'')),
     re_action_bytes = (\<lambda>_. 0), re_content = (\<lambda>d. d), re_iso = (\<lambda>_. True)\<rparr>"

definition sample_turn :: "uuid \<Rightarrow> turn_context" where
  "sample_turn turn = \<lparr>cx_root = ''/r'', cx_session = ''demo'', cx_checkout = ''/w'', cx_thread = 0x0190000000007000800000000000000A,
     cx_turn = turn, cx_config = replicate 64 (CHR ''c''), cx_identity = replicate 32 (CHR ''5'')\<rparr>"

definition sample_mint :: mint where
  "sample_mint = (''sevt_0123456789abcdef0123456789abcdef'', ''2026-01-02T03:04:05Z'')"

definition turn1 :: uuid where
  "turn1 = 0x01900000000070008000000000000001"

definition sample_begin :: "review_state event option" where
  "sample_begin =
     (case owned_callback review_sample (sample_turn turn1) (Some (replicate 32 (CHR ''5''))) sample_mint
        (run_operation review_sample (sample_turn turn1) (BeginTurn (Inr (sample_tree 1 1)))) \<lparr>es_snapshots = [], es_blobs = []\<rparr> None of
        (st, Inr (e, x)) \<Rightarrow> e | _ \<Rightarrow> None)"

lemma review_sample_ok: "env_ok review_sample"
  by (simp add: env_ok_def review_sample_def) (simp add: hex_text_def hex_digit_def list_all_iff)

lemma sample_turn_ok: "scope_ok (sample_turn turn1)"
  by code_simp

lemma sample_mint_ok: "mint_ok review_sample sample_mint"
  by code_simp

lemma answered: "(case r of Inr (Some e, x) \<Rightarrow> P e | _ \<Rightarrow> False) \<Longrightarrow> \<exists>e x. r = Inr (Some e, x) \<and> P e"
  by (cases r) (auto split: option.splits prod.splits)

text \<open>A first prompt on an empty journal.\<close>

theorem review_never_stuck_witness:
  "\<exists>e. sample_begin = Some e \<and> rv_turn (ev_payload e) = turn1 \<and>
     validate_session_event (review_domain review_sample) (Some ''demo'') None (raw_of e) = Inr e"
proof -
  let ?run = "owned_callback review_sample (sample_turn turn1) (Some (replicate 32 (CHR ''5''))) sample_mint
    (run_operation review_sample (sample_turn turn1) (BeginTurn (Inr (sample_tree 1 1)))) \<lparr>es_snapshots = [], es_blobs = []\<rparr> None"
  have "case snd ?run of Inr (Some e, x) \<Rightarrow> rv_turn (ev_payload e) = turn1 | _ \<Rightarrow> False" by code_simp
  from answered [OF this] obtain e x where x: "snd ?run = Inr (Some e, x)" and e: "rv_turn (ev_payload e) = turn1" by blast
  have run: "?run = (fst ?run, Inr (Some e, x))" by (simp only: x [symmetric] prod.collapse)
  have "operation_ok review_sample (sample_turn turn1) (BeginTurn (Inr (sample_tree 1 1)))"
    by (simp add: operation_ok_def capture_ok_def sample_tree_def sample_turn_def)
  from review_never_stuck [OF review_sample_ok sample_turn_ok sample_mint_ok this _ run]
  have "validate_session_event (review_domain review_sample) (Some (cx_session (sample_turn turn1))) None (raw_of e) = Inr e" by blast
  moreover have "cx_session (sample_turn turn1) = ''demo''" by (simp add: sample_turn_def)
  moreover have "sample_begin = Some e" unfolding sample_begin_def by (subst run) simp
  ultimately show ?thesis using e by metis
qed

section \<open>Interleaved hook processes\<close>

text \<open>
  A review process lives from its reservation to its end; the reviewer is dispatched once by it. The
  histories \<open>sw_dispatched\<close> and \<open>sw_corrected\<close> record the turns of the dispatches and of the
  corrections that were requested.
\<close>

datatype stage = Reserved | Judged supervisor_run

record review_process =
  pr_ctx :: turn_context
  pr_frozen :: review_state
  pr_plan :: plan_snapshot
  pr_stage :: stage

record review_world =
  sw_cell :: "review_state event option"
  sw_store :: evidence_store
  sw_running :: "review_process list"
  sw_dispatched :: "uuid list"
  sw_corrected :: "uuid list"

text \<open>One operation on the world: the checkpoint and the storage after it, and the answer it returned, if it did.\<close>

definition commit ::
  "review_env \<Rightarrow> turn_context \<Rightarrow> string option \<Rightarrow> mint \<Rightarrow> wout \<Rightarrow> operation \<Rightarrow> review_world \<Rightarrow> review_world \<times> answer option" where
  "commit env ctx identity m out op w =
     (case owned_callback env ctx identity m (run_operation env ctx op) (sw_store w) (sw_cell w) of (st, r) \<Rightarrow>
        (case apply_update out r (sw_cell w) of (cell, x) \<Rightarrow> (w\<lparr>sw_cell := cell, sw_store := st\<rparr>, x)))"

definition started :: "turn_context \<Rightarrow> plan_snapshot \<Rightarrow> answer option \<Rightarrow> review_process list" where
  "started ctx plan x = (case x of Some (_, Some frozen) \<Rightarrow> [\<lparr>pr_ctx = ctx, pr_frozen = frozen, pr_plan = plan, pr_stage = Reserved\<rparr>] | _ \<Rightarrow> [])"

definition corrected :: "review_process \<Rightarrow> answer option \<Rightarrow> uuid list" where
  "corrected p x = (case x of Some (Some out, _) \<Rightarrow> if so_correction out then [rv_turn (pr_frozen p)] else [] | _ \<Rightarrow> [])"

inductive review_step :: "review_env \<Rightarrow> review_world \<Rightarrow> review_world \<Rightarrow> bool" for env where
  start: "commit env ctx identity m out (BeginTurn cap) w = (w', x) \<Longrightarrow> review_step env w w'"
| act: "commit env ctx identity m out (RecordAction a cap1 cap2) w = (w', x) \<Longrightarrow> review_step env w w'"
| reserve: "commit env ctx identity m out (Reserve plan cap attempt reviewer) w = (w', x) \<Longrightarrow>
    review_step env w (w'\<lparr>sw_running := started ctx plan x @ sw_running w\<rparr>)"
| dispatch: "sw_running w = ps @ p # qs \<Longrightarrow> pr_stage p = Reserved \<Longrightarrow>
    review_step env w (w\<lparr>sw_running := ps @ p\<lparr>pr_stage := Judged res\<rparr> # qs, sw_dispatched := rv_turn (pr_frozen p) # sw_dispatched w\<rparr>)"
| save: "sw_running w = ps @ p # qs \<Longrightarrow> pr_stage p = Judged res \<Longrightarrow>
    commit env (pr_ctx p) identity m out (SaveResult (pr_frozen p) res) w = (w', x) \<Longrightarrow> review_step env w w'"
| finish: "sw_running w = ps @ p # qs \<Longrightarrow> pr_stage p = Judged res \<Longrightarrow>
    commit env (pr_ctx p) identity m out
      (Finish (pr_frozen p) res (completion env (pr_ctx p) (pr_frozen p) (pr_plan p) latest cap config late)) w = (w', x) \<Longrightarrow>
    review_step env w (w'\<lparr>sw_running := ps @ qs, sw_corrected := corrected p x @ sw_corrected w\<rparr>)"
| die: "sw_running w = ps @ p # qs \<Longrightarrow> review_step env w (w\<lparr>sw_running := ps @ qs\<rparr>)"
| reset: "apply_update out (reset_review env session m True (sw_cell w)) (sw_cell w) = (cell, x) \<Longrightarrow>
    review_step env w (w\<lparr>sw_cell := cell\<rparr>)"

definition initial_world :: review_world where
  "initial_world = \<lparr>sw_cell = None, sw_store = \<lparr>es_snapshots = [], es_blobs = []\<rparr>, sw_running = [], sw_dispatched = [], sw_corrected = []\<rparr>"

definition reachable_review :: "review_env \<Rightarrow> review_world \<Rightarrow> bool" where
  "reachable_review env w \<longleftrightarrow> (review_step env)\<^sup>*\<^sup>* initial_world w"

section \<open>One review per turn\<close>

text \<open>A state moves to a later turn, or stays in its turn and never becomes unspent.\<close>

definition advances :: "review_state \<Rightarrow> review_state \<Rightarrow> bool" where
  "advances s s' \<longleftrightarrow> rv_turn s < rv_turn s' \<or> rv_turn s = rv_turn s' \<and> (rv_spent s \<longrightarrow> rv_spent s')"

lemma advances_same: "rv_turn s' = rv_turn s \<Longrightarrow> (rv_spent s \<Longrightarrow> rv_spent s') \<Longrightarrow> advances s s'"
  by (simp add: advances_def)

lemma advances_refl [simp]: "advances s s"
  by (simp add: advances_def)

lemma turn_fields [simp]:
  "rv_turn (unavailable r s) = rv_turn s" "rv_spent (unavailable r s) = rv_spent s"
  "rv_turn (new_state ctx ref) = cx_turn ctx" "rv_turn (carry_work ctx s b un co t) = rv_turn t"
  "rv_turn (missing_start ctx old) = cx_turn ctx"
  by (simp_all add: unavailable_def new_state_def carry_work_def missing_start_def Let_def split: option.splits)

lemma add_action_turn: "add_action env a cap st s = (st', s') \<Longrightarrow> rv_turn s' = rv_turn s \<and> rv_spent s' = rv_spent s"
  by (auto simp: add_action_def Let_def split: if_splits sum.splits)

lemma begin_turn_advances:
  assumes run: "begin_turn env ctx cap st (Some s) = (st', Inr (Some s', x))" and mark: "rv_watermark s = rv_turn s"
  shows "advances s s'"
proof -
  show ?thesis
  proof (cases "pending s \<and> max_provenance_turns \<le> length (rv_provenance s)")
    case True
    with run show ?thesis by (auto simp: begin_turn_def intro!: advances_same split: if_splits)
  next
    case False
    with run mark have "rv_turn s < cx_turn ctx" by (auto simp: begin_turn_def seen_until_def not_le split: if_splits option.splits)
    moreover have "rv_turn s' = cx_turn ctx"
      using run False by (auto simp: begin_turn_def Let_def split: if_splits prod.splits sum.splits option.splits)
    ultimately show ?thesis by (simp add: advances_def)
  qed
qed

lemma record_action_advances:
  "record_action env ctx a cap1 cap2 st (Some s) = (st', Inr (Some s', x)) \<Longrightarrow> advances s s'"
  by (auto simp: record_action_def Let_def advances_def dest!: add_action_turn split: if_splits prod.splits sum.splits)

lemma continue_spent_advances:
  "continue_spent env cap st (Some s) = (st', Inr (n, out, res)) \<Longrightarrow> (\<forall>s'. n = Some s' \<longrightarrow> advances s s') \<and> res = None"
  by (auto simp: continue_spent_def Let_def advances_def split: if_splits option.splits sum.splits)

lemma reserve_fresh_advances:
  "map_prod Some id (reserve_fresh env plan attempt reviewer ref ev s) = (n, out, res) \<Longrightarrow>
   \<exists>s'. n = Some s' \<and> rv_turn s' = rv_turn s \<and> (rv_spent s \<longrightarrow> rv_spent s') \<and> (\<forall>f. res = Some f \<longrightarrow> f = s' \<and> rv_spent s')"
  by (auto simp: reserve_fresh_def Let_def split: if_splits)

text \<open>A reservation spends the allowance of a turn that had not spent it.\<close>

lemma reserve_advances:
  assumes "reserve env ctx plan cap attempt reviewer st (Some s) = (st', Inr (n, out, res))" "rv_watermark s = rv_turn s"
  shows "(\<forall>s'. n = Some s' \<longrightarrow> advances s s') \<and>
    (\<forall>f. res = Some f \<longrightarrow> n = Some f \<and> \<not> rv_spent s \<and> rv_spent f \<and> rv_turn f = rv_turn s)"
proof -
  consider (refused) "res = None" "\<forall>s'. n = Some s' \<longrightarrow> rv_turn s' = rv_turn s \<and> rv_spent s' = rv_spent s \<or> rv_turn s < rv_turn s'"
    | (spent) "continue_spent env cap st (Some s) = (st', Inr (n, out, res))"
    | (fresh) ref ev where "\<not> rv_spent s"
        "map_prod Some id (reserve_fresh env plan attempt reviewer ref ev (s\<lparr>rv_observed := Some ref\<rparr>)) = (n, out, res)"
    using assms by (auto simp: reserve_def Let_def split: if_splits sum.splits)
  then show ?thesis
  proof cases
    case refused
    then show ?thesis by (auto simp: advances_def)
  next
    case spent
    then show ?thesis by (auto dest: continue_spent_advances)
  next
    case fresh
    from reserve_fresh_advances [OF fresh(2)] fresh(1) show ?thesis by (auto simp: advances_def)
  qed
qed
text \<open>The state of the checkpoint, and what every operation does to it.\<close>

definition cell_state :: "review_state event option \<Rightarrow> review_state option" where
  "cell_state c = map_option ev_payload c"

definition cell_valid :: "review_env \<Rightarrow> review_state event option \<Rightarrow> bool" where
  "cell_valid env c \<longleftrightarrow> (\<forall>e. c = Some e \<longrightarrow> validate_payload env (ev_type e) (ev_payload e))"

definition cell_advances :: "review_state event option \<Rightarrow> review_state event option \<Rightarrow> bool" where
  "cell_advances c c' \<longleftrightarrow> (\<forall>s. cell_state c = Some s \<longrightarrow> (\<exists>s'. cell_state c' = Some s' \<and> advances s s'))"

lemma cell_advances_refl [simp]: "cell_advances c c"
  by (simp add: cell_advances_def)

lemma valid_watermark: "validate_payload env ty s \<Longrightarrow> rv_watermark s = rv_turn s"
  by (simp add: validate_payload_def)

lemma operation_advances:
  assumes "run_operation env ctx op st (Some s) = (st', Inr (n, out, res))" "rv_watermark s = rv_turn s"
  shows "(\<forall>s'. n = Some s' \<longrightarrow> advances s s') \<and>
    (\<forall>f. res = Some f \<longrightarrow> n = Some f \<and> \<not> rv_spent s \<and> rv_spent f \<and> rv_turn f = rv_turn s)"
proof (cases op)
  case (BeginTurn cap)
  with assms show ?thesis by (auto simp: run_operation_def answering_Inr dest: begin_turn_advances)
next
  case (RecordAction a cap1 cap2)
  with assms show ?thesis by (auto simp: run_operation_def answering_Inr dest: record_action_advances)
next
  case (Reserve plan cap attempt reviewer)
  with assms show ?thesis by (auto simp: run_operation_def answering_Inr dest: reserve_advances)
next
  case (SaveResult frozen r)
  with assms show ?thesis by (auto simp: run_operation_def answering_Inr save_result_def intro: advances_same split: if_splits)
next
  case (Finish frozen r fresh)
  with assms show ?thesis
    by (auto simp: run_operation_def answering_Inr finish_def Let_def intro!: advances_same split: if_splits)
qed

lemma reserve_first: "run_operation env ctx op st None = (st', Inr (n, out, Some f)) \<Longrightarrow> False"
  by (cases op) (auto simp: run_operation_def answering_Inr reserve_def)

lemma commit_cell:
  assumes "commit env ctx identity m out op w = (w', x)" "cell_valid env (sw_cell w)"
  shows "cell_valid env (sw_cell w')" "cell_advances (sw_cell w) (sw_cell w')"
    and "x = Some (o1, Some f) \<Longrightarrow> \<exists>s. cell_state (sw_cell w) = Some s \<and> cell_state (sw_cell w') = Some f \<and>
      \<not> rv_spent s \<and> rv_spent f \<and> rv_turn f = rv_turn s"
    and "sw_running w' = sw_running w" "sw_dispatched w' = sw_dispatched w" "sw_corrected w' = sw_corrected w"
proof -
  obtain st r where run: "owned_callback env ctx identity m (run_operation env ctx op) (sw_store w) (sw_cell w) = (st, r)"
    by (rule prod.exhaust)
  from assms(1) run have w': "apply_update out r (sw_cell w) = (sw_cell w', x)"
    and rest: "sw_running w' = sw_running w" "sw_dispatched w' = sw_dispatched w" "sw_corrected w' = sw_corrected w"
    by (auto simp: commit_def split: prod.splits)
  show "sw_running w' = sw_running w" "sw_dispatched w' = sw_dispatched w" "sw_corrected w' = sw_corrected w" by (fact rest)+
  let ?op = "\<lambda>n y. run_operation env ctx op (sw_store w) (cell_state (sw_cell w)) = (st, Inr (n, y))"
  consider (raised) e where "r = Inl e" | (kept) y where "r = Inr (None, y)" "?op None y"
    | (written) e y where "r = Inr (Some e, y)" "?op (Some (ev_payload e)) y" "validate_payload env (ev_type e) (ev_payload e)"
    using run by (auto simp: owned_callback_def cell_state_def dest!: review_event_valid
        split: if_splits sum.splits prod.splits option.splits)
  then have all: "cell_valid env (sw_cell w') \<and> cell_advances (sw_cell w) (sw_cell w') \<and>
    (x = Some (o1, Some f) \<longrightarrow> (\<exists>s. cell_state (sw_cell w) = Some s \<and> cell_state (sw_cell w') = Some f \<and>
      \<not> rv_spent s \<and> rv_spent f \<and> rv_turn f = rv_turn s))"
  proof cases
    case raised
    with w' assms(2) show ?thesis by (auto simp: apply_update_def)
  next
    case kept
    have "res = None" if "?op None (o1, res)" for res
    proof (cases "cell_state (sw_cell w)")
      case None
      with that reserve_first show ?thesis by (cases res) auto
    next
      case (Some s)
      with assms(2) have "rv_watermark s = rv_turn s" by (auto simp: cell_valid_def cell_state_def valid_watermark)
      with operation_advances [of env ctx op "sw_store w" s st None o1 res] that Some show ?thesis by auto
    qed
    with kept w' assms(2) show ?thesis by (auto simp: apply_update_def)
  next
    case written
    then have v: "cell_valid env (Some e)" by (simp add: cell_valid_def)
    have c: "sw_cell w' = sw_cell w \<and> x = None \<or> sw_cell w' = Some e \<and> (x = None \<or> x = Some y)"
      using w' written(1) by (auto simp: apply_update_def split: wout.splits)
    show ?thesis
    proof (cases "cell_state (sw_cell w)")
      case None
      with c v assms(2) written(2) reserve_first show ?thesis by (cases y; cases "snd y") (auto simp: cell_advances_def)
    next
      case (Some s)
      with assms(2) have "rv_watermark s = rv_turn s" by (auto simp: cell_valid_def cell_state_def valid_watermark)
      moreover obtain o2 res where y: "y = (o2, res)" by (rule prod.exhaust)
      ultimately have "advances s (ev_payload e)"
        "\<And>f. snd y = Some f \<Longrightarrow> ev_payload e = f \<and> \<not> rv_spent s \<and> rv_spent f \<and> rv_turn f = rv_turn s"
        using operation_advances [of env ctx op "sw_store w" s st "Some (ev_payload e)" o2 res] written(2) Some by auto
      with c v assms(2) Some show ?thesis by (auto simp: cell_advances_def cell_state_def)
    qed
  qed
  then show "cell_valid env (sw_cell w')" "cell_advances (sw_cell w) (sw_cell w')"
    "x = Some (o1, Some f) \<Longrightarrow> \<exists>s. cell_state (sw_cell w) = Some s \<and> cell_state (sw_cell w') = Some f \<and>
      \<not> rv_spent s \<and> rv_spent f \<and> rv_turn f = rv_turn s" by blast+
qed
text \<open>Turns with an open reservation, and turns whose verdict is on its way.\<close>

definition turns_at :: "(stage \<Rightarrow> bool) \<Rightarrow> review_process list \<Rightarrow> uuid list" where
  "turns_at P ps = map (rv_turn \<circ> pr_frozen) (filter (P \<circ> pr_stage) ps)"

lemma turns_at_simps [simp]:
  "turns_at P [] = []" "turns_at P (p # ps) = (if P (pr_stage p) then [rv_turn (pr_frozen p)] else []) @ turns_at P ps"
  "turns_at P (ps @ qs) = turns_at P ps @ turns_at P qs"
  by (simp_all add: turns_at_def)

definition open_turn :: "stage \<Rightarrow> bool" where
  "open_turn s \<longleftrightarrow> s = Reserved"

definition spent_turn :: "review_state event option \<Rightarrow> uuid \<Rightarrow> bool" where
  "spent_turn c t \<longleftrightarrow> (\<exists>s. cell_state c = Some s \<and> (t < rv_turn s \<or> t = rv_turn s \<and> rv_spent s))"

lemma spent_turn_advances: "cell_advances c c' \<Longrightarrow> spent_turn c t \<Longrightarrow> spent_turn c' t"
proof -
  assume "cell_advances c c'" "spent_turn c t"
  then obtain s s' where "cell_state c' = Some s'" "advances s s'" "t < rv_turn s \<or> t = rv_turn s \<and> rv_spent s"
    by (auto simp: cell_advances_def spent_turn_def)
  then show ?thesis by (auto simp: spent_turn_def advances_def)
qed

definition review_inv :: "review_env \<Rightarrow> review_world \<Rightarrow> bool" where
  "review_inv env w \<longleftrightarrow>
     cell_valid env (sw_cell w) \<and>
     distinct (turns_at open_turn (sw_running w) @ sw_dispatched w) \<and>
     distinct (turns_at (Not \<circ> open_turn) (sw_running w) @ sw_corrected w) \<and>
     set (turns_at (Not \<circ> open_turn) (sw_running w) @ sw_corrected w) \<subseteq> set (sw_dispatched w) \<and>
     (\<forall>t \<in> set (turns_at open_turn (sw_running w) @ sw_dispatched w). spent_turn (sw_cell w) t)"

text \<open>An update that starts no review only moves the checkpoint forward.\<close>

lemma review_inv_commit:
  assumes "review_inv env w" "commit env ctx identity m out op w = (w', x)"
  shows "review_inv env w'"
proof -
  have v: "cell_valid env (sw_cell w)" using assms(1) by (simp add: review_inv_def)
  note c = commit_cell [OF assms(2) v]
  from assms(1) c(1,4-6) spent_turn_advances [OF c(2)] show ?thesis by (simp add: review_inv_def)
qed

lemma review_inv_reserve:
  assumes "review_inv env w" "commit env ctx identity m out op w = (w', x)"
  shows "review_inv env (w'\<lparr>sw_running := started ctx plan x @ sw_running w\<rparr>)"
proof -
  have inv: "review_inv env w'" by (rule review_inv_commit [OF assms])
  have v: "cell_valid env (sw_cell w)" using assms(1) by (simp add: review_inv_def)
  note c = commit_cell [OF assms(2) v]
  show ?thesis
  proof (cases "\<exists>o1 f. x = Some (o1, Some f)")
    case False
    then have "started ctx plan x = []" by (auto simp: started_def split: option.splits)
    with inv c(4) show ?thesis by (simp add: review_inv_def)
  next
    case True
    then obtain o1 f where x: "x = Some (o1, Some f)" by blast
    from c(3) [OF x] obtain s where s: "cell_state (sw_cell w) = Some s" "cell_state (sw_cell w') = Some f" "\<not> rv_spent s" "rv_spent f"
      "rv_turn f = rv_turn s" by blast
    have "\<not> spent_turn (sw_cell w) (rv_turn f)" using s by (auto simp: spent_turn_def)
    moreover have "spent_turn (sw_cell w') (rv_turn f)" using s by (auto simp: spent_turn_def)
    ultimately show ?thesis
      using inv assms(1) c(4-6) x by (auto simp: review_inv_def started_def open_turn_def)
  qed
qed

lemma new_event_valid:
  "new_session_event (review_domain env) eid ts session runtime ty run origin operation outcome reason s = Inr e \<Longrightarrow>
   ev_payload e = s \<and> validate_payload env (ev_type e) s"
  unfolding new_session_event_def validate_raw_of by (auto simp: event_ok_def review_domain_def)

lemma reset_review_cell:
  assumes "apply_update out (reset_review env session m True c) c = (c', x)" "cell_valid env c"
  shows "cell_valid env c' \<and> cell_advances c c'"
proof (cases c)
  case None
  with assms show ?thesis by (simp add: reset_review_def apply_update_def)
next
  case (Some e)
  let ?new = "new_session_event (review_domain env) (fst m) (snd m) session ''codex'' ''review_checkpoint'' None ''external_cli''
      (Some ''set'') ''success'' (Some ''operator_reset'') (reset_state (ev_payload e))"
  show ?thesis
  proof (cases ?new)
    case (Inl a)
    with assms Some show ?thesis by (simp add: reset_review_def apply_update_def Let_def)
  next
    case (Inr e')
    with assms(1) Some have "c' = c \<or> c' = Some e'"
      by (auto simp: reset_review_def apply_update_def Let_def split: wout.splits)
    moreover have "cell_valid env (Some e') \<and> cell_advances c (Some e')"
      using new_event_valid [OF Inr] Some by (auto simp: cell_valid_def cell_advances_def cell_state_def advances_def reset_state_def)
    ultimately show ?thesis using assms(2) by auto
  qed
qed

lemma review_step_inv: "review_step env w w' \<Longrightarrow> review_inv env w \<Longrightarrow> review_inv env w'"
proof (induction rule: review_step.induct)
  case (dispatch w ps p qs res)
  then show ?case by (auto simp: review_inv_def open_turn_def)
next
  case (finish w ps p qs res identity m out latest cap config late w' x)
  have v: "cell_valid env (sw_cell w)" using finish.prems by (simp add: review_inv_def)
  from commit_cell(4,6) [OF finish.hyps(3) v] finish.hyps(1) have "sw_running w' = ps @ p # qs" by simp
  with review_inv_commit [OF finish.prems finish.hyps(3)] finish.hyps(2)
  have inv: "cell_valid env (sw_cell w')" "distinct (turns_at open_turn ps @ turns_at open_turn qs @ sw_dispatched w')"
    "distinct (turns_at (Not \<circ> open_turn) ps @ rv_turn (pr_frozen p) # turns_at (Not \<circ> open_turn) qs @ sw_corrected w')"
    "set (turns_at (Not \<circ> open_turn) ps @ rv_turn (pr_frozen p) # turns_at (Not \<circ> open_turn) qs @ sw_corrected w') \<subseteq> set (sw_dispatched w')"
    "\<forall>t \<in> set (turns_at open_turn ps @ turns_at open_turn qs @ sw_dispatched w'). spent_turn (sw_cell w') t"
    by (simp_all add: review_inv_def open_turn_def)
  have sc: "sw_corrected w' = sw_corrected w" by (rule commit_cell(6) [OF finish.hyps(3) v])
  have "corrected p x = [] \<or> corrected p x = [rv_turn (pr_frozen p)]"
    by (simp add: corrected_def split: option.splits prod.splits)
  then show ?case
  proof
    assume "corrected p x = []"
    with inv sc show ?thesis by (simp add: review_inv_def)
  next
    assume "corrected p x = [rv_turn (pr_frozen p)]"
    with inv sc show ?thesis by (simp add: review_inv_def)
  qed
next
  case (die w ps p qs)
  then show ?case by (auto simp: review_inv_def)
next
  case (reset out session m w cell x)
  then show ?case using reset_review_cell [OF reset.hyps] spent_turn_advances by (auto simp: review_inv_def)
qed (auto intro: review_inv_commit review_inv_reserve)

lemma reachable_review_inv: "reachable_review env w \<Longrightarrow> review_inv env w"
proof -
  assume "reachable_review env w"
  then have "(review_step env)\<^sup>*\<^sup>* initial_world w" by (simp add: reachable_review_def)
  then show "review_inv env w"
  proof (induction rule: rtranclp_induct)
    case base
    show ?case by (simp add: review_inv_def initial_world_def cell_valid_def)
  next
    case (step w w')
    then show ?case by (blast intro: review_step_inv)
  qed
qed

text \<open>
  C17. At most one review per explicit turn. Over every interleaving of prompts, tool actions, Stop hooks,
  resets and deaths, with writes that may fail before or after they are durable, no turn is dispatched to
  the reviewer twice, no turn is asked for a correction twice, and a correction is only asked for a turn
  that was dispatched.
\<close>

theorem one_review_per_turn:
  assumes "reachable_review env w"
  shows "distinct (sw_dispatched w) \<and> distinct (sw_corrected w) \<and> set (sw_corrected w) \<subseteq> set (sw_dispatched w)"
  using reachable_review_inv [OF assms] by (simp add: review_inv_def)

definition sample_commit :: "operation \<Rightarrow> review_world \<Rightarrow> review_world \<times> answer option" where
  "sample_commit = commit review_sample (sample_turn turn1) (Some (replicate 32 (CHR ''5''))) sample_mint WriteOk"

definition sample_action :: "phase \<Rightarrow> action" where
  "sample_action ph = \<lparr>ac_id = ''call_1'', ac_phase = ph, ac_turn = turn1, ac_tool = ''apply_patch'', ac_paths = [''a.py''],
     ac_issue = None, ac_values = JNull\<rparr>"

definition sample_plan :: plan_snapshot where
  "sample_plan = \<lparr>sn_path = Some ''/p'', sn_text = Some ''plan'', sn_digest = Some (replicate 64 (CHR ''d''))\<rparr>"

definition sample_running :: review_world where
  "sample_running =
     (let w1 = fst (sample_commit (BeginTurn (Inr (sample_tree 1 1))) initial_world);
          w2 = fst (sample_commit (RecordAction (sample_action Request) (Inl []) (Inl [])) w1);
          w3 = fst (sample_commit (RecordAction (sample_action OutcomeSeen) (Inl []) (Inr (sample_tree 2 1))) w2)
      in w3)"

definition sample_reserved :: review_world where
  "sample_reserved =
     (case sample_commit (Reserve sample_plan (Inr (sample_tree 2 1)) (replicate 32 (CHR ''b'')) ''r'') sample_running of
        (w, x) \<Rightarrow> w\<lparr>sw_running := started (sample_turn turn1) sample_plan x @ sw_running sample_running\<rparr>)"

lemma sample_steps: "(review_step review_sample)\<^sup>*\<^sup>* initial_world sample_reserved"
proof -
  have start: "review_step review_sample w (fst (sample_commit (BeginTurn cap) w))" for w cap
    unfolding sample_commit_def by (rule review_step.start) (rule prod.collapse [symmetric])
  have act: "review_step review_sample w (fst (sample_commit (RecordAction a cap1 cap2) w))" for w a cap1 cap2
    unfolding sample_commit_def by (rule review_step.act) (rule prod.collapse [symmetric])
  have "(review_step review_sample)\<^sup>*\<^sup>* initial_world sample_running"
    unfolding sample_running_def Let_def
    by (rule rtranclp.rtrancl_into_rtrancl, rule rtranclp.rtrancl_into_rtrancl, rule rtranclp.rtrancl_into_rtrancl,
        rule rtranclp.rtrancl_refl, rule start, rule act, rule act)
  moreover have "review_step review_sample sample_running sample_reserved"
    unfolding sample_reserved_def sample_commit_def case_prod_beta
    by (rule review_step.reserve) (rule prod.collapse [symmetric])
  ultimately show ?thesis by (rule rtranclp.rtrancl_into_rtrancl)
qed

text \<open>A turn with one request, one outcome, and a Stop that reserves and dispatches its review.\<close>

theorem one_review_per_turn_witness:
  "\<exists>w. reachable_review review_sample w \<and> sw_dispatched w = [turn1] \<and> distinct (sw_dispatched w)"
proof -
  have "case sw_running sample_reserved of [p] \<Rightarrow> pr_stage p = Reserved \<and> rv_turn (pr_frozen p) = turn1 | _ \<Rightarrow> False" by code_simp
  then obtain p where p: "sw_running sample_reserved = [] @ p # []" "pr_stage p = Reserved" "rv_turn (pr_frozen p) = turn1"
    by (auto split: list.splits)
  obtain w where w: "review_step review_sample sample_reserved w" "sw_dispatched w = turn1 # sw_dispatched sample_reserved"
    using review_step.dispatch [OF p(1,2)] p(3) by fastforce
  have "sw_dispatched sample_reserved = []" by code_simp
  moreover have r: "reachable_review review_sample w"
    unfolding reachable_review_def by (rule rtranclp.rtrancl_into_rtrancl [OF sample_steps w(1)])
  ultimately show ?thesis using one_review_per_turn [OF r] w(2) by auto
qed
section \<open>When a correction is requested\<close>


definition sample_judgement :: supervisor_run where
  "sample_judgement = \<lparr>sr_decision = plain_decision Deny ''semantic.supervisor'', sr_run_ok = True, sr_parsed = True, sr_dispatched = Some True\<rparr>"

definition sample_frozen :: review_state where
  "sample_frozen = (new_state (sample_turn turn1) None)\<lparr>rv_spent := True, rv_status := Reviewing, rv_attempt := Some (replicate 32 (CHR ''b'')),
     rv_reviewed := Some (reference_of sample_digest (sample_tree 2 1)),
     rv_evidence := Some \<lparr>en_before = None, en_after = None, en_changes = [], en_actions = [], en_omissions = [], en_complete = True,
       en_counts = None, en_provenance = [turn1]\<rparr>\<rparr>"


section \<open>Pending work\<close>


definition turn2 :: uuid where
  "turn2 = 0x01900000000070008000000000000002"


text \<open>
  The exception: work that is recorded in a turn after its Stop found no changes. It keeps the status of
  that Stop, so the next prompt neither carries nor excludes it.
\<close>

lemma work_after_no_changes_forgotten:
  assumes "rv_status s = NoChanges" "\<not> rv_spent s" "\<not> rv_outstanding s" "\<not> rv_reset s" "length (rv_actions s) < max_actions"
    and "record_action env ctx a cap1 cap2 st (Some s) = (st1, Inr (Some s1, x))" "rv_config s = cx_config ctx"
    and "begin_turn env ctx' (Inr snap) st1 (Some s1) = (st2, Inr (Some s2, y))"
  shows "rv_actions s2 = [] \<and> rv_provenance s2 = [cx_turn ctx'] \<and> rv_excluded s2 = rv_excluded s"
proof -
  have "rv_status s1 = NoChanges \<and> \<not> rv_outstanding s1 \<and> \<not> rv_reset s1 \<and> rv_excluded s1 = rv_excluded s"
    using assms(1-7) by (auto simp: record_action_def add_action_def Let_def split: if_splits sum.splits)
  then have "\<not> pending s1 \<and> \<not> rv_reset s1 \<and> rv_excluded s1 = rv_excluded s" by (simp add: pending_def)
  with assms(8) show ?thesis
    by (auto simp: begin_turn_def Let_def new_state_def unavailable_def split: if_splits prod.splits sum.splits option.splits)
qed

end
