(* ===== verification/Relay.thy ===== *)
theory Relay
  imports Rules
begin

text \<open>
  The byte relay of the passthrough proxies: the framing of server-sent events
  (\<open>proxy/sse_framing.py\<close>), the relay of a stream with its teardown (\<open>proxy/stream_relay.py\<close>), the
  headers that may cross in either direction (\<open>proxy/response_headers.py\<close> and
  \<open>build_upstream_headers\<close> of both wires), and the usage that is tapped from the bytes for the
  accounting (\<open>proxy/passthrough.py\<close>, \<open>proxy/responses_passthrough.py\<close>).

  Bytes are numbers below 256, decoded text is a list of code points. \<open>json.loads\<close> is a parameter.
\<close>

section \<open>UTF-8\<close>

text \<open>
  \<open>bytes.decode("utf-8", errors="ignore")\<close>: a malformed sequence is skipped up to the first byte that
  cannot continue it, an incomplete one at the end of the chunk too.
\<close>

definition continuation :: "nat \<Rightarrow> bool" where
  "continuation b \<longleftrightarrow> 128 \<le> b \<and> b < 192"

definition second_byte :: "nat \<Rightarrow> nat \<Rightarrow> bool" where
  "second_byte lead b \<longleftrightarrow> continuation b \<and> (lead = 224 \<longrightarrow> 160 \<le> b) \<and> (lead = 237 \<longrightarrow> b < 160) \<and>
     (lead = 240 \<longrightarrow> 144 \<le> b) \<and> (lead = 244 \<longrightarrow> b < 144)"

definition lead_length :: "nat \<Rightarrow> nat" where
  "lead_length b =
     (if b < 128 then 1 else if 194 \<le> b \<and> b < 224 then 2 else if 224 \<le> b \<and> b < 240 then 3
      else if 240 \<le> b \<and> b < 245 then 4 else 0)"

fun decode_ignore :: "nat list \<Rightarrow> content_text" where
  "decode_ignore [] = []"
| "decode_ignore (a # bs) =
     (if lead_length a = 1 then a # decode_ignore bs
      else if lead_length a = 2 then
        (case bs of
           b # cs \<Rightarrow> if continuation b then ((a - 192) * 64 + (b - 128)) # decode_ignore cs else decode_ignore bs
         | [] \<Rightarrow> [])
      else if lead_length a = 3 then
        (case bs of
           b # cs \<Rightarrow>
             if \<not> second_byte a b then decode_ignore bs
             else (case cs of
                 c # ds \<Rightarrow>
                   if continuation c then ((a - 224) * 4096 + (b - 128) * 64 + (c - 128)) # decode_ignore ds else decode_ignore cs
               | [] \<Rightarrow> [])
         | [] \<Rightarrow> [])
      else if lead_length a = 4 then
        (case bs of
           b # cs \<Rightarrow>
             if \<not> second_byte a b then decode_ignore bs
             else (case cs of
                 c # ds \<Rightarrow>
                   if \<not> continuation c then decode_ignore cs
                   else (case ds of
                       d # es \<Rightarrow>
                         if continuation d
                         then ((a - 240) * 262144 + (b - 128) * 4096 + (c - 128) * 64 + (d - 128)) # decode_ignore es
                         else decode_ignore ds
                     | [] \<Rightarrow> [])
               | [] \<Rightarrow> [])
         | [] \<Rightarrow> [])
      else decode_ignore bs)"

text \<open>\<open>chr(c).encode("utf-8")\<close>, for code points that are not surrogates.\<close>

definition scalar :: "nat \<Rightarrow> bool" where
  "scalar c \<longleftrightarrow> c < 1114112 \<and> \<not> (55296 \<le> c \<and> c < 57344)"

definition encode_code :: "nat \<Rightarrow> nat list" where
  "encode_code c =
     (if c < 128 then [c]
      else if c < 2048 then [192 + c div 64, 128 + c mod 64]
      else if c < 65536 then [224 + c div 4096, 128 + c div 64 mod 64, 128 + c mod 64]
      else [240 + c div 262144, 128 + c div 4096 mod 64, 128 + c div 64 mod 64, 128 + c mod 64])"

definition encode_text :: "content_text \<Rightarrow> nat list" where
  "encode_text t = concat (map encode_code t)"

section \<open>Framing\<close>

definition line_feed :: nat where
  "line_feed = 10"

definition strip_codes :: "unicode \<Rightarrow> content_text \<Rightarrow> content_text" where
  "strip_codes u s = rev (dropWhile (space_code u) (rev (dropWhile (space_code u) s)))"

text \<open>The value of a complete line, if it is a data line with JSON in it.\<close>

definition event_of :: "unicode \<Rightarrow> (content_text \<Rightarrow> json option) \<Rightarrow> content_text \<Rightarrow> json option" where
  "event_of u loads line =
     (let l = strip_codes u line in
      if \<not> prefix (codes ''data:'') l then None
      else (let data = strip_codes u (drop 5 l) in
        if data = [] \<or> data = codes ''[DONE]'' then None else loads data))"

definition first_line :: "content_text \<Rightarrow> content_text" where
  "first_line s = takeWhile (\<lambda>c. c \<noteq> line_feed) s"

definition rest_lines :: "content_text \<Rightarrow> content_text" where
  "rest_lines s = drop (Suc (length (first_line s))) s"

text \<open>
  The loop over the complete lines of the buffer. The callback changes its own state and may raise,
  which ends the loop; the result is the state, the buffer, and whether it raised.
\<close>

partial_function (option) drain ::
  "(content_text \<Rightarrow> 'e option) \<Rightarrow> ('e \<Rightarrow> 's \<Rightarrow> 's \<times> bool) \<Rightarrow> content_text \<Rightarrow> 's \<Rightarrow> ('s \<times> content_text \<times> bool) option" where
  "drain parse on_event buf s =
     (if line_feed \<notin> set buf then Some (s, buf, False)
      else (case parse (first_line buf) of
              None \<Rightarrow> drain parse on_event (rest_lines buf) s
            | Some e \<Rightarrow>
                (if snd (on_event e s) then Some (fst (on_event e s), rest_lines buf, True)
                 else drain parse on_event (rest_lines buf) (fst (on_event e s)))))"

definition feed ::
  "(content_text \<Rightarrow> 'e option) \<Rightarrow> ('e \<Rightarrow> 's \<Rightarrow> 's \<times> bool) \<Rightarrow> nat list \<Rightarrow> 's \<times> content_text \<Rightarrow> ('s \<times> content_text \<times> bool) option" where
  "feed parse on_event chunk st = drain parse on_event (snd st @ decode_ignore chunk) (fst st)"

text \<open>
  A chunk as the relay feeds it: an exception of the callback is swallowed, its state and the buffer
  stay as they are then. The loop always ends (\<open>framing_terminates\<close>).
\<close>

definition tap_chunk ::
  "(content_text \<Rightarrow> 'e option) \<Rightarrow> ('e \<Rightarrow> 's \<Rightarrow> 's \<times> bool) \<Rightarrow> nat list \<Rightarrow> 's \<times> content_text \<Rightarrow> 's \<times> content_text" where
  "tap_chunk parse on_event chunk st =
     (case feed parse on_event chunk st of Some (s, buf, _) \<Rightarrow> (s, buf) | None \<Rightarrow> st)"

text \<open>The reference: the complete lines of a text, and what follows the last of them.\<close>

fun complete_lines :: "content_text \<Rightarrow> content_text list" where
  "complete_lines [] = []"
| "complete_lines (c # cs) =
     (if c = line_feed then [] # complete_lines cs
      else (case complete_lines cs of [] \<Rightarrow> [] | l # ls \<Rightarrow> (c # l) # ls))"

definition unfinished :: "content_text \<Rightarrow> content_text" where
  "unfinished s = rev (takeWhile (\<lambda>c. c \<noteq> line_feed) (rev s))"

section \<open>Relay of a stream\<close>

datatype ending = EndOfStream | TransportError | OtherFailure | Cancelled

datatype stop = Finished | UpstreamFailed | Disconnected | Crashed

primrec stop_of :: "ending \<Rightarrow> stop" where
  "stop_of EndOfStream = Finished"
| "stop_of TransportError = UpstreamFailed"
| "stop_of OtherFailure = Crashed"
| "stop_of Cancelled = Disconnected"

record end_call =
  ec_failed :: bool
  ec_disconnected :: bool
  ec_started :: bool
  ec_chunks :: nat

text \<open>
  The loop: each chunk is fed to the side tap and forwarded. The client may go away at one of the
  yields, given by the number of chunks it received before, or while the next chunk is awaited.
\<close>

fun relay_loop :: "('b \<Rightarrow> 'a \<Rightarrow> 'a) \<Rightarrow> 'b list \<Rightarrow> ending \<Rightarrow> nat option \<Rightarrow> 'a \<Rightarrow> nat \<Rightarrow> 'b list \<times> 'a \<times> nat \<times> stop" where
  "relay_loop tap [] end_of gone a n =
     ([], a, n, stop_of end_of)"
| "relay_loop tap (c # cs) end_of gone a n =
     (if gone = Some n then ([c], tap c a, Suc n, Disconnected)
      else (case relay_loop tap cs end_of gone (tap c a) (Suc n) of (out, r) \<Rightarrow> (c # out, r)))"

text \<open>
  The generator: what it yields, the tap, the calls of \<open>on_end\<close>, and whether it raises. Closing the
  stream or the client may raise, which skips what follows in the \<open>finally\<close> block; a client that goes
  away at the error body is not recorded as one.
\<close>

definition relay_upstream ::
  "('b \<Rightarrow> 'a \<Rightarrow> 'a) \<Rightarrow> 'b \<Rightarrow> 'b list \<Rightarrow> ending \<Rightarrow> nat option \<Rightarrow> bool \<Rightarrow> 'a \<Rightarrow> 'b list \<times> 'a \<times> end_call list \<times> bool" where
  "relay_upstream tap error_body chunks end_of gone close_raises a =
     (case relay_loop tap chunks end_of gone a 0 of (out, a', n, s) \<Rightarrow>
        (if s = UpstreamFailed then out @ [error_body] else out, a',
         if close_raises then []
         else [\<lparr>ec_failed = (s = UpstreamFailed), ec_disconnected = (s = Disconnected), ec_started = (0 < n), ec_chunks = n\<rparr>],
         close_raises \<or> s = Disconnected \<or> s = Crashed \<or> (s = UpstreamFailed \<and> gone = Some n)))"

section \<open>Headers\<close>

type_synonym headers = "(string, string) dict"

text \<open>\<open>str.lower\<close> on the characters below 256.\<close>

definition lower_char :: "char \<Rightarrow> char" where
  "lower_char c = (let n = of_char c :: nat in
     if (65 \<le> n \<and> n \<le> 90) \<or> (192 \<le> n \<and> n \<le> 222 \<and> n \<noteq> 215) then char_of (n + 32) else c)"

definition lower :: "string \<Rightarrow> string" where
  "lower s = map lower_char s"

definition response_denylist :: "string list" where
  "response_denylist =
     [''authentication-info'', ''authorization'', ''connection'', ''content-encoding'', ''content-length'', ''cookie'',
      ''keep-alive'', ''openai-organization'', ''openai-project'', ''proxy-authenticate'', ''proxy-authentication-info'',
      ''proxy-authorization'', ''proxy-connection'', ''set-cookie'', ''set-cookie2'', ''te'', ''trailer'', ''transfer-encoding'',
      ''upgrade'', ''www-authenticate'', ''x-api-key'', ''x-cumulative-cost'', ''x-request-id'', ''x-request-cost'',
      ''x-resolved-model'', ''x-resolved-tier'', ''x-spend-warning'']"

definition owned_prefix :: string where
  "owned_prefix = ''x-forge-''"

definition connection_tokens :: "headers \<Rightarrow> string list" where
  "connection_tokens h =
     concat (map (\<lambda>(n, v). if lower n = ''connection''
       then map (lower \<circ> strip) (filter (\<lambda>t. strip t \<noteq> []) (split_on (CHR '','') v)) else []) h)"

definition relayed_header :: "headers \<Rightarrow> string \<Rightarrow> bool" where
  "relayed_header upstream n \<longleftrightarrow>
     lower n \<notin> set response_denylist \<and> lower n \<notin> set (connection_tokens upstream) \<and> \<not> prefix owned_prefix (lower n)"

definition relay_response_headers :: "headers \<Rightarrow> string \<Rightarrow> headers" where
  "relay_response_headers upstream request_id =
     fold (\<lambda>(n, v) h. if relayed_header upstream n then dset h n v else h) upstream [(''X-Request-ID'', request_id)]"

definition merge_response_headers :: "headers \<Rightarrow> headers \<Rightarrow> headers" where
  "merge_response_headers h overlay =
     fold (\<lambda>(n, v) d. dset d n v) overlay (filter (\<lambda>(n, _). lower n \<notin> lower ` set (dkeys overlay)) h)"

definition forwarded_anthropic :: "string list" where
  "forwarded_anthropic = [''anthropic-version'', ''anthropic-beta'']"

definition anthropic_headers :: "headers \<Rightarrow> string \<Rightarrow> headers" where
  "anthropic_headers inbound api_key =
     (let h = fold (\<lambda>(n, v) h. if lower n \<in> set forwarded_anthropic then dset h (lower n) v else h) inbound
          [(''content-type'', ''application/json''), (''x-api-key'', api_key)]
      in if dget h ''anthropic-version'' = None then dset h ''anthropic-version'' ''2023-06-01'' else h)"

definition responses_headers :: "headers \<Rightarrow> string \<Rightarrow> headers" where
  "responses_headers inbound api_key =
     fold (\<lambda>(n, v) h. if lower n = ''openai-beta'' then dset h (lower n) v else h) inbound
       [(''content-type'', ''application/json''), (''authorization'', ''Bearer '' @ api_key)]"

section \<open>Usage\<close>

text \<open>\<open>int(s)\<close> of a text: a sign, digits, single underscores between them, at most 4300 digits.\<close>

definition digit_value :: "char \<Rightarrow> int option" where
  "digit_value c = (let n = of_char c :: nat in if 48 \<le> n \<and> n \<le> 57 then Some (int n - 48) else None)"

fun int_digits :: "bool \<Rightarrow> int \<Rightarrow> string \<Rightarrow> int option" where
  "int_digits ok acc [] = (if ok then Some acc else None)"
| "int_digits ok acc (c # cs) =
     (case digit_value c of
        Some d \<Rightarrow> int_digits True (10 * acc + d) cs
      | None \<Rightarrow> if c = CHR ''_'' \<and> ok then int_digits False acc cs else None)"

definition int_text :: "string \<Rightarrow> int option" where
  "int_text s =
     (let t = strip s in
      if 4300 < int (length (filter (\<lambda>c. digit_value c \<noteq> None) t)) then None
      else (case t of
          CHR ''-'' # r \<Rightarrow> map_option uminus (int_digits False 0 r)
        | CHR ''+'' # r \<Rightarrow> int_digits False 0 r
        | _ \<Rightarrow> int_digits False 0 t))"

definition truncate_rat :: "rat \<Rightarrow> int" where
  "truncate_rat r = (if r < 0 then - \<lfloor>- r\<rfloor> else \<lfloor>r\<rfloor>)"

text \<open>\<open>int(v or 0)\<close>, or the exception it raises.\<close>

definition int_or_zero :: "json \<Rightarrow> string + int" where
  "int_or_zero v =
     (if \<not> truthy v then Inr 0
      else (case v of
          JBool b \<Rightarrow> Inr 1
        | JInt i \<Rightarrow> Inr i
        | JFloat r \<Rightarrow> Inr (truncate_rat r)
        | JStr s \<Rightarrow> (case int_text s of Some i \<Rightarrow> Inr i | None \<Rightarrow> Inl ''ValueError'')
        | _ \<Rightarrow> Inl ''TypeError''))"

type_synonym usage = "(string, int) dict"

definition put_when :: "bool \<Rightarrow> string \<Rightarrow> int \<Rightarrow> usage \<Rightarrow> usage" where
  "put_when b k v u = (if b then dset u k v else u)"

text \<open>The Anthropic wire: \<open>input_tokens\<close> excludes the tokens of the cache there, not in the accounting.\<close>

definition normalize_usage :: "json \<Rightarrow> string + usage" where
  "normalize_usage v =
     (case v of
        JObj u \<Rightarrow>
          (case int_or_zero (jget u ''cache_read_input_tokens'') of Inl e \<Rightarrow> Inl e
           | Inr reads \<Rightarrow> (case int_or_zero (jget u ''cache_creation_input_tokens'') of Inl e \<Rightarrow> Inl e
           | Inr writes \<Rightarrow> (case int_or_zero (jget u ''input_tokens'') of Inl e \<Rightarrow> Inl e
           | Inr inp \<Rightarrow> (case int_or_zero (jget u ''output_tokens'') of Inl e \<Rightarrow> Inl e
           | Inr out \<Rightarrow>
               Inr (put_when (jget u ''cache_creation_input_tokens'' \<noteq> JNull) ''cache_write_tokens'' writes
                   (put_when (jget u ''cache_read_input_tokens'' \<noteq> JNull) ''cached_tokens'' reads
                   (put_when (jget u ''output_tokens'' \<noteq> JNull) ''output_tokens'' out
                   (put_when (jget u ''input_tokens'' \<noteq> JNull) ''input_tokens'' (inp + reads + writes) []))))))))
      | _ \<Rightarrow> Inr [])"

text \<open>The Responses wire: a malformed field is left out.\<close>

definition coerce_int :: "json \<Rightarrow> int option" where
  "coerce_int v =
     (case v of
        JInt i \<Rightarrow> if 0 \<le> i then Some i else None
      | JFloat r \<Rightarrow> if 0 \<le> r then Some (truncate_rat r) else None
      | JStr s \<Rightarrow> (case int_text s of Some i \<Rightarrow> if 0 \<le> i then Some i else None | None \<Rightarrow> None)
      | _ \<Rightarrow> None)"

definition put_some :: "string \<Rightarrow> int option \<Rightarrow> usage \<Rightarrow> usage" where
  "put_some k v u = (case v of Some i \<Rightarrow> dset u k i | None \<Rightarrow> u)"

definition responses_usage :: "json \<Rightarrow> usage" where
  "responses_usage v =
     (case v of
        JObj u \<Rightarrow>
          put_some ''cached_tokens'' (case jget u ''input_tokens_details'' of JObj d \<Rightarrow> coerce_int (jget d ''cached_tokens'') | _ \<Rightarrow> None)
            (put_some ''output_tokens'' (coerce_int (jget u ''output_tokens''))
            (put_some ''input_tokens'' (coerce_int (jget u ''input_tokens'')) []))
      | _ \<Rightarrow> [])"

record usage_tap =
  ut_usage :: usage
  ut_content :: bool
  ut_final :: bool
  ut_terminal :: "string option"

definition empty_tap :: usage_tap where
  "empty_tap = \<lparr>ut_usage = [], ut_content = False, ut_final = False, ut_terminal = None\<rparr>"

definition take_over :: "usage \<Rightarrow> usage \<Rightarrow> usage" where
  "take_over parsed u =
     fold (\<lambda>k u. case dget parsed k of Some v \<Rightarrow> dset u k v | None \<Rightarrow> u)
       [''input_tokens'', ''cached_tokens'', ''cache_write_tokens'', ''output_tokens''] u"

text \<open>The callbacks of the framer, with whether they raise.\<close>

definition merge_anthropic :: "json \<Rightarrow> usage_tap \<Rightarrow> usage_tap \<times> bool" where
  "merge_anthropic event t =
     (case event of
        JObj d \<Rightarrow>
          (if jget d ''type'' = JStr ''message_start'' then
             (let m = jget d ''message''; inner = (if truthy m then m else JObj []) in
              (case inner of
                 JObj i \<Rightarrow>
                   (case normalize_usage (jget i ''usage'') of
                      Inl e \<Rightarrow> (t, True)
                    | Inr parsed \<Rightarrow> (t\<lparr>ut_usage := take_over parsed (ut_usage t)\<rparr>, False))
               | _ \<Rightarrow> (t, True)))
           else if jget d ''type'' = JStr ''message_delta'' then
             (case normalize_usage (jget d ''usage'') of
                Inl e \<Rightarrow> (t, True)
              | Inr parsed \<Rightarrow>
                  (case dget parsed ''output_tokens'' of
                     Some v \<Rightarrow> (t\<lparr>ut_usage := dset (ut_usage t) ''output_tokens'' v, ut_final := True\<rparr>, False)
                   | None \<Rightarrow> (t, False)))
           else if jget d ''type'' \<in> {JStr ''content_block_start'', JStr ''content_block_delta''} then (t\<lparr>ut_content := True\<rparr>, False)
           else (t, False))
      | _ \<Rightarrow> (t, False))"

definition merge_responses :: "json \<Rightarrow> usage_tap \<Rightarrow> usage_tap \<times> bool" where
  "merge_responses event t =
     (case event of
        JObj d \<Rightarrow>
          (let done_with = (\<lambda>s. let parsed = responses_usage (case jget d ''response'' of JObj r \<Rightarrow> jget r ''usage'' | _ \<Rightarrow> JNull);
                 t1 = t\<lparr>ut_terminal := Some s\<rparr>
               in if parsed \<noteq> [] then t1\<lparr>ut_usage := parsed, ut_final := True\<rparr> else t1)
           in (if jget d ''type'' \<in> {JStr ''response.output_text.delta'', JStr ''response.output_item.added''} then t\<lparr>ut_content := True\<rparr>
               else if jget d ''type'' = JStr ''response.completed'' then done_with ''completed''
               else if jget d ''type'' = JStr ''response.incomplete'' then done_with ''incomplete''
               else if jget d ''type'' = JStr ''response.failed'' then done_with ''failed''
               else t, False))
      | _ \<Rightarrow> (t, False))"

text \<open>The call of \<open>on_complete\<close> at the end of a Responses stream: usage, failed, the kind of failure.\<close>

definition failure_from_terminal :: "string option \<Rightarrow> bool \<times> string option" where
  "failure_from_terminal s = (if s = Some ''failed'' then (True, Some ''response_failed'') else (False, None))"

definition responses_end :: "usage_tap \<Rightarrow> end_call \<Rightarrow> usage \<times> bool \<times> string option" where
  "responses_end t e =
     (case failure_from_terminal (ut_terminal t) of (status_failed, status_error) \<Rightarrow>
        (ut_usage t, ec_failed e \<or> status_failed, if ec_failed e then Some ''upstream_error'' else status_error))"

section \<open>Forwarding\<close>

text \<open>
  What the upstream does with a request: it cannot be reached, or it answers with a status, headers, a
  body that may fail to be read (a streamed request only), and the object its JSON parses to, if any.
\<close>

datatype upstream = Unreachable | Answer int headers bool "jobj option"

datatype reply_body = OwnError | UpstreamBody

datatype reply = Reply int reply_body headers | Streaming headers

definition header_value :: "headers \<Rightarrow> string \<Rightarrow> string" where
  "header_value h n = (case filter (\<lambda>(k, _). lower k = n) h of (_, v) # _ \<Rightarrow> v | [] \<Rightarrow> [])"

definition json_object :: "headers \<Rightarrow> jobj option \<Rightarrow> jobj option" where
  "json_object h parsed = (if sublist ''json'' (header_value h ''content-type'') then parsed else None)"

definition own_headers :: "string \<Rightarrow> headers \<Rightarrow> headers" where
  "own_headers rid extra = merge_response_headers [(''X-Request-ID'', rid)] extra"

definition answer_headers :: "headers \<Rightarrow> string \<Rightarrow> headers \<Rightarrow> headers" where
  "answer_headers h rid extra = merge_response_headers (relay_response_headers h rid) extra"

definition stream_headers :: "headers \<Rightarrow> string \<Rightarrow> headers \<Rightarrow> headers" where
  "stream_headers h rid extra = merge_response_headers (answer_headers h rid extra) [(''Cache-Control'', ''no-cache'')]"

text \<open>
  The answer to the client, or the exception; and the calls of \<open>on_complete\<close>. On the Anthropic wire the
  usage is an argument of that call, outside the handler that protects the response from the accounting.
\<close>

definition forward_anthropic :: "bool \<Rightarrow> bool \<Rightarrow> string \<Rightarrow> headers \<Rightarrow> upstream \<Rightarrow> (string + reply) \<times> (usage \<times> bool) list" where
  "forward_anthropic streamed accounted rid extra up =
     (case up of
        Unreachable \<Rightarrow> (Inr (Reply 502 OwnError (own_headers rid extra)), if accounted then [([], True)] else [])
      | Answer status h readable parsed \<Rightarrow>
          (if streamed then
             (if status \<noteq> 200 then
                (Inr (if readable then Reply status UpstreamBody (answer_headers h rid extra)
                      else Reply 502 OwnError (own_headers rid extra)),
                 if accounted then [([], True)] else [])
              else (Inr (Streaming (stream_headers h rid extra)), []))
           else if \<not> accounted then (Inr (Reply status UpstreamBody (answer_headers h rid extra)), [])
           else (case (case json_object h parsed of Some b \<Rightarrow> normalize_usage (jget b ''usage'') | None \<Rightarrow> Inr []) of
                   Inl e \<Rightarrow> (Inl e, [])
                 | Inr u \<Rightarrow> (Inr (Reply status UpstreamBody (answer_headers h rid extra)), [(u, 400 \<le> status)]))))"

definition forward_streaming ::
  "bool \<Rightarrow> string \<Rightarrow> headers \<Rightarrow> upstream \<Rightarrow> reply \<times> (usage \<times> bool \<times> string option) list" where
  "forward_streaming accounted rid extra up =
     (case up of
        Unreachable \<Rightarrow>
          (Reply 502 OwnError (own_headers rid extra), if accounted then [([], True, Some ''upstream_error'')] else [])
      | Answer status h readable parsed \<Rightarrow>
          (if status \<noteq> 200 then
             (if readable then Reply status UpstreamBody (answer_headers h rid extra)
              else Reply 502 OwnError (own_headers rid extra),
              if accounted then [([], True, Some ''upstream_error'')] else [])
           else (Streaming (stream_headers h rid extra), [])))"

definition forward_responses ::
  "bool \<Rightarrow> bool \<Rightarrow> string \<Rightarrow> headers \<Rightarrow> upstream \<Rightarrow> reply \<times> (usage \<times> bool \<times> string option) list" where
  "forward_responses streamed accounted rid extra up =
     (if streamed then forward_streaming accounted rid extra up
      else (case up of
        Unreachable \<Rightarrow>
          (Reply 502 OwnError (own_headers rid extra), if accounted then [([], True, Some ''upstream_error'')] else [])
      | Answer status h readable parsed \<Rightarrow>
          (Reply status UpstreamBody (answer_headers h rid extra),
           if \<not> accounted then []
           else (let body = json_object h parsed;
                     u = (case body of Some b \<Rightarrow> responses_usage (jget b ''usage'') | None \<Rightarrow> []);
                     s = failure_from_terminal (case body of Some b \<Rightarrow> (case jget b ''status'' of JStr t \<Rightarrow> Some t | _ \<Rightarrow> None) | None \<Rightarrow> None)
                 in [(u, 400 \<le> status \<or> fst s, if 400 \<le> status then Some ''upstream_error'' else snd s)]))))"

text \<open>A stream of the Responses wire, from the bytes of the upstream to the call of \<open>on_complete\<close>.\<close>

definition stream_responses ::
  "unicode \<Rightarrow> (content_text \<Rightarrow> json option) \<Rightarrow> nat list \<Rightarrow> nat list list \<Rightarrow> ending \<Rightarrow> nat option \<Rightarrow> bool \<Rightarrow>
   nat list list \<times> (usage \<times> bool \<times> string option) list \<times> bool" where
  "stream_responses u loads error_body chunks end_of gone close_raises =
     (case relay_upstream (tap_chunk (event_of u loads) merge_responses) error_body chunks end_of gone close_raises (empty_tap, []) of
        (out, (t, _), calls, raised) \<Rightarrow> (out, map (responses_end t) calls, raised))"

definition stream_anthropic ::
  "unicode \<Rightarrow> (content_text \<Rightarrow> json option) \<Rightarrow> nat list \<Rightarrow> nat list list \<Rightarrow> ending \<Rightarrow> nat option \<Rightarrow> bool \<Rightarrow>
   nat list list \<times> (usage \<times> bool) list \<times> bool" where
  "stream_anthropic u loads error_body chunks end_of gone close_raises =
     (case relay_upstream (tap_chunk (event_of u loads) merge_anthropic) error_body chunks end_of gone close_raises (empty_tap, []) of
        (out, (t, _), calls, raised) \<Rightarrow> (out, map (\<lambda>c. (ut_usage t, ec_failed c)) calls, raised))"

section \<open>Lemmas on decoding and lines\<close>

lemma div64_split: "(c :: nat) div 64 = c div 4096 * 64 + c div 64 mod 64" "c = c div 64 * 64 + c mod 64"
proof -
  have "c div 4096 = c div 64 div 64" by (simp add: div_mult2_eq [symmetric])
  then show "c div 64 = c div 4096 * 64 + c div 64 mod 64" by simp
qed simp

lemma div4096_split: "(c :: nat) div 4096 = c div 262144 * 64 + c div 4096 mod 64"
proof -
  have "c div 262144 = c div 4096 div 64" by (simp add: div_mult2_eq [symmetric])
  then show ?thesis by simp
qed

text \<open>A code point that is encoded is decoded, whatever follows.\<close>

lemma decode_encode_code:
  assumes "scalar c"
  shows "decode_ignore (encode_code c @ bs) = c # decode_ignore bs"
proof -
  consider "c < 128" | "128 \<le> c" "c < 2048" | "2048 \<le> c" "c < 65536" | "65536 \<le> c" by linarith
  then show ?thesis
  proof cases
    case 1
    then show ?thesis by (simp add: encode_code_def lead_length_def)
  next
    case 2
    then have "2 \<le> c div 64" "c div 64 < 32" "c mod 64 < 64" by (simp_all add: less_mult_imp_div_less)
    then have "lead_length (192 + c div 64) = 2" "continuation (128 + c mod 64)"
      by (simp_all add: lead_length_def continuation_def)
    with 2 show ?thesis by (simp add: encode_code_def)
  next
    case 3
    then have b: "c div 4096 < 16" "c mod 64 < 64" "c div 64 mod 64 < 64" by (simp_all add: less_mult_imp_div_less)
    have l: "lead_length (224 + c div 4096) = 3" using b by (simp add: lead_length_def)
    have "32 \<le> c div 64" using 3 by (simp add: less_eq_div_iff_mult_less_eq)
    moreover have "c div 64 < 864 \<or> 896 \<le> c div 64"
      using assms by (auto simp: scalar_def less_mult_imp_div_less less_eq_div_iff_mult_less_eq)
    ultimately have "second_byte (224 + c div 4096) (128 + c div 64 mod 64)"
      using b div64_split(1) [of c] by (simp add: second_byte_def continuation_def) linarith
    moreover have "c div 4096 * 4096 + c div 64 mod 64 * 64 + c mod 64 = c" using div64_split [of c] by linarith
    ultimately show ?thesis using l b 3 by (simp add: encode_code_def continuation_def)
  next
    case 4
    then have b: "c div 262144 < 5" "c mod 64 < 64" "c div 64 mod 64 < 64" "c div 4096 mod 64 < 64"
      using assms by (simp_all add: scalar_def less_mult_imp_div_less)
    have l: "lead_length (240 + c div 262144) = 4" using b by (simp add: lead_length_def)
    have "16 \<le> c div 4096" using 4 by (simp add: less_eq_div_iff_mult_less_eq)
    moreover have "c div 4096 < 272" using assms by (simp add: scalar_def less_mult_imp_div_less)
    ultimately have "second_byte (240 + c div 262144) (128 + c div 4096 mod 64)"
      using b div4096_split [of c] by (simp add: second_byte_def continuation_def)
    moreover have "c div 262144 * 262144 + c div 4096 mod 64 * 4096 + c div 64 mod 64 * 64 + c mod 64 = c"
      using div64_split [of c] div4096_split [of c] by linarith
    ultimately show ?thesis using l b 4 by (simp add: encode_code_def continuation_def)
  qed
qed

lemma decode_encode:
  "list_all scalar t \<Longrightarrow> decode_ignore (encode_text t @ bs) = t @ decode_ignore bs"
proof (induction t)
  case (Cons c t)
  then show ?case using decode_encode_code [of c "encode_text t @ bs"] by (simp add: encode_text_def)
qed (simp add: encode_text_def)

lemma decode_encode_text: "list_all scalar t \<Longrightarrow> decode_ignore (encode_text t) = t"
  using decode_encode [of t "[]"] by simp
lemma first_rest:
  "line_feed \<in> set s \<Longrightarrow> s = first_line s @ line_feed # rest_lines s"
proof -
  assume "line_feed \<in> set s"
  then obtain a b where s: "s = a @ line_feed # b" "line_feed \<notin> set a" by (meson split_list_first)
  then have "first_line s = a" by (simp add: first_line_def takeWhile_append)
  with s show ?thesis by (simp add: rest_lines_def)
qed

lemma rest_shorter: "line_feed \<in> set s \<Longrightarrow> length (rest_lines s) < length s"
  by (subst (2) first_rest) simp_all

lemma first_line_no_newline: "line_feed \<notin> set (first_line s)"
  by (auto simp: first_line_def dest: set_takeWhileD)

lemma complete_lines_step: "line_feed \<notin> set a \<Longrightarrow> complete_lines (a @ line_feed # b) = a # complete_lines b"
  by (induction a) auto

lemma complete_lines_none: "line_feed \<notin> set s \<Longrightarrow> complete_lines s = []"
  by (induction s) auto

lemma unfinished_none: "line_feed \<notin> set s \<Longrightarrow> unfinished s = s"
proof -
  assume "line_feed \<notin> set s"
  then have "takeWhile (\<lambda>c. c \<noteq> line_feed) (rev s) = rev s" by (intro takeWhile_eq_all_conv [THEN iffD2]) auto
  then show ?thesis unfolding unfinished_def by (simp only: rev_rev_ident)
qed

lemma unfinished_step: "unfinished (a @ line_feed # b) = unfinished b"
proof (cases "line_feed \<in> set b")
  case True
  then show ?thesis by (auto simp: unfinished_def takeWhile_append1)
next
  case False
  then have "takeWhile (\<lambda>c. c \<noteq> line_feed) (rev b @ line_feed # rev a) = rev b @ takeWhile (\<lambda>c. c \<noteq> line_feed) (line_feed # rev a)"
    by (intro takeWhile_append2) auto
  with False show ?thesis by (simp add: unfinished_none) (simp add: unfinished_def)
qed

lemma complete_lines_rest:
  assumes "line_feed \<in> set s"
  shows "complete_lines s = first_line s # complete_lines (rest_lines s)" "unfinished s = unfinished (rest_lines s)"
  by (subst first_rest [OF assms], simp add: complete_lines_step first_line_no_newline)
    (subst first_rest [OF assms], simp add: unfinished_step)

section \<open>Chunks do not matter\<close>

lemma complete_lines_append: "complete_lines (a @ b) = complete_lines a @ complete_lines (unfinished a @ b)"
proof (induction "length a" arbitrary: a rule: less_induct)
  case less
  show ?case
  proof (cases "line_feed \<in> set a")
    case False
    then show ?thesis by (simp add: complete_lines_none unfinished_none)
  next
    case True
    have "complete_lines (a @ b) = first_line a # complete_lines (rest_lines a @ b)"
      by (subst first_rest [OF True]) (simp add: complete_lines_step first_line_no_newline)
    with less [OF rest_shorter [OF True]] show ?thesis by (simp add: complete_lines_rest [OF True])
  qed
qed

lemma unfinished_append: "unfinished (a @ b) = unfinished (unfinished a @ b)"
proof (induction "length a" arbitrary: a rule: less_induct)
  case less
  show ?case
  proof (cases "line_feed \<in> set a")
    case False
    then show ?thesis by (simp add: unfinished_none)
  next
    case True
    have "unfinished (a @ b) = unfinished (rest_lines a @ b)"
      by (subst first_rest [OF True]) (simp add: unfinished_step)
    with less [OF rest_shorter [OF True]] show ?thesis by (simp add: complete_lines_rest [OF True])
  qed
qed

lemma unfinished_no_newline: "line_feed \<notin> set (unfinished s)"
  by (auto simp: unfinished_def dest: set_takeWhileD)

lemma unfinished_idem: "unfinished (unfinished s) = unfinished s"
  by (simp add: unfinished_none unfinished_no_newline)

definition deliver :: "(content_text \<Rightarrow> 'e option) \<Rightarrow> ('e \<Rightarrow> 's \<Rightarrow> 's \<times> bool) \<Rightarrow> content_text list \<Rightarrow> 's \<Rightarrow> 's" where
  "deliver parse on_event ls s = fold (\<lambda>e s. fst (on_event e s)) (List.map_filter parse ls) s"

lemma deliver_simps [simp]:
  "deliver parse on_event [] s = s"
  "deliver parse on_event (l # ls) s =
     deliver parse on_event ls (case parse l of Some e \<Rightarrow> fst (on_event e s) | None \<Rightarrow> s)"
  "deliver parse on_event (ls @ ls') s = deliver parse on_event ls' (deliver parse on_event ls s)"
  by (simp_all add: deliver_def map_filter_def split: option.splits)

lemma drain_deliver:
  assumes "\<And>e s. \<not> snd (on_event e s)"
  shows "drain parse on_event b s = Some (deliver parse on_event (complete_lines b) s, unfinished b, False)"
proof (induction "length b" arbitrary: b s rule: less_induct)
  case less
  show ?case
  proof (cases "line_feed \<in> set b")
    case False
    then show ?thesis by (subst drain.simps) (simp add: complete_lines_none unfinished_none)
  next
    case True
    note IH = less [OF rest_shorter [OF True]]
    show ?thesis
      by (subst drain.simps) (simp add: True IH assms complete_lines_rest [OF True] split: option.splits)
  qed
qed

lemma tap_chunks:
  assumes "\<And>e s. \<not> snd (on_event e s)" "\<And>p. p \<in> set pieces \<Longrightarrow> list_all scalar p"
  shows "fold (tap_chunk parse on_event) (map encode_text pieces) (s, unfinished b) =
     (deliver parse on_event (complete_lines (unfinished b @ concat pieces)) s, unfinished (b @ concat pieces))"
  using assms(2)
proof (induction pieces arbitrary: s b)
  case Nil
  then show ?case by (simp add: complete_lines_none unfinished_no_newline)
next
  case (Cons p ps)
  have "tap_chunk parse on_event (encode_text p) (s, unfinished b) =
      (deliver parse on_event (complete_lines (unfinished b @ p)) s, unfinished (b @ p))"
    using Cons.prems [of p]
    by (simp add: tap_chunk_def feed_def drain_deliver [OF assms(1)] decode_encode_text unfinished_append [of b p, symmetric])
  moreover have "complete_lines (unfinished b @ p @ concat ps) =
      complete_lines (unfinished b @ p) @ complete_lines (unfinished (b @ p) @ concat ps)"
    using complete_lines_append [of "unfinished b @ p" "concat ps"] by (simp add: unfinished_append [of b p, symmetric])
  ultimately show ?case using Cons.IH [of _ "b @ p"] Cons.prems by simp
qed

text \<open>
  Framing does not depend on the chunks. As long as no chunk ends within a character and the callback
  does not raise, the events delivered are those of the complete lines of the whole text, in order,
  wherever the chunks are cut, and what follows the last line break waits in the buffer.
\<close>

lemma framing_chunk_independent:
  assumes "\<And>e s. \<not> snd (on_event e s)" "\<And>p. p \<in> set pieces \<Longrightarrow> list_all scalar p"
  shows "fold (tap_chunk parse on_event) (map encode_text pieces) (s, []) =
     (fold (\<lambda>e s. fst (on_event e s)) (List.map_filter parse (complete_lines (concat pieces))) s, unfinished (concat pieces))"
  using tap_chunks [OF assms, where b = "[]" and s = s] by (simp add: unfinished_none deliver_def)

lemma framing_chunk_independent_witness:
  "fold (tap_chunk Some (\<lambda>e s. (s @ [e], False))) (map encode_text [[104, 233], [10, 8364, 10], [128512]]) ([], []) =
     ([[104, 233], [8364]], [128512])"
proof -
  have "fold (tap_chunk Some (\<lambda>e s. (s @ [e], False))) (map encode_text [[104, 233], [10, 8364, 10], [128512]]) ([], []) =
     (fold (\<lambda>e s. s @ [e]) (List.map_filter Some (complete_lines (concat [[104, 233], [10, 8364, 10], [128512]]))) [],
      unfinished (concat [[104, 233], [10, 8364, 10], [128512]]))"
    by (subst framing_chunk_independent) (auto simp: scalar_def)
  also have "\<dots> = ([[104, 233], [8364]], [128512])" by (simp add: line_feed_def unfinished_def map_filter_def)
  finally show ?thesis .
qed

section \<open>Relaying\<close>

lemma stop_of_iff [simp]:
  "stop_of e = UpstreamFailed \<longleftrightarrow> e = TransportError" "stop_of e = Crashed \<longleftrightarrow> e = OtherFailure"
  "stop_of e = Disconnected \<longleftrightarrow> e = Cancelled"
  by (cases e; simp)+

lemma relay_loop_leaves:
  "n \<le> g \<Longrightarrow> g < n + length chunks \<Longrightarrow>
   relay_loop tap chunks end_of (Some g) a n = (take (Suc (g - n)) chunks, fold tap (take (Suc (g - n)) chunks) a, Suc g, Disconnected)"
proof (induction chunks arbitrary: a n)
  case (Cons c cs)
  show ?case
  proof (cases "g = n")
    case False
    with Cons.prems have "Suc n \<le> g" "g - n = Suc (g - Suc n)" by simp_all
    with Cons.IH [of "Suc n" "tap c a"] Cons.prems False show ?thesis by simp
  qed simp
qed simp

lemma relay_loop_stays:
  "(\<And>g. gone = Some g \<Longrightarrow> g < n \<or> n + length chunks \<le> g) \<Longrightarrow>
   relay_loop tap chunks end_of gone a n = (chunks, fold tap chunks a, n + length chunks, stop_of end_of)"
proof (induction chunks arbitrary: a n)
  case (Cons c cs)
  have "gone \<noteq> Some n" using Cons.prems by force
  moreover have "\<And>g. gone = Some g \<Longrightarrow> g < Suc n \<or> Suc n + length cs \<le> g" using Cons.prems by force
  ultimately show ?case using Cons.IH [of "Suc n" "tap c a"] by simp
qed simp

text \<open>
  C23. The relay is faithful. A client that stays receives every chunk the upstream sent, unchanged and in
  order, and after a transport error the error body; one that leaves has received a prefix. The tap has
  seen exactly the chunks that were yielded. The accounting is told once how the stream ended, unless
  closing the connection raises. Leaving is never swallowed.
\<close>

theorem relay_faithful:
  "relay_upstream tap error_body chunks end_of gone close_raises a =
     (let sent = (case gone of None \<Rightarrow> chunks | Some g \<Rightarrow> take (Suc g) chunks);
          left = (case gone of None \<Rightarrow> False | Some g \<Rightarrow> g < length chunks);
          broken = (\<not> left \<and> end_of = TransportError)
      in (sent @ (if broken then [error_body] else []), fold tap sent a,
          if close_raises then []
          else [\<lparr>ec_failed = broken, ec_disconnected = (left \<or> end_of = Cancelled), ec_started = (sent \<noteq> []), ec_chunks = length sent\<rparr>],
          close_raises \<or> left \<or> end_of \<in> {Cancelled, OtherFailure} \<or> (broken \<and> gone = Some (length chunks))))"
proof (cases "\<exists>g. gone = Some g \<and> g < length chunks")
  case True
  then obtain g where g: "gone = Some g" "g < length chunks" by blast
  then have "relay_loop tap chunks end_of gone a 0 = (take (Suc g) chunks, fold tap (take (Suc g) chunks) a, Suc g, Disconnected)"
    using relay_loop_leaves [of 0 g chunks] by simp
  with g show ?thesis by (cases chunks) (simp_all add: relay_upstream_def)
next
  case False
  then have "relay_loop tap chunks end_of gone a 0 = (chunks, fold tap chunks a, length chunks, stop_of end_of)"
    using relay_loop_stays [of gone 0 chunks] by fastforce
  moreover have "(case gone of None \<Rightarrow> chunks | Some g \<Rightarrow> take (Suc g) chunks) = chunks"
    "(case gone of None \<Rightarrow> False | Some g \<Rightarrow> g < length chunks) = False"
    using False by (auto split: option.split)
  ultimately show ?thesis by (auto simp: relay_upstream_def Let_def)
qed

text \<open>The accounting of a whole stream of the Responses wire.\<close>

lemma merge_responses_total: "\<not> snd (merge_responses e t)"
  by (simp add: merge_responses_def Let_def split: json.split)

section \<open>Headers\<close>

lemma dget_copied:
  "distinct (map fst src) \<Longrightarrow>
   dget (fold (\<lambda>(n, v) h. if keep n then dset h n v else h) src d) k =
     (case dget src k of Some v \<Rightarrow> if keep k then Some v else dget d k | None \<Rightarrow> dget d k)"
proof (induction src arbitrary: d)
  case (Cons p src)
  obtain n v where p: "p = (n, v)" by (cases p)
  with Cons.prems have "dget src n = None" by (simp add: dget_None_iff)
  with Cons.IH [of "if keep n then dset d n v else d"] Cons.prems p show ?case
    by (cases "k = n") (simp_all add: update_conv split: option.split)
qed simp

lemma dget_filter_keys: "dget (filter (\<lambda>(n, _). keep n) d) k = (if keep k then dget d k else None)"
  by (induction d) auto

lemma dget_update_all: "distinct (map fst src) \<Longrightarrow> dget (fold (\<lambda>(n, v) d. dset d n v) src d) k =
   (case dget src k of Some v \<Rightarrow> Some v | None \<Rightarrow> dget d k)"
  using dget_copied [of src "\<lambda>_. True" d k] by (cases "dget src k") simp_all

lemma own_id_denied: "\<not> relayed_header h ''X-Request-ID''"
  by (simp add: relayed_header_def) code_simp

lemma dget_relayed:
  "distinct (dkeys h) \<Longrightarrow>
   dget (relay_response_headers h rid) k =
     (if k = ''X-Request-ID'' then Some rid else if relayed_header h k then dget h k else None)"
  using own_id_denied [of h] by (auto simp: relay_response_headers_def dget_copied split: option.split)

text \<open>
  C26. Response headers are isolated. The header a client finds in the answer is the proxy's own one where
  it sets that name in any case; else the proxy's request id; else the one of the upstream, unless its
  name is denied, nominated by \<open>Connection\<close>, or in the proxy's own name space. Nothing else crosses.
\<close>

theorem response_headers_isolated:
  assumes "distinct (dkeys h)" "distinct (dkeys extra)"
  shows "dget (answer_headers h rid extra) k =
     (case dget extra k of
        Some v \<Rightarrow> Some v
      | None \<Rightarrow>
          if lower k \<in> lower ` set (dkeys extra) then None
          else if k = ''X-Request-ID'' then Some rid
          else if lower k \<in> set response_denylist \<or> lower k \<in> set (connection_tokens h) \<or> prefix ''x-forge-'' (lower k) then None
          else dget h k)"
proof -
  define denied where "denied \<longleftrightarrow> lower k \<in> set response_denylist \<or> lower k \<in> set (connection_tokens h) \<or> prefix ''x-forge-'' (lower k)"
  define own where "own \<longleftrightarrow> lower k \<in> lower ` set (dkeys extra)"
  have "relayed_header h k \<longleftrightarrow> \<not> denied" unfolding relayed_header_def denied_def owned_prefix_def by blast
  moreover have "dget (answer_headers h rid extra) k =
      (case dget extra k of Some v \<Rightarrow> Some v | None \<Rightarrow> if \<not> own then dget (relay_response_headers h rid) k else None)"
    unfolding answer_headers_def merge_response_headers_def dget_update_all [OF assms(2)] dget_filter_keys own_def ..
  ultimately show ?thesis
    unfolding denied_def [symmetric] own_def [symmetric] by (simp add: dget_relayed [OF assms(1)] split: option.split)
qed

theorem response_headers_isolated_witness:
  "dget (answer_headers [(''connection'', ''close, X-Hop''), (''x-hop'', ''1''), (''x-ok'', ''2'')] ''r1'' [(''X-Spend-Warning'', ''w'')]) ''x-hop'' = None \<and>
   dget (answer_headers [(''connection'', ''close, X-Hop''), (''x-hop'', ''1''), (''x-ok'', ''2'')] ''r1'' [(''X-Spend-Warning'', ''w'')]) ''x-ok'' = Some ''2''"
  (is "dget (answer_headers ?h _ ?e) _ = _ \<and> _")
proof -
  have d: "distinct (dkeys ?h)" "distinct (dkeys ?e)" by simp_all
  note get = response_headers_isolated [OF d, of "''r1''"]
  have "dget (answer_headers ?h ''r1'' ?e) ''x-hop'' = None" by (rule trans [OF get]) code_simp
  moreover have "dget (answer_headers ?h ''r1'' ?e) ''x-ok'' = Some ''2''" by (rule trans [OF get]) code_simp
  ultimately show ?thesis by blast
qed

lemma set_dkeys_dset: "set (dkeys (dset d k v)) = insert k (set (dkeys d))"
  by (subst dkeys_dset) auto

lemma keys_copied:
  "set (dkeys (fold (\<lambda>(n, v) h. if keep n then dset h (f n) v else h) src d)) \<subseteq> set (dkeys d) \<union> f ` Collect keep"
proof (induction src arbitrary: d)
  case (Cons p src)
  obtain n v where p: "p = (n, v)" by (cases p)
  show ?case
  proof (cases "keep n")
    case True
    then have "f n \<in> f ` Collect keep" by blast
    with Cons.IH [of "dset d (f n) v"] p True show ?thesis unfolding set_dkeys_dset by (simp del: set_map) blast
  qed (use Cons.IH [of d] p in simp)
qed simp

lemma dget_kept:
  "(\<And>n. keep n \<Longrightarrow> f n \<noteq> k) \<Longrightarrow> dget (fold (\<lambda>(n, v) h. if keep n then dset h (f n) v else h) src d) k = dget d k"
proof (induction src arbitrary: d)
  case (Cons p src)
  show ?case
  proof (cases "keep (fst p)")
    case True
    with Cons.prems have "f (fst p) \<noteq> k" by blast
    then show ?thesis using Cons.IH [OF Cons.prems] True by (cases p) (simp add: update_conv)
  qed (use Cons.IH [OF Cons.prems] in \<open>simp add: case_prod_beta\<close>)
qed simp

text \<open>
  The upstream sees the credential of the proxy, and no other. Whatever headers a client sends, the
  request carries the proxy's own key under the header of the wire, and besides it only the content type
  and the behaviour flags of the wire: no authorization, key, cookie or organization of the client.
\<close>

lemma only_own_credential:
  "dget (anthropic_headers inbound key) ''x-api-key'' = Some key \<and>
   set (dkeys (anthropic_headers inbound key)) \<subseteq> {''content-type'', ''x-api-key'', ''anthropic-version'', ''anthropic-beta''} \<and>
   dget (responses_headers inbound key) ''authorization'' = Some (''Bearer '' @ key) \<and>
   set (dkeys (responses_headers inbound key)) \<subseteq> {''content-type'', ''authorization'', ''openai-beta''}"
proof -
  let ?a = "fold (\<lambda>(n, v) h. if lower n \<in> set forwarded_anthropic then dset h (lower n) v else h) inbound
      [(''content-type'', ''application/json''), (''x-api-key'', key)]"
  let ?r = "fold (\<lambda>(n, v) h. if lower n = ''openai-beta'' then dset h (lower n) v else h) inbound
      [(''content-type'', ''application/json''), (''authorization'', ''Bearer '' @ key)]"
  have a: "dget ?a ''x-api-key'' = Some key"
    by (subst dget_kept) (auto simp: forwarded_anthropic_def)
  have ak: "set (dkeys ?a) \<subseteq> {''content-type'', ''x-api-key'', ''anthropic-version'', ''anthropic-beta''}"
    by (rule order_trans [OF keys_copied]) (auto simp: forwarded_anthropic_def)
  have r: "dget ?r ''authorization'' = Some (''Bearer '' @ key)" by (subst dget_kept) auto
  have rk: "set (dkeys ?r) \<subseteq> {''content-type'', ''authorization'', ''openai-beta''}" by (rule order_trans [OF keys_copied]) auto
  have "set (dkeys (anthropic_headers inbound key)) \<subseteq> insert ''anthropic-version'' (set (dkeys ?a))"
    unfolding anthropic_headers_def Let_def by (auto simp only: set_dkeys_dset split: if_split)
  with ak have "set (dkeys (anthropic_headers inbound key)) \<subseteq> {''content-type'', ''x-api-key'', ''anthropic-version'', ''anthropic-beta''}" by blast
  moreover have "dget (anthropic_headers inbound key) ''x-api-key'' = Some key"
    using a by (simp add: anthropic_headers_def Let_def update_conv)
  ultimately show ?thesis using r rk by (simp add: responses_headers_def)
qed

section \<open>Usage\<close>

lemma dget_put_when: "dget (put_when b k v u) k' = (if b \<and> k' = k then Some v else dget u k')"
  by (simp add: put_when_def update_conv)

lemma normalize_usage_Inr:
  assumes "normalize_usage (JObj d) = Inr u"
  obtains reads writes inp outp where
    "int_or_zero (jget d ''cache_read_input_tokens'') = Inr reads" "int_or_zero (jget d ''cache_creation_input_tokens'') = Inr writes"
    "int_or_zero (jget d ''input_tokens'') = Inr inp" "int_or_zero (jget d ''output_tokens'') = Inr outp"
    "dget u ''input_tokens'' = (if jget d ''input_tokens'' = JNull then None else Some (inp + reads + writes))"
    "dget u ''output_tokens'' = (if jget d ''output_tokens'' = JNull then None else Some outp)"
    "dget u ''cached_tokens'' = (if jget d ''cache_read_input_tokens'' = JNull then None else Some reads)"
    "dget u ''cache_write_tokens'' = (if jget d ''cache_creation_input_tokens'' = JNull then None else Some writes)"
  using assms by (auto simp: normalize_usage_def dget_put_when split: sum.splits)

lemma int_or_zero_null [simp]: "int_or_zero JNull = Inr 0"
  by (simp add: int_or_zero_def)

text \<open>
  Cache rates stay within the input. When the upstream reports a number of uncached input tokens that
  is not negative, the tokens read from the cache and those written to it together never exceed the
  input tokens that are accounted, and the rest is exactly what the upstream reported.
\<close>

lemma cache_within_input:
  assumes "normalize_usage (JObj d) = Inr u" "dget u ''input_tokens'' = Some i"
    and "int_or_zero (jget d ''input_tokens'') = Inr uncached" "0 \<le> uncached"
  shows "let cached = (case dget u ''cached_tokens'' of Some c \<Rightarrow> c | None \<Rightarrow> 0);
             written = (case dget u ''cache_write_tokens'' of Some w \<Rightarrow> w | None \<Rightarrow> 0)
     in cached + written \<le> i \<and> i - cached - written = uncached"
proof -
  obtain reads writes inp outp where r:
    "int_or_zero (jget d ''cache_read_input_tokens'') = Inr reads" "int_or_zero (jget d ''cache_creation_input_tokens'') = Inr writes"
    "int_or_zero (jget d ''input_tokens'') = Inr inp"
    "dget u ''input_tokens'' = (if jget d ''input_tokens'' = JNull then None else Some (inp + reads + writes))"
    "dget u ''cached_tokens'' = (if jget d ''cache_read_input_tokens'' = JNull then None else Some reads)"
    "dget u ''cache_write_tokens'' = (if jget d ''cache_creation_input_tokens'' = JNull then None else Some writes)"
    by (rule normalize_usage_Inr [OF assms(1)])
  from r(3,4) assms(2,3) have i: "i = uncached + reads + writes" by (simp split: if_splits)
  from r have "(case dget u ''cached_tokens'' of Some c \<Rightarrow> c | None \<Rightarrow> 0) = reads"
    "(case dget u ''cache_write_tokens'' of Some w \<Rightarrow> w | None \<Rightarrow> 0) = writes" by auto
  with i assms(4) show ?thesis by simp
qed

definition sample_usage :: jobj where
  "sample_usage = [(''input_tokens'', JInt 10), (''cache_read_input_tokens'', JStr ''7''), (''output_tokens'', JFloat (5 / 2))]"

lemma cache_within_input_witness:
  "case normalize_usage (JObj sample_usage) of
     Inr u \<Rightarrow> dget u ''input_tokens'' = Some 17 \<and> dget u ''cached_tokens'' = Some 7 \<and> (7 :: int) \<le> 17
   | Inl _ \<Rightarrow> False"
proof -
  have x: "normalize_usage (JObj sample_usage) = Inr [(''input_tokens'', 17), (''output_tokens'', 2), (''cached_tokens'', 7)]"
    by code_simp
  have "int_or_zero (jget sample_usage ''input_tokens'') = Inr 10" by code_simp
  from cache_within_input [OF x _ this] show ?thesis by (simp add: x)
qed


text \<open>A usage field that is a list, in an answer of status 200: the client gets no answer.\<close>

lemma malformed_usage_loses_answer:
  "forward_anthropic False True ''r'' []
     (Answer 200 [(''Content-Type'', ''application/json'')] True
        (Some [(''content'', JList []), (''usage'', JObj [(''input_tokens'', JList [JInt 1])])])) = (Inl ''TypeError'', [])"
  by code_simp


definition sample_stream :: "content_text list" where
  "sample_stream = [codes ''data: en'', codes ''d'' @ [10], codes ''data: [DONE]'' @ [10, 8364]]"

definition sample_loads :: "content_text \<Rightarrow> json option" where
  "sample_loads s =
     (if s = codes ''end'' then Some (JObj [(''type'', JStr ''response.failed''),
         (''response'', JObj [(''usage'', JObj [(''input_tokens'', JInt 3), (''output_tokens'', JStr ''x'')])])])
      else None)"

definition plain_unicode :: unicode where
  "plain_unicode = \<lparr>u_space = (\<lambda>_. False), u_word = (\<lambda>_. True), u_shown = (\<lambda>_. [])\<rparr>"


section \<open>What the chunks can change\<close>

text \<open>A character cut by a chunk is dropped from the tap, not from what is forwarded.\<close>

lemma split_character_dropped:
  "encode_text [233] = [195, 169] \<and> decode_ignore [195, 169] = [233] \<and> decode_ignore [195] @ decode_ignore [169] = []"
  by (simp add: encode_text_def encode_code_def lead_length_def continuation_def)

definition bad_start :: json where
  "bad_start = JObj [(''type'', JStr ''message_start''), (''message'', JObj [(''usage'', JObj [(''input_tokens'', JStr ''many'')])])]"

definition final_delta :: json where
  "final_delta = JObj [(''type'', JStr ''message_delta''), (''usage'', JObj [(''output_tokens'', JInt 5)])]"

definition two_events :: "content_text \<Rightarrow> json option" where
  "two_events s = (if s = [65] then Some bad_start else if s = [66] then Some final_delta else None)"

text \<open>
  On the Anthropic wire an event whose usage is no number ends the handling of its chunk. The final usage
  behind it in the same chunk is lost; in a chunk of its own it is counted.
\<close>

lemma bad_event_hides_final_usage:
  "tap_chunk two_events merge_anthropic [65, 10, 66, 10] (empty_tap, []) = (empty_tap, [66, 10])"
  "fold (tap_chunk two_events merge_anthropic) [[65, 10], [66, 10]] (empty_tap, []) =
     (empty_tap\<lparr>ut_usage := [(''output_tokens'', 5)], ut_final := True\<rparr>, [])"
proof -
  have a: "merge_anthropic bad_start empty_tap = (empty_tap, True)" by code_simp
  have b: "merge_anthropic final_delta empty_tap = (empty_tap\<lparr>ut_usage := [(''output_tokens'', 5)], ut_final := True\<rparr>, False)"
    by code_simp
  have d: "drain two_events merge_anthropic (65 # 10 # r) empty_tap = Some (empty_tap, r, True)" for r
    by (subst drain.simps) (simp add: line_feed_def first_line_def rest_lines_def two_events_def a)
  have e: "drain two_events merge_anthropic [66, 10] empty_tap =
      Some (empty_tap\<lparr>ut_usage := [(''output_tokens'', 5)], ut_final := True\<rparr>, [], False)"
    by (subst drain.simps, subst drain.simps) (simp add: line_feed_def first_line_def rest_lines_def two_events_def b)
  show "tap_chunk two_events merge_anthropic [65, 10, 66, 10] (empty_tap, []) = (empty_tap, [66, 10])"
    by (simp add: tap_chunk_def feed_def lead_length_def d)
  show "fold (tap_chunk two_events merge_anthropic) [[65, 10], [66, 10]] (empty_tap, []) =
     (empty_tap\<lparr>ut_usage := [(''output_tokens'', 5)], ut_final := True\<rparr>, [])"
    by (simp add: tap_chunk_def feed_def lead_length_def d e)
qed

end
