(* ===== verification/Convert.thy ===== *)
theory Convert
  imports Relay "HOL-Library.Multiset"
begin

text \<open>
  The stream of a translated request (\<open>convert_openai_to_anthropic_sse\<close> in \<open>proxy/converters.py\<close>): the
  chunks of an OpenAI-compatible backend become the events of the Anthropic protocol. An action of the
  generator changes its state, appends the events it yields, and may end it: by a \<open>return\<close>, by an
  exception, or because the client went away at a yield.

  Chunks are arbitrary JSON values. \<open>json.loads\<close> and \<open>json.dumps\<close> are parameters; telemetry tasks and
  log lines are left out.
\<close>

section \<open>Events\<close>

datatype content_block = TextBlock | ToolBlock json json

datatype content_delta = TextDelta string | JsonDelta string

datatype sse =
    MessageStart
  | Ping
  | BlockStart int content_block
  | BlockDelta int content_delta
  | BlockStop int
  | MessageDelta "string option" "jobj option"
  | ErrorEvent json json
  | MessageStop

section \<open>State\<close>

record tool_info =
  ti_id :: json
  ti_name :: json
  ti_args :: string
  ti_block :: "int option"
  ti_buffer :: bool

datatype block_type = InText | InTool

record stream_state =
  ss_index :: int
  ss_type :: "block_type option"
  ss_text_started :: bool
  ss_tools :: "(json, tool_info) dict"
  ss_usage :: jobj
  ss_failed :: bool
  ss_error :: "json option"
  ss_stop :: "string option"
  ss_first :: bool
  ss_final_usage :: bool
  ss_gone :: bool
  ss_meta :: "jobj option"
  ss_out :: "sse list"

definition initial_stream :: stream_state where
  "initial_stream =
     \<lparr>ss_index = - 1, ss_type = None, ss_text_started = False, ss_tools = [],
      ss_usage = [(''input_tokens'', JInt 0), (''output_tokens'', JInt 0), (''cached_tokens'', JInt 0), (''cache_write_tokens'', JInt 0)],
      ss_failed = False, ss_error = None, ss_stop = None, ss_first = False, ss_final_usage = False, ss_gone = False,
      ss_meta = None, ss_out = []\<rparr>"

text \<open>How an action ends the generator, and the parameters: where the client goes away, and JSON text.\<close>

datatype halt = Returned | ClientGone | Raised

record stream_env =
  en_gone :: "nat option"
  en_loads :: "string \<Rightarrow> json option"
  en_dumps :: "json \<Rightarrow> string"

type_synonym act = "stream_state \<Rightarrow> halt option \<times> stream_state"

definition skip :: act where
  "skip s = (None, s)"

definition yields :: "stream_env \<Rightarrow> sse \<Rightarrow> act" where
  "yields env e s = (if en_gone env = Some (length (ss_out s)) then Some ClientGone else None, s\<lparr>ss_out := ss_out s @ [e]\<rparr>)"

fun run_acts :: "act list \<Rightarrow> act" where
  "run_acts [] s = (None, s)"
| "run_acts (a # as) s = (case a s of (None, s') \<Rightarrow> run_acts as s' | (Some h, s') \<Rightarrow> (Some h, s'))"

definition yields_all :: "stream_env \<Rightarrow> sse list \<Rightarrow> act" where
  "yields_all env es = run_acts (map (yields env) es)"

section \<open>Tool arguments\<close>

text \<open>The parameters that models fill compulsively, with the values that count as empty.\<close>

definition sectioning_params :: "string list" where
  "sectioning_params = [''pages'', ''offset'', ''limit'']"

definition empty_value :: "json \<Rightarrow> bool" where
  "empty_value v \<longleftrightarrow> v = JNull \<or> v = JStr [] \<or> eq_int v 0"

definition is_pdf_path :: "json \<Rightarrow> bool" where
  "is_pdf_path v = (case v of JStr s \<Rightarrow> suffix ''.pdf'' (lower s) | _ \<Rightarrow> False)"

definition strip_param :: "string \<Rightarrow> jobj \<times> string list \<Rightarrow> jobj \<times> string list" where
  "strip_param p r = (case r of (cleaned, report) \<Rightarrow> if dget cleaned p = None then r else (ddel cleaned p, report @ [p]))"

definition strip_empty :: "string \<Rightarrow> jobj \<times> string list \<Rightarrow> jobj \<times> string list" where
  "strip_empty p r = (if (case dget (fst r) p of Some v \<Rightarrow> empty_value v | None \<Rightarrow> False) then strip_param p r else r)"

definition sanitize_tool_input :: "json \<Rightarrow> jobj \<Rightarrow> jobj \<times> string list" where
  "sanitize_tool_input tool input =
     (if tool \<noteq> JStr ''Read'' then (input, [])
      else fold strip_empty sectioning_params
        (if dget input ''pages'' \<noteq> None \<and> \<not> is_pdf_path (jget input ''file_path'') then strip_param ''pages'' (input, [])
         else (input, [])))"

text \<open>\<open>name in _STRIP_EMPTY_PARAMS\<close>, for a name that is hashable.\<close>

definition buffers_args :: "json \<Rightarrow> bool" where
  "buffers_args name \<longleftrightarrow> name = JStr ''Read''"

definition sanitize_arguments :: "stream_env \<Rightarrow> json \<Rightarrow> string \<Rightarrow> string" where
  "sanitize_arguments env name args =
     (if \<not> buffers_args name \<or> args = [] then args
      else (case en_loads env args of
          Some (JObj d) \<Rightarrow> en_dumps env (JObj (fst (sanitize_tool_input name d)))
        | _ \<Rightarrow> args))"

section \<open>Usage\<close>

text \<open>A value that can be compared with a number, and the exception otherwise.\<close>

fun number :: "json \<Rightarrow> rat option" where
  "number (JInt i) = Some (of_int i)"
| "number (JBool b) = Some (if b then 1 else 0)"
| "number (JFloat r) = Some r"
| "number _ = None"

definition get_or :: "jobj \<Rightarrow> string \<Rightarrow> json \<Rightarrow> json" where
  "get_or d k v = (case dget d k of Some x \<Rightarrow> x | None \<Rightarrow> v)"

definition or_zero :: "json \<Rightarrow> json" where
  "or_zero v = (if truthy v then v else JInt 0)"

text \<open>The Anthropic fields of an OpenAI prompt count, which includes the cache reads and writes.\<close>

definition anthropic_cache_usage :: "json \<Rightarrow> json \<Rightarrow> json \<Rightarrow> jobj" where
  "anthropic_cache_usage prompt cached written =
     [(''input_tokens'', (case (prompt, cached, written) of
         (JInt p, JInt c, JInt w) \<Rightarrow> JInt (max (p - c - w) 0)
       | _ \<Rightarrow> prompt)),
      (''cache_creation_input_tokens'', written), (''cache_read_input_tokens'', cached)]"

definition keep_positive :: "string \<Rightarrow> json \<Rightarrow> act" where
  "keep_positive k v s =
     (case number v of
        None \<Rightarrow> (Some Raised, s)
      | Some r \<Rightarrow> (None, if 0 < r then s\<lparr>ss_usage := dset (ss_usage s) k v\<rparr> else s))"

definition announce_input :: "stream_env \<Rightarrow> json \<Rightarrow> json \<Rightarrow> json \<Rightarrow> act" where
  "announce_input env prompt cached written s =
     (case number prompt of
        None \<Rightarrow> (Some Raised, s)
      | Some r \<Rightarrow>
          (if 0 < r \<and> eq_int (jget (ss_usage s) ''input_tokens'') 0
           then yields env (MessageDelta None (Some (anthropic_cache_usage prompt cached written)))
             (s\<lparr>ss_usage := dset (ss_usage s) ''input_tokens'' prompt\<rparr>)
           else (None, s)))"

definition keep_cost :: "jobj \<Rightarrow> act" where
  "keep_cost u s =
     (None, if jget u ''reported_cost_micros'' = JNull then s
        else s\<lparr>ss_usage := dset (ss_usage s) ''reported_cost_micros'' (jget u ''reported_cost_micros'')\<rparr>)"

definition on_usage :: "stream_env \<Rightarrow> jobj \<Rightarrow> act" where
  "on_usage env u =
     (let prompt = get_or u ''prompt_tokens'' (JInt 0); completion = get_or u ''completion_tokens'' (JInt 0);
          cached = or_zero (get_or u ''cached_tokens'' (JInt 0)); written = or_zero (get_or u ''cache_write_tokens'' (JInt 0))
      in run_acts
        [\<lambda>s. (None, s\<lparr>ss_final_usage := True\<rparr>),
         keep_positive ''cached_tokens'' cached,
         keep_positive ''cache_write_tokens'' written,
         announce_input env prompt cached written,
         keep_positive ''output_tokens'' completion,
         keep_cost u])"

section \<open>Content\<close>

definition args_delta :: "stream_env \<Rightarrow> int \<Rightarrow> tool_info \<Rightarrow> sse list" where
  "args_delta env b ti =
     (if ti_args ti = [] then []
      else (let j = sanitize_arguments env (ti_name ti) (ti_args ti) in if j = [] then [] else [BlockDelta b (JsonDelta j)]))"

definition close_tool :: "stream_env \<Rightarrow> tool_info \<Rightarrow> sse list" where
  "close_tool env ti =
     (case ti_block ti of
        None \<Rightarrow> []
      | Some b \<Rightarrow> (if ti_buffer ti then args_delta env b ti else []) @ [BlockStop b])"

definition started_tools :: "stream_state \<Rightarrow> tool_info list" where
  "started_tools s = filter (\<lambda>ti. ti_block ti \<noteq> None) (map snd (ss_tools s))"

definition close_events :: "stream_env \<Rightarrow> stream_state \<Rightarrow> sse list" where
  "close_events env s = concat (map (close_tool env) (sort_key (\<lambda>ti. the (ti_block ti)) (started_tools s)))"

definition close_tools :: "stream_env \<Rightarrow> act" where
  "close_tools env s = yields_all env (close_events env s) s"

definition leave_tools :: "stream_env \<Rightarrow> act" where
  "leave_tools env s =
     (if ss_type s = Some InTool
      then run_acts [close_tools env, \<lambda>s. (None, s\<lparr>ss_tools := [], ss_type := None\<rparr>)] s
      else (None, s))"

definition open_text :: "stream_env \<Rightarrow> act" where
  "open_text env s =
     (if ss_text_started s then (None, s)
      else yields env (BlockStart (ss_index s + 1) TextBlock)
        (s\<lparr>ss_first := True, ss_index := ss_index s + 1, ss_type := Some InText, ss_text_started := True\<rparr>))"

definition on_text :: "stream_env \<Rightarrow> string \<Rightarrow> act" where
  "on_text env t =
     run_acts [leave_tools env, open_text env, \<lambda>s. yields env (BlockDelta (ss_index s) (TextDelta t)) s]"

definition stop_text :: "stream_env \<Rightarrow> act" where
  "stop_text env s =
     (if ss_type s = Some InText \<and> ss_text_started s
      then run_acts [yields env (BlockStop (ss_index s)), \<lambda>s. (None, s\<lparr>ss_type := None, ss_text_started := False\<rparr>)] s
      else (None, s))"

text \<open>A tool block begins: with the first fragment, or when the name arrives after the id.\<close>

definition begin_tool :: "stream_env \<Rightarrow> json \<Rightarrow> tool_info \<Rightarrow> json \<Rightarrow> act" where
  "begin_tool env k ti name s =
     (let i = ss_index s + 1;
          s1 = s\<lparr>ss_first := True, ss_index := i, ss_type := Some InTool\<rparr>
      in if \<not> hashable name then (Some Raised, s1)
         else yields env (BlockStart i (ToolBlock (ti_id ti) name))
           (s1\<lparr>ss_tools := dset (ss_tools s1) k (ti\<lparr>ti_name := name, ti_block := Some i, ti_buffer := buffers_args name\<rparr>)\<rparr>))"

definition append_args :: "stream_env \<Rightarrow> json \<Rightarrow> json \<Rightarrow> act" where
  "append_args env k args s =
     (case dget (ss_tools s) k of
        None \<Rightarrow> (None, s)
      | Some ti \<Rightarrow>
          (case ti_block ti of
             None \<Rightarrow> (None, s)
           | Some b \<Rightarrow>
               (if \<not> truthy args then (None, s)
                else (case args of
                    JStr a \<Rightarrow>
                      (let s1 = s\<lparr>ss_tools := dset (ss_tools s) k (ti\<lparr>ti_args := ti_args ti @ a\<rparr>)\<rparr>
                       in if ti_buffer ti then (None, s1) else yields env (BlockDelta b (JsonDelta a)) s1)
                  | _ \<Rightarrow> (Some Raised, s)))))"

definition new_tool :: "json \<Rightarrow> tool_info" where
  "new_tool i = \<lparr>ti_id = i, ti_name = JNull, ti_args = [], ti_block = None, ti_buffer = False\<rparr>"

text \<open>
  One fragment of a tool call. Fragments are told apart by their index; an id that is not a text is
  compared by its value.
\<close>

definition on_tool_delta :: "stream_env \<Rightarrow> json \<Rightarrow> act" where
  "on_tool_delta env tc s =
     (case tc of
        JObj d \<Rightarrow>
          (let index = get_or d ''index'' (JInt 0); tid = jget d ''id'';
               func = (let f = get_or d ''function'' (JObj []) in if truthy f then f else JObj [])
           in (case func of
               JObj f \<Rightarrow>
                 (let name = jget f ''name''; args = jget f ''arguments''; k = hash_key index in
                  if \<not> hashable index then (Some Raised, s)
                  else (case dget (ss_tools s) k of
                      None \<Rightarrow>
                        (if truthy tid \<and> truthy name
                         then run_acts [begin_tool env k (new_tool tid) name, append_args env k args] s
                         else if truthy tid
                         then append_args env k args (s\<lparr>ss_tools := dset (ss_tools s) k (new_tool tid)\<rparr>)
                         else (None, s))
                    | Some ti \<Rightarrow>
                        (if truthy name \<and> ti_name ti = JNull \<and> hash_key (ti_id ti) = hash_key tid
                         then run_acts [begin_tool env k ti name, append_args env k args] s
                         else append_args env k args s)))
             | _ \<Rightarrow> (Some Raised, s)))
      | _ \<Rightarrow> (None, s))"

definition on_tools :: "stream_env \<Rightarrow> json list \<Rightarrow> act" where
  "on_tools env tcs = run_acts (stop_text env # map (on_tool_delta env) tcs)"

section \<open>Chunks\<close>

definition stop_reason_of :: "json \<Rightarrow> string" where
  "stop_reason_of v =
     (if v = JStr ''stop'' then ''end_turn'' else if v = JStr ''length'' then ''max_tokens''
      else if v = JStr ''tool_calls'' then ''tool_use'' else if v = JStr ''content_filter'' then ''content_filtered''
      else ''end_turn'')"

definition on_finish :: "json \<Rightarrow> act" where
  "on_finish reason s =
     (if \<not> truthy reason then (None, s)
      else if \<not> hashable reason then (Some Raised, s)
      else (None, s\<lparr>ss_stop := Some (stop_reason_of reason)\<rparr>))"

definition on_choice :: "stream_env \<Rightarrow> jobj \<Rightarrow> act" where
  "on_choice env choice s =
     (case (let d = get_or choice ''delta'' (JObj []) in if truthy d then d else JObj []) of
        JObj delta \<Rightarrow>
          run_acts
            [case jget delta ''content'' of JStr t \<Rightarrow> if t = [] then skip else on_text env t | _ \<Rightarrow> skip,
             case jget delta ''tool_calls'' of JList tcs \<Rightarrow> if tcs = [] then skip else on_tools env tcs | _ \<Rightarrow> skip,
             on_finish (jget choice ''finish_reason'')] s
      | _ \<Rightarrow> (Some Raised, s))"

definition on_choices :: "stream_env \<Rightarrow> json \<Rightarrow> act" where
  "on_choices env choices =
     (case choices of JList (JObj choice # _) \<Rightarrow> on_choice env choice | _ \<Rightarrow> skip)"

definition on_error :: "stream_env \<Rightarrow> json \<Rightarrow> act" where
  "on_error env e s =
     (let s1 = s\<lparr>ss_failed := True\<rparr> in
      case e of
        JObj d \<Rightarrow>
          run_acts
            [yields env (ErrorEvent (get_or d ''type'' (JStr ''api_error'')) (get_or d ''message'' (JStr ''Unknown streaming error''))),
             \<lambda>s. (Some Returned, s)]
            (s1\<lparr>ss_error := Some (get_or d ''type'' (JStr ''stream_error''))\<rparr>)
      | _ \<Rightarrow> (Some Raised, s1))"

definition on_chunk :: "stream_env \<Rightarrow> json \<Rightarrow> act" where
  "on_chunk env chunk s =
     (case chunk of
        JObj c \<Rightarrow>
          (if jget c ''_provider_meta'' \<noteq> JNull
           then (None, case jget c ''_provider_meta'' of JObj m \<Rightarrow> s\<lparr>ss_meta := Some m\<rparr> | _ \<Rightarrow> s)
           else (case dget c ''error'' of
               Some e \<Rightarrow> on_error env e s
             | None \<Rightarrow>
                 run_acts
                   [case jget c ''usage'' of JObj u \<Rightarrow> if u = [] then skip else on_usage env u | _ \<Rightarrow> skip,
                    on_choices env (jget c ''choices'')] s))
      | _ \<Rightarrow> (None, s))"

text \<open>How the backend's stream ends when the loop has not ended before.\<close>

datatype source_end = SourceEnds | SourceRaises | SourceCancelled

fun on_chunks :: "stream_env \<Rightarrow> source_end \<Rightarrow> json list \<Rightarrow> act" where
  "on_chunks env src [] s =
     (case src of SourceEnds \<Rightarrow> (None, s) | SourceRaises \<Rightarrow> (Some Raised, s) | SourceCancelled \<Rightarrow> (Some ClientGone, s))"
| "on_chunks env src (c # cs) s =
     (case on_chunk env c s of
        (Some h, s') \<Rightarrow> (Some h, s')
      | (None, s') \<Rightarrow> if ss_stop s' \<noteq> None then (None, s') else on_chunks env src cs s')"

definition close_last :: "stream_env \<Rightarrow> act" where
  "close_last env s =
     (if ss_type s = Some InText \<and> ss_text_started s then yields env (BlockStop (ss_index s)) s
      else if ss_type s = Some InTool then close_tools env s
      else (None, s))"

definition final_delta :: "stream_env \<Rightarrow> act" where
  "final_delta env s =
     (let reason = (case ss_stop s of Some r \<Rightarrow> r | None \<Rightarrow> ''end_turn'');
          input = get_or (ss_usage s) ''input_tokens'' (JInt 0); output = get_or (ss_usage s) ''output_tokens'' (JInt 0);
          usage = Some (dset (anthropic_cache_usage input (get_or (ss_usage s) ''cached_tokens'' (JInt 0))
            (get_or (ss_usage s) ''cache_write_tokens'' (JInt 0))) ''output_tokens'' output);
          s1 = s\<lparr>ss_stop := Some reason\<rparr>
      in (case number input of
            None \<Rightarrow> (Some Raised, s1)
          | Some i \<Rightarrow>
              (if 0 < i then yields env (MessageDelta (Some reason) usage) s1
               else (case number output of
                   None \<Rightarrow> (Some Raised, s1)
                 | Some j \<Rightarrow> yields env (MessageDelta (Some reason) (if 0 < j then usage else None)) s1))))"

definition stream_body :: "stream_env \<Rightarrow> source_end \<Rightarrow> json list \<Rightarrow> act" where
  "stream_body env src chunks = run_acts [on_chunks env src chunks, close_last env, final_delta env, yields env MessageStop]"

text \<open>The call of \<open>on_complete\<close> in the \<open>finally\<close> block.\<close>

record completion =
  co_usage :: jobj
  co_failed :: bool
  co_error :: "json option"
  co_meta :: "jobj option"
  co_first :: bool
  co_final_usage :: bool
  co_disconnected :: bool

definition completion_of :: "stream_state \<Rightarrow> completion" where
  "completion_of s =
     \<lparr>co_usage = ss_usage s, co_failed = ss_failed s, co_error = ss_error s, co_meta = ss_meta s, co_first = ss_first s,
      co_final_usage = ss_final_usage s, co_disconnected = ss_gone s\<rparr>"

text \<open>The handlers: what the generator yields in all, the completions, and whether it raises.\<close>

definition stream_failed :: "stream_env \<Rightarrow> stream_state \<Rightarrow> halt option \<times> stream_state" where
  "stream_failed env s =
     run_acts [yields env (ErrorEvent (JStr ''internal_server_error'') (JStr ''Stream processing error'')), yields env MessageStop]
       (s\<lparr>ss_failed := True, ss_error := Some (JStr ''internal_error'')\<rparr>)"

definition convert_stream :: "stream_env \<Rightarrow> source_end \<Rightarrow> json list \<Rightarrow> sse list \<times> completion list \<times> bool" where
  "convert_stream env src chunks =
     (case yields_all env [MessageStart, Ping] initial_stream of
        (Some _, s) \<Rightarrow> (ss_out s, [], True)
      | (None, s) \<Rightarrow>
          (case stream_body env src chunks s of
             (None, s') \<Rightarrow> (ss_out s', [completion_of s'], False)
           | (Some Returned, s') \<Rightarrow> (ss_out s', [completion_of s'], False)
           | (Some ClientGone, s') \<Rightarrow> (ss_out s', [completion_of (s'\<lparr>ss_gone := True\<rparr>)], True)
           | (Some Raised, s') \<Rightarrow>
               (case stream_failed env s' of (h, s'') \<Rightarrow> (ss_out s'', [completion_of s''], h \<noteq> None))))"

section \<open>The protocol\<close>

text \<open>
  What a client of the Anthropic protocol relies on: blocks are numbered in the order they start, only a
  block that is open gets deltas, of its kind, or a stop, and the message ends with all blocks closed,
  after its stop reason; or it breaks off with an error.
\<close>

datatype phase = Expecting | Running | Ending | Broken | Closed

record protocol =
  pr_phase :: phase
  pr_next :: int
  pr_blocks :: "(int, bool) dict"

fun accept :: "sse \<Rightarrow> protocol \<Rightarrow> protocol option" where
  "accept MessageStart p = (if pr_phase p = Expecting then Some (p\<lparr>pr_phase := Running\<rparr>) else None)"
| "accept Ping p = (if pr_phase p = Running then Some p else None)"
| "accept (BlockStart i b) p =
     (if pr_phase p = Running \<and> i = pr_next p
      then Some (p\<lparr>pr_next := i + 1, pr_blocks := dset (pr_blocks p) i (b \<noteq> TextBlock)\<rparr>) else None)"
| "accept (BlockDelta i d) p =
     (if pr_phase p = Running \<and> dget (pr_blocks p) i = Some (case d of TextDelta _ \<Rightarrow> False | JsonDelta _ \<Rightarrow> True)
      then Some p else None)"
| "accept (BlockStop i) p =
     (if pr_phase p = Running \<and> dget (pr_blocks p) i \<noteq> None then Some (p\<lparr>pr_blocks := ddel (pr_blocks p) i\<rparr>) else None)"
| "accept (MessageDelta None _) p = (if pr_phase p = Running then Some p else None)"
| "accept (MessageDelta (Some _) _) p =
     (if pr_phase p = Running \<and> pr_blocks p = [] then Some (p\<lparr>pr_phase := Ending\<rparr>) else None)"
| "accept (ErrorEvent _ _) p = (if pr_phase p = Running then Some (p\<lparr>pr_phase := Broken\<rparr>) else None)"
| "accept MessageStop p = (if pr_phase p \<in> {Ending, Broken} then Some (p\<lparr>pr_phase := Closed\<rparr>) else None)"

definition accepts :: "sse list \<Rightarrow> protocol option" where
  "accepts es = fold (\<lambda>e p. Option.bind p (accept e)) es (Some \<lparr>pr_phase = Expecting, pr_next = 0, pr_blocks = []\<rparr>)"

lemma accepts_snoc: "accepts (es @ [e]) = Option.bind (accepts es) (accept e)"
  by (simp add: accepts_def)

section \<open>Actions\<close>

text \<open>How an action may end the stream, and what it establishes when it does not.\<close>

definition stopped :: "halt \<Rightarrow> stream_state \<Rightarrow> bool" where
  "stopped h s \<longleftrightarrow>
     (case h of
        ClientGone \<Rightarrow> accepts (ss_out s) \<noteq> None
      | Raised \<Rightarrow> (\<exists>p. accepts (ss_out s) = Some p \<and> pr_phase p = Running)
      | Returned \<Rightarrow> ss_failed s \<and> (\<exists>p. accepts (ss_out s) = Some p \<and> pr_phase p = Broken))"

definition hoare :: "(stream_state \<Rightarrow> bool) \<Rightarrow> act \<Rightarrow> (stream_state \<Rightarrow> bool) \<Rightarrow> bool" where
  "hoare P a Q \<longleftrightarrow> (\<forall>s. P s \<longrightarrow> (case a s of (None, s') \<Rightarrow> Q s' | (Some h, s') \<Rightarrow> stopped h s'))"

lemma hoareI: "(\<And>s. P s \<Longrightarrow> (case a s of (None, s') \<Rightarrow> Q s' | (Some h, s') \<Rightarrow> stopped h s')) \<Longrightarrow> hoare P a Q"
  by (simp add: hoare_def)

lemma hoareD: "hoare P a Q \<Longrightarrow> P s \<Longrightarrow> (case a s of (None, s') \<Rightarrow> Q s' | (Some h, s') \<Rightarrow> stopped h s')"
  by (simp add: hoare_def)

lemma hoare_Nil: "hoare P (run_acts []) P"
  by (rule hoareI) simp

lemma hoare_Cons: "hoare P a Q \<Longrightarrow> hoare Q (run_acts as) R \<Longrightarrow> hoare P (run_acts (a # as)) R"
  by (rule hoareI, drule (1) hoareD) (auto simp: hoare_def split: prod.splits option.splits)

lemma hoare_keeps: "(\<And>a. a \<in> set as \<Longrightarrow> hoare P a P) \<Longrightarrow> hoare P (run_acts as) P"
  by (induction as) (auto intro: hoare_Nil hoare_Cons)

lemma hoare_skip: "hoare P skip P"
  by (rule hoareI) (simp add: skip_def)

section \<open>The invariant\<close>

definition tool_blocks :: "(json, tool_info) dict \<Rightarrow> int list" where
  "tool_blocks d = List.map_filter (ti_block \<circ> snd) d"

definition open_at :: "stream_state \<Rightarrow> int \<Rightarrow> bool option" where
  "open_at s i =
     (if ss_text_started s \<and> i = ss_index s then Some False else if i \<in> set (tool_blocks (ss_tools s)) then Some True else None)"

text \<open>A tool whose name has not arrived has not started.\<close>

definition unnamed_idle :: "(json, tool_info) dict \<Rightarrow> bool" where
  "unnamed_idle d \<longleftrightarrow> (\<forall>ti \<in> snd ` set d. ti_name ti = JNull \<longrightarrow> ti_block ti = None)"

definition tracks :: "protocol \<Rightarrow> stream_state \<Rightarrow> bool" where
  "tracks p s \<longleftrightarrow> pr_phase p = Running \<and> pr_next p = ss_index s + 1 \<and> (\<forall>i. dget (pr_blocks p) i = open_at s i) \<and>
     distinct (tool_blocks (ss_tools s)) \<and> (\<forall>i \<in> set (tool_blocks (ss_tools s)). i \<le> ss_index s) \<and>
     (ss_text_started s \<longleftrightarrow> ss_type s = Some InText) \<and> (tool_blocks (ss_tools s) \<noteq> [] \<longrightarrow> ss_type s = Some InTool) \<and>
     unnamed_idle (ss_tools s) \<and> \<not> ss_failed s \<and> \<not> ss_gone s"

definition streaming :: "stream_state \<Rightarrow> bool" where
  "streaming s \<longleftrightarrow> (\<exists>p. accepts (ss_out s) = Some p \<and> tracks p s)"

lemma stopped_raised: "streaming s \<Longrightarrow> ss_out s' = ss_out s \<Longrightarrow> stopped Raised s'"
  by (auto simp: streaming_def tracks_def stopped_def)

lemma tracks_cong:
  assumes "ss_index s' = ss_index s" "ss_type s' = ss_type s" "ss_text_started s' = ss_text_started s" "ss_tools s' = ss_tools s"
    "ss_failed s' = ss_failed s" "ss_gone s' = ss_gone s"
  shows "tracks p s' = tracks p s"
  unfolding tracks_def open_at_def assms ..

lemma streaming_cong:
  assumes "ss_out s' = ss_out s" "ss_index s' = ss_index s" "ss_type s' = ss_type s" "ss_text_started s' = ss_text_started s"
    "ss_tools s' = ss_tools s" "ss_failed s' = ss_failed s" "ss_gone s' = ss_gone s"
  shows "streaming s' = streaming s"
  unfolding streaming_def tracks_cong [OF assms(2-7)] assms(1) ..

text \<open>The step of the client's protocol at a yield.\<close>

lemma yields_step:
  assumes "accepts (ss_out s) = Some p" "accept e p = Some q" "tracks q (s\<lparr>ss_out := ss_out s @ [e]\<rparr>)"
  shows "case yields env e s of (None, s') \<Rightarrow> streaming s' | (Some h, s') \<Rightarrow> stopped h s'"
proof -
  have "accepts (ss_out s @ [e]) = Some q" using assms(1,2) by (simp add: accepts_snoc)
  with assms(3) show ?thesis by (auto simp: yields_def stopped_def streaming_def)
qed

lemma yields_plain:
  assumes "streaming s" "\<And>p. tracks p s \<Longrightarrow> accept e p = Some p"
  shows "case yields env e s of (None, s') \<Rightarrow> streaming s' | (Some h, s') \<Rightarrow> stopped h s'"
proof -
  from assms(1) obtain p where p: "accepts (ss_out s) = Some p" "tracks p s" by (auto simp: streaming_def)
  moreover have "tracks p (s\<lparr>ss_out := ss_out s @ [e]\<rparr>)" using p(2) tracks_cong [of "s\<lparr>ss_out := ss_out s @ [e]\<rparr>" s p] by simp
  ultimately show ?thesis by (intro yields_step [OF p(1) assms(2) [OF p(2)]])
qed

section \<open>The operations keep the invariant\<close>

lemma hoare_local:
  assumes "\<And>s. fst (a s) = None \<or> fst (a s) = Some Raised"
    and "\<And>s. ss_out (snd (a s)) = ss_out s" "\<And>s. ss_index (snd (a s)) = ss_index s" "\<And>s. ss_type (snd (a s)) = ss_type s"
    and "\<And>s. ss_text_started (snd (a s)) = ss_text_started s" "\<And>s. ss_tools (snd (a s)) = ss_tools s"
    and "\<And>s. ss_failed (snd (a s)) = ss_failed s" "\<And>s. ss_gone (snd (a s)) = ss_gone s"
  shows "hoare streaming a streaming"
proof (rule hoareI)
  fix s assume s: "streaming s"
  have "streaming (snd (a s))" using s streaming_cong [of "snd (a s)" s] assms(2-8) by simp
  moreover have "stopped Raised (snd (a s))" using stopped_raised [OF s] assms(2) by simp
  ultimately show "case a s of (None, s') \<Rightarrow> streaming s' | (Some h, s') \<Rightarrow> stopped h s'"
    using assms(1) [of s] by (cases "a s") auto
qed

lemma hoare_keep_positive: "hoare streaming (keep_positive k v) streaming"
  by (rule hoare_local) (auto simp: keep_positive_def split: option.splits)

lemma hoare_keep_cost: "hoare streaming (keep_cost u) streaming"
  by (rule hoare_local) (auto simp: keep_cost_def)

lemma hoare_final_usage: "hoare streaming (\<lambda>s. (None, s\<lparr>ss_final_usage := True\<rparr>)) streaming"
  by (rule hoare_local) auto

lemma hoare_on_finish: "hoare streaming (on_finish r) streaming"
  by (rule hoare_local) (auto simp: on_finish_def)

lemma hoare_announce_input: "hoare streaming (announce_input env p c w) streaming"
proof (rule hoareI)
  fix s assume s: "streaming s"
  have "streaming (s\<lparr>ss_usage := u\<rparr>)" for u using s streaming_cong [of "s\<lparr>ss_usage := u\<rparr>" s] by simp
  then have "case yields env (MessageDelta None x) (s\<lparr>ss_usage := u\<rparr>) of (None, s') \<Rightarrow> streaming s' | (Some h, s') \<Rightarrow> stopped h s'" for x u
    by (rule yields_plain) (simp add: tracks_def)
  with s show "case announce_input env p c w s of (None, s') \<Rightarrow> streaming s' | (Some h, s') \<Rightarrow> stopped h s'"
    by (simp add: announce_input_def stopped_raised split: option.split)
qed

lemma hoare_on_usage: "hoare streaming (on_usage env u) streaming"
  unfolding on_usage_def Let_def
  by (rule hoare_keeps) (auto intro: hoare_keep_positive hoare_keep_cost hoare_final_usage hoare_announce_input)
lemma tool_blocks_simps [simp]:
  "tool_blocks [] = []"
  "tool_blocks (p # d) = (case ti_block (snd p) of Some i \<Rightarrow> i # tool_blocks d | None \<Rightarrow> tool_blocks d)"
  by (simp_all add: tool_blocks_def map_filter_def split: option.split)

lemma tool_blocks_begin:
  "(\<And>ti. dget d k = Some ti \<Longrightarrow> ti_block ti = None) \<Longrightarrow> ti_block ti' = Some i \<Longrightarrow>
   mset (tool_blocks (dset d k ti')) = add_mset i (mset (tool_blocks d))"
  by (induction d) (auto split: option.split if_splits)

lemma tool_blocks_same:
  "(case dget d k of Some ti \<Rightarrow> ti_block ti | None \<Rightarrow> None) = ti_block ti' \<Longrightarrow> tool_blocks (dset d k ti') = tool_blocks d"
  by (induction d) (auto split: option.splits if_splits)

lemma started_blocks: "map (\<lambda>ti. the (ti_block ti)) (started_tools s) = tool_blocks (ss_tools s)"
proof -
  have "map (\<lambda>ti. the (ti_block ti)) (filter (\<lambda>ti. ti_block ti \<noteq> None) (map snd d)) = tool_blocks d" for d :: "(json, tool_info) dict"
    by (induction d) (auto split: option.split)
  then show ?thesis by (simp only: started_tools_def)
qed

lemma accepts_prefix: "accepts (xs @ ys) \<noteq> None \<Longrightarrow> accepts xs \<noteq> None"
proof (induction ys rule: rev_induct)
  case (snoc y ys)
  then show ?case unfolding append_assoc [symmetric] accepts_snoc by (cases "accepts (xs @ ys)") auto
qed simp

lemma yields_all_cases:
  "yields_all env es s = (None, s\<lparr>ss_out := ss_out s @ es\<rparr>) \<or>
   (\<exists>ys zs. es = ys @ zs \<and> yields_all env es s = (Some ClientGone, s\<lparr>ss_out := ss_out s @ ys\<rparr>))"
proof (induction es arbitrary: s)
  case (Cons e es)
  show ?case
  proof (cases "en_gone env = Some (length (ss_out s))")
    case True
    then have "yields_all env (e # es) s = (Some ClientGone, s\<lparr>ss_out := ss_out s @ [e]\<rparr>)" by (simp add: yields_all_def yields_def)
    then show ?thesis by (metis append_Cons append_Nil)
  next
    case False
    then have eq: "yields_all env (e # es) s = yields_all env es (s\<lparr>ss_out := ss_out s @ [e]\<rparr>)"
      by (simp add: yields_all_def yields_def)
    consider "yields_all env es (s\<lparr>ss_out := ss_out s @ [e]\<rparr>) = (None, s\<lparr>ss_out := ss_out s @ e # es\<rparr>)"
      | ys zs where "es = ys @ zs" "yields_all env es (s\<lparr>ss_out := ss_out s @ [e]\<rparr>) = (Some ClientGone, s\<lparr>ss_out := ss_out s @ e # ys\<rparr>)"
      using Cons.IH [of "s\<lparr>ss_out := ss_out s @ [e]\<rparr>"] by auto
    then show ?thesis
    proof cases
      case 2
      then show ?thesis using eq by (intro disjI2 exI [of _ "e # ys"] exI [of _ zs]) simp
    qed (simp add: eq)
  qed
qed (simp add: yields_all_def)

text \<open>The tools are closed one by one, in the order of their blocks.\<close>

lemma accepts_args_delta:
  "accepts es = Some p \<Longrightarrow> pr_phase p = Running \<Longrightarrow> dget (pr_blocks p) b = Some True \<Longrightarrow>
   accepts (es @ args_delta env b ti) = Some p"
  by (simp add: args_delta_def Let_def accepts_snoc)

lemma accepts_close_tool:
  assumes "accepts es = Some p" "pr_phase p = Running" "ti_block ti = Some b" "dget (pr_blocks p) b = Some True"
  shows "accepts (es @ close_tool env ti) = Some (p\<lparr>pr_blocks := ddel (pr_blocks p) b\<rparr>)"
proof -
  have "accepts (es @ (if ti_buffer ti then args_delta env b ti else [])) = Some p"
    using accepts_args_delta [OF assms(1,2,4)] assms(1) by simp
  then have "accepts ((es @ (if ti_buffer ti then args_delta env b ti else [])) @ [BlockStop b]) =
      Some (p\<lparr>pr_blocks := ddel (pr_blocks p) b\<rparr>)"
    unfolding accepts_snoc using assms(2,4) by simp
  then show ?thesis by (simp add: close_tool_def assms(3))
qed

lemma accepts_close_tools:
  "accepts es = Some p \<Longrightarrow> pr_phase p = Running \<Longrightarrow> distinct (map (\<lambda>ti. the (ti_block ti)) ts) \<Longrightarrow>
   (\<And>ti. ti \<in> set ts \<Longrightarrow> \<exists>b. ti_block ti = Some b \<and> dget (pr_blocks p) b = Some True) \<Longrightarrow>
   \<exists>q. accepts (es @ concat (map (close_tool env) ts)) = Some q \<and> pr_phase q = Running \<and> pr_next q = pr_next p \<and>
     (\<forall>i. dget (pr_blocks q) i = (if i \<in> (\<lambda>ti. the (ti_block ti)) ` set ts then None else dget (pr_blocks p) i))"
proof (induction ts arbitrary: es p)
  case (Cons t ts)
  obtain b where b: "ti_block t = Some b" "dget (pr_blocks p) b = Some True" using Cons.prems(4) [of t] by auto
  let ?p = "p\<lparr>pr_blocks := ddel (pr_blocks p) b\<rparr>"
  have other: "\<exists>b'. ti_block ti = Some b' \<and> dget (pr_blocks ?p) b' = Some True" if ti: "ti \<in> set ts" for ti
  proof -
    obtain b' where b': "ti_block ti = Some b'" "dget (pr_blocks p) b' = Some True" using Cons.prems(4) [of ti] ti by auto
    have "the (ti_block t) \<notin> (\<lambda>ti. the (ti_block ti)) ` set ts" using Cons.prems(3) by simp
    with ti have "the (ti_block ti) \<noteq> the (ti_block t)" by (metis rev_image_eqI)
    with b b' show ?thesis by (simp add: delete_conv)
  qed
  have "accepts (es @ close_tool env t) = Some ?p" by (rule accepts_close_tool [OF Cons.prems(1,2) b])
  moreover have "pr_phase ?p = Running" "distinct (map (\<lambda>ti. the (ti_block ti)) ts)" using Cons.prems(2,3) by simp_all
  ultimately obtain q where q: "accepts ((es @ close_tool env t) @ concat (map (close_tool env) ts)) = Some q" "pr_phase q = Running"
    "pr_next q = pr_next ?p" "\<forall>i. dget (pr_blocks q) i = (if i \<in> (\<lambda>ti. the (ti_block ti)) ` set ts then None else dget (pr_blocks ?p) i)"
    using Cons.IH [OF _ _ _ other] by blast
  have "dget (pr_blocks q) i = (if i \<in> (\<lambda>ti. the (ti_block ti)) ` set (t # ts) then None else dget (pr_blocks p) i)" for i
    using q(4) b(1) by (cases "i = b") (simp_all add: delete_conv)
  with q(1-3) show ?case by (intro exI [of _ q]) simp
qed auto
lemma unnamed_idle_simps [simp]: "unnamed_idle []"
  by (simp add: unnamed_idle_def)

lemma unnamed_idle_dset: "unnamed_idle d \<Longrightarrow> (ti_name ti = JNull \<Longrightarrow> ti_block ti = None) \<Longrightarrow> unnamed_idle (dset d k ti)"
  using set_dset_subset [of k ti d] by (fastforce simp: unnamed_idle_def)

lemma unnamed_idleD: "unnamed_idle d \<Longrightarrow> dget d k = Some ti \<Longrightarrow> ti_name ti = JNull \<Longrightarrow> ti_block ti = None"
  by (drule dget_mem) (force simp: unnamed_idle_def)

text \<open>All tools are closed: no block but the text is open any more.\<close>

lemma close_tools_closes:
  assumes "streaming s" "ss_type s = Some InTool"
  shows "\<exists>q. accepts (ss_out s @ close_events env s) = Some q \<and> pr_phase q = Running \<and> pr_next q = ss_index s + 1 \<and> pr_blocks q = []"
proof -
  from assms obtain p where p: "accepts (ss_out s) = Some p" "tracks p s" by (auto simp: streaming_def)
  let ?ts = "sort_key (\<lambda>ti. the (ti_block ti)) (started_tools s)"
  have blocks: "mset (map (\<lambda>ti. the (ti_block ti)) ?ts) = mset (tool_blocks (ss_tools s))"
    using started_blocks [of s] by (metis mset_map mset_sort)
  have d: "distinct (map (\<lambda>ti. the (ti_block ti)) ?ts)"
    unfolding mset_eq_imp_distinct_iff [OF blocks] using p(2) by (simp add: tracks_def)
  have set_eq: "(\<lambda>ti. the (ti_block ti)) ` set ?ts = set (tool_blocks (ss_tools s))"
    using blocks by (metis mset_eq_setD set_map)
  have "\<exists>b. ti_block ti = Some b \<and> dget (pr_blocks p) b = Some True" if "ti \<in> set ?ts" for ti
  proof -
    from that have "ti_block ti \<noteq> None" by (simp add: started_tools_def)
    moreover have "the (ti_block ti) \<in> set (tool_blocks (ss_tools s))" using that set_eq by blast
    ultimately show ?thesis using p(2) assms(2) by (auto simp: tracks_def open_at_def)
  qed
  moreover have "pr_phase p = Running" using p(2) by (simp add: tracks_def)
  ultimately obtain q where
    q: "accepts (ss_out s @ concat (map (close_tool env) ?ts)) = Some q" "pr_phase q = Running" "pr_next q = pr_next p"
      "\<forall>i. dget (pr_blocks q) i = (if i \<in> (\<lambda>ti. the (ti_block ti)) ` set ?ts then None else dget (pr_blocks p) i)"
    using accepts_close_tools [OF p(1) _ d, of env] by blast
  have "dget (pr_blocks q) i = None" for i
    using q(4) p(2) assms(2) unfolding set_eq by (simp add: tracks_def open_at_def)
  then have "pr_blocks q = []" by (metis dget_None_iff list.set_intros(1) neq_Nil_conv map_is_Nil_conv)
  with q(1-3) p(2) show ?thesis by (intro exI [of _ q]) (simp add: close_events_def tracks_def)
qed

definition after_tools :: "stream_state \<Rightarrow> bool" where
  "after_tools s \<longleftrightarrow> streaming s \<and> ss_type s \<noteq> Some InTool"

lemma hoare_leave_tools: "hoare streaming (leave_tools env) after_tools"
proof (rule hoareI)
  fix s assume s: "streaming s"
  show "case leave_tools env s of (None, s') \<Rightarrow> after_tools s' | (Some h, s') \<Rightarrow> stopped h s'"
  proof (cases "ss_type s = Some InTool")
    case True
    from close_tools_closes [OF s True] obtain q where q: "accepts (ss_out s @ close_events env s) = Some q" "pr_phase q = Running"
      "pr_next q = ss_index s + 1" "pr_blocks q = []" by blast
    have flags: "\<not> ss_text_started s" "\<not> ss_failed s" "\<not> ss_gone s" using s True by (auto simp: streaming_def tracks_def)
    consider "close_tools env s = (None, s\<lparr>ss_out := ss_out s @ close_events env s\<rparr>)"
      | ys zs where "close_events env s = ys @ zs" "close_tools env s = (Some ClientGone, s\<lparr>ss_out := ss_out s @ ys\<rparr>)"
      using yields_all_cases [of env "close_events env s" s] by (auto simp: close_tools_def)
    then show ?thesis
    proof cases
      case 1
      let ?s = "s\<lparr>ss_out := ss_out s @ close_events env s, ss_tools := [], ss_type := None\<rparr>"
      have "tracks q ?s" using q flags by (simp add: tracks_def open_at_def)
      with q(1) have "after_tools ?s" by (simp add: after_tools_def streaming_def)
      with 1 True show ?thesis by (simp add: leave_tools_def)
    next
      case 2
      then have "accepts (ss_out s @ ys) \<noteq> None" using q(1) accepts_prefix [of "ss_out s @ ys" zs] by simp
      with 2 True show ?thesis by (simp add: leave_tools_def stopped_def)
    qed
  qed (use s in \<open>simp add: leave_tools_def after_tools_def\<close>)
qed

lemma hoare_open_text: "hoare after_tools (open_text env) (\<lambda>s. streaming s \<and> ss_text_started s)"
proof (rule hoareI)
  fix s assume s: "after_tools s"
  let ?e = "BlockStart (ss_index s + 1) TextBlock"
  let ?s = "s\<lparr>ss_first := True, ss_index := ss_index s + 1, ss_type := Some InText, ss_text_started := True\<rparr>"
  from s obtain p where p: "accepts (ss_out s) = Some p" "tracks p s" by (auto simp: after_tools_def streaming_def)
  show "case open_text env s of (None, s') \<Rightarrow> streaming s' \<and> ss_text_started s' | (Some h, s') \<Rightarrow> stopped h s'"
  proof (cases "ss_text_started s")
    case False
    have none: "tool_blocks (ss_tools s) = []" using s p(2) by (auto simp: after_tools_def tracks_def)
    let ?q = "p\<lparr>pr_next := ss_index s + 2, pr_blocks := dset (pr_blocks p) (ss_index s + 1) False\<rparr>"
    have acc: "accept ?e p = Some ?q" using p(2) by (simp add: tracks_def)
    have "tracks ?q (?s\<lparr>ss_out := ss_out ?s @ [?e]\<rparr>)" using p(2) False none by (auto simp: tracks_def open_at_def update_conv)
    then have "case yields env ?e ?s of (None, s') \<Rightarrow> streaming s' | (Some h, s') \<Rightarrow> stopped h s'"
      using p(1) by (intro yields_step [OF _ acc]) simp_all
    with False show ?thesis by (auto simp: open_text_def yields_def split: if_splits)
  qed (use s in \<open>simp add: open_text_def after_tools_def\<close>)
qed

lemma hoare_text_delta: "hoare (\<lambda>s. streaming s \<and> ss_text_started s) (\<lambda>s. yields env (BlockDelta (ss_index s) (TextDelta t)) s) streaming"
  by (rule hoareI, rule yields_plain) (auto simp: tracks_def open_at_def)

lemma hoare_on_text: "hoare streaming (on_text env t) streaming"
  unfolding on_text_def
  by (rule hoare_Cons [OF hoare_leave_tools hoare_Cons [OF hoare_open_text hoare_Cons [OF hoare_text_delta hoare_Nil]]])

definition no_text :: "stream_state \<Rightarrow> bool" where
  "no_text s \<longleftrightarrow> streaming s \<and> \<not> ss_text_started s"

lemma hoare_stop_text: "hoare streaming (stop_text env) no_text"
proof (rule hoareI)
  fix s assume s: "streaming s"
  then obtain p where p: "accepts (ss_out s) = Some p" "tracks p s" by (auto simp: streaming_def)
  show "case stop_text env s of (None, s') \<Rightarrow> no_text s' | (Some h, s') \<Rightarrow> stopped h s'"
  proof (cases "ss_text_started s")
    case True
    let ?q = "p\<lparr>pr_blocks := ddel (pr_blocks p) (ss_index s)\<rparr>"
    let ?s = "s\<lparr>ss_out := ss_out s @ [BlockStop (ss_index s)]\<rparr>"
    have type: "ss_type s = Some InText" "tool_blocks (ss_tools s) = []" using True p(2) by (auto simp: tracks_def)
    have acc: "accepts (ss_out ?s) = Some ?q" using p True by (simp add: accepts_snoc tracks_def open_at_def)
    have "tracks ?q (?s\<lparr>ss_type := None, ss_text_started := False\<rparr>)"
      using p(2) type by (auto simp: tracks_def open_at_def delete_conv)
    with acc have "no_text (?s\<lparr>ss_type := None, ss_text_started := False\<rparr>)" by (simp add: no_text_def streaming_def)
    with True type acc show ?thesis by (auto simp: stop_text_def yields_def stopped_def)
  qed (use s in \<open>simp add: stop_text_def no_text_def\<close>)
qed

lemma hoare_begin_tool:
  assumes "\<And>s ti. P s \<Longrightarrow> dget (ss_tools s) k = Some ti \<Longrightarrow> ti_block ti = None" "\<And>s. P s \<Longrightarrow> no_text s"
    and "name \<noteq> JNull"
  shows "hoare P (begin_tool env k ti name) no_text"
proof (rule hoareI)
  fix s assume s: "P s"
  from assms(2) [OF s] obtain p where p: "accepts (ss_out s) = Some p" "tracks p s" "streaming s" "\<not> ss_text_started s"
    by (auto simp: no_text_def streaming_def)
  let ?i = "ss_index s + 1"
  let ?ti = "ti\<lparr>ti_name := name, ti_block := Some ?i, ti_buffer := buffers_args name\<rparr>"
  let ?s1 = "s\<lparr>ss_first := True, ss_index := ?i, ss_type := Some InTool\<rparr>"
  let ?s = "?s1\<lparr>ss_tools := dset (ss_tools s) k ?ti\<rparr>"
  let ?e = "BlockStart ?i (ToolBlock (ti_id ti) name)"
  let ?q = "p\<lparr>pr_next := ?i + 1, pr_blocks := dset (pr_blocks p) ?i True\<rparr>"
  have blocks: "mset (tool_blocks (dset (ss_tools s) k ?ti)) = add_mset ?i (mset (tool_blocks (ss_tools s)))"
    by (rule tool_blocks_begin [OF assms(1) [OF s]]) simp_all
  have acc: "accept ?e p = Some ?q" using p(2) by (simp add: tracks_def)
  have fresh: "?i \<notin> set (tool_blocks (ss_tools s))" using p(2) by (auto simp: tracks_def)
  have set_blocks: "set (tool_blocks (dset (ss_tools s) k ?ti)) = insert ?i (set (tool_blocks (ss_tools s)))"
    using arg_cong [OF blocks, of set_mset] by simp
  have "mset (?i # tool_blocks (ss_tools s)) = mset (tool_blocks (dset (ss_tools s) k ?ti))" using blocks by simp
  then have "distinct (tool_blocks (dset (ss_tools s) k ?ti))"
    using mset_eq_imp_distinct_iff [of "?i # tool_blocks (ss_tools s)"] fresh p(2) by (simp add: tracks_def)
  with set_blocks have "tracks ?q (?s\<lparr>ss_out := ss_out ?s @ [?e]\<rparr>)"
    using p(2,4) assms(3) by (auto simp: tracks_def open_at_def update_conv intro!: unnamed_idle_dset)
  then have y: "case yields env ?e ?s of (None, s') \<Rightarrow> streaming s' | (Some h, s') \<Rightarrow> stopped h s'"
    using p(1) by (intro yields_step [OF _ acc]) simp_all
  show "case begin_tool env k ti name s of (None, s') \<Rightarrow> no_text s' | (Some h, s') \<Rightarrow> stopped h s'"
  proof (cases "hashable name")
    case True
    with y p(4) show ?thesis by (auto simp: begin_tool_def Let_def yields_def no_text_def split: if_splits)
  next
    case False
    moreover have "stopped Raised ?s1" by (rule stopped_raised [OF p(3)]) simp
    ultimately show ?thesis by (simp add: begin_tool_def Let_def)
  qed
qed

lemma hoare_append_args: "hoare no_text (append_args env k args) no_text"
proof (rule hoareI)
  fix s assume s: "no_text s"
  show "case append_args env k args s of (None, s') \<Rightarrow> no_text s' | (Some h, s') \<Rightarrow> stopped h s'"
  proof (cases "\<exists>ti b a. dget (ss_tools s) k = Some ti \<and> ti_block ti = Some b \<and> args = JStr a \<and> a \<noteq> []")
    case True
    then obtain ti b a where t: "dget (ss_tools s) k = Some ti" "ti_block ti = Some b" "args = JStr a" "a \<noteq> []" by blast
    let ?d = "dset (ss_tools s) k (ti\<lparr>ti_args := ti_args ti @ a\<rparr>)"
    have same: "tool_blocks ?d = tool_blocks (ss_tools s)" by (rule tool_blocks_same) (simp add: t)
    have "unnamed_idle ?d" if "unnamed_idle (ss_tools s)"
      using that t(1,2) unnamed_idleD [OF that t(1)] by (intro unnamed_idle_dset) auto
    then have tr: "tracks p (s\<lparr>ss_tools := ?d\<rparr>)" if "tracks p s" for p using that by (simp add: tracks_def open_at_def same)
    with s have st: "streaming (s\<lparr>ss_tools := ?d\<rparr>)" by (auto simp: no_text_def streaming_def)
    have "(k, ti) \<in> set (ss_tools s)" by (rule dget_mem [OF t(1)])
    then have "b \<in> set (tool_blocks (ss_tools s))" using t(2) by (force simp: tool_blocks_def map_filter_def)
    then have "accept (BlockDelta b (JsonDelta a)) p = Some p" if "tracks p (s\<lparr>ss_tools := ?d\<rparr>)" for p
      using that s by (simp add: tracks_def open_at_def no_text_def same)
    then have y: "case yields env (BlockDelta b (JsonDelta a)) (s\<lparr>ss_tools := ?d\<rparr>) of
        (None, s') \<Rightarrow> streaming s' | (Some h, s') \<Rightarrow> stopped h s'"
      by (rule yields_plain [OF st])
    show ?thesis
    proof (cases "ti_buffer ti")
      case True
      then show ?thesis using t st s by (simp add: append_args_def no_text_def)
    next
      case False
      then have "append_args env k args s = yields env (BlockDelta b (JsonDelta a)) (s\<lparr>ss_tools := ?d\<rparr>)"
        using t by (simp add: append_args_def Let_def)
      then show ?thesis using y s by (auto simp: no_text_def yields_def split: if_splits)
    qed
  qed (use s stopped_raised [of s s] in \<open>auto simp: append_args_def no_text_def split: option.split json.split\<close>)
qed
lemma no_text_new_tool:
  assumes "no_text s" "dget (ss_tools s) k = None"
  shows "no_text (s\<lparr>ss_tools := dset (ss_tools s) k (new_tool tid)\<rparr>)"
proof -
  have blocks: "tool_blocks (dset (ss_tools s) k (new_tool tid)) = tool_blocks (ss_tools s)"
    by (rule tool_blocks_same) (simp add: assms(2) new_tool_def)
  have "tracks p s \<Longrightarrow> tracks p (s\<lparr>ss_tools := dset (ss_tools s) k (new_tool tid)\<rparr>)" for p
    by (simp add: tracks_def open_at_def blocks) (simp add: unnamed_idle_dset new_tool_def)
  with assms(1) show ?thesis by (auto simp: no_text_def streaming_def)
qed

lemma truthy_not_null: "truthy v \<Longrightarrow> v \<noteq> JNull"
  by auto

lemma begin_append:
  assumes "no_text s" "\<And>ti. dget (ss_tools s) k = Some ti \<Longrightarrow> ti_block ti = None" "name \<noteq> JNull"
  shows "case run_acts [begin_tool env k ti name, append_args env k args] s of
    (None, s') \<Rightarrow> no_text s' | (Some h, s') \<Rightarrow> stopped h s'"
proof -
  have "hoare (\<lambda>s'. s' = s) (begin_tool env k ti name) no_text"
    by (rule hoare_begin_tool) (use assms in auto)
  from hoareD [OF hoare_Cons [OF this hoare_Cons [OF hoare_append_args hoare_Nil]]] show ?thesis by simp
qed

lemma hoare_on_tool_delta: "hoare no_text (on_tool_delta env tc) no_text"
proof (rule hoareI)
  fix s assume s: "no_text s"
  then have raised: "stopped Raised s" by (auto simp: no_text_def intro: stopped_raised)
  note append = hoareD [OF hoare_append_args [of env]]
  show "case on_tool_delta env tc s of (None, s') \<Rightarrow> no_text s' | (Some h, s') \<Rightarrow> stopped h s'"
  proof (cases tc)
    case (JObj d)
    define index where "index = get_or d ''index'' (JInt 0)"
    define tid where "tid = jget d ''id''"
    define func where "func = (let f = get_or d ''function'' (JObj []) in if truthy f then f else JObj [])"
    have unfold: "on_tool_delta env tc s =
        (case func of
           JObj f \<Rightarrow>
             if \<not> hashable index then (Some Raised, s)
             else (case dget (ss_tools s) (hash_key index) of
                 None \<Rightarrow>
                   (if truthy tid \<and> truthy (jget f ''name'')
                    then run_acts [begin_tool env (hash_key index) (new_tool tid) (jget f ''name''),
                      append_args env (hash_key index) (jget f ''arguments'')] s
                    else if truthy tid
                    then append_args env (hash_key index) (jget f ''arguments'')
                      (s\<lparr>ss_tools := dset (ss_tools s) (hash_key index) (new_tool tid)\<rparr>)
                    else (None, s))
               | Some ti \<Rightarrow>
                   (if truthy (jget f ''name'') \<and> ti_name ti = JNull \<and> hash_key (ti_id ti) = hash_key tid
                    then run_acts [begin_tool env (hash_key index) ti (jget f ''name''),
                      append_args env (hash_key index) (jget f ''arguments'')] s
                    else append_args env (hash_key index) (jget f ''arguments'') s))
         | _ \<Rightarrow> (Some Raised, s))"
      by (simp only: on_tool_delta_def JObj json.case Let_def index_def tid_def func_def)
    show ?thesis
    proof (cases func)
      case f: (JObj f)
      show ?thesis
      proof (cases "dget (ss_tools s) (hash_key index)")
        case None
        show ?thesis
        proof (cases "truthy tid \<and> truthy (jget f ''name'')")
          case True
          then have "jget f ''name'' \<noteq> JNull" by auto
          then show ?thesis
            using begin_append [OF s, of "hash_key index" "jget f ''name''"] None True raised by (simp add: unfold f del: run_acts.simps)
        next
          case False
          then show ?thesis
            using append [OF no_text_new_tool [OF s None]] None raised s by (auto simp: unfold f simp del: run_acts.simps)
        qed
      next
        case (Some ti)
        have "ti_block ti = None" if "ti_name ti = JNull"
        proof -
          have "unnamed_idle (ss_tools s)" using s by (auto simp: no_text_def streaming_def tracks_def)
          then show ?thesis by (rule unnamed_idleD [OF _ Some that])
        qed
        note idle = this
        show ?thesis
        proof (cases "truthy (jget f ''name'') \<and> ti_name ti = JNull \<and> hash_key (ti_id ti) = hash_key tid")
          case True
          then have "jget f ''name'' \<noteq> JNull" by auto
          then show ?thesis
            using begin_append [OF s, of "hash_key index" "jget f ''name''"] idle Some True raised by (simp add: unfold f del: run_acts.simps)
        next
          case False
          then have "on_tool_delta env tc s = (if \<not> hashable index then (Some Raised, s)
              else append_args env (hash_key index) (jget f ''arguments'') s)"
            by (simp only: unfold f json.case Some option.case if_False)
          then show ?thesis using append [OF s] raised by simp
        qed
      qed
    qed (use raised in \<open>simp_all add: unfold\<close>)
  qed (use s in \<open>simp_all add: on_tool_delta_def\<close>)
qed

lemma hoare_on_tools: "hoare streaming (on_tools env tcs) streaming"
proof -
  have "hoare no_text (run_acts (map (on_tool_delta env) tcs)) no_text"
    by (rule hoare_keeps) (auto intro: hoare_on_tool_delta)
  then have "hoare no_text (run_acts (map (on_tool_delta env) tcs)) streaming"
    by (auto simp: hoare_def no_text_def split: prod.splits option.splits)
  then show ?thesis unfolding on_tools_def by (rule hoare_Cons [OF hoare_stop_text])
qed

lemma hoare_raise: "hoare streaming (\<lambda>s. (Some Raised, s)) streaming"
  by (rule hoareI) (simp add: stopped_raised)

lemma hoare_on_choice: "hoare streaming (on_choice env choice) streaming"
proof -
  define d where "d = (let d = get_or choice ''delta'' (JObj []) in if truthy d then d else JObj [])"
  have "hoare streaming (\<lambda>s. on_choice env choice s) streaming"
  proof (cases d)
    case (JObj delta)
    then have eq: "(\<lambda>s. on_choice env choice s) = run_acts
            [case jget delta ''content'' of JStr t \<Rightarrow> if t = [] then skip else on_text env t | _ \<Rightarrow> skip,
             case jget delta ''tool_calls'' of JList tcs \<Rightarrow> if tcs = [] then skip else on_tools env tcs | _ \<Rightarrow> skip,
             on_finish (jget choice ''finish_reason'')]"
      by (intro ext) (simp add: on_choice_def d_def [symmetric])
    have "hoare streaming (case jget delta ''content'' of JStr t \<Rightarrow> if t = [] then skip else on_text env t | _ \<Rightarrow> skip) streaming"
      by (simp add: hoare_skip hoare_on_text split: json.split)
    moreover have "hoare streaming (case jget delta ''tool_calls'' of JList tcs \<Rightarrow> if tcs = [] then skip else on_tools env tcs | _ \<Rightarrow> skip) streaming"
      by (simp add: hoare_skip hoare_on_tools split: json.split)
    ultimately show ?thesis unfolding eq by (intro hoare_keeps) (auto intro: hoare_on_finish)
  qed (simp_all add: on_choice_def d_def [symmetric] hoare_raise)
  then show ?thesis by simp
qed

lemma hoare_on_choices: "hoare streaming (on_choices env c) streaming"
  by (simp add: on_choices_def hoare_skip hoare_on_choice split: json.split list.split)

lemma hoare_on_error: "hoare streaming (on_error env e) streaming"
proof (rule hoareI)
  fix s assume s: "streaming s"
  then obtain p where p: "accepts (ss_out s) = Some p" "tracks p s" by (auto simp: streaming_def)
  show "case on_error env e s of (None, s') \<Rightarrow> streaming s' | (Some h, s') \<Rightarrow> stopped h s'"
  proof (cases e)
    case (JObj d)
    then show ?thesis using p by (simp add: on_error_def Let_def yields_def stopped_def accepts_snoc tracks_def)
  qed (use stopped_raised [OF s, of "s\<lparr>ss_failed := True\<rparr>"] in \<open>simp_all add: on_error_def\<close>)
qed

lemma hoare_on_chunk: "hoare streaming (on_chunk env chunk) streaming"
proof (cases chunk)
  case (JObj c)
  consider "jget c ''_provider_meta'' \<noteq> JNull" | e where "jget c ''_provider_meta'' = JNull" "dget c ''error'' = Some e"
    | "jget c ''_provider_meta'' = JNull" "dget c ''error'' = None" by (cases "dget c ''error''") auto
  then show ?thesis
  proof cases
    case 1
    have "hoare streaming (\<lambda>s. (None, case jget c ''_provider_meta'' of JObj m \<Rightarrow> s\<lparr>ss_meta := Some m\<rparr> | _ \<Rightarrow> s)) streaming"
      by (rule hoare_local) (auto split: json.split)
    moreover have "on_chunk env chunk = (\<lambda>s. (None, case jget c ''_provider_meta'' of JObj m \<Rightarrow> s\<lparr>ss_meta := Some m\<rparr> | _ \<Rightarrow> s))"
      using 1 JObj by (intro ext) (simp add: on_chunk_def)
    ultimately show ?thesis by simp
  next
    case 2
    then have "on_chunk env chunk = on_error env e" using JObj by (intro ext) (simp add: on_chunk_def)
    then show ?thesis by (simp add: hoare_on_error)
  next
    case 3
    then have eq: "on_chunk env chunk =
        run_acts [case jget c ''usage'' of JObj u \<Rightarrow> if u = [] then skip else on_usage env u | _ \<Rightarrow> skip, on_choices env (jget c ''choices'')]"
      using JObj by (intro ext) (simp add: on_chunk_def)
    have "hoare streaming (case jget c ''usage'' of JObj u \<Rightarrow> if u = [] then skip else on_usage env u | _ \<Rightarrow> skip) streaming"
      by (simp add: hoare_skip hoare_on_usage split: json.split)
    then show ?thesis unfolding eq by (intro hoare_keeps) (auto intro: hoare_on_choices)
  qed
qed (simp_all add: on_chunk_def hoare_def)

lemma hoare_on_chunks: "hoare streaming (on_chunks env src chunks) streaming"
proof (induction chunks)
  case Nil
  show ?case
  proof (rule hoareI)
    fix s assume s: "streaming s"
    then have "accepts (ss_out s) \<noteq> None" by (auto simp: streaming_def)
    with s show "case on_chunks env src [] s of (None, s') \<Rightarrow> streaming s' | (Some h, s') \<Rightarrow> stopped h s'"
      using stopped_raised [OF s, of s] by (cases src) (simp_all add: stopped_def)
  qed
next
  case (Cons c cs)
  show ?case
  proof (rule hoareI)
    fix s assume "streaming s"
    from hoareD [OF hoare_on_chunk this, of env c] Cons.IH
    show "case on_chunks env src (c # cs) s of (None, s') \<Rightarrow> streaming s' | (Some h, s') \<Rightarrow> stopped h s'"
      by (auto simp: hoare_def split: prod.splits option.splits)
  qed
qed
section \<open>The whole stream\<close>

text \<open>The end of the message: every block is closed before the stop reason.\<close>

definition in_phase :: "phase \<Rightarrow> stream_state \<Rightarrow> bool" where
  "in_phase ph s \<longleftrightarrow> \<not> ss_failed s \<and> (\<exists>p. accepts (ss_out s) = Some p \<and> pr_phase p = ph \<and> pr_blocks p = [])"

lemma no_blocks: "(\<And>i. dget d i = None) \<Longrightarrow> d = []"
  by (metis ext map_of_eq_empty_iff)

lemma hoare_close_last: "hoare streaming (close_last env) (in_phase Running)"
proof (rule hoareI)
  fix s assume s: "streaming s"
  then obtain p where p: "accepts (ss_out s) = Some p" "tracks p s" by (auto simp: streaming_def)
  consider "ss_text_started s" | "ss_type s = Some InTool" | "\<not> ss_text_started s" "ss_type s \<noteq> Some InTool" by blast
  then show "case close_last env s of (None, s') \<Rightarrow> in_phase Running s' | (Some h, s') \<Rightarrow> stopped h s'"
  proof cases
    case 1
    let ?q = "p\<lparr>pr_blocks := ddel (pr_blocks p) (ss_index s)\<rparr>"
    have type: "ss_type s = Some InText" "tool_blocks (ss_tools s) = []" using 1 p(2) by (auto simp: tracks_def)
    have acc: "accepts (ss_out s @ [BlockStop (ss_index s)]) = Some ?q" using p 1 by (simp add: accepts_snoc tracks_def open_at_def)
    have "pr_blocks ?q = []" by (rule no_blocks) (use p(2) type in \<open>simp add: tracks_def open_at_def delete_conv\<close>)
    then show ?thesis using 1 type acc p(2) by (auto simp: close_last_def yields_def stopped_def in_phase_def tracks_def)
  next
    case 2
    from close_tools_closes [OF s 2] obtain q where q: "accepts (ss_out s @ close_events env s) = Some q" "pr_phase q = Running" "pr_blocks q = []"
      by blast
    have "\<not> ss_failed s" "\<not> ss_text_started s" using p(2) 2 by (auto simp: tracks_def)
    then show ?thesis
      using yields_all_cases [of env "close_events env s" s] q 2 accepts_prefix
      by (auto simp: close_last_def close_tools_def in_phase_def stopped_def) (metis append_assoc not_Some_eq option.discI)
  next
    case 3
    have "tool_blocks (ss_tools s) = []" using 3 p(2) by (auto simp: tracks_def)
    then have "pr_blocks p = []" using 3 p(2) by (intro no_blocks) (simp add: tracks_def open_at_def)
    with 3 p show ?thesis by (auto simp: close_last_def in_phase_def tracks_def)
  qed
qed

lemma hoare_phase:
  assumes "\<And>p. pr_phase p = a \<Longrightarrow> pr_blocks p = [] \<Longrightarrow> accept e p = Some (p\<lparr>pr_phase := b\<rparr>)"
    and "in_phase a s"
  shows "case yields env e s of (None, s') \<Rightarrow> in_phase b s' | (Some h, s') \<Rightarrow> stopped h s'"
  using assms by (fastforce simp: yields_def in_phase_def stopped_def accepts_snoc)

lemma hoare_final_delta: "hoare (in_phase Running) (final_delta env) (in_phase Ending)"
proof (rule hoareI)
  fix s assume s: "in_phase Running s"
  let ?s = "s\<lparr>ss_stop := Some (case ss_stop s of Some r \<Rightarrow> r | None \<Rightarrow> ''end_turn'')\<rparr>"
  have s': "in_phase Running ?s" using s by (simp add: in_phase_def)
  have "case yields env (MessageDelta (Some r) u) ?s of (None, s') \<Rightarrow> in_phase Ending s' | (Some h, s') \<Rightarrow> stopped h s'" for r u
    by (rule hoare_phase [OF _ s']) simp
  moreover have "stopped Raised ?s" using s by (auto simp: in_phase_def stopped_def)
  ultimately show "case final_delta env s of (None, s') \<Rightarrow> in_phase Ending s' | (Some h, s') \<Rightarrow> stopped h s'"
    by (simp add: final_delta_def Let_def split: option.split)
qed

lemma hoare_stream_body: "hoare streaming (stream_body env src chunks) (in_phase Closed)"
proof -
  have "hoare (in_phase Ending) (yields env MessageStop) (in_phase Closed)"
    by (rule hoareI, rule hoare_phase) simp_all
  then show ?thesis unfolding stream_body_def
    by (rule hoare_Cons [OF hoare_on_chunks hoare_Cons [OF hoare_close_last hoare_Cons [OF hoare_final_delta hoare_Cons [OF _ hoare_Nil]]]])
qed

section \<open>The text\<close>

text \<open>The text the client has received, and the text a chunk carries.\<close>

fun text_of_event :: "sse \<Rightarrow> string" where
  "text_of_event (BlockDelta _ (TextDelta t)) = t"
| "text_of_event _ = []"

definition text_of :: "sse list \<Rightarrow> string" where
  "text_of es = concat (map text_of_event es)"

definition choice_of :: "json \<Rightarrow> jobj option" where
  "choice_of chunk =
     (case chunk of
        JObj c \<Rightarrow>
          if jget c ''_provider_meta'' \<noteq> JNull \<or> dget c ''error'' \<noteq> None then None
          else (case jget c ''choices'' of JList (JObj choice # _) \<Rightarrow> Some choice | _ \<Rightarrow> None)
      | _ \<Rightarrow> None)"

definition text_of_chunk :: "json \<Rightarrow> string" where
  "text_of_chunk chunk =
     (case choice_of chunk of
        Some choice \<Rightarrow>
          (case jget choice ''delta'' of JObj d \<Rightarrow> (case jget d ''content'' of JStr t \<Rightarrow> t | _ \<Rightarrow> []) | _ \<Rightarrow> [])
      | None \<Rightarrow> [])"

definition finishes :: "json \<Rightarrow> bool" where
  "finishes chunk \<longleftrightarrow> (case choice_of chunk of Some choice \<Rightarrow> truthy (jget choice ''finish_reason'') | None \<Rightarrow> False)"

text \<open>The chunks the loop consumes: up to the first with a reason to finish.\<close>

fun consumed :: "json list \<Rightarrow> json list" where
  "consumed [] = []"
| "consumed (c # cs) = c # (if finishes c then [] else consumed cs)"

lemma text_of_simps [simp]:
  "text_of [] = []" "text_of (es @ es') = text_of es @ text_of es'" "text_of (e # es) = text_of_event e @ text_of es"
  by (simp_all add: text_of_def)

text \<open>An action that goes on has added this text and has, or has not, decided to finish.\<close>

definition adds :: "string \<Rightarrow> bool \<Rightarrow> act \<Rightarrow> bool" where
  "adds t f a \<longleftrightarrow> (\<forall>s s'. a s = (None, s') \<longrightarrow>
     text_of (ss_out s') = text_of (ss_out s) @ t \<and> (ss_stop s' \<noteq> None \<longleftrightarrow> f \<or> ss_stop s \<noteq> None))"

lemma addsI: "(\<And>s s'. a s = (None, s') \<Longrightarrow>
    text_of (ss_out s') = text_of (ss_out s) @ t \<and> (ss_stop s' \<noteq> None \<longleftrightarrow> f \<or> ss_stop s \<noteq> None)) \<Longrightarrow> adds t f a"
  by (simp add: adds_def)

lemma addsD: "adds t f a \<Longrightarrow> a s = (None, s') \<Longrightarrow>
    text_of (ss_out s') = text_of (ss_out s) @ t \<and> (ss_stop s' \<noteq> None \<longleftrightarrow> f \<or> ss_stop s \<noteq> None)"
  by (simp add: adds_def)

lemma adds_Nil: "adds [] False (run_acts [])"
  by (simp add: adds_def)

lemma adds_Cons: "adds t f a \<Longrightarrow> adds t' f' (run_acts as) \<Longrightarrow> adds (t @ t') (f \<or> f') (run_acts (a # as))"
  by (rule addsI) (auto simp: adds_def split: prod.splits option.splits)

lemma adds_nothing: "(\<And>a. a \<in> set as \<Longrightarrow> adds [] False a) \<Longrightarrow> adds [] False (run_acts as)"
proof (induction as)
  case (Cons a as)
  from adds_Cons [OF Cons.prems [of a] Cons.IH] Cons.prems show ?case by (simp del: run_acts.simps)
qed (rule adds_Nil)

lemma adds_skip: "adds [] False skip"
  by (simp add: adds_def skip_def)

lemma yields_None: "yields env e s = (None, s') \<Longrightarrow> s' = s\<lparr>ss_out := ss_out s @ [e]\<rparr>"
  by (simp add: yields_def split: if_splits)

lemma yields_all_None: "yields_all env es s = (None, s') \<Longrightarrow> s' = s\<lparr>ss_out := ss_out s @ es\<rparr>"
  using yields_all_cases [of env es s] by auto

lemma text_of_close: "text_of (close_events env s) = []"
  by (auto simp: text_of_def close_events_def close_tool_def args_delta_def Let_def split: option.splits)

lemma adds_tools:
  "adds [] False (leave_tools env)" "adds [] False (stop_text env)" "adds [] False (begin_tool env k ti name)"
  "adds [] False (append_args env k args)" "adds [] False (open_text env)"
  by (rule addsI; auto simp: leave_tools_def close_tools_def stop_text_def begin_tool_def append_args_def open_text_def Let_def text_of_close
      dest!: yields_None yields_all_None split: if_splits prod.splits option.splits json.splits)+

lemma adds_on_text: "adds t False (on_text env t)"
proof -
  have "adds t False (\<lambda>s. yields env (BlockDelta (ss_index s) (TextDelta t)) s)"
    by (rule addsI) (auto dest!: yields_None)
  from adds_Cons [OF adds_tools(1) adds_Cons [OF adds_tools(5) adds_Cons [OF this adds_Nil]]] show ?thesis by (simp add: on_text_def)
qed

lemma adds_on_tool_delta: "adds [] False (on_tool_delta env tc)"
proof (rule addsI)
  fix s s'
  assume r: "on_tool_delta env tc s = (None, s')"
  have both: "adds [] False (run_acts [begin_tool env k ti name, append_args env k args])" for k ti name args
    by (rule adds_nothing) (auto intro: adds_tools)
  show "text_of (ss_out s') = text_of (ss_out s) @ [] \<and> (ss_stop s' \<noteq> None \<longleftrightarrow> False \<or> ss_stop s \<noteq> None)"
    using r by (auto simp: on_tool_delta_def Let_def simp del: run_acts.simps
        dest!: addsD [OF both] addsD [OF adds_tools(4)] split: json.splits if_splits option.splits)
qed

lemma adds_on_tools: "adds [] False (on_tools env tcs)"
  unfolding on_tools_def by (rule adds_nothing) (auto intro: adds_tools adds_on_tool_delta)

lemma adds_on_finish: "adds [] (truthy r) (on_finish r)"
  by (rule addsI) (auto simp: on_finish_def split: if_splits)

lemma adds_on_usage: "adds [] False (on_usage env u)"
proof -
  have "adds [] False (keep_positive k v)" "adds [] False (announce_input env p c w)" "adds [] False (keep_cost u)"
    "adds [] False (\<lambda>s. (None, s\<lparr>ss_final_usage := True\<rparr>))" for k v p c w
    by (rule addsI; auto simp: keep_positive_def announce_input_def keep_cost_def dest!: yields_None split: option.splits if_splits)+
  then show ?thesis unfolding on_usage_def Let_def by (intro adds_nothing) auto
qed

lemma adds_on_choice:
  "adds (case jget choice ''delta'' of JObj d \<Rightarrow> (case jget d ''content'' of JStr t \<Rightarrow> t | _ \<Rightarrow> []) | _ \<Rightarrow> [])
     (truthy (jget choice ''finish_reason'')) (on_choice env choice)"
proof (rule addsI)
  fix s s'
  assume r: "on_choice env choice s = (None, s')"
  define d where "d = (let d = get_or choice ''delta'' (JObj []) in if truthy d then d else JObj [])"
  from r obtain delta where delta: "d = JObj delta" by (simp add: on_choice_def d_def [symmetric] split: json.splits)
  have same: "(case jget choice ''delta'' of JObj d \<Rightarrow> (case jget d ''content'' of JStr t \<Rightarrow> t | _ \<Rightarrow> []) | _ \<Rightarrow> []) =
      (case jget delta ''content'' of JStr t \<Rightarrow> t | _ \<Rightarrow> [])"
    using delta by (auto simp: d_def Let_def get_or_def jget_def split: option.splits if_splits json.splits)
  let ?as = "[case jget delta ''content'' of JStr t \<Rightarrow> if t = [] then skip else on_text env t | _ \<Rightarrow> skip,
     case jget delta ''tool_calls'' of JList tcs \<Rightarrow> if tcs = [] then skip else on_tools env tcs | _ \<Rightarrow> skip,
     on_finish (jget choice ''finish_reason'')]"
  have "run_acts ?as s = (None, s')" using r delta by (simp add: on_choice_def d_def [symmetric])
  moreover have "adds (case jget delta ''content'' of JStr t \<Rightarrow> t | _ \<Rightarrow> []) False
      (case jget delta ''content'' of JStr t \<Rightarrow> if t = [] then skip else on_text env t | _ \<Rightarrow> skip)"
    by (auto simp: adds_skip adds_on_text split: json.split)
  moreover have "adds [] False (case jget delta ''tool_calls'' of JList tcs \<Rightarrow> if tcs = [] then skip else on_tools env tcs | _ \<Rightarrow> skip)"
    by (auto simp: adds_skip adds_on_tools split: json.split)
  ultimately have "text_of (ss_out s') = text_of (ss_out s) @ (case jget delta ''content'' of JStr t \<Rightarrow> t | _ \<Rightarrow> []) @ [] @ [] @ [] \<and>
     (ss_stop s' \<noteq> None \<longleftrightarrow> (False \<or> False \<or> truthy (jget choice ''finish_reason'') \<or> False) \<or> ss_stop s \<noteq> None)"
    using addsD [OF adds_Cons [OF _ adds_Cons [OF _ adds_Cons [OF adds_on_finish adds_Nil]]]] by blast
  then show "text_of (ss_out s') =
      text_of (ss_out s) @ (case jget choice ''delta'' of JObj d \<Rightarrow> (case jget d ''content'' of JStr t \<Rightarrow> t | _ \<Rightarrow> []) | _ \<Rightarrow> []) \<and>
      (ss_stop s' \<noteq> None \<longleftrightarrow> truthy (jget choice ''finish_reason'') \<or> ss_stop s \<noteq> None)"
    unfolding same by simp
qed
lemma adds_on_chunk: "adds (text_of_chunk c) (finishes c) (on_chunk env c)"
proof (rule addsI)
  fix s s'
  assume r: "on_chunk env c s = (None, s')"
  have error: "on_error env e s \<noteq> (None, s')" for e
    by (auto simp: on_error_def Let_def yields_def split: json.split)
  show "text_of (ss_out s') = text_of (ss_out s) @ text_of_chunk c \<and> (ss_stop s' \<noteq> None \<longleftrightarrow> finishes c \<or> ss_stop s \<noteq> None)"
  proof (cases "\<exists>d. c = JObj d \<and> jget d ''_provider_meta'' = JNull")
    case False
    then have "choice_of c = None" by (auto simp: choice_of_def split: json.split)
    with False r show ?thesis by (auto simp: on_chunk_def text_of_chunk_def finishes_def split: json.splits)
  next
    case True
    then obtain d where d: "c = JObj d" "jget d ''_provider_meta'' = JNull" by blast
    with r error have none: "dget d ''error'' = None" by (auto simp: on_chunk_def split: option.splits)
    let ?u = "case jget d ''usage'' of JObj u \<Rightarrow> if u = [] then skip else on_usage env u | _ \<Rightarrow> skip"
    have run: "run_acts [?u, on_choices env (jget d ''choices'')] s = (None, s')" using r d none by (simp add: on_chunk_def)
    have choice: "choice_of c = (case jget d ''choices'' of JList (JObj choice # _) \<Rightarrow> Some choice | _ \<Rightarrow> None)"
      using d none by (simp add: choice_of_def)
    have "adds [] False ?u" by (auto simp: adds_skip adds_on_usage split: json.split)
    moreover have "adds (text_of_chunk c) (finishes c) (on_choices env (jget d ''choices''))"
      using adds_on_choice adds_skip
      by (simp add: on_choices_def text_of_chunk_def finishes_def choice split: json.split list.split)
    ultimately show ?thesis using addsD [OF adds_Cons [OF _ adds_Cons [OF _ adds_Nil]] run] by fastforce
  qed
qed

lemma on_chunks_text:
  "on_chunks env src cs s = (None, s') \<Longrightarrow> ss_stop s = None \<Longrightarrow>
   text_of (ss_out s') = text_of (ss_out s) @ concat (map text_of_chunk (consumed cs))"
proof (induction cs arbitrary: s)
  case (Cons c cs)
  obtain h t where c: "on_chunk env c s = (h, t)" by (cases "on_chunk env c s")
  with Cons.prems have h: "h = None" by (cases h) simp_all
  from addsD [OF adds_on_chunk] c h Cons.prems(2)
  have t: "text_of (ss_out t) = text_of (ss_out s) @ text_of_chunk c" "ss_stop t \<noteq> None \<longleftrightarrow> finishes c" by auto
  show ?case
  proof (cases "finishes c")
    case True
    with Cons.prems c h t show ?thesis by auto
  next
    case False
    with t(2) have "ss_stop t = None" by simp
    moreover have "on_chunks env src cs t = (None, s')" using Cons.prems(1) c h calculation by simp
    ultimately have "text_of (ss_out s') = text_of (ss_out t) @ concat (map text_of_chunk (consumed cs))" by (rule Cons.IH [rotated])
    with t(1) False show ?thesis by simp
  qed
qed (auto split: source_end.splits)

lemma stream_body_text:
  assumes "stream_body env src chunks s = (None, s')" "ss_stop s = None"
  shows "text_of (ss_out s') = text_of (ss_out s) @ concat (map text_of_chunk (consumed chunks))"
proof -
  from assms(1) obtain a b c where
    r: "on_chunks env src chunks s = (None, a)" "close_last env a = (None, b)" "final_delta env b = (None, c)" "yields env MessageStop c = (None, s')"
    by (auto simp: stream_body_def split: prod.splits option.splits)
  have "text_of (ss_out b) = text_of (ss_out a)"
    using r(2) by (auto simp: close_last_def close_tools_def text_of_close dest!: yields_None yields_all_None split: if_splits)
  moreover have "text_of (ss_out c) = text_of (ss_out b)"
    using r(3) by (auto simp: final_delta_def Let_def dest!: yields_None split: option.splits if_splits)
  moreover have "text_of (ss_out s') = text_of (ss_out c)" using yields_None [OF r(4)] by simp
  ultimately show ?thesis using on_chunks_text [OF r(1) assms(2)] by simp
qed

text \<open>
  C29. The text is passed on. When the stream neither raises nor fails, the text deltas the client
  received are together the text of the chunks, in order, up to the first chunk that gives a reason to
  finish: nothing is lost, repeated or invented, whatever tool calls and usage come in between.
\<close>

theorem text_preserved:
  assumes "convert_stream env src chunks = (out, calls, False)" "\<And>c. c \<in> set calls \<Longrightarrow> \<not> co_failed c"
  shows "text_of out = concat (map text_of_chunk (consumed chunks))"
proof -
  let ?s = "initial_stream\<lparr>ss_out := [MessageStart, Ping]\<rparr>"
  have start: "yields_all env [MessageStart, Ping] initial_stream = (None, ?s)"
    using assms(1) yields_all_cases [of env "[MessageStart, Ping]" initial_stream]
    by (auto simp: convert_stream_def initial_stream_def)
  obtain h s where r: "stream_body env src chunks ?s = (h, s)" by (cases "stream_body env src chunks ?s")
  have "streaming ?s" by (simp add: streaming_def tracks_def open_at_def initial_stream_def accepts_def)
  from hoareD [OF hoare_stream_body this, of env src chunks] r
  have post: "case h of None \<Rightarrow> in_phase Closed s | Some h \<Rightarrow> stopped h s" by (cases h) simp_all
  have "h = None"
  proof (cases h)
    case (Some x)
    then show ?thesis
      using assms start r post
      by (cases x) (auto simp: convert_stream_def stopped_def completion_of_def stream_failed_def yields_def split: if_splits)
  qed
  then have "out = ss_out s" using assms(1) start r by (simp add: convert_stream_def)
  with stream_body_text [of env src chunks ?s s] r \<open>h = None\<close> show ?thesis by (simp add: initial_stream_def)
qed

definition text_chunk :: "string \<Rightarrow> json \<Rightarrow> json" where
  "text_chunk t reason =
     JObj [(''choices'', JList [JObj [(''delta'', JObj [(''content'', JStr t)]), (''finish_reason'', reason)]])]"

definition tool_chunk :: "json \<Rightarrow> json \<Rightarrow> json \<Rightarrow> string \<Rightarrow> json" where
  "tool_chunk index i name args =
     JObj [(''choices'', JList [JObj [(''delta'', JObj [(''tool_calls'', JList [JObj
       [(''index'', index), (''id'', i), (''function'', JObj [(''name'', name), (''arguments'', JStr args)])]])])]])]"

definition usage_chunk :: "int \<Rightarrow> int \<Rightarrow> int \<Rightarrow> json" where
  "usage_chunk p c o' = JObj [(''choices'', JList []),
     (''usage'', JObj [(''prompt_tokens'', JInt p), (''completion_tokens'', JInt o'), (''cached_tokens'', JInt c)])]"

definition plain_env :: stream_env where
  "plain_env = \<lparr>en_gone = None, en_loads = (\<lambda>_. None), en_dumps = (\<lambda>_. [])\<rparr>"

definition sample_chunks :: "json list" where
  "sample_chunks = [text_chunk ''Hel'' JNull, text_chunk ''lo'' JNull, tool_chunk (JInt 0) (JStr ''t1'') (JStr ''Bash'') ''{}'',
     usage_chunk 30 20 4, text_chunk ''!'' (JStr ''stop''), text_chunk ''late'' JNull]"

theorem text_preserved_witness:
  "text_of (fst (convert_stream plain_env SourceEnds sample_chunks)) = ''Hello!''"
proof -
  have run: "snd (convert_stream plain_env SourceEnds sample_chunks) = ([completion_of (snd (stream_body plain_env SourceEnds sample_chunks
      (initial_stream\<lparr>ss_out := [MessageStart, Ping]\<rparr>)))], False) \<and>
      \<not> ss_failed (snd (stream_body plain_env SourceEnds sample_chunks (initial_stream\<lparr>ss_out := [MessageStart, Ping]\<rparr>)))" by code_simp
  have t: "concat (map text_of_chunk (consumed sample_chunks)) = ''Hello!''" by code_simp
  show ?thesis
    unfolding t [symmetric]
    by (rule text_preserved) (use run in \<open>auto simp: completion_of_def intro!: prod_eqI\<close>)
qed

section \<open>Usage across the wires\<close>


text \<open>
  C30. Token counts survive both conventions. What the translated path reports to its client from the
  counts of an OpenAI-compatible backend, read back as the usage of an Anthropic answer, is the same
  input, with the same reads and writes of the cache, as long as these do not exceed the input.
\<close>

theorem usage_conventions_agree:
  assumes "0 \<le> c" "0 \<le> w" "c + w \<le> p"
  shows "normalize_usage (JObj (anthropic_cache_usage (JInt p) (JInt c) (JInt w))) =
     Inr [(''input_tokens'', p), (''cached_tokens'', c), (''cache_write_tokens'', w)]"
  using assms by (auto simp: normalize_usage_def anthropic_cache_usage_def jget_def int_or_zero_def put_when_def)

theorem usage_conventions_agree_witness:
  "normalize_usage (JObj (anthropic_cache_usage (JInt 30) (JInt 20) (JInt 4))) =
     Inr [(''input_tokens'', 30), (''cached_tokens'', 20), (''cache_write_tokens'', 4)]"
  by (rule usage_conventions_agree) simp_all

section \<open>What gets lost\<close>

text \<open>The id of a tool call comes first, its name later without the id: the call is dropped.\<close>

lemma late_name_drops_tool:
  "fst (convert_stream plain_env SourceEnds
     [tool_chunk (JInt 0) (JStr ''t1'') JNull '''', tool_chunk (JInt 0) JNull (JStr ''Bash'') ''{}'',
      JObj [(''choices'', JList [JObj [(''finish_reason'', JStr ''tool_calls'')]])]]) =
   [MessageStart, Ping, MessageDelta (Some ''tool_use'') None, MessageStop]"
  by code_simp

text \<open>A usage that comes after the reason to finish is not read.\<close>

lemma late_usage_lost:
  "map (\<lambda>c. jget (co_usage c) ''output_tokens'')
     (fst (snd (convert_stream plain_env SourceEnds [text_chunk ''x'' (JStr ''stop''), usage_chunk 30 20 4]))) = [JInt 0]"
  by code_simp

text \<open>An error of the backend leaves the message without an end.\<close>

lemma backend_error_without_stop:
  "fst (convert_stream plain_env SourceEnds [text_chunk ''x'' JNull, JObj [(''error'', JObj [])]]) =
   [MessageStart, Ping, BlockStart 0 TextBlock, BlockDelta 0 (TextDelta ''x''),
    ErrorEvent (JStr ''api_error'') (JStr ''Unknown streaming error'')]"
  by code_simp

end
