(* ===== verification/Translate.thy ===== *)
theory Translate
  imports Convert
begin

text \<open>
  The requests and answers of the translated path (\<open>convert_anthropic_to_openai\<close> and
  \<open>convert_openai_to_anthropic\<close> in \<open>proxy/converters.py\<close>). The input is a validated request
  (\<open>proxy/data_models.py\<close>); what is sent to the backend is a JSON object, as the code builds it.

  Parameters: \<open>json.loads\<close> and \<open>json.dumps\<close>, the capabilities of the model in the catalogue, the
  configuration (ignored tools, automatic cache markers), one example text outside the character set,
  and the coercions of pydantic.
\<close>

section \<open>Requests\<close>

text \<open>A cache marker is its optional \<open>ttl\<close>.\<close>

type_synonym cache_control = "string option"

datatype result_content = ResultText string | ResultParts "json list"

datatype block =
    Text string "cache_control option"
  | Image string string
  | ToolUse string string jobj
  | ToolResult string result_content "cache_control option"
  | Thinking

datatype speaker = System | User | Assistant

datatype content = Plain string | Blocks "block list"

type_synonym turn = "speaker \<times> content"

record tool_definition =
  td_name :: string
  td_description :: "string option"
  td_schema :: jobj

datatype system_prompt = NoSystem | SystemText string | SystemBlocks "(string \<times> cache_control option) list"

record request =
  rq_model :: string
  rq_messages :: "turn list"
  rq_system :: system_prompt
  rq_max_tokens :: int
  rq_stream :: bool
  rq_options :: jobj
  rq_stop :: "json list"
  rq_metadata :: jobj
  rq_tools :: "tool_definition list"
  rq_choice :: jobj

text \<open>
  \<open>rq_options\<close> holds \<open>temperature\<close>, \<open>top_p\<close> and \<open>top_k\<close>, where they are given, in this order. The
  capabilities: whether the backend model takes cache markers, and forced tool choices if it is known.
\<close>

record translation =
  tr_dumps :: "json \<Rightarrow> string"
  tr_loads :: "string \<Rightarrow> json option"
  tr_markers :: bool
  tr_forced :: "bool option"
  tr_chat :: bool
  tr_auto_cache :: "int option"
  tr_ignored :: "string \<Rightarrow> bool"
  tr_multi_edit :: string

definition speaker_name :: "speaker \<Rightarrow> string" where
  "speaker_name s = (case s of System \<Rightarrow> ''system'' | User \<Rightarrow> ''user'' | Assistant \<Rightarrow> ''assistant'')"

definition cache_marker :: "cache_control \<Rightarrow> json" where
  "cache_marker ttl = JObj ((''type'', JStr ''ephemeral'') # (case ttl of Some t \<Rightarrow> [(''ttl'', JStr t)] | None \<Rightarrow> []))"

definition as_system_reminder :: "string \<Rightarrow> string" where
  "as_system_reminder t =
     (if prefix ''<system-reminder>'' (dropWhile py_space t) then t
      else ''<system-reminder>'' @ [CHR 0x0A] @ t @ [CHR 0x0A] @ ''</system-reminder>'')"

section \<open>The system prompt\<close>

definition system_text :: "system_prompt \<Rightarrow> string" where
  "system_text p =
     (case p of
        NoSystem \<Rightarrow> []
      | SystemText t \<Rightarrow> t
      | SystemBlocks bs \<Rightarrow> join_on (CHR 0x0A) (map fst bs))"

definition system_marker :: "translation \<Rightarrow> system_prompt \<Rightarrow> json option" where
  "system_marker tr p =
     (case p of
        SystemBlocks bs \<Rightarrow>
          (if tr_markers tr then fold (\<lambda>(_, c) m. case c of Some ttl \<Rightarrow> Some (cache_marker ttl) | None \<Rightarrow> m) bs None else None)
      | _ \<Rightarrow> None)"

text \<open>The marker of a long system prompt that has none, where the configuration asks for it.\<close>

definition injected_marker :: "translation \<Rightarrow> string \<Rightarrow> json option" where
  "injected_marker tr t =
     (case tr_auto_cache tr of
        Some m \<Rightarrow> if tr_markers tr \<and> m \<le> int (length t) div 4 then Some (cache_marker None) else None
      | None \<Rightarrow> None)"

definition text_part :: "string \<Rightarrow> json option \<Rightarrow> json" where
  "text_part t marker =
     JObj ([(''type'', JStr ''text''), (''text'', JStr t)] @ (case marker of Some m \<Rightarrow> [(''cache_control'', m)] | None \<Rightarrow> []))"

definition chat_message :: "string \<Rightarrow> json \<Rightarrow> json" where
  "chat_message role c = JObj [(''role'', JStr role), (''content'', c)]"

definition system_messages :: "translation \<Rightarrow> system_prompt \<Rightarrow> json list" where
  "system_messages tr p =
     (let t = system_text p in
      if t = [] \<or> \<not> tr_chat tr then []
      else (let marker = (case system_marker tr p of Some m \<Rightarrow> Some m | None \<Rightarrow> injected_marker tr t)
            in [chat_message ''system''
                 (case marker of Some m \<Rightarrow> JList [text_part t (Some m)] | None \<Rightarrow> JStr t)]))"

section \<open>Messages\<close>

text \<open>The loop over the blocks of a message: messages sent already, pending content, tool calls.\<close>

record pending =
  pe_sent :: "json list"
  pe_content :: "json list"
  pe_calls :: "json list"
  pe_results :: bool

definition marker_of :: "translation \<Rightarrow> cache_control option \<Rightarrow> json option" where
  "marker_of tr c = (case c of Some ttl \<Rightarrow> if tr_markers tr then Some (cache_marker ttl) else None | None \<Rightarrow> None)"

definition tool_call :: "translation \<Rightarrow> string \<Rightarrow> string \<Rightarrow> jobj \<Rightarrow> json" where
  "tool_call tr i name input =
     JObj [(''id'', JStr i), (''type'', JStr ''function''),
       (''function'', JObj [(''name'', JStr name),
          (''arguments'', JStr (tr_dumps tr (JObj (fst (sanitize_tool_input (JStr name) input)))))])]"

definition result_text :: "translation \<Rightarrow> result_content \<Rightarrow> string" where
  "result_text tr c = (case c of ResultText t \<Rightarrow> t | ResultParts ps \<Rightarrow> tr_dumps tr (JList ps))"

definition tool_message :: "translation \<Rightarrow> string \<Rightarrow> result_content \<Rightarrow> cache_control option \<Rightarrow> json" where
  "tool_message tr i c marker =
     JObj [(''role'', JStr ''tool''), (''tool_call_id'', JStr i),
       (''content'', (case marker_of tr marker of
          Some m \<Rightarrow> JList [text_part (result_text tr c) (Some m)]
        | None \<Rightarrow> JStr (result_text tr c)))]"

definition image_part :: "string \<Rightarrow> string \<Rightarrow> json" where
  "image_part media data =
     JObj [(''type'', JStr ''image_url''), (''image_url'', JObj [(''url'', JStr (''data:'' @ media @ '';base64,'' @ data))])]"

definition on_block :: "translation \<Rightarrow> bool \<Rightarrow> speaker \<Rightarrow> block \<Rightarrow> pending \<Rightarrow> pending" where
  "on_block tr reminder who b p =
     (case b of
        Thinking \<Rightarrow> p
      | Text t c \<Rightarrow>
          p\<lparr>pe_content := pe_content p @ [text_part (if reminder then as_system_reminder t else t) (marker_of tr c)]\<rparr>
      | Image media data \<Rightarrow> if who = User then p\<lparr>pe_content := pe_content p @ [image_part media data]\<rparr> else p
      | ToolUse i name input \<Rightarrow> if who = Assistant then p\<lparr>pe_calls := pe_calls p @ [tool_call tr i name input]\<rparr> else p
      | ToolResult i c marker \<Rightarrow>
          (if who = User
           then p\<lparr>pe_sent := pe_sent p @ (if pe_content p = [] then [] else [chat_message ''user'' (JList (pe_content p))]) @
                 [tool_message tr i c marker],
               pe_content := [], pe_results := True\<rparr>
           else p))"

definition all_blocks :: "translation \<Rightarrow> bool \<Rightarrow> speaker \<Rightarrow> content \<Rightarrow> pending" where
  "all_blocks tr reminder who c =
     (let p = \<lparr>pe_sent = [], pe_content = [], pe_calls = [], pe_results = False\<rparr> in
      case c of
        Plain t \<Rightarrow> p\<lparr>pe_content := [text_part (if reminder then as_system_reminder t else t) None]\<rparr>
      | Blocks bs \<Rightarrow> fold (on_block tr reminder who) bs p)"

text \<open>A single text without a marker is sent as a plain text.\<close>

definition simplified :: "json list \<Rightarrow> json" where
  "simplified parts =
     (case parts of
        [] \<Rightarrow> JNull
      | [JObj d] \<Rightarrow>
          (if jget d ''type'' = JStr ''text'' \<and> set (dkeys d) = {''type'', ''text''} then jget d ''text'' else JList parts)
      | _ \<Rightarrow> JList parts)"

definition finish_message :: "bool \<Rightarrow> speaker \<Rightarrow> pending \<Rightarrow> json list" where
  "finish_message reminder who p =
     pe_sent p @
     (if pe_results p then (if pe_content p = [] then [] else [chat_message ''user'' (JList (pe_content p))])
      else (let c = simplified (pe_content p); role = (if reminder then ''user'' else speaker_name who);
                m = JObj ([(''role'', JStr role), (''content'', c)] @
                  (if pe_calls p = [] then [] else [(''tool_calls'', JList (pe_calls p))]))
            in if c \<noteq> JNull \<or> pe_calls p \<noteq> [] then [m]
               else if who = Assistant then [chat_message role (JStr [])] else []))"

definition convert_message :: "translation \<Rightarrow> bool \<Rightarrow> turn \<Rightarrow> json list" where
  "convert_message tr reminder m =
     (case m of (who, c) \<Rightarrow> finish_message reminder who (all_blocks tr reminder who c))"

text \<open>A system message after the conversation has begun is sent as a reminder of the user.\<close>

fun convert_messages :: "translation \<Rightarrow> bool \<Rightarrow> turn list \<Rightarrow> json list" where
  "convert_messages tr started [] = []"
| "convert_messages tr started (m # ms) =
     convert_message tr (fst m = System \<and> started) m @ convert_messages tr (started \<or> fst m \<noteq> System) ms"

section \<open>Tools\<close>

definition batch_example :: string where
  \<open>batch_example = join_on (CHR 0x0A)
     [[],
      [],
      ''EXAMPLE USAGE (Always include the invocations array):'',
      ''{'',
      ''  "description": "Run multiple tools in parallel",'',
      ''  "invocations": [  // REQUIRED: Array of tool invocations to execute'',
      ''    {'',
      ''      "tool_name": "Read",  // Name of the tool to invoke'',
      ''      "input": {  // Parameters for the tool'',
      ''        "file_path": "/path/to/file.txt"'',
      ''      }'',
      ''    },'',
      ''    {'',
      ''      "tool_name": "Grep",'',
      ''      "input": {'',
      ''        "pattern": "search term",'',
      ''        "include": "*.py"'',
      ''      }'',
      ''    }'',
      ''  ]'',
      ''}'']\<close>

definition edit_example :: string where
  \<open>edit_example = join_on (CHR 0x0A)
     [[],
      [],
      ''EXAMPLE USAGE:'',
      ''{'',
      ''  "file_path": "/path/to/file.py",  // REQUIRED: Absolute path to the file'',
      ''  "old_string": "def old_function(x, y):'' @ [CHR 0x5C] @ ''n    return x + y",  // REQUIRED: Exact text to replace'',
      ''  "new_string": "def old_function(x, y):'' @ [CHR 0x5C] @ ''n    # Add comment'' @ [CHR 0x5C] @ ''n    return x + y",  // REQUIRED: New text'',
      ''  "expected_replacements": 1  // Optional: Number of replacements to perform'',
      ''}'']\<close>

definition read_example :: string where
  \<open>read_example = join_on (CHR 0x0A)
     [[],
      [],
      ''EXAMPLE USAGE:'',
      ''{'',
      ''  "file_path": "/path/to/file.txt"  // REQUIRED: Absolute path to the file'',
      ''}'']\<close>

definition write_example :: string where
  \<open>write_example = join_on (CHR 0x0A)
     [[],
      [],
      ''EXAMPLE USAGE:'',
      ''{'',
      ''  "file_path": "/path/to/file.txt",  // REQUIRED: Absolute path to the file'',
      ''  "content": "Contents to write to the file"  // REQUIRED: Content to write'',
      ''}'']\<close>

definition glob_example :: string where
  \<open>glob_example = join_on (CHR 0x0A)
     [[],
      [],
      ''EXAMPLE USAGE:'',
      ''{'',
      ''  "pattern": "**/*.py"  // REQUIRED: The glob pattern to match files against'',
      ''}'']\<close>

definition grep_example :: string where
  \<open>grep_example = join_on (CHR 0x0A)
     [[],
      [],
      ''EXAMPLE USAGE:'',
      ''{'',
      ''  "pattern": "function",  // REQUIRED: The regex pattern to search for'',
      ''  "include": "*.py"  // Optional: File pattern to include in search'',
      ''}'']\<close>

text \<open>The text for \<open>MultiEdit\<close> has characters beyond the model's: it is a parameter.\<close>

definition tool_example :: "translation \<Rightarrow> string \<Rightarrow> string" where
  "tool_example tr name =
     (if name = ''Batch'' then batch_example
      else if name = ''Edit'' then edit_example
      else if name = ''Read'' then read_example
      else if name = ''Write'' then write_example
      else if name = ''Glob'' then glob_example
      else if name = ''Grep'' then grep_example
      else if name = ''MultiEdit'' then tr_multi_edit tr else [])"

definition enhance_tool_description :: "translation \<Rightarrow> string \<Rightarrow> string \<Rightarrow> string" where
  "enhance_tool_description tr name description = description @ tool_example tr name"

definition clean_schema :: "jobj \<Rightarrow> jobj" where
  "clean_schema d =
     (let d1 = (if dget d ''type'' = None then dset d ''type'' (JStr ''object'') else d)
      in if jget d1 ''type'' = JStr ''object'' \<and> dget d1 ''properties'' = None then dset d1 ''properties'' (JObj []) else d1)"

definition convert_tool :: "translation \<Rightarrow> tool_definition \<Rightarrow> json" where
  "convert_tool tr t =
     JObj [(''type'', JStr ''function''),
       (''function'', JObj [(''name'', JStr (td_name t)),
          (''description'', JStr (enhance_tool_description tr (td_name t) (case td_description t of Some d \<Rightarrow> d | None \<Rightarrow> []))),
          (''parameters'', JObj (clean_schema (td_schema t)))])]"

definition retained_tools :: "translation \<Rightarrow> request \<Rightarrow> tool_definition list" where
  "retained_tools tr rq = filter (\<lambda>t. \<not> tr_ignored tr (td_name t)) (rq_tools rq)"

datatype conversion_error = ForcedUnsupported | NoToolAvailable | ToolUnavailable

definition check_forced :: "translation \<Rightarrow> request \<Rightarrow> conversion_error option" where
  "check_forced tr rq =
     (if jget (rq_choice rq) ''type'' \<in> {JStr ''any'', JStr ''tool''} \<and> tr_forced tr = Some False
      then Some ForcedUnsupported else None)"

definition convert_choice :: "string list \<Rightarrow> jobj \<Rightarrow> conversion_error + json option" where
  "convert_choice names choice =
     (if choice = [] then Inr None
      else if jget choice ''type'' = JStr ''any'' then
        (if names = [] then Inl NoToolAvailable else Inr (Some (JStr ''required'')))
      else if jget choice ''type'' = JStr ''auto'' then Inr (Some (JStr ''auto''))
      else if jget choice ''type'' = JStr ''tool'' \<and> dget choice ''name'' \<noteq> None then
        (case jget choice ''name'' of
           JStr n \<Rightarrow>
             if n \<in> set names
             then Inr (Some (JObj [(''type'', JStr ''function''), (''function'', JObj [(''name'', JStr n)])]))
             else Inl ToolUnavailable
         | _ \<Rightarrow> Inl ToolUnavailable)
      else Inr (Some (JStr ''none'')))"

text \<open>\<open>d[k] = v\<close> under a condition.\<close>

definition set_if :: "bool \<Rightarrow> string \<Rightarrow> json \<Rightarrow> jobj \<Rightarrow> jobj" where
  "set_if b k v d = (if b then dset d k v else d)"

definition convert_request :: "translation \<Rightarrow> request \<Rightarrow> conversion_error + jobj" where
  "convert_request tr rq =
     (case check_forced tr rq of
        Some e \<Rightarrow> Inl e
      | None \<Rightarrow>
          (let messages = system_messages tr (rq_system rq) @ convert_messages tr False (rq_messages rq);
               tools = retained_tools tr rq; t = system_text (rq_system rq);
               base = [(''model'', JStr (rq_model rq)), (''messages'', JList messages), (''max_tokens'', JInt (rq_max_tokens rq)),
                 (''stream'', JBool (rq_stream rq))];
               d = set_if (tools \<noteq> []) ''tools'' (JList (map (convert_tool tr) tools))
                 (set_if (t \<noteq> []) ''system_prompt'' (JStr t)
                 (set_if (rq_metadata rq \<noteq> []) ''metadata'' (JObj (rq_metadata rq))
                 (set_if (rq_stop rq \<noteq> []) ''stop'' (JList (rq_stop rq))
                 (fold (\<lambda>(k, v) d. dset d k v) (rq_options rq) base))))
           in case convert_choice (map td_name tools) (rq_choice rq) of
                Inl e \<Rightarrow> Inl e
              | Inr None \<Rightarrow> Inr d
              | Inr (Some c) \<Rightarrow> Inr (dset d ''tool_choice'' c)))"

section \<open>Answers\<close>

text \<open>
  The coercions of the response models, the fresh identifiers, and the text of an exception. Any exception
  makes the conversion return nothing.
\<close>

record answering =
  aw_text :: "json \<Rightarrow> string option"
  aw_int :: "json \<Rightarrow> int option"
  aw_message_id :: string
  aw_tool_id :: string
  aw_exception :: string

record answer_usage =
  au_input :: int
  au_output :: int
  au_written :: int
  au_read :: int

record answer =
  an_id :: string
  an_model :: string
  an_content :: "block list"
  an_stop :: string
  an_usage :: answer_usage

definition tool_input :: "translation \<Rightarrow> answering \<Rightarrow> json \<Rightarrow> json \<Rightarrow> json" where
  "tool_input tr aw name args =
     (case args of
        JStr s \<Rightarrow>
          (case tr_loads tr s of
             None \<Rightarrow> JObj [(''raw_arguments'', args)]
           | Some (JObj d) \<Rightarrow>
               if hashable name then JObj (fst (sanitize_tool_input name d))
               else JObj [(''error_parsing_arguments'', JStr (aw_exception aw)), (''raw_arguments'', args)]
           | Some v \<Rightarrow> v)
      | _ \<Rightarrow> JObj [(''error_parsing_arguments'', JStr (aw_exception aw)), (''raw_arguments'', args)])"

definition answer_tool :: "translation \<Rightarrow> answering \<Rightarrow> json \<Rightarrow> block list option" where
  "answer_tool tr aw tc =
     (case tc of
        JObj d \<Rightarrow>
          (if jget d ''type'' \<noteq> JStr ''function'' then Some []
           else (case get_or d ''function'' (JObj []) of
               JObj f \<Rightarrow>
                 (let args = get_or f ''arguments'' (JStr ''{}''); name = get_or f ''name'' (JStr ''unknown_tool'') in
                  (case (aw_text aw (get_or d ''id'' (JStr (aw_tool_id aw))), aw_text aw name, tool_input tr aw name args) of
                     (Some i, Some n, JObj input) \<Rightarrow> Some [ToolUse i n input]
                   | _ \<Rightarrow> None))
             | _ \<Rightarrow> None))
      | _ \<Rightarrow> Some [])"

fun answer_tools :: "translation \<Rightarrow> answering \<Rightarrow> json list \<Rightarrow> block list option" where
  "answer_tools tr aw [] = Some []"
| "answer_tools tr aw (tc # tcs) =
     (case answer_tool tr aw tc of
        None \<Rightarrow> None
      | Some bs \<Rightarrow> map_option (\<lambda>cs. bs @ cs) (answer_tools tr aw tcs))"

text \<open>The content and the reason to finish of the first choice.\<close>

definition answer_choice :: "translation \<Rightarrow> answering \<Rightarrow> json \<Rightarrow> (block list \<times> json) option" where
  "answer_choice tr aw choices =
     (if \<not> truthy choices then Some ([], JStr ''stop'')
      else (case choices of
          JList (JObj choice # _) \<Rightarrow>
            (case (let m = get_or choice ''message'' (JObj []) in if truthy m then m else JObj []) of
               JObj m \<Rightarrow>
                 map_option (\<lambda>tools.
                     ((case jget m ''content'' of JStr t \<Rightarrow> if t = [] then [] else [Text t None] | _ \<Rightarrow> []) @ tools,
                      get_or choice ''finish_reason'' (JStr ''stop'')))
                   (case jget m ''tool_calls'' of JList tcs \<Rightarrow> answer_tools tr aw tcs | _ \<Rightarrow> Some [])
             | _ \<Rightarrow> None)
        | _ \<Rightarrow> None))"

definition answer_usage_of :: "answering \<Rightarrow> jobj \<Rightarrow> answer_usage option" where
  "answer_usage_of aw u =
     (let n = (\<lambda>k. get_or u k (JInt 0));
          a = anthropic_cache_usage (n ''prompt_tokens'') (n ''cached_tokens'') (n ''cache_write_tokens'')
      in case (aw_int aw (jget a ''input_tokens''), aw_int aw (n ''completion_tokens''),
            aw_int aw (jget a ''cache_creation_input_tokens''), aw_int aw (jget a ''cache_read_input_tokens'')) of
           (Some i, Some o', Some w, Some r) \<Rightarrow> Some \<lparr>au_input = i, au_output = o', au_written = w, au_read = r\<rparr>
         | _ \<Rightarrow> None)"

definition convert_answer :: "translation \<Rightarrow> answering \<Rightarrow> string \<Rightarrow> jobj \<Rightarrow> answer option" where
  "convert_answer tr aw model resp =
     (let i = (if truthy (jget resp ''id'') then jget resp ''id'' else JStr (aw_message_id aw));
          u = (let u = get_or resp ''usage'' (JObj []) in if truthy u then u else JObj [])
      in case answer_choice tr aw (get_or resp ''choices'' (JList [])) of
           None \<Rightarrow> None
         | Some (content, reason) \<Rightarrow>
             (if \<not> hashable reason then None
              else (case u of
                  JObj u' \<Rightarrow>
                    (case (aw_text aw i, answer_usage_of aw u') of
                       (Some i', Some usage) \<Rightarrow>
                         Some \<lparr>an_id = i', an_model = (if model = [] then ''claude-3.7-sonnet'' else model),
                           an_content = (if content = [] then [Text [] None] else content),
                           an_stop = stop_reason_of reason, an_usage = usage\<rparr>
                     | _ \<Rightarrow> None)
                | _ \<Rightarrow> None)))"

section \<open>The conversation is preserved\<close>

text \<open>What is said, called and returned in a conversation, on either side; an empty text says nothing.\<close>

datatype item = Said string | Shown json | Called string string string | Returns string string

definition is_call :: "item \<Rightarrow> bool" where
  "is_call i = (case i of Called _ _ _ \<Rightarrow> True | _ \<Rightarrow> False)"

definition said :: "string \<Rightarrow> item list" where
  "said t = (if t = [] then [] else [Said t])"

definition text_in :: "json \<Rightarrow> string" where
  "text_in v = (case v of JStr t \<Rightarrow> t | _ \<Rightarrow> [])"

definition items_of_part :: "json \<Rightarrow> item list" where
  "items_of_part v =
     (case v of
        JObj d \<Rightarrow> if jget d ''type'' = JStr ''text'' then said (text_in (jget d ''text'')) else [Shown (jget d ''image_url'')]
      | _ \<Rightarrow> [])"

definition items_of_content :: "json \<Rightarrow> item list" where
  "items_of_content v = (case v of JStr t \<Rightarrow> said t | JList ps \<Rightarrow> concat (map items_of_part ps) | _ \<Rightarrow> [])"

definition item_of_call :: "json \<Rightarrow> item" where
  "item_of_call v =
     (case v of
        JObj d \<Rightarrow> (let f = (case jget d ''function'' of JObj f \<Rightarrow> f | _ \<Rightarrow> []) in
          Called (text_in (jget d ''id'')) (text_in (jget f ''name'')) (text_in (jget f ''arguments'')))
      | _ \<Rightarrow> Called [] [] [])"

definition items_of_message :: "json \<Rightarrow> item list" where
  "items_of_message v =
     (case v of
        JObj d \<Rightarrow>
          (if jget d ''role'' = JStr ''tool''
           then [Returns (text_in (jget d ''tool_call_id''))
             (case jget d ''content'' of JStr t \<Rightarrow> t | JList [JObj p] \<Rightarrow> text_in (jget p ''text'') | _ \<Rightarrow> [])]
           else items_of_content (jget d ''content'') @
             (case jget d ''tool_calls'' of JList cs \<Rightarrow> map item_of_call cs | _ \<Rightarrow> []))
      | _ \<Rightarrow> [])"

text \<open>The same of the request. Only users show images and return results, only assistants call.\<close>

definition items_of_block :: "translation \<Rightarrow> bool \<Rightarrow> speaker \<Rightarrow> block \<Rightarrow> item list" where
  "items_of_block tr reminder who b =
     (case b of
        Text t _ \<Rightarrow> said (if reminder then as_system_reminder t else t)
      | Image media data \<Rightarrow>
          if who = User then [Shown (JObj [(''url'', JStr (''data:'' @ media @ '';base64,'' @ data))])] else []
      | ToolUse i name input \<Rightarrow>
          if who = Assistant then [Called i name (tr_dumps tr (JObj (fst (sanitize_tool_input (JStr name) input))))] else []
      | ToolResult i c _ \<Rightarrow> if who = User then [Returns i (result_text tr c)] else []
      | Thinking \<Rightarrow> [])"

definition items_of_turn :: "translation \<Rightarrow> bool \<Rightarrow> turn \<Rightarrow> item list" where
  "items_of_turn tr reminder m =
     (case m of
        (who, Plain t) \<Rightarrow> said (if reminder then as_system_reminder t else t)
      | (who, Blocks bs) \<Rightarrow>
          (let is = concat (map (items_of_block tr reminder who) bs) in filter (\<lambda>i. \<not> is_call i) is @ filter is_call is))"

fun items_of_turns :: "translation \<Rightarrow> bool \<Rightarrow> turn list \<Rightarrow> item list" where
  "items_of_turns tr started [] = []"
| "items_of_turns tr started (m # ms) =
     items_of_turn tr (fst m = System \<and> started) m @ items_of_turns tr (started \<or> fst m \<noteq> System) ms"

lemma items_of_built [simp]:
  "items_of_part (text_part t m) = said t"
  "items_of_part (image_part x y) = [Shown (JObj [(''url'', JStr (''data:'' @ x @ '';base64,'' @ y))])]"
  "items_of_message (tool_message tr i c mk) = [Returns i (result_text tr c)]"
  "item_of_call (tool_call tr i n d) = Called i n (tr_dumps tr (JObj (fst (sanitize_tool_input (JStr n) d))))"
  by (auto simp: items_of_part_def text_part_def image_part_def items_of_message_def tool_message_def item_of_call_def tool_call_def
      text_in_def jget_def split: option.split)

lemma items_of_chat_message [simp]: "r \<noteq> ''tool'' \<Longrightarrow> items_of_message (chat_message r c) = items_of_content c"
  by (simp add: items_of_message_def chat_message_def jget_def)

lemma speaker_not_tool [simp]: "speaker_name who \<noteq> ''tool''" "(if r then ''user'' else speaker_name who) \<noteq> ''tool''"
  by (cases who; simp add: speaker_name_def)+

text \<open>The loop over the blocks: what has been taken in is in what was sent and in what is pending.\<close>

definition pending_items :: "pending \<Rightarrow> item list" where
  "pending_items p = concat (map items_of_message (pe_sent p)) @ concat (map items_of_part (pe_content p))"

definition part_ok :: "json \<Rightarrow> bool" where
  "part_ok v \<longleftrightarrow> (\<exists>t m. v = text_part t m) \<or> (\<exists>x y. v = image_part x y)"

lemma on_block_items:
  "pending_items (on_block tr r who b p) = pending_items p @ filter (\<lambda>i. \<not> is_call i) (items_of_block tr r who b)"
  "map item_of_call (pe_calls (on_block tr r who b p)) = map item_of_call (pe_calls p) @ filter is_call (items_of_block tr r who b)"
  "list_all part_ok (pe_content p) \<Longrightarrow> list_all part_ok (pe_content (on_block tr r who b p))"
  "(pe_results p \<longrightarrow> who = User) \<and> (pe_calls p \<noteq> [] \<longrightarrow> who = Assistant) \<Longrightarrow>
   (pe_results (on_block tr r who b p) \<longrightarrow> who = User) \<and> (pe_calls (on_block tr r who b p) \<noteq> [] \<longrightarrow> who = Assistant)"
  by (cases b; auto simp: on_block_def pending_items_def items_of_block_def is_call_def said_def items_of_content_def part_ok_def)+

lemma on_blocks_items:
  "pending_items (fold (on_block tr r who) bs p) =
     pending_items p @ filter (\<lambda>i. \<not> is_call i) (concat (map (items_of_block tr r who) bs))"
  by (induction bs arbitrary: p) (simp_all add: on_block_items(1))

lemma on_blocks_calls:
  "map item_of_call (pe_calls (fold (on_block tr r who) bs p)) =
     map item_of_call (pe_calls p) @ filter is_call (concat (map (items_of_block tr r who) bs))"
  by (induction bs arbitrary: p) (simp_all add: on_block_items(2))

lemma on_blocks_parts: "list_all part_ok (pe_content p) \<Longrightarrow> list_all part_ok (pe_content (fold (on_block tr r who) bs p))"
  by (induction bs arbitrary: p) (simp_all add: on_block_items(3))

definition one_sided :: "speaker \<Rightarrow> pending \<Rightarrow> bool" where
  "one_sided who p \<longleftrightarrow> (pe_results p \<longrightarrow> who = User) \<and> (pe_calls p \<noteq> [] \<longrightarrow> who = Assistant)"

lemma on_blocks_one_sided: "one_sided who p \<Longrightarrow> one_sided who (fold (on_block tr r who) bs p)"
proof (induction bs arbitrary: p)
  case (Cons b bs)
  then have "one_sided who (on_block tr r who b p)" unfolding one_sided_def by (intro on_block_items(4))
  then show ?case by (simp add: Cons.IH)
qed simp

lemma simplified_text: "simplified [text_part t None] = JStr t"
  by (simp add: simplified_def text_part_def jget_def)

lemma simplified_marked: "simplified [text_part t (Some m)] = JList [text_part t (Some m)]"
proof -
  have "set (dkeys [(''type'', JStr ''text''), (''text'', JStr t), (''cache_control'', m)]) \<noteq> {''type'', ''text''}"
  proof
    assume eq: "set (dkeys [(''type'', JStr ''text''), (''text'', JStr t), (''cache_control'', m)]) = {''type'', ''text''}"
    have mem: "''cache_control'' \<in> set (dkeys [(''type'', JStr ''text''), (''text'', JStr t), (''cache_control'', m)])" by simp
    from mem have "''cache_control'' \<in> {''type'', ''text''}" unfolding eq .
    then show False by simp
  qed
  then show ?thesis by (simp add: simplified_def text_part_def del: set_map list.set)
qed

lemma simplified_image: "simplified [image_part x y] = JList [image_part x y]"
  by (simp add: simplified_def image_part_def jget_def)

lemma simplified_longer: "simplified (v # w # vs) = JList (v # w # vs)"
  by (simp add: simplified_def split: json.split)

lemma simplified_cases:
  assumes "list_all part_ok ps"
  obtains "ps = []" "simplified ps = JNull" | t where "ps = [text_part t None]" "simplified ps = JStr t"
    | "ps \<noteq> []" "simplified ps = JList ps"
proof (cases ps)
  case Nil
  then show ?thesis using that(1) by (simp add: simplified_def)
next
  case (Cons v vs)
  show ?thesis
  proof (cases vs)
    case Nil
    from assms Cons have "part_ok v" by simp
    then consider t where "v = text_part t None" | t m where "v = text_part t (Some m)" | x y where "v = image_part x y"
      unfolding part_ok_def by (metis not_None_eq)
    then show ?thesis
    proof cases
      case 1
      then show ?thesis using that(2) [of t] Cons Nil simplified_text by simp
    qed (use that(3) Cons Nil simplified_marked simplified_image in \<open>simp_all\<close>)
  next
    case (Cons w ws)
    then show ?thesis using that(3) \<open>ps = v # vs\<close> simplified_longer by simp
  qed
qed

lemma simplified_items: "list_all part_ok ps \<Longrightarrow> items_of_content (simplified ps) = concat (map items_of_part ps)"
  by (erule simplified_cases) (simp_all add: items_of_content_def)

lemma convert_message_items: "concat (map items_of_message (convert_message tr r m)) = items_of_turn tr r m"
proof (cases m)
  case (Pair who c)
  define p where "p = all_blocks tr r who c"
  have ok: "list_all part_ok (pe_content p)"
    by (auto simp: p_def all_blocks_def part_ok_def Let_def intro!: on_blocks_parts split: content.split)
  have "one_sided who p"
  proof (cases c)
    case (Blocks bs)
    show ?thesis unfolding p_def all_blocks_def Let_def Blocks content.case
      by (rule on_blocks_one_sided) (simp add: one_sided_def)
  qed (simp add: p_def all_blocks_def one_sided_def)
  then have excl: "pe_results p \<longrightarrow> who = User" "pe_calls p \<noteq> [] \<longrightarrow> who = Assistant" by (simp_all add: one_sided_def)
  have its: "pending_items p @ map item_of_call (pe_calls p) = items_of_turn tr r m"
  proof (cases c)
    case (Plain t)
    then show ?thesis by (simp add: p_def all_blocks_def Pair items_of_turn_def pending_items_def)
  next
    case (Blocks bs)
    then show ?thesis
      by (simp add: p_def all_blocks_def Pair items_of_turn_def on_blocks_items on_blocks_calls Let_def del: filter_concat)
        (simp add: pending_items_def)
  qed
  show ?thesis
  proof (cases "pe_results p")
    case True
    with excl have "pe_calls p = []" by auto
    with True its show ?thesis
      by (auto simp: convert_message_def Pair p_def [symmetric] finish_message_def pending_items_def items_of_content_def)
  next
    case False
    have sent: "concat (map items_of_message (finish_message r who p)) =
        concat (map items_of_message (pe_sent p)) @ items_of_content (simplified (pe_content p)) @ map item_of_call (pe_calls p)"
    proof (cases "pe_calls p = []")
      case True
      with False show ?thesis
        by (auto simp: finish_message_def Let_def items_of_message_def jget_def chat_message_def items_of_content_def said_def)
    next
      case c: False
      with False show ?thesis by (auto simp: finish_message_def Let_def items_of_message_def jget_def)
    qed
    show ?thesis using its sent simplified_items [OF ok] by (simp add: convert_message_def Pair p_def [symmetric] pending_items_def)
  qed
qed

text \<open>
  C31. The conversation is preserved. What the messages sent to the backend say, show, call and return is
  what the client's messages do, in the same order, where a message's tool calls follow its text: no
  text, image, tool call or result is lost, repeated or attached to another identifier. Reasoning
  blocks are left out, as are images and results outside user messages and calls outside assistant
  messages; the arguments of a call are those of the client without the parameters that are stripped.
\<close>

theorem conversation_preserved:
  "concat (map items_of_message (convert_messages tr started ms)) = items_of_turns tr started ms"
  by (induction ms arbitrary: started) (simp_all add: convert_message_items)
section \<open>The system prompt is a prefix\<close>

definition from_system :: "json \<Rightarrow> bool" where
  "from_system v = (case v of JObj d \<Rightarrow> jget d ''role'' = JStr ''system'' | _ \<Rightarrow> False)"

lemma from_system_built [simp]:
  "from_system (chat_message r c) \<longleftrightarrow> r = ''system''" "\<not> from_system (tool_message tr i rc mk)"
  by (simp_all add: from_system_def chat_message_def tool_message_def jget_def)

definition sent_ok :: "speaker \<Rightarrow> pending \<Rightarrow> bool" where
  "sent_ok who p \<longleftrightarrow> (\<forall>v \<in> set (pe_sent p). \<not> from_system v) \<and> (who \<noteq> User \<longrightarrow> pe_sent p = [] \<and> \<not> pe_results p)"

lemma on_block_sent: "sent_ok who p \<Longrightarrow> sent_ok who (on_block tr r who b p)"
  by (cases b) (auto simp: sent_ok_def on_block_def)

lemma on_blocks_sent: "sent_ok who p \<Longrightarrow> sent_ok who (fold (on_block tr r who) bs p)"
  by (induction bs arbitrary: p) (simp_all add: on_block_sent)

lemma from_system_role: "from_system (JObj ((''role'', JStr x) # rest)) \<longleftrightarrow> x = ''system''"
  by (simp add: from_system_def jget_def)

lemma convert_message_system:
  assumes "v \<in> set (convert_message tr r m)"
  shows "from_system v \<longleftrightarrow> fst m = System \<and> \<not> r"
proof -
  obtain who c where m: "m = (who, c)" by (cases m)
  define p where "p = all_blocks tr r who c"
  have sent: "sent_ok who p"
  proof (cases c)
    case (Blocks bs)
    show ?thesis unfolding p_def all_blocks_def Let_def Blocks content.case by (rule on_blocks_sent) (simp add: sent_ok_def)
  qed (simp add: p_def all_blocks_def sent_ok_def)
  define role where "role = (if r then ''user'' else speaker_name who)"
  have role: "role = ''system'' \<longleftrightarrow> who = System \<and> \<not> r" by (cases who) (simp_all add: role_def speaker_name_def)
  have v: "v \<in> set (finish_message r who p)" using assms by (simp add: m convert_message_def p_def)
  consider "v \<in> set (pe_sent p)" | "pe_results p" "v = chat_message ''user'' (JList (pe_content p))" | "v = chat_message role (JStr [])"
    | rest where "v = JObj ((''role'', JStr role) # rest)"
    using v unfolding finish_message_def Let_def role_def [symmetric] by (auto split: if_split_asm)
  then show ?thesis
  proof cases
    case 1
    with sent have "\<not> from_system v" "who = User" by (auto simp: sent_ok_def)
    then show ?thesis by (simp add: m)
  next
    case 2
    with sent have "who = User" by (auto simp: sent_ok_def)
    with 2 show ?thesis by (simp add: m)
  qed (simp_all add: m role from_system_role)
qed

lemma no_system_after_start: "v \<in> set (convert_messages tr True ms) \<Longrightarrow> \<not> from_system v"
  by (induction ms) (auto dest: convert_message_system)


section \<open>Tool choice\<close>

text \<open>
  C33. A forced choice is kept or refused. When a request is translated, a choice of any tool asks the
  backend for a tool, and there is one to call; a choice of a tool by name asks for exactly that one, and
  it is among the tools that are sent, with its schema; and neither is sent to a model known not to
  support it. A choice of a tool that lacks the name is sent as no tool at all.
\<close>

theorem forced_choice_kept:
  assumes "convert_request tr rq = Inr d" "jget (rq_choice rq) ''type'' = JStr kind" "kind \<in> {''any'', ''tool''}"
  shows "tr_forced tr \<noteq> Some False \<and>
     (if kind = ''tool'' \<and> dget (rq_choice rq) ''name'' = None then jget d ''tool_choice'' = JStr ''none''
      else jget d ''tools'' = JList (map (convert_tool tr) (retained_tools tr rq)) \<and> retained_tools tr rq \<noteq> [] \<and>
        (if kind = ''any'' then jget d ''tool_choice'' = JStr ''required''
         else (\<exists>t \<in> set (retained_tools tr rq). jget (rq_choice rq) ''name'' = JStr (td_name t) \<and>
           jget d ''tool_choice'' = JObj [(''type'', JStr ''function''), (''function'', JObj [(''name'', JStr (td_name t))])])))"
proof -
  let ?names = "map td_name (retained_tools tr rq)"
  have ne: "rq_choice rq \<noteq> []" using assms(2) by (auto simp: jget_def)
  have forced: "tr_forced tr \<noteq> Some False"
    using assms(1-3) by (auto simp: convert_request_def check_forced_def split: option.splits)
  have "convert_choice ?names (rq_choice rq) \<noteq> Inr None"
    using ne by (auto simp: convert_choice_def split: json.split if_splits)
  with assms(1) obtain c where c: "convert_choice ?names (rq_choice rq) = Inr (Some c)"
    by (auto simp: convert_request_def Let_def split: option.splits sum.splits)
  have choice: "jget d ''tool_choice'' = c"
    using assms(1) c by (auto simp: convert_request_def Let_def split: option.splits)
  have tools: "jget d ''tools'' = JList (map (convert_tool tr) (retained_tools tr rq))" if "retained_tools tr rq \<noteq> []"
    using assms(1) c that by (auto simp: convert_request_def Let_def set_if_def split: option.splits)
  show ?thesis
  proof (cases "kind = ''any''")
    case True
    with c ne assms(2) have "retained_tools tr rq \<noteq> []" "c = JStr ''required''"
      by (auto simp: convert_choice_def split: if_splits)
    with True forced choice tools show ?thesis by simp
  next
    case False
    with assms(3) have kind: "kind = ''tool''" by simp
    show ?thesis
    proof (cases "dget (rq_choice rq) ''name''")
      case None
      with c ne assms(2) kind have "c = JStr ''none''" by (simp add: convert_choice_def)
      with None kind forced choice show ?thesis by simp
    next
      case (Some name)
      with c ne assms(2) kind obtain t where t: "t \<in> set (retained_tools tr rq)" "jget (rq_choice rq) ''name'' = JStr (td_name t)"
        "c = JObj [(''type'', JStr ''function''), (''function'', JObj [(''name'', JStr (td_name t))])]"
        by (auto simp: convert_choice_def split: json.splits if_splits)
      from t(1) have "retained_tools tr rq \<noteq> []" by auto
      moreover from t choice have "\<exists>t \<in> set (retained_tools tr rq). jget (rq_choice rq) ''name'' = JStr (td_name t) \<and>
          jget d ''tool_choice'' = JObj [(''type'', JStr ''function''), (''function'', JObj [(''name'', JStr (td_name t))])]"
        by blast
      ultimately show ?thesis using Some kind forced tools by simp
    qed
  qed
qed

section \<open>Answers\<close>

lemma dget_strip_empty:
  "dget (fst (strip_empty p r)) k =
     (if k = p \<and> (case dget (fst r) p of Some v \<Rightarrow> empty_value v | None \<Rightarrow> False) then None else dget (fst r) k)"
  by (auto simp: strip_empty_def strip_param_def delete_conv split: prod.split option.split)

lemma strip_keeps_none: "dget (fst r) k = None \<Longrightarrow> dget (fst (strip_empty p r)) k = None"
  by (simp only: dget_strip_empty if_cancel)

definition filled :: "string \<Rightarrow> jobj \<Rightarrow> bool" where
  "filled p d \<longleftrightarrow> (\<forall>v. dget d p = Some v \<longrightarrow> \<not> empty_value v)"

lemma filled_strip: "filled p (fst (strip_empty p r))" "filled p (fst r) \<Longrightarrow> filled p (fst (strip_empty q r))"
  by (auto simp: filled_def dget_strip_empty split: if_splits)

lemma strip_empty_idle: "filled p (fst r) \<Longrightarrow> strip_empty p r = r"
  by (auto simp: filled_def strip_empty_def split: option.splits)

text \<open>What has been sanitized stays as it is.\<close>

lemma sanitize_idem: "sanitize_tool_input n (fst (sanitize_tool_input n d)) = (fst (sanitize_tool_input n d), [])"
proof (cases "n = JStr ''Read''")
  case True
  let ?start = "if dget d ''pages'' \<noteq> None \<and> \<not> is_pdf_path (jget d ''file_path'') then strip_param ''pages'' (d, []) else (d, [])"
  let ?r = "strip_empty ''limit'' (strip_empty ''offset'' (strip_empty ''pages'' ?start))"
  have r: "sanitize_tool_input n d = ?r" by (simp add: sanitize_tool_input_def True sectioning_params_def)
  have path: "jget (fst ?r) ''file_path'' = jget d ''file_path''"
    by (auto simp: jget_def dget_strip_empty strip_param_def delete_conv)
  have pages: "dget (fst ?r) ''pages'' = None" if "\<not> is_pdf_path (jget d ''file_path'')"
  proof -
    have "dget (fst ?start) ''pages'' = None" using that by (simp add: strip_param_def delete_conv)
    then show ?thesis by (intro strip_keeps_none)
  qed
  have "filled ''pages'' (fst ?r)" "filled ''offset'' (fst ?r)" "filled ''limit'' (fst ?r)" by (intro filled_strip)+
  then have "strip_empty ''pages'' (fst ?r, []) = (fst ?r, [])" "strip_empty ''offset'' (fst ?r, []) = (fst ?r, [])"
    "strip_empty ''limit'' (fst ?r, []) = (fst ?r, [])" by (auto intro!: strip_empty_idle simp del: prod.collapse)
  then have fixed: "fold strip_empty sectioning_params (fst ?r, []) = (fst ?r, [])" by (simp add: sectioning_params_def)
  define e where "e = fst ?r"
  note e = fixed [folded e_def] path [folded e_def] pages [folded e_def]
  have "\<not> (dget e ''pages'' \<noteq> None \<and> \<not> is_pdf_path (jget e ''file_path''))" using e(2,3) by auto
  with e(1) True have "sanitize_tool_input n e = (e, [])" by (simp only: sanitize_tool_input_def if_False not_True_eq_False simp_thms)
  then show ?thesis by (simp only: r e_def)
qed (simp add: sanitize_tool_input_def)

lemma answer_tool_call:
  assumes "tr_loads tr (tr_dumps tr (JObj (fst (sanitize_tool_input (JStr n) d)))) = Some (JObj (fst (sanitize_tool_input (JStr n) d)))"
    and "\<And>s. aw_text aw (JStr s) = Some s"
  shows "answer_tool tr aw (tool_call tr i n d) = Some [ToolUse i n (fst (sanitize_tool_input (JStr n) d))]"
  by (simp add: answer_tool_def tool_call_def jget_def get_or_def tool_input_def assms sanitize_idem)

lemma answer_tool_calls:
  assumes "\<And>s. aw_text aw (JStr s) = Some s"
  shows "(\<And>i n d. (i, n, d) \<in> set uses \<Longrightarrow>
      tr_loads tr (tr_dumps tr (JObj (fst (sanitize_tool_input (JStr n) d)))) = Some (JObj (fst (sanitize_tool_input (JStr n) d)))) \<Longrightarrow>
    answer_tools tr aw (map (\<lambda>(i, n, d). tool_call tr i n d) uses) =
     Some (map (\<lambda>(i, n, d). ToolUse i n (fst (sanitize_tool_input (JStr n) d))) uses)"
proof (induction uses)
  case (Cons u uses)
  obtain i n d where u: "u = (i, n, d)" by (cases u)
  have "answer_tool tr aw (tool_call tr i n d) = Some [ToolUse i n (fst (sanitize_tool_input (JStr n) d))]"
    by (rule answer_tool_call [OF Cons.prems [of i n d] assms]) (simp add: u)
  moreover have "answer_tools tr aw (map (\<lambda>(i, n, d). tool_call tr i n d) uses) =
      Some (map (\<lambda>(i, n, d). ToolUse i n (fst (sanitize_tool_input (JStr n) d))) uses)"
    using Cons by (metis list.set_intros(2))
  ultimately show ?case by (simp add: u)
qed simp

lemma fold_tool_uses:
  "fold (on_block tr False Assistant) (map (\<lambda>(i, n, d). ToolUse i n d) uses) p =
     p\<lparr>pe_calls := pe_calls p @ map (\<lambda>(i, n, d). tool_call tr i n d) uses\<rparr>"
  by (induction uses arbitrary: p) (auto simp: on_block_def)

text \<open>
  C34. A turn of the assistant survives both translations. A turn of a text and tool calls, sent to the
  backend in the history and given back by it as its answer, reaches the client as the same turn:
  the same text, the same calls under the same identifiers, with the arguments sanitized once.
\<close>

theorem assistant_turn_roundtrip:
  assumes "\<And>i n d. (i, n, d) \<in> set uses \<Longrightarrow>
      tr_loads tr (tr_dumps tr (JObj (fst (sanitize_tool_input (JStr n) d)))) = Some (JObj (fst (sanitize_tool_input (JStr n) d)))"
    and "\<And>s. aw_text aw (JStr s) = Some s" "\<And>i. aw_int aw (JInt i) = Some i"
    and "t \<noteq> []" "uses \<noteq> []"
  shows "\<exists>m u. convert_message tr False (Assistant, Blocks (Text t None # map (\<lambda>(i, n, d). ToolUse i n d) uses)) = [m] \<and>
     convert_answer tr aw ''claude'' [(''id'', JStr ''m1''),
         (''choices'', JList [JObj [(''message'', m), (''finish_reason'', JStr ''tool_calls'')]])] =
       Some \<lparr>an_id = ''m1'', an_model = ''claude'',
         an_content = Text t None # map (\<lambda>(i, n, d). ToolUse i n (fst (sanitize_tool_input (JStr n) d))) uses,
         an_stop = ''tool_use'', an_usage = u\<rparr>"
proof -
  let ?calls = "map (\<lambda>(i, n, d). tool_call tr i n d) uses"
  let ?m = "JObj [(''role'', JStr ''assistant''), (''content'', JStr t), (''tool_calls'', JList ?calls)]"
  have m: "convert_message tr False (Assistant, Blocks (Text t None # map (\<lambda>(i, n, d). ToolUse i n d) uses)) = [?m]"
    using assms(5)
    by (simp add: convert_message_def all_blocks_def on_block_def fold_tool_uses finish_message_def marker_of_def simplified_text
        Let_def speaker_name_def)
  have "answer_choice tr aw (JList [JObj [(''message'', ?m), (''finish_reason'', JStr ''tool_calls'')]]) =
      Some (Text t None # map (\<lambda>(i, n, d). ToolUse i n (fst (sanitize_tool_input (JStr n) d))) uses, JStr ''tool_calls'')"
    using assms(4) by (simp add: answer_choice_def get_or_def jget_def answer_tool_calls [OF assms(2,1)])
  moreover obtain u where "answer_usage_of aw [] = Some u"
    using assms(3) by (simp add: answer_usage_of_def Let_def get_or_def anthropic_cache_usage_def jget_def)
  ultimately show ?thesis using m assms(2)
    by (intro exI [of _ ?m] exI [of _ u]) (simp add: convert_answer_def Let_def get_or_def jget_def stop_reason_of_def)
qed

definition sample_translation :: translation where
  "sample_translation =
     \<lparr>tr_dumps = (\<lambda>_. ''text''), tr_loads = (\<lambda>_. Some (JObj [(''file_path'', JStr ''a.py'')])), tr_markers = False, tr_forced = Some True,
      tr_chat = True, tr_auto_cache = None, tr_ignored = (\<lambda>n. n = ''Hidden''), tr_multi_edit = []\<rparr>"

definition sample_answering :: answering where
  "sample_answering =
     \<lparr>aw_text = (\<lambda>v. case v of JStr s \<Rightarrow> Some s | _ \<Rightarrow> None), aw_int = (\<lambda>v. case v of JInt i \<Rightarrow> Some i | _ \<Rightarrow> None),
      aw_message_id = ''m'', aw_tool_id = ''t'', aw_exception = []\<rparr>"

theorem assistant_turn_roundtrip_witness:
  "\<exists>m u. convert_message sample_translation False
       (Assistant, Blocks [Text ''Reading.'' None, ToolUse ''t1'' ''Read'' [(''file_path'', JStr ''a.py''), (''pages'', JStr ''1'')]]) = [m] \<and>
     convert_answer sample_translation sample_answering ''claude'' [(''id'', JStr ''m1''),
         (''choices'', JList [JObj [(''message'', m), (''finish_reason'', JStr ''tool_calls'')]])] =
       Some \<lparr>an_id = ''m1'', an_model = ''claude'',
         an_content = [Text ''Reading.'' None, ToolUse ''t1'' ''Read'' [(''file_path'', JStr ''a.py'')]],
         an_stop = ''tool_use'', an_usage = u\<rparr>"
proof -
  have s: "fst (sanitize_tool_input (JStr ''Read'') [(''file_path'', JStr ''a.py''), (''pages'', JStr ''1'')]) = [(''file_path'', JStr ''a.py'')]"
    by code_simp
  have "\<exists>m u. convert_message sample_translation False
       (Assistant, Blocks (Text ''Reading.'' None # map (\<lambda>(i, n, d). ToolUse i n d)
         [(''t1'', ''Read'', [(''file_path'', JStr ''a.py''), (''pages'', JStr ''1'')])])) = [m] \<and>
     convert_answer sample_translation sample_answering ''claude'' [(''id'', JStr ''m1''),
         (''choices'', JList [JObj [(''message'', m), (''finish_reason'', JStr ''tool_calls'')]])] =
       Some \<lparr>an_id = ''m1'', an_model = ''claude'',
         an_content = Text ''Reading.'' None # map (\<lambda>(i, n, d). ToolUse i n (fst (sanitize_tool_input (JStr n) d)))
           [(''t1'', ''Read'', [(''file_path'', JStr ''a.py''), (''pages'', JStr ''1'')])],
         an_stop = ''tool_use'', an_usage = u\<rparr>"
    by (rule assistant_turn_roundtrip) (auto simp: sample_translation_def sample_answering_def s)
  then show ?thesis by (simp add: s)
qed

definition sample_request :: request where
  "sample_request =
     \<lparr>rq_model = ''m'', rq_messages = [(User, Plain ''hi'')], rq_system = NoSystem, rq_max_tokens = 10, rq_stream = False, rq_options = [],
      rq_stop = [], rq_metadata = [],
      rq_tools = [\<lparr>td_name = ''Hidden'', td_description = None, td_schema = []\<rparr>, \<lparr>td_name = ''Read'', td_description = None, td_schema = []\<rparr>],
      rq_choice = [(''type'', JStr ''tool''), (''name'', JStr ''Read'')]\<rparr>"

theorem forced_choice_kept_witness:
  "map_sum id (\<lambda>d. jget d ''tool_choice'') (convert_request sample_translation sample_request) =
     Inr (JObj [(''type'', JStr ''function''), (''function'', JObj [(''name'', JStr ''Read'')])])"
proof -
  have "map_sum id (\<lambda>_. ()) (convert_request sample_translation sample_request) = Inr ()" by code_simp
  then obtain d where d: "convert_request sample_translation sample_request = Inr d"
    by (cases "convert_request sample_translation sample_request") auto
  have c: "jget (rq_choice sample_request) ''type'' = JStr ''tool''" "dget (rq_choice sample_request) ''name'' = Some (JStr ''Read'')"
    by (simp_all add: sample_request_def jget_def)
  have "''tool'' \<in> {''any'', ''tool''}" by simp
  from forced_choice_kept [OF d c(1) this] show ?thesis using c(2) by (auto simp: d jget_def)
qed

end
