(* ===== verification/Settings.thy ===== *)
theory Settings
  imports Rules
begin

text \<open>
  Settings of another program (\<open>install/settings_merge.py\<close> with the settings half of
  \<open>install/installer.py\<close>, \<open>install/preset.py\<close> and the frozen shapes of \<open>install/hook_migration.py\<close>): the
  installer merges hooks, permissions, environment and a status line into a settings file that belongs
  to the user, records what it added, and takes exactly that out again.

  A settings object is a JSON object, as the user may have written it. The two places where Python's
  notions of equality differ are kept apart: canonical JSON text (\<open>_canonical_json\<close>, \<open>_deep_equals\<close>)
  tells \<open>1\<close> from \<open>True\<close>, \<open>==\<close> does not.
\<close>

section \<open>Equalities\<close>

text \<open>
  The value behind \<open>json.dumps(v, sort_keys=True)\<close>, which is injective on values in this form; it
  stands for the text.
\<close>

fun canonical :: "json \<Rightarrow> json" where
  "canonical (JList xs) = JList (map canonical xs)"
| "canonical (JObj d) = JObj (sort_key fst (map (\<lambda>(k, v). (k, canonical v)) d))"
| "canonical v = v"

text \<open>\<open>a == b\<close>: numbers by value, dicts whatever their order.\<close>

fun py_value :: "json \<Rightarrow> json" where
  "py_value (JList xs) = JList (map py_value xs)"
| "py_value (JObj d) = JObj (sort_key fst (map (\<lambda>(k, v). (k, py_value v)) d))"
| "py_value v = hash_key v"

definition py_eq :: "json \<Rightarrow> json \<Rightarrow> bool" where
  "py_eq a b \<longleftrightarrow> py_value a = py_value b"

function deep_equals :: "json \<Rightarrow> json \<Rightarrow> bool" where
  "deep_equals (JObj a) v =
     (case v of
        JObj b \<Rightarrow> set (dkeys a) = set (dkeys b) \<and>
          list_all (\<lambda>p. case dget b (fst p) of Some w \<Rightarrow> deep_equals (snd p) w | None \<Rightarrow> False) a
      | _ \<Rightarrow> False)"
| "deep_equals (JList xs) v =
     (case v of
        JList ys \<Rightarrow> length xs = length ys \<and> list_all (\<lambda>p. deep_equals (fst p) (snd p)) (zip xs ys)
      | _ \<Rightarrow> False)"
| "deep_equals JNull v = (v = JNull)"
| "deep_equals (JBool x) v = (v = JBool x)"
| "deep_equals (JInt x) v = (v = JInt x)"
| "deep_equals (JFloat x) v = (v = JFloat x)"
| "deep_equals (JStr x) v = (v = JStr x)"
  by pat_completeness auto
termination
proof (relation "measure (\<lambda>(a, b). size a)", goal_cases)
  case 1
  show ?case by simp
next
  case (2 a v b p w)
  then obtain k u where p: "p = (k, u)" "(k, u) \<in> set a" by (cases p) simp
  have "size u < size (JObj a)" using p(2) by (induction a) auto
  with p(1) show ?case by simp
next
  case (3 xs v ys p)
  then have "fst p \<in> set xs" by (metis prod.collapse set_zip_leftD)
  then have "size (fst p) \<le> size_list size xs" by (rule size_list_estimation') simp
  then show ?case by (cases p) simp
qed

section \<open>Python on JSON values\<close>

definition get_default :: "jobj \<Rightarrow> string \<Rightarrow> json \<Rightarrow> json" where
  "get_default d k v = (case dget d k of Some x \<Rightarrow> x | None \<Rightarrow> v)"

text \<open>\<open>iter(v)\<close> and \<open>k in v\<close>, where they do not raise.\<close>

definition iterated :: "json \<Rightarrow> json list option" where
  "iterated v =
     (case v of
        JList xs \<Rightarrow> Some xs
      | JStr s \<Rightarrow> Some (map (\<lambda>c. JStr [c]) s)
      | JObj d \<Rightarrow> Some (map (JStr \<circ> fst) d)
      | _ \<Rightarrow> None)"

definition py_in :: "string \<Rightarrow> json \<Rightarrow> bool option" where
  "py_in k v =
     (case v of
        JObj d \<Rightarrow> Some (dget d k \<noteq> None)
      | JList xs \<Rightarrow> Some (JStr k \<in> set xs)
      | JStr s \<Rightarrow> Some (contains k s)
      | _ \<Rightarrow> None)"

text \<open>
  What an operation on settings raises: \<open>SettingsConflictError\<close>, an \<open>AttributeError\<close> or \<open>TypeError\<close> on
  a value of the wrong shape, a file that cannot be read, no installation. \<open>Planned\<close> stands for the
  plan that is returned, without a change, when planning found a conflict.
\<close>

datatype settings_error = Conflicting string json json | Malformed | UnreadableFile | NotInstalled | Planned

fun each :: "('x \<Rightarrow> 's \<Rightarrow> settings_error + 's) \<Rightarrow> 'x list \<Rightarrow> 's \<Rightarrow> settings_error + 's" where
  "each f [] s = Inr s"
| "each f (x # xs) s = (case f x s of Inl e \<Rightarrow> Inl e | Inr s' \<Rightarrow> each f xs s')"

section \<open>Entries\<close>

text \<open>
  A dotted key path begins with its section, so its constructor stands for the prefix; a scalar is a
  top-level key. The stable id of a hook is its canonical text. The merge type follows from the path.
\<close>

datatype key_path = HookPath string | PermissionPath string | EnvPath string | ScalarPath string

record settings_entry =
  ent_path :: key_path
  ent_value :: json
  ent_id :: json
  ent_module :: string

text \<open>What Forge writes to its sidecar file, as the sections of the JSON object.\<close>

record added =
  ad_hooks :: "(string, json list) dict"
  ad_permissions :: "(string, json list) dict"
  ad_env :: jobj
  ad_scalars :: jobj

definition nothing_added :: added where
  "nothing_added = \<lparr>ad_hooks = [], ad_permissions = [], ad_env = [], ad_scalars = []\<rparr>"

definition list_of :: "(string, json list) dict \<Rightarrow> string \<Rightarrow> json list" where
  "list_of d k = (case dget d k of Some xs \<Rightarrow> xs | None \<Rightarrow> [])"

definition add_entry :: "settings_entry \<Rightarrow> added \<Rightarrow> added" where
  "add_entry e a =
     (case ent_path e of
        HookPath t \<Rightarrow> a\<lparr>ad_hooks := dset (ad_hooks a) t (list_of (ad_hooks a) t @ [ent_value e])\<rparr>
      | PermissionPath t \<Rightarrow> a\<lparr>ad_permissions := dset (ad_permissions a) t (list_of (ad_permissions a) t @ [ent_value e])\<rparr>
      | EnvPath k \<Rightarrow> a\<lparr>ad_env := dset (ad_env a) k (ent_value e)\<rparr>
      | ScalarPath k \<Rightarrow> a\<lparr>ad_scalars := dset (ad_scalars a) k (ent_value e)\<rparr>)"

definition entries_to_added_structure :: "settings_entry list \<Rightarrow> added" where
  "entries_to_added_structure es = fold add_entry es nothing_added"

section \<open>Merging\<close>

text \<open>\<open>d.setdefault(k, v)\<close>\<close>

definition set_default :: "jobj \<Rightarrow> string \<Rightarrow> json \<Rightarrow> json \<times> jobj" where
  "set_default d k v = (case dget d k of Some x \<Rightarrow> (x, d) | None \<Rightarrow> (v, dset d k v))"

text \<open>The elements of a list whose key has not been seen, each key once.\<close>

fun append_missing :: "('v \<Rightarrow> 'k) \<Rightarrow> 'k list \<Rightarrow> 'v list \<Rightarrow> 'v list" where
  "append_missing key seen [] = []"
| "append_missing key seen (e # es) =
     (if key e \<in> set seen then append_missing key seen es else e # append_missing key (key e # seen) es)"

definition hook_entry :: "string \<Rightarrow> json \<Rightarrow> settings_entry" where
  "hook_entry t v = \<lparr>ent_path = HookPath t, ent_value = v, ent_id = canonical v, ent_module = ''hooks''\<rparr>"

definition permission_entry :: "string \<Rightarrow> json \<Rightarrow> settings_entry" where
  "permission_entry t v = \<lparr>ent_path = PermissionPath t, ent_value = v, ent_id = v, ent_module = ''permissions''\<rparr>"

definition env_entry :: "string \<times> json \<Rightarrow> settings_entry" where
  "env_entry p = \<lparr>ent_path = EnvPath (fst p), ent_value = snd p, ent_id = JStr (fst p), ent_module = ''permissions''\<rparr>"

type_synonym merging = "jobj \<Rightarrow> settings_error + settings_entry list \<times> jobj"

definition merge_hooks :: "string \<Rightarrow> json list \<Rightarrow> merging" where
  "merge_hooks t entries s =
     (case set_default s ''hooks'' (JObj []) of
        (JObj hooks, s1) \<Rightarrow>
          (case set_default hooks t (JList []) of
             (existing, hooks1) \<Rightarrow>
               (case existing of
                  JList xs \<Rightarrow>
                    (let new = append_missing canonical (map canonical (filter is_obj xs)) entries
                     in Inr (map (hook_entry t) new, dset s1 ''hooks'' (JObj (dset hooks1 t (JList (xs @ new))))))
                | _ \<Rightarrow>
                    (if iterated existing \<noteq> None \<and> entries = [] then Inr ([], dset s1 ''hooks'' (JObj hooks1)) else Inl Malformed)))
      | _ \<Rightarrow> Inl Malformed)"

definition merge_permissions :: "string \<Rightarrow> json list \<Rightarrow> merging" where
  "merge_permissions t entries s =
     (case set_default s ''permissions'' (JObj []) of
        (JObj perms, s1) \<Rightarrow>
          (case set_default perms t (JList []) of
             (existing, perms1) \<Rightarrow>
               (case set_of_json existing of
                  Inl _ \<Rightarrow> Inl Malformed
                | Inr seen \<Rightarrow>
                    (if \<not> list_all hashable entries then Inl Malformed
                     else (let new = append_missing hash_key (map hash_key seen) entries
                       in case existing of
                            JList xs \<Rightarrow>
                              Inr (map (permission_entry t) new, dset s1 ''permissions'' (JObj (dset perms1 t (JList (xs @ new)))))
                          | _ \<Rightarrow> (if new = [] then Inr ([], dset s1 ''permissions'' (JObj perms1)) else Inl Malformed)))))
      | _ \<Rightarrow> Inl Malformed)"

definition merge_env :: "json \<Rightarrow> merging" where
  "merge_env forge_env s =
     (case (set_default s ''env'' (JObj []), forge_env) of
        ((JObj d, s1), JObj fe) \<Rightarrow>
          (let kvs = sort_key fst fe
           in Inr (map env_entry kvs, dset s1 ''env'' (JObj (fold (\<lambda>(k, v) d. dset d k v) kvs d))))
      | ((_, s1), JObj []) \<Rightarrow> Inr ([], s1)
      | _ \<Rightarrow> Inl Malformed)"

definition set_scalar :: "string \<Rightarrow> json \<Rightarrow> bool \<Rightarrow> merging" where
  "set_scalar k v force s =
     (let current = jget s k
      in if current \<noteq> JNull \<and> \<not> py_eq current v \<and> \<not> force then Inl (Conflicting k current v)
         else if py_eq current v then Inr ([], s)
         else Inr ([\<lparr>ent_path = ScalarPath k, ent_value = v, ent_id = JStr k, ent_module = ''status-line''\<rparr>], dset s k v))"

text \<open>
  The modules of a run that own settings, and whether a run that leaves the Claude runtime alone preserves
  what it owns. A merge is a run of steps.
\<close>

record modules =
  md_hooks :: bool
  md_permissions :: bool
  md_status :: bool
  md_preserved :: bool

fun merge_steps :: "merging list \<Rightarrow> merging" where
  "merge_steps [] s = Inr ([], s)"
| "merge_steps (m # ms) s =
     (case m s of
        Inl e \<Rightarrow> Inl e
      | Inr (es, s1) \<Rightarrow> (case merge_steps ms s1 of Inl e \<Rightarrow> Inl e | Inr (es', s2) \<Rightarrow> Inr (es @ es', s2)))"

text \<open>A step over an iterable of the template, which raises when it is none.\<close>

definition over :: "(json list \<Rightarrow> merging) \<Rightarrow> json \<Rightarrow> merging" where
  "over f v s = (case iterated v of None \<Rightarrow> Inl Malformed | Some xs \<Rightarrow> f xs s)"

definition hook_steps :: "jobj \<Rightarrow> merging list" where
  "hook_steps forge =
     (case get_default forge ''hooks'' (JObj []) of
        JObj d \<Rightarrow> map (\<lambda>(t, v). over (merge_hooks t) v) (sort_key fst d)
      | _ \<Rightarrow> [\<lambda>_. Inl Malformed])"

definition permission_steps :: "jobj \<Rightarrow> merging list" where
  "permission_steps forge =
     (case get_default forge ''permissions'' (JObj []) of
        JObj d \<Rightarrow> map (\<lambda>t. over (merge_permissions t) (jget d t)) (filter (\<lambda>t. truthy (jget d t)) [''allow'', ''deny''])
      | _ \<Rightarrow> [\<lambda>_. Inl Malformed])"

definition status_steps :: "bool \<Rightarrow> jobj \<Rightarrow> merging list" where
  "status_steps force forge =
     (case dget forge ''statusLine'' of Some v \<Rightarrow> [set_scalar ''statusLine'' v force] | None \<Rightarrow> [])"

definition env_steps :: "jobj \<Rightarrow> merging list" where
  "env_steps forge = (if truthy (jget forge ''env'') then [merge_env (jget forge ''env'')] else [])"

definition merge_settings :: "jobj \<Rightarrow> modules \<Rightarrow> bool \<Rightarrow> merging" where
  "merge_settings forge m force =
     merge_steps
       ((if md_hooks m then hook_steps forge else []) @
        (if md_permissions m then permission_steps forge else []) @
        (if md_status m then status_steps force forge else []) @
        (if md_permissions m then env_steps forge else []))"

section \<open>Taking entries out\<close>

definition unmerge_hooks :: "string \<Rightarrow> settings_entry list \<Rightarrow> jobj \<Rightarrow> settings_error + jobj" where
  "unmerge_hooks t es s =
     (let hooks = get_default s ''hooks'' (JObj []);
          remove = map (canonical \<circ> ent_value) (filter (\<lambda>e. truthy (ent_value e) \<and> is_obj (ent_value e)) es)
      in case (py_in t hooks, hooks) of
           (None, _) \<Rightarrow> Inl Malformed
         | (Some False, _) \<Rightarrow> Inr s
         | (Some True, JObj d) \<Rightarrow>
             (case iterated (jget d t) of
                None \<Rightarrow> Inl Malformed
              | Some items \<Rightarrow>
                  Inr (dset s ''hooks'' (JObj (dset d t (JList (filter (\<lambda>h. \<not> is_obj h \<or> canonical h \<notin> set remove) items))))))
         | _ \<Rightarrow> Inl Malformed)"

definition unmerge_permissions :: "string \<Rightarrow> settings_entry list \<Rightarrow> jobj \<Rightarrow> settings_error + jobj" where
  "unmerge_permissions t es s =
     (let perms = get_default s ''permissions'' (JObj [])
      in case (py_in t perms, perms) of
           (None, _) \<Rightarrow> Inl Malformed
         | (Some False, _) \<Rightarrow> Inr s
         | (Some True, JObj d) \<Rightarrow>
             (case iterated (jget d t) of
                None \<Rightarrow> Inl Malformed
              | Some items \<Rightarrow>
                  (if list_all (hashable \<circ> ent_id) es \<and> list_all hashable items
                   then Inr (dset s ''permissions'' (JObj (dset d t
                     (JList (filter (\<lambda>p. hash_key p \<notin> hash_key ` ent_id ` set es) items)))))
                   else Inl Malformed))
         | _ \<Rightarrow> Inl Malformed)"

definition unmerge_env :: "string \<Rightarrow> settings_entry list \<Rightarrow> jobj \<Rightarrow> settings_error + jobj" where
  "unmerge_env k es s =
     (let env = get_default s ''env'' (JObj [])
      in case (py_in k env, env) of
           (None, _) \<Rightarrow> Inl Malformed
         | (Some False, _) \<Rightarrow> Inr s
         | (Some True, JObj d) \<Rightarrow>
             Inr (if list_ex (\<lambda>e. deep_equals (jget d k) (ent_value e)) es then dset s ''env'' (JObj (ddel d k)) else s)
         | _ \<Rightarrow> Inl Malformed)"

definition unmerge_scalar :: "string \<Rightarrow> settings_entry list \<Rightarrow> jobj \<Rightarrow> settings_error + jobj" where
  "unmerge_scalar k es s =
     Inr (case dget s k of
            Some v \<Rightarrow> if list_ex (\<lambda>e. deep_equals v (ent_value e)) es then ddel s k else s
          | None \<Rightarrow> s)"

text \<open>The entries of one path together, a section at a time, and an environment left empty is dropped.\<close>

definition at_path :: "settings_entry list \<Rightarrow> key_path \<Rightarrow> settings_entry list" where
  "at_path es p = filter (\<lambda>e. ent_path e = p) es"

definition paths_of :: "settings_entry list \<Rightarrow> key_path list" where
  "paths_of es = distinct_first (map ent_path es)"

definition unmerge :: "settings_entry list \<Rightarrow> jobj \<Rightarrow> settings_error + jobj" where
  "unmerge es s =
     (let section = (\<lambda>f s. each f (paths_of es) s);
          hooks = (\<lambda>p s. case p of HookPath t \<Rightarrow> unmerge_hooks t (at_path es p) s | _ \<Rightarrow> Inr s);
          permissions = (\<lambda>p s. case p of PermissionPath t \<Rightarrow> unmerge_permissions t (at_path es p) s | _ \<Rightarrow> Inr s);
          env = (\<lambda>p s. case p of EnvPath k \<Rightarrow> unmerge_env k (at_path es p) s | _ \<Rightarrow> Inr s);
          drop_env = (\<lambda>s. Inr (if dget s ''env'' \<noteq> None \<and> \<not> truthy (jget s ''env'') then ddel s ''env'' else s));
          scalars = (\<lambda>p s. case p of ScalarPath k \<Rightarrow> unmerge_scalar k (at_path es p) s | _ \<Rightarrow> Inr s)
      in each (\<lambda>f s. f s) [section hooks, section permissions, section env, drop_env, section scalars] s)"

text \<open>
  \<open>smart_unmerge\<close>: hooks and permissions that were added go, an environment variable or a scalar that
  still has the added value gets the value from before back. A section that is not an object is left.
\<close>

definition take_hooks :: "(string, json list) dict \<Rightarrow> jobj \<Rightarrow> jobj" where
  "take_hooks added s =
     (case dget s ''hooks'' of
        Some (JObj d) \<Rightarrow>
          dset s ''hooks'' (JObj (fold (\<lambda>(t, vs) d.
            case dget d t of
              Some (JList xs) \<Rightarrow>
                dset d t (JList (filter (\<lambda>x. \<not> is_obj x \<or> canonical x \<notin> canonical ` set (filter is_obj vs)) xs))
            | _ \<Rightarrow> d) added d))
      | _ \<Rightarrow> s)"

definition take_permissions :: "(string, json list) dict \<Rightarrow> jobj \<Rightarrow> jobj" where
  "take_permissions added s =
     (case dget s ''permissions'' of
        Some (JObj d) \<Rightarrow>
          dset s ''permissions'' (JObj (fold (\<lambda>(t, vs) d.
            case dget d t of
              Some (JList xs) \<Rightarrow> dset d t (JList (filter (\<lambda>x. \<not> list_ex (py_eq x) vs) xs))
            | _ \<Rightarrow> d) added d))
      | _ \<Rightarrow> s)"

definition give_back :: "json \<Rightarrow> string \<Rightarrow> jobj \<Rightarrow> jobj" where
  "give_back old k d = (if old \<noteq> JNull then dset d k old else ddel d k)"

definition take_env :: "json \<Rightarrow> jobj \<Rightarrow> jobj \<Rightarrow> settings_error + jobj" where
  "take_env before added s =
     (case dget s ''env'' of
        Some (JObj d) \<Rightarrow>
          (case each (\<lambda>(k, v) d.
               case dget d k of
                 None \<Rightarrow> Inr d
               | Some x \<Rightarrow>
                   (case before of
                      JObj b \<Rightarrow> Inr (if py_eq x v then give_back (jget b k) k d else d)
                    | _ \<Rightarrow> Inl Malformed)) added d of
             Inl e \<Rightarrow> Inl e
           | Inr d' \<Rightarrow> Inr (dset s ''env'' (JObj d')))
      | _ \<Rightarrow> Inr s)"

definition take_scalars :: "jobj \<Rightarrow> jobj \<Rightarrow> jobj \<Rightarrow> jobj" where
  "take_scalars before added s =
     fold (\<lambda>(k, v) s. case dget s k of
         Some x \<Rightarrow> if deep_equals x v then give_back (jget before k) k s else s
       | None \<Rightarrow> s) added s"

definition smart_unmerge :: "jobj \<Rightarrow> jobj \<Rightarrow> added \<Rightarrow> settings_error + jobj" where
  "smart_unmerge current before a =
     (case take_env (get_default before ''env'' (JObj [])) (ad_env a)
        (take_permissions (ad_permissions a) (take_hooks (ad_hooks a) current)) of
        Inl e \<Rightarrow> Inl e
      | Inr s \<Rightarrow> Inr (take_scalars before (ad_scalars a) s))"

section \<open>Empty sections\<close>

definition clean_section :: "string \<Rightarrow> jobj \<Rightarrow> settings_error + jobj" where
  "clean_section name s =
     (case dget s name of
        None \<Rightarrow> Inr s
      | Some (JObj d) \<Rightarrow>
          (let d' = filter (truthy \<circ> snd) d in Inr (if d' = [] then ddel s name else dset s name (JObj d')))
      | Some _ \<Rightarrow> Inl Malformed)"

definition cleanup_empty_settings :: "jobj \<Rightarrow> settings_error + jobj" where
  "cleanup_empty_settings = each clean_section [''hooks'', ''permissions'', ''env'']"

definition settings_equal :: "jobj \<Rightarrow> jobj \<Rightarrow> settings_error + bool" where
  "settings_equal a b =
     (case (cleanup_empty_settings a, cleanup_empty_settings b) of
        (Inr a', Inr b') \<Rightarrow> Inr (deep_equals (JObj a') (JObj b'))
      | (Inl e, _) \<Rightarrow> Inl e
      | (_, Inl e) \<Rightarrow> Inl e)"

section \<open>Planning\<close>

datatype plan_action = SkipIt | MergeIt | ConflictIt

type_synonym settings_plan = "(plan_action \<times> key_path) list"

definition hooks_already_present :: "jobj \<Rightarrow> string \<Rightarrow> json list \<Rightarrow> settings_error + bool" where
  "hooks_already_present current t entries =
     (case get_default current ''hooks'' (JObj []) of
        JObj d \<Rightarrow>
          (case iterated (get_default d t (JList [])) of
             Some existing \<Rightarrow> Inr (canonical ` set entries \<subseteq> canonical ` set existing)
           | None \<Rightarrow> Inl Malformed)
      | _ \<Rightarrow> Inl Malformed)"

definition permissions_already_present :: "jobj \<Rightarrow> string \<Rightarrow> json list \<Rightarrow> settings_error + bool" where
  "permissions_already_present current t entries =
     (case get_default current ''permissions'' (JObj []) of
        JObj d \<Rightarrow>
          (case set_of_json (get_default d t (JList [])) of
             Inr existing \<Rightarrow>
               (let present = (\<lambda>e. hash_key e \<in> hash_key ` set existing)
                in if list_all hashable (takeWhile present entries @ take 1 (dropWhile present entries))
                   then Inr (list_all present entries) else Inl Malformed)
           | Inl _ \<Rightarrow> Inl Malformed)
      | _ \<Rightarrow> Inl Malformed)"

definition scalar_already_set :: "jobj \<Rightarrow> string \<Rightarrow> json \<Rightarrow> bool" where
  "scalar_already_set current k v \<longleftrightarrow> py_eq (jget current k) v"

definition skip_or_merge :: "bool \<Rightarrow> plan_action" where
  "skip_or_merge b = (if b then SkipIt else MergeIt)"

type_synonym planning = "settings_plan \<Rightarrow> settings_error + settings_plan"

definition plan_status :: "bool \<Rightarrow> jobj \<Rightarrow> jobj \<Rightarrow> planning" where
  "plan_status force forge current ps =
     (case dget forge ''statusLine'' of
        None \<Rightarrow> Inr ps
      | Some v \<Rightarrow>
          Inr (ps @ [(if scalar_already_set current ''statusLine'' v then SkipIt
             else if jget current ''statusLine'' \<noteq> JNull \<and> \<not> py_eq (jget current ''statusLine'') v \<and> \<not> force then ConflictIt
             else MergeIt, ScalarPath ''statusLine'')]))"

definition plan_hooks :: "jobj \<Rightarrow> jobj \<Rightarrow> planning" where
  "plan_hooks forge current ps =
     (case get_default forge ''hooks'' (JObj []) of
        JObj d \<Rightarrow>
          each (\<lambda>(t, v) ps.
            if \<not> truthy v then Inr ps
            else (case iterated v of
                None \<Rightarrow> Inl Malformed
              | Some es \<Rightarrow> map_sum id (\<lambda>b. ps @ [(skip_or_merge b, HookPath t)]) (hooks_already_present current t es)))
            (sort_key fst d) ps
      | _ \<Rightarrow> Inl Malformed)"

definition plan_permissions :: "jobj \<Rightarrow> jobj \<Rightarrow> planning" where
  "plan_permissions forge current ps =
     (case get_default forge ''permissions'' (JObj []) of
        JObj d \<Rightarrow>
          each (\<lambda>t ps.
            if \<not> truthy (jget d t) then Inr ps
            else (case iterated (jget d t) of
                None \<Rightarrow> Inl Malformed
              | Some es \<Rightarrow> map_sum id (\<lambda>b. ps @ [(skip_or_merge b, PermissionPath t)]) (permissions_already_present current t es)))
            [''allow'', ''deny''] ps
      | _ \<Rightarrow> Inl Malformed)"

definition plan_env :: "jobj \<Rightarrow> jobj \<Rightarrow> planning" where
  "plan_env forge current ps =
     (if \<not> truthy (jget forge ''env'') then Inr ps
      else (case (jget forge ''env'', get_default current ''env'' (JObj [])) of
          (JObj fe, JObj d) \<Rightarrow>
            Inr (ps @ map (\<lambda>(k, v). (skip_or_merge (scalar_already_set d k v), EnvPath k)) (sort_key fst fe))
        | _ \<Rightarrow> Inl Malformed))"

definition plan_settings :: "jobj \<Rightarrow> modules \<Rightarrow> bool \<Rightarrow> jobj \<Rightarrow> settings_error + settings_plan" where
  "plan_settings forge m force current =
     each (\<lambda>f ps. f ps)
       ((if md_status m then [plan_status force forge current] else []) @
        (if md_hooks m then [plan_hooks forge current] else []) @
        (if md_permissions m then [plan_permissions forge current, plan_env forge current] else [])) []"

section \<open>The template\<close>

text \<open>The hooks Forge installs; \<open>cmd\<close> renders the command of the dispatcher for a handler.\<close>

definition builtin_hook :: "(string \<Rightarrow> string) \<Rightarrow> string option \<Rightarrow> string \<Rightarrow> int option \<Rightarrow> json" where
  "builtin_hook cmd matcher handler timeout =
     JObj ((case matcher of Some m \<Rightarrow> [(''matcher'', JStr m)] | None \<Rightarrow> []) @
       [(''hooks'', JList [JObj ([(''type'', JStr ''command''), (''command'', JStr (cmd handler))] @
          (case timeout of Some t \<Rightarrow> [(''timeout'', JInt t)] | None \<Rightarrow> []))])])"

definition builtin_hooks :: "(string \<Rightarrow> string) \<Rightarrow> jobj" where
  "builtin_hooks cmd =
    [(''SessionStart'', JList [builtin_hook cmd None ''session-start'' None]),
     (''PreToolUse'', JList [builtin_hook cmd None ''authority-check'' (Some 60),
        builtin_hook cmd (Some ''Read'') ''read-hygiene'' (Some 5),
        builtin_hook cmd (Some ''ExitPlanMode'') ''exit-plan-mode'' None,
        builtin_hook cmd (Some ''Write'') ''policy-check'' (Some 60),
        builtin_hook cmd (Some ''Edit'') ''policy-check'' (Some 60)]),
     (''PostToolUse'', JList [builtin_hook cmd (Some ''Write'') ''plan-write'' None]),
     (''Stop'', JList [builtin_hook cmd None ''stop'' None]),
     (''StopFailure'', JList [builtin_hook cmd None ''stop-failure'' None]),
     (''UserPromptSubmit'', JList [builtin_hook cmd None ''user-prompt-submit'' None]),
     (''PreCompact'', JList [builtin_hook cmd None ''pre-compact'' (Some 10)]),
     (''PostCompact'', JList [builtin_hook cmd None ''post-compact'' (Some 5)]),
     (''WorktreeCreate'', JList [builtin_hook cmd None ''worktree-create'' (Some 30)]),
     (''SubagentStop'', JList [builtin_hook cmd None ''subagent-stop'' (Some 10)]),
     (''TeammateIdle'', JList [builtin_hook cmd None ''teammate-idle'' (Some 60)]),
     (''TaskCompleted'', JList [builtin_hook cmd None ''task-completed'' (Some 60)]),
     (''SessionEnd'', JList [builtin_hook cmd None ''session-end'' (Some 5)])]"

definition builtin_preset :: "(string \<Rightarrow> string) \<Rightarrow> jobj" where
  "builtin_preset cmd =
     [(''permissions'', JObj [(''allow'', JList [JStr ''Write'', JStr ''Edit''])]),
      (''hooks'', JObj (builtin_hooks cmd)),
      (''statusLine'', JObj [(''type'', JStr ''command''), (''command'', JStr ''forge status-line''), (''padding'', JInt 0)])]"

text \<open>The preset file of the user, written from the built-in one where it is missing.\<close>

definition load_preset :: "(string \<Rightarrow> string) \<Rightarrow> state_file \<Rightarrow> settings_error + jobj" where
  "load_preset cmd f =
     (case f of
        Missing \<Rightarrow> Inr (builtin_preset cmd)
      | Holds (JObj d) \<Rightarrow> Inr d
      | _ \<Rightarrow> Inl UnreadableFile)"

definition backfill :: "string \<Rightarrow> json \<Rightarrow> settings_error + json" where
  "backfill perm allow =
     (case (py_in perm allow, allow) of
        (None, _) \<Rightarrow> Inl Malformed
      | (Some True, _) \<Rightarrow> Inr allow
      | (Some False, JList xs) \<Rightarrow> Inr (JList (xs @ [JStr perm]))
      | _ \<Rightarrow> Inl Malformed)"

definition load_forge_settings :: "(string \<Rightarrow> string) \<Rightarrow> state_file \<Rightarrow> settings_error + jobj" where
  "load_forge_settings cmd f =
     (case load_preset cmd f of
        Inl e \<Rightarrow> Inl e
      | Inr d \<Rightarrow>
          (case set_default (dset d ''hooks'' (JObj (builtin_hooks cmd))) ''permissions'' (JObj []) of
             (JObj perms, d1) \<Rightarrow>
               (case set_default perms ''allow'' (JList []) of
                  (allow, perms1) \<Rightarrow>
                    (case each backfill [''Write'', ''Edit''] allow of
                       Inl e \<Rightarrow> Inl e
                     | Inr allow' \<Rightarrow> Inr (dset d1 ''permissions'' (JObj (dset perms1 ''allow'' allow')))))
           | _ \<Rightarrow> Inl Malformed))"

section \<open>Hooks of earlier releases\<close>

text \<open>Event, matcher, handler and timeout; \<open>shlex.split\<close> is a parameter.\<close>

type_synonym legacy_shape = "string \<times> string option \<times> string \<times> int option"

definition known_legacy_shapes :: "legacy_shape list" where
  "known_legacy_shapes =
    [(''SessionStart'', None, ''session-start'', None),
     (''PreToolUse'', Some ''Read'', ''read-hygiene'', Some 5),
     (''PreToolUse'', Some ''ExitPlanMode'', ''exit-plan-mode'', None),
     (''PreToolUse'', Some ''Write'', ''policy-check'', Some 60),
     (''PreToolUse'', Some ''Edit'', ''policy-check'', Some 60),
     (''PostToolUse'', Some ''Write'', ''plan-write'', None),
     (''Stop'', None, ''stop'', None),
     (''StopFailure'', None, ''stop-failure'', None),
     (''UserPromptSubmit'', None, ''user-prompt-submit'', None),
     (''PreCompact'', None, ''pre-compact'', Some 10),
     (''PostCompact'', None, ''post-compact'', Some 5),
     (''WorktreeCreate'', None, ''worktree-create'', Some 30),
     (''SubagentStop'', None, ''subagent-stop'', Some 10),
     (''TeammateIdle'', None, ''teammate-idle'', Some 60),
     (''TaskCompleted'', None, ''task-completed'', Some 60),
     (''SessionEnd'', None, ''session-end'', Some 5)]"

definition path_name :: "string \<Rightarrow> string" where
  "path_name s = (case rev (snd (pure_path s)) of [] \<Rightarrow> [] | n # _ \<Rightarrow> n)"

definition direct_legacy_handler :: "(string \<Rightarrow> string list option) \<Rightarrow> json \<Rightarrow> string option" where
  "direct_legacy_handler split command =
     (case command of
        JStr c \<Rightarrow>
          (case split (strip c) of
             Some [prog, sub, handler] \<Rightarrow> if path_name prog = ''forge'' \<and> sub = ''hook'' then Some handler else None
           | _ \<Rightarrow> None)
      | _ \<Rightarrow> None)"

text \<open>An optional field: absent, or of the given form.\<close>

definition optional_str :: "json \<Rightarrow> string option option" where
  "optional_str v = (case v of JNull \<Rightarrow> Some None | JStr s \<Rightarrow> Some (Some s) | _ \<Rightarrow> None)"

definition optional_int :: "json \<Rightarrow> int option option" where
  "optional_int v = (case v of JNull \<Rightarrow> Some None | JInt i \<Rightarrow> Some (Some i) | _ \<Rightarrow> None)"

definition known_legacy_hook_shape :: "(string \<Rightarrow> string list option) \<Rightarrow> string \<Rightarrow> json \<Rightarrow> legacy_shape option" where
  "known_legacy_hook_shape split event entry =
     (case entry of
        JObj d \<Rightarrow>
          (if set (dkeys d) \<noteq> insert ''hooks'' (if jget d ''matcher'' \<noteq> JNull then {''matcher''} else {}) then None
           else (case (optional_str (jget d ''matcher''), jget d ''hooks'') of
               (Some matcher, JList [JObj c]) \<Rightarrow>
                 (if set (dkeys c) \<noteq> {''type'', ''command''} \<union> (if jget c ''timeout'' \<noteq> JNull then {''timeout''} else {}) \<or>
                     jget c ''type'' \<noteq> JStr ''command'' then None
                  else (case (optional_int (jget c ''timeout''), direct_legacy_handler split (jget c ''command'')) of
                      (Some timeout, Some handler) \<Rightarrow>
                        if (event, matcher, handler, timeout) \<in> set known_legacy_shapes
                        then Some (event, matcher, handler, timeout) else None
                    | _ \<Rightarrow> None))
             | _ \<Rightarrow> None))
      | _ \<Rightarrow> None)"

definition remove_known_legacy_hook_entries :: "(string \<Rightarrow> string list option) \<Rightarrow> jobj \<Rightarrow> settings_error + jobj" where
  "remove_known_legacy_hook_entries split s =
     (case dget s ''hooks'' of
        Some (JObj d) \<Rightarrow>
          cleanup_empty_settings (dset s ''hooks'' (JObj (map (\<lambda>(event, v).
            (event, case v of JList es \<Rightarrow> JList (filter (\<lambda>e. known_legacy_hook_shape split event e = None) es) | _ \<Rightarrow> v)) d)))
      | _ \<Rightarrow> Inr s)"

section \<open>The installer\<close>

text \<open>
  The files and the tracking record the installer works on: the settings file, the sidecars under the
  timestamps in their names, and the installation with its entries, the baseline from before the first
  one (a copy of the settings file, where there was one) and whether a settings module was applied.
\<close>

record installation =
  in_entries :: "settings_entry list"
  in_baseline :: "state_file option"
  in_owner :: bool

record install_world =
  iw_settings :: state_file
  iw_sidecars :: "(string, added) dict"
  iw_installed :: "installation option"

record installer =
  is_user :: bool
  is_split :: "string \<Rightarrow> string list option"
  is_command :: "string \<Rightarrow> string"
  is_preset :: state_file

definition read_settings :: "state_file \<Rightarrow> settings_error + jobj" where
  "read_settings f =
     (case f of
        Missing \<Rightarrow> Inr []
      | Holds (JObj d) \<Rightarrow> Inr d
      | Holds _ \<Rightarrow> Inl Malformed
      | _ \<Rightarrow> Inl UnreadableFile)"

definition has_claude_settings_baseline :: "installation option \<Rightarrow> bool" where
  "has_claude_settings_baseline i =
     (case i of None \<Rightarrow> False | Some inst \<Rightarrow> in_baseline inst \<noteq> None \<or> in_entries inst \<noteq> [] \<or> in_owner inst)"

text \<open>The modules of a run that own settings.\<close>

definition settings_modules :: "modules \<Rightarrow> bool" where
  "settings_modules m \<longleftrightarrow> md_hooks m \<or> md_permissions m \<or> md_status m"

definition is_hook_entry :: "settings_entry \<Rightarrow> bool" where
  "is_hook_entry e = (case ent_path e of HookPath _ \<Rightarrow> True | _ \<Rightarrow> False)"

definition entry_id :: "settings_entry \<Rightarrow> key_path \<times> json" where
  "entry_id e = (ent_path e, ent_id e)"

definition tracked_entries :: "installation option \<Rightarrow> settings_entry list" where
  "tracked_entries i = (case i of Some inst \<Rightarrow> in_entries inst | None \<Rightarrow> [])"

text \<open>The settings a merge starts from: in the user scope without Forge's hooks, old and new.\<close>

definition refresh_hooks :: "installer \<Rightarrow> modules \<Rightarrow> settings_entry list \<Rightarrow> jobj \<Rightarrow> settings_error + jobj" where
  "refresh_hooks u m existing s =
     (if is_user u \<and> md_hooks m
      then each (\<lambda>f s. f s)
        [if filter is_hook_entry existing = [] then Inr else unmerge (filter is_hook_entry existing),
         remove_known_legacy_hook_entries (is_split u)] s
      else Inr s)"

definition surviving_entries :: "installer \<Rightarrow> modules \<Rightarrow> settings_entry list \<Rightarrow> settings_entry list \<Rightarrow> settings_entry list" where
  "surviving_entries u m new existing =
     filter (\<lambda>e. entry_id e \<notin> entry_id ` set new \<and>
       \<not> (is_user u \<and> md_hooks m \<and> entry_id e \<in> entry_id ` set (filter is_hook_entry existing))) existing"

definition apply_install_settings :: "installer \<Rightarrow> modules \<Rightarrow> bool \<Rightarrow> string \<Rightarrow> install_world \<Rightarrow> settings_error + settings_entry list \<times> install_world" where
  "apply_install_settings u m force now w =
     (let existing = tracked_entries (iw_installed w) in
      if \<not> settings_modules m then
        Inr (existing, if existing = [] then w
          else w\<lparr>iw_sidecars := dset (iw_sidecars w) now (entries_to_added_structure existing)\<rparr>)
      else (case read_settings (iw_settings w) of
          Inl e \<Rightarrow> Inl e
        | Inr s \<Rightarrow>
            (case refresh_hooks u m existing s of
               Inl e \<Rightarrow> Inl e
             | Inr s1 \<Rightarrow>
                 (case load_forge_settings (is_command u) (is_preset u) of
                    Inl e \<Rightarrow> Inl e
                  | Inr forge \<Rightarrow>
                      (case merge_settings forge m force s1 of
                         Inl e \<Rightarrow> Inl e
                       | Inr (new, s2) \<Rightarrow>
                           (let entries = new @ surviving_entries u m new existing
                            in Inr (entries, w\<lparr>iw_settings := Holds (JObj s2),
                                 iw_sidecars := dset (iw_sidecars w) now (entries_to_added_structure entries)\<rparr>)))))))"

definition init_settings :: "installer \<Rightarrow> modules \<Rightarrow> bool \<Rightarrow> string \<Rightarrow> install_world \<Rightarrow> settings_error + install_world" where
  "init_settings u m force now w =
     (case (if settings_modules m
            then (case read_settings (iw_settings w) of
                Inl e \<Rightarrow> Inl e
              | Inr s \<Rightarrow>
                  (case load_forge_settings (is_command u) (is_preset u) of
                     Inl e \<Rightarrow> Inl e
                   | Inr forge \<Rightarrow> plan_settings forge m force s))
            else Inr []) of
        Inl e \<Rightarrow> Inl e
      | Inr plan \<Rightarrow>
          (if ConflictIt \<in> fst ` set plan then Inl Planned
           else (case apply_install_settings u m force now w of
               Inl e \<Rightarrow> Inl e
             | Inr (entries, w1) \<Rightarrow>
                 Inr (w1\<lparr>iw_installed := Some
                   \<lparr>in_entries = entries,
                    in_baseline = (if has_claude_settings_baseline (iw_installed w) then Option.bind (iw_installed w) in_baseline
                      else if settings_modules m \<and> is_file (iw_settings w) then Some (iw_settings w) else None),
                    in_owner = (settings_modules m \<or> md_preserved m \<and> (case iw_installed w of Some i \<Rightarrow> in_owner i | None \<Rightarrow> False))\<rparr>\<rparr>))))"

definition newest_sidecar :: "(string, added) dict \<Rightarrow> added" where
  "newest_sidecar d = (case rev (sort_key fst d) of [] \<Rightarrow> nothing_added | (_, a) # _ \<Rightarrow> a)"

definition restore_settings :: "state_file option \<Rightarrow> jobj \<Rightarrow> jobj \<Rightarrow> added \<Rightarrow> settings_error + state_file" where
  "restore_settings baseline current before a =
     (case (case smart_unmerge current before a of Inl e \<Rightarrow> Inl e | Inr r \<Rightarrow> cleanup_empty_settings r) of
        Inl e \<Rightarrow> Inl e
      | Inr r \<Rightarrow>
          (case cleanup_empty_settings before of
             Inl e \<Rightarrow> Inl e
           | Inr b \<Rightarrow>
               (case settings_equal r b of
                  Inl e \<Rightarrow> Inl e
                | Inr True \<Rightarrow> Inr (if baseline \<noteq> None \<and> b \<noteq> [] then Holds (JObj b) else Missing)
                | Inr False \<Rightarrow> Inr (Holds (JObj r)))))"

definition uninstall_settings :: "install_world \<Rightarrow> settings_error + install_world" where
  "uninstall_settings w =
     (case iw_installed w of
        None \<Rightarrow> Inl NotInstalled
      | Some inst \<Rightarrow>
          (if in_entries inst = [] \<and> iw_sidecars w = [] \<and> in_baseline inst = None then Inr (w\<lparr>iw_installed := None\<rparr>)
           else (case (read_settings (iw_settings w), case in_baseline inst of None \<Rightarrow> Inr [] | Some b \<Rightarrow> read_settings b) of
               (Inl e, _) \<Rightarrow> Inl e
             | (_, Inl e) \<Rightarrow> Inl e
             | (Inr current, Inr before) \<Rightarrow>
                 (let a = newest_sidecar (iw_sidecars w) in
                  case (if a \<noteq> nothing_added then restore_settings (in_baseline inst) current before a
                        else map_sum id (\<lambda>s. Holds (JObj s)) (unmerge (in_entries inst) current)) of
                    Inl e \<Rightarrow> Inl e
                  | Inr f \<Rightarrow> Inr (w\<lparr>iw_settings := f, iw_sidecars := [], iw_installed := None\<rparr>)))))"

section \<open>Equality of settings\<close>

lemma sorted_dict_eq:
  fixes d e :: "('k::linorder, 'v) dict"
  assumes "dwf d" "dwf e" "sorted (dkeys d)" "sorted (dkeys e)" "map_of d = map_of e"
  shows "d = e"
proof (rule map_sorted_distinct_set_unique [of fst])
  have s: "set d = set e" using assms(1,2,5) by (simp add: map_of_inject_set)
  then show "set d = set e" .
  show "inj_on fst (set d \<union> set e)" using s assms(1) by (simp add: distinct_map)
qed (use assms in simp_all)

lemma dget_sort_key: "dwf d \<Longrightarrow> dget (sort_key fst d) = dget d"
  by (rule map_of_inject_set [THEN iffD2]) (simp_all add: distinct_map)

lemma dget_map_snd: "dget (map (\<lambda>(k, v). (k, f v)) d) k = map_option f (dget d k)"
  by (induction d) auto

lemma dkeys_map_snd [simp]: "map (fst \<circ> (\<lambda>(k, v). (k, f v))) d = dkeys d"
  by (induction d) auto

lemma dwf_sort_key: "dwf d \<Longrightarrow> dwf (sort_key fst d)"
  by (simp add: distinct_map)

text \<open>Two dicts in sorted form are equal when their lookups are.\<close>

lemma sorted_form_eq:
  assumes "dwf d" "dwf e"
  shows "sort_key fst (map (\<lambda>(k, v). (k, f v)) d) = sort_key fst (map (\<lambda>(k, v). (k, f v)) e) \<longleftrightarrow>
    (\<forall>k. map_option f (dget d k) = map_option f (dget e k))" (is "?l = ?r")
proof
  have w: "dwf (map (\<lambda>(k, v). (k, f v)) d)" "dwf (map (\<lambda>(k, v). (k, f v)) e)" using assms by simp_all
  note g = dget_sort_key [OF w(1)] dget_sort_key [OF w(2)]
  show ?r if ?l using g that by (metis dget_map_snd)
  show ?l if ?r
    using that by (intro sorted_dict_eq dwf_sort_key w) (auto simp: g dget_map_snd fun_eq_iff)
qed

lemma jwf_dget: "jwf (JObj d) \<Longrightarrow> dget d k = Some v \<Longrightarrow> jwf v"
  by (auto dest: dget_mem)

lemma canonical_scalar:
  "JNull = canonical v \<longleftrightarrow> v = JNull" "JBool b = canonical v \<longleftrightarrow> v = JBool b" "JInt i = canonical v \<longleftrightarrow> v = JInt i"
  "JFloat r = canonical v \<longleftrightarrow> v = JFloat r" "JStr s = canonical v \<longleftrightarrow> v = JStr s"
  by (cases v; auto)+

lemma deep_equals_eq:
  assumes "jwf a" "jwf b"
  shows "deep_equals a b \<longleftrightarrow> canonical a = canonical b"
  using assms
proof (induction a b rule: deep_equals.induct)
  case (1 a v)
  show ?case
  proof (cases v)
    case (JObj b)
    have w: "dwf a" "dwf b" using 1(2,3) JObj by simp_all
    have ih: "deep_equals x y \<longleftrightarrow> canonical x = canonical y" if "(k, x) \<in> set a" "dget b k = Some y" for k x y
      using 1(1) [OF JObj that(1)] that 1(2,3) jwf_dget [of b k y] JObj by force
    have "deep_equals (JObj a) v \<longleftrightarrow> set (dkeys a) = set (dkeys b) \<and> (\<forall>(k, x) \<in> set a. \<exists>y. dget b k = Some y \<and> canonical x = canonical y)"
      using JObj ih by (fastforce simp: list_all_iff split: option.splits)
    also have "\<dots> \<longleftrightarrow> (\<forall>k. map_option canonical (dget a k) = map_option canonical (dget b k))"
    proof
      assume l: "set (dkeys a) = set (dkeys b) \<and> (\<forall>(k, x) \<in> set a. \<exists>y. dget b k = Some y \<and> canonical x = canonical y)"
      show "\<forall>k. map_option canonical (dget a k) = map_option canonical (dget b k)"
      proof
        fix k
        show "map_option canonical (dget a k) = map_option canonical (dget b k)"
        proof (cases "dget a k")
          case None
          with l have "dget b k = None" using dget_None_iff [of a k] dget_None_iff [of b k] by simp
          with None show ?thesis by simp
        next
          case (Some x)
          from dget_mem [OF this] l obtain y where "dget b k = Some y" "canonical x = canonical y" by blast
          with Some show ?thesis by simp
        qed
      qed
    next
      assume r: "\<forall>k. map_option canonical (dget a k) = map_option canonical (dget b k)"
      have "set (dkeys a) = set (dkeys b)"
      proof (rule set_eqI)
        fix k show "k \<in> set (dkeys a) \<longleftrightarrow> k \<in> set (dkeys b)"
          using r [rule_format, of k] dget_None_iff [of a k] dget_None_iff [of b k] by (cases "dget a k"; cases "dget b k") auto
      qed
      moreover have "\<exists>y. dget b k = Some y \<and> canonical x = canonical y" if "(k, x) \<in> set a" for k x
        using r [rule_format, of k] map_of_is_SomeI [OF w(1) that] by (cases "dget b k") auto
      ultimately show "set (dkeys a) = set (dkeys b) \<and> (\<forall>(k, x) \<in> set a. \<exists>y. dget b k = Some y \<and> canonical x = canonical y)"
        by blast
    qed
    also have "\<dots> \<longleftrightarrow> canonical (JObj a) = canonical v" using sorted_form_eq [OF w, of canonical] JObj by simp
    finally show ?thesis .
  qed simp_all
next
  case (2 xs v)
  show ?case
  proof (cases v)
    case (JList ys)
    have "deep_equals (fst p) (snd p) \<longleftrightarrow> canonical (fst p) = canonical (snd p)" if p: "p \<in> set (zip xs ys)" for p
    proof -
      have "fst p \<in> set xs" "snd p \<in> set ys" using p by (metis prod.collapse set_zip_leftD set_zip_rightD)+
      with 2(2,3) JList have "jwf (fst p)" "jwf (snd p)" by simp_all
      with 2(1) [OF JList p] show ?thesis by simp
    qed
    then have "deep_equals (JList xs) v \<longleftrightarrow> length xs = length ys \<and> (\<forall>p \<in> set (zip xs ys). canonical (fst p) = canonical (snd p))"
      using JList by (auto simp: list_all_iff)
    also have "\<dots> \<longleftrightarrow> map canonical xs = map canonical ys"
      by (induction xs ys rule: list_induct2') auto
    finally show ?thesis using JList by simp
  qed simp_all
qed (simp_all add: canonical_scalar)

text \<open>
  The recursive comparison of settings is the comparison of their canonical texts: the installer may
  use either to find what it added, and the two never disagree on what is equal.
\<close>

lemma deep_equals_canonical:
  assumes "jwf a" "jwf b"
  shows "deep_equals a b \<longleftrightarrow> canonical a = canonical b"
  using assms by (rule deep_equals_eq)

lemma deep_equals_canonical_witness:
  "deep_equals (JObj [(''a'', JInt 1), (''b'', JNull)]) (JObj [(''b'', JNull), (''a'', JInt 1)]) \<and>
   \<not> deep_equals (JInt 1) (JBool True)"
proof -
  have w: "jwf (JObj [(''a'', JInt 1), (''b'', JNull)])" "jwf (JObj [(''b'', JNull), (''a'', JInt 1)])" "jwf (JInt 1)" "jwf (JBool True)"
    by simp_all
  have "canonical (JObj [(''a'', JInt 1), (''b'', JNull)]) = canonical (JObj [(''b'', JNull), (''a'', JInt 1)])" by code_simp
  then show ?thesis using deep_equals_canonical [OF w(1,2)] deep_equals_canonical [OF w(3,4)] by simp
qed

section \<open>Views\<close>

text \<open>
  A settings object is read through its views: a section, the list of a hook type or permission kind in
  it, and whether a value survives the removal of empty ones.
\<close>

definition section_of :: "jobj \<Rightarrow> string \<Rightarrow> jobj" where
  "section_of s n = (case dget s n of Some (JObj d) \<Rightarrow> d | _ \<Rightarrow> [])"

definition items :: "jobj \<Rightarrow> string \<Rightarrow> json list" where
  "items d t = (case dget d t of Some (JList xs) \<Rightarrow> xs | _ \<Rightarrow> [])"

definition live :: "json option \<Rightarrow> json option" where
  "live v = (case v of Some x \<Rightarrow> if truthy x then Some x else None | None \<Rightarrow> None)"

definition listing :: "jobj \<Rightarrow> bool" where
  "listing d \<longleftrightarrow> dwf d \<and> (\<forall>k v. dget d k = Some v \<longrightarrow> (\<exists>xs. v = JList xs))"

text \<open>The shape of settings that Forge and its host write.\<close>

definition shaped :: "jobj \<Rightarrow> bool" where
  "shaped s \<longleftrightarrow> dwf s \<and> (\<forall>v. dget s ''hooks'' = Some v \<longrightarrow> (\<exists>d. v = JObj d \<and> listing d)) \<and>
     (\<forall>v. dget s ''permissions'' = Some v \<longrightarrow> (\<exists>d. v = JObj d \<and> listing d)) \<and>
     (\<forall>v. dget s ''env'' = Some v \<longrightarrow> (\<exists>d. v = JObj d \<and> dwf d))"

definition is_section :: "string \<Rightarrow> bool" where
  "is_section n \<longleftrightarrow> n = ''hooks'' \<or> n = ''permissions'' \<or> n = ''env''"

lemma is_section [simp]: "is_section ''hooks''" "is_section ''permissions''" "is_section ''env''" "\<not> is_section ''statusLine''"
  by (simp_all add: is_section_def)

lemma section_of_dset [simp]: "section_of (dset s n (JObj d)) m = (if m = n then d else section_of s m)"
  by (simp add: section_of_def)

lemma section_of_dset_other [simp]: "m \<noteq> n \<Longrightarrow> section_of (dset s n v) m = section_of s m"
  by (simp add: section_of_def)

lemma section_of_ddel [simp]: "section_of (ddel s n) m = (if m = n then [] else section_of s m)"
  by (simp add: section_of_def)

lemma items_dset [simp]: "items (dset d t (JList xs)) t' = (if t' = t then xs else items d t')"
  by (simp add: items_def)

lemma items_Nil [simp]: "items [] t = []"
  by (simp add: items_def)

lemma listing_Nil [simp]: "listing []"
  by (simp add: listing_def)

lemma listing_dset [simp]: "listing d \<Longrightarrow> listing (dset d t (JList xs))"
  by (simp add: listing_def dwf_dset)

lemma listingD: "listing d \<Longrightarrow> dget d t = Some v \<Longrightarrow> v = JList (items d t)"
  unfolding listing_def items_def by fastforce

lemma section_shaped:
  "shaped s \<Longrightarrow> listing (section_of s ''hooks'')" "shaped s \<Longrightarrow> listing (section_of s ''permissions'')"
  "shaped s \<Longrightarrow> dwf (section_of s ''env'')"
  by (auto simp: shaped_def section_of_def split: option.splits)

lemma shapedD:
  "shaped s \<Longrightarrow> is_section n \<Longrightarrow> dget s n = Some v \<Longrightarrow> v = JObj (section_of s n)"
  by (auto simp: shaped_def is_section_def section_of_def split: option.splits)

lemma shaped_dset:
  "shaped s \<Longrightarrow> listing d \<Longrightarrow> shaped (dset s ''hooks'' (JObj d))"
  "shaped s \<Longrightarrow> listing d \<Longrightarrow> shaped (dset s ''permissions'' (JObj d))"
  "shaped s \<Longrightarrow> dwf d \<Longrightarrow> shaped (dset s ''env'' (JObj d))"
  "shaped s \<Longrightarrow> \<not> is_section k \<Longrightarrow> shaped (dset s k v)"
  by (auto simp: shaped_def dwf_dset is_section_def)

lemma shaped_dset_section:
  "shaped s \<Longrightarrow> is_section n \<Longrightarrow> dwf d \<Longrightarrow> (n \<noteq> ''env'' \<Longrightarrow> listing d) \<Longrightarrow> shaped (dset s n (JObj d))"
  by (auto simp: is_section_def shaped_dset)

lemma section_listing: "shaped s \<Longrightarrow> is_section n \<Longrightarrow> n \<noteq> ''env'' \<Longrightarrow> listing (section_of s n)"
  by (auto simp: is_section_def section_shaped)

lemma shaped_ddel: "shaped s \<Longrightarrow> shaped (ddel s k)"
  by (simp add: shaped_def dwf_ddel)

lemma dset_same: "dget d k = Some v \<Longrightarrow> dset d k v = d"
  by (induction d) (auto split: if_splits)

lemma set_default_section:
  "shaped s \<Longrightarrow> is_section n \<Longrightarrow> set_default s n (JObj []) = (JObj (section_of s n), dset s n (JObj (section_of s n)))"
  by (cases "dget s n") (auto simp: set_default_def section_of_def dset_same dest: shapedD)

lemma set_default_list:
  "listing d \<Longrightarrow> set_default d t (JList []) = (JList (items d t), dset d t (JList (items d t)))"
  by (cases "dget d t") (auto simp: set_default_def items_def dset_same dest: listingD)

lemma dset_twice [simp]: "dset (dset d k v) k w = dset d k w"
  by (rule update_last)

section \<open>Empty sections\<close>

lemma dget_filter_truthy: "dwf d \<Longrightarrow> dget (filter (truthy \<circ> snd) d) k = live (dget d k)"
proof (induction d)
  case (Cons p d)
  then have "dget d (fst p) = None" by (simp add: dget_None_iff)
  with Cons show ?case by (cases p) (auto simp: live_def)
qed (simp add: live_def)

lemma filter_truthy_listing: "listing d \<Longrightarrow> listing (filter (truthy \<circ> snd) d)"
  by (auto simp: listing_def dget_filter_truthy live_def distinct_map_filter split: option.splits if_splits)

lemma live_live [simp]: "live (live v) = live v"
  by (simp add: live_def split: option.split)

lemma clean_section_cases:
  assumes "shaped s" "is_section n"
  obtains s' where "clean_section n s = Inr s'" "shaped s'"
    "\<And>k. dget (section_of s' n) k = live (dget (section_of s n) k)"
    "\<And>m. m \<noteq> n \<Longrightarrow> dget s' m = dget s m"
    "dget s' n = (if section_of s' n = [] then None else Some (JObj (section_of s' n)))"
proof (cases "dget s n")
  case None
  with that [of s] assms show ?thesis by (simp add: clean_section_def section_of_def live_def)
next
  case (Some v)
  then have v: "v = JObj (section_of s n)" using assms by (rule shapedD [rotated 2])
  let ?d = "filter (truthy \<circ> snd) (section_of s n)"
  let ?s = "if ?d = [] then ddel s n else dset s n (JObj ?d)"
  have w: "dwf (section_of s n)" using section_shaped [OF assms(1)] assms(2) by (auto simp: is_section_def listing_def)
  have "shaped ?s"
    by (simp add: shaped_ddel [OF assms(1)] shaped_dset_section [OF assms] distinct_map_filter [OF w]
        filter_truthy_listing [OF section_listing [OF assms]])
  moreover have "section_of ?s n = ?d" by simp
  moreover have "clean_section n s = Inr ?s" using Some v by (simp add: clean_section_def Let_def)
  ultimately show ?thesis using that [of ?s] dget_filter_truthy [OF w] by simp
qed

text \<open>What cleaning does to every view, and that it depends on the live views alone.\<close>

definition cleaned :: "jobj \<Rightarrow> jobj \<Rightarrow> bool" where
  "cleaned s s' \<longleftrightarrow> shaped s' \<and>
     (\<forall>n k. is_section n \<longrightarrow> dget (section_of s' n) k = live (dget (section_of s n) k)) \<and>
     (\<forall>n. is_section n \<longrightarrow> dget s' n = (if section_of s' n = [] then None else Some (JObj (section_of s' n)))) \<and>
     (\<forall>k. \<not> is_section k \<longrightarrow> dget s' k = dget s k)"

lemma section_of_cong: "dget s n = dget s' n \<Longrightarrow> section_of s n = section_of s' n"
  by (simp add: section_of_def)

lemma cleanup_cleaned:
  assumes "shaped s"
  obtains s' where "cleanup_empty_settings s = Inr s'" "cleaned s s'"
proof -
  obtain a where a: "clean_section ''hooks'' s = Inr a" "shaped a"
    "\<And>k. dget (section_of a ''hooks'') k = live (dget (section_of s ''hooks'') k)"
    "\<And>m. m \<noteq> ''hooks'' \<Longrightarrow> dget a m = dget s m"
    "dget a ''hooks'' = (if section_of a ''hooks'' = [] then None else Some (JObj (section_of a ''hooks'')))"
    by (rule clean_section_cases [OF assms is_section(1)]) (rule that; assumption)
  obtain b where b: "clean_section ''permissions'' a = Inr b" "shaped b"
    "\<And>k. dget (section_of b ''permissions'') k = live (dget (section_of a ''permissions'') k)"
    "\<And>m. m \<noteq> ''permissions'' \<Longrightarrow> dget b m = dget a m"
    "dget b ''permissions'' = (if section_of b ''permissions'' = [] then None else Some (JObj (section_of b ''permissions'')))"
    by (rule clean_section_cases [OF a(2) is_section(2)]) (rule that; assumption)
  obtain c where c: "clean_section ''env'' b = Inr c" "shaped c"
    "\<And>k. dget (section_of c ''env'') k = live (dget (section_of b ''env'') k)"
    "\<And>m. m \<noteq> ''env'' \<Longrightarrow> dget c m = dget b m"
    "dget c ''env'' = (if section_of c ''env'' = [] then None else Some (JObj (section_of c ''env'')))"
    by (rule clean_section_cases [OF b(2) is_section(3)]) (rule that; assumption)
  have h: "section_of c ''hooks'' = section_of a ''hooks''" "section_of a ''permissions'' = section_of s ''permissions''"
    "section_of c ''permissions'' = section_of b ''permissions''" "section_of b ''env'' = section_of s ''env''"
    by (rule section_of_cong; simp add: a(4) b(4) c(4))+
  have "cleaned s c"
    unfolding cleaned_def is_section_def
    using a(3,5) b(3,5) c(2,3,5) by (auto simp: a(4) b(4) c(4) h)
  moreover have "cleanup_empty_settings s = Inr c" by (simp add: cleanup_empty_settings_def a(1) b(1) c(1))
  ultimately show ?thesis using that by blast
qed

lemma cleanup_is_cleaned: "shaped s \<Longrightarrow> cleanup_empty_settings s = Inr s' \<Longrightarrow> cleaned s s'"
  using cleanup_cleaned by (metis sum.inject(2))

text \<open>When two objects agree up to empty values.\<close>

definition same_views :: "jobj \<Rightarrow> jobj \<Rightarrow> bool" where
  "same_views s t \<longleftrightarrow>
     (\<forall>n k. is_section n \<longrightarrow> live (dget (section_of s n) k) = live (dget (section_of t n) k)) \<and>
     (\<forall>k. \<not> is_section k \<longrightarrow> dget s k = dget t k)"

lemma section_dwf: "shaped s \<Longrightarrow> is_section n \<Longrightarrow> dwf (section_of s n)"
  using section_shaped [of s] by (auto simp: is_section_def listing_def)

lemma deep_equals_refl: "jwf v \<Longrightarrow> deep_equals v v"
  by (simp add: deep_equals_eq)

lemma deep_equals_objI:
  assumes "dwf a" "dwf b" "\<And>k. (case (dget a k, dget b k) of (None, None) \<Rightarrow> True | (Some v, Some w) \<Rightarrow> deep_equals v w | _ \<Rightarrow> False)"
  shows "deep_equals (JObj a) (JObj b)"
proof -
  have "set (dkeys a) = set (dkeys b)"
  proof (rule set_eqI)
    fix k show "k \<in> set (dkeys a) \<longleftrightarrow> k \<in> set (dkeys b)"
      using assms(3) [of k] dget_None_iff [of a k] dget_None_iff [of b k] by (auto split: option.splits)
  qed
  moreover have "case dget b k of Some w \<Rightarrow> deep_equals v w | None \<Rightarrow> False" if "(k, v) \<in> set a" for k v
    using assms(3) [of k] map_of_is_SomeI [OF assms(1) that] by (auto split: option.splits)
  ultimately show ?thesis by (auto simp: list_all_iff)
qed

lemma dict_empty_iff: "d = [] \<longleftrightarrow> (\<forall>k. dget d k = None)"
  by (cases d) auto

lemma same_views_equal:
  assumes "shaped s" "shaped t" "same_views s t" "jwf (JObj t)"
  shows "settings_equal s t = Inr True"
proof -
  obtain s' t' where s': "cleanup_empty_settings s = Inr s'" "cleaned s s'" and t': "cleanup_empty_settings t = Inr t'" "cleaned t t'"
    using cleanup_cleaned [OF assms(1)] cleanup_cleaned [OF assms(2)] by metis
  have sec: "dget (section_of s' n) k = dget (section_of t' n) k" if "is_section n" for n k
    using s'(2) t'(2) assms(3) that by (simp add: cleaned_def same_views_def)
  have w: "dwf s'" "dwf t'" using s'(2) t'(2) by (simp_all add: cleaned_def shaped_def)
  have "deep_equals (JObj s') (JObj t')"
  proof (rule deep_equals_objI [OF w])
    fix k
    show "case (dget s' k, dget t' k) of (None, None) \<Rightarrow> True | (Some v, Some w) \<Rightarrow> deep_equals v w | _ \<Rightarrow> False"
    proof (cases "is_section k")
      case True
      then have "section_of s' k = [] \<longleftrightarrow> section_of t' k = []" using sec by (simp add: dict_empty_iff)
      moreover have "deep_equals (JObj (section_of s' k)) (JObj (section_of t' k))"
      proof (rule deep_equals_objI)
        show "dwf (section_of s' k)" "dwf (section_of t' k)"
          using s'(2) t'(2) True by (simp_all add: cleaned_def section_dwf)
        fix m
        have "jwf v" if "dget (section_of t k) m = Some v" for v
        proof -
          from that True have "dget t k = Some (JObj (section_of t k))"
            using shapedD [OF assms(2) True] by (cases "dget t k") (auto simp: section_of_def)
          then have "jwf (JObj (section_of t k))" using assms(4) by (rule jwf_dget [rotated])
          then show ?thesis using that by (rule jwf_dget)
        qed
        then show "case (dget (section_of s' k) m, dget (section_of t' k) m) of (None, None) \<Rightarrow> True
            | (Some v, Some w) \<Rightarrow> deep_equals v w | _ \<Rightarrow> False"
          using t'(2) True by (auto simp: sec [OF True] cleaned_def live_def deep_equals_refl split: option.splits if_splits)
      qed
      ultimately show ?thesis using s'(2) t'(2) True by (simp add: cleaned_def)
    next
      case False
      then have "dget s' k = dget t k" "dget t' k = dget t k" using s'(2) t'(2) assms(3) by (simp_all add: cleaned_def same_views_def)
      then show ?thesis using jwf_dget [OF assms(4)] by (auto simp: deep_equals_refl split: option.split)
    qed
  qed
  then show ?thesis by (simp add: settings_equal_def s'(1) t'(1) del: deep_equals.simps)
qed

section \<open>What is owned\<close>

text \<open>What a list of entries says Forge added: canonical hooks, permission values, variables, scalars.\<close>

record owned =
  ow_hooks :: "string \<Rightarrow> json set"
  ow_permissions :: "string \<Rightarrow> json set"
  ow_env :: "string \<Rightarrow> json option"
  ow_scalars :: "string \<Rightarrow> json option"

definition own_of :: "added \<Rightarrow> owned" where
  "own_of a =
     \<lparr>ow_hooks = (\<lambda>t. canonical ` {x \<in> set (list_of (ad_hooks a) t). is_obj x}),
      ow_permissions = (\<lambda>t. py_value ` set (list_of (ad_permissions a) t)),
      ow_env = dget (ad_env a), ow_scalars = dget (ad_scalars a)\<rparr>"

definition own :: "settings_entry list \<Rightarrow> owned" where
  "own es = own_of (entries_to_added_structure es)"

definition or_else :: "'a option \<Rightarrow> 'a option \<Rightarrow> 'a option" where
  "or_else x y = (case x of Some v \<Rightarrow> Some v | None \<Rightarrow> y)"

lemma or_else_simps [simp]: "or_else None y = y" "or_else (Some v) y = Some v" "or_else x None = x"
  "or_else x (or_else y z) = or_else (or_else x y) z"
  by (simp_all add: or_else_def split: option.split)

definition join :: "owned \<Rightarrow> owned \<Rightarrow> owned" where
  "join p q =
     \<lparr>ow_hooks = (\<lambda>t. ow_hooks p t \<union> ow_hooks q t), ow_permissions = (\<lambda>t. ow_permissions p t \<union> ow_permissions q t),
      ow_env = (\<lambda>k. or_else (ow_env q k) (ow_env p k)), ow_scalars = (\<lambda>k. or_else (ow_scalars q k) (ow_scalars p k))\<rparr>"

definition own_nothing :: owned where
  "own_nothing = \<lparr>ow_hooks = (\<lambda>_. {}), ow_permissions = (\<lambda>_. {}), ow_env = (\<lambda>_. None), ow_scalars = (\<lambda>_. None)\<rparr>"

lemma join_assoc: "join p (join q r) = join (join p q) r"
  by (simp add: join_def Un_assoc fun_eq_iff)

lemma join_nothing [simp]: "join p own_nothing = p" "join own_nothing p = p"
  by (simp_all add: join_def own_nothing_def)

lemma own_Nil [simp]: "own [] = own_nothing"
  by (simp add: own_def own_of_def own_nothing_def entries_to_added_structure_def nothing_added_def list_of_def fun_eq_iff)

lemma list_of_dset [simp]: "list_of (dset d k xs) t = (if t = k then xs else list_of d t)"
  by (simp add: list_of_def)

lemma list_of_Nil [simp]: "list_of [] t = []"
  by (simp add: list_of_def)

lemma list_of_single [simp]: "list_of [(k, xs)] t = (if t = k then xs else [])"
  by (simp add: list_of_def)

lemma own_snoc: "own (es @ [e]) = join (own es) (own [e])"
  by (cases "ent_path e")
    (auto simp: own_def own_of_def join_def entries_to_added_structure_def add_entry_def nothing_added_def fun_eq_iff or_else_def
      split: option.split)

lemma own_append: "own (es @ es') = join (own es) (own es')"
proof (induction es' rule: rev_induct)
  case (snoc e es')
  have "own (es @ es' @ [e]) = join (own (es @ es')) (own [e])" using own_snoc [of "es @ es'"] by simp
  also have "\<dots> = join (own es) (own (es' @ [e]))" by (simp add: snoc own_snoc [of es'] join_assoc)
  finally show ?case .
qed simp

lemma own_Cons: "own (e # es) = join (own [e]) (own es)"
  using own_append [of "[e]" es] by simp

lemma own_single:
  "own [e] = (case ent_path e of
     HookPath t \<Rightarrow> own_nothing\<lparr>ow_hooks := (\<lambda>u. if u = t \<and> is_obj (ent_value e) then {canonical (ent_value e)} else {})\<rparr>
   | PermissionPath t \<Rightarrow> own_nothing\<lparr>ow_permissions := (\<lambda>u. if u = t then {py_value (ent_value e)} else {})\<rparr>
   | EnvPath k \<Rightarrow> own_nothing\<lparr>ow_env := [k \<mapsto> ent_value e]\<rparr>
   | ScalarPath k \<Rightarrow> own_nothing\<lparr>ow_scalars := [k \<mapsto> ent_value e]\<rparr>)"
  by (cases "ent_path e")
    (auto simp: own_def own_of_def own_nothing_def entries_to_added_structure_def add_entry_def nothing_added_def fun_eq_iff)

lemma own_hooks_iff:
  "c \<in> ow_hooks (own es) t \<longleftrightarrow> (\<exists>e \<in> set es. ent_path e = HookPath t \<and> is_obj (ent_value e) \<and> canonical (ent_value e) = c)"
  by (induction es rule: rev_induct) (auto simp: own_nothing_def own_snoc join_def own_single split: key_path.split)

lemma own_permissions_iff:
  "c \<in> ow_permissions (own es) t \<longleftrightarrow> (\<exists>e \<in> set es. ent_path e = PermissionPath t \<and> py_value (ent_value e) = c)"
  by (induction es rule: rev_induct) (auto simp: own_nothing_def own_snoc join_def own_single split: key_path.split)

lemma own_env_None: "ow_env (own es) k = None \<longleftrightarrow> (\<forall>e \<in> set es. ent_path e \<noteq> EnvPath k)"
  by (induction es rule: rev_induct) (auto simp: own_nothing_def own_snoc join_def own_single or_else_def split: key_path.split option.split)

lemma own_scalars_None: "ow_scalars (own es) k = None \<longleftrightarrow> (\<forall>e \<in> set es. ent_path e \<noteq> ScalarPath k)"
  by (induction es rule: rev_induct) (auto simp: own_nothing_def own_snoc join_def own_single or_else_def split: key_path.split option.split)

lemma own_env_filter:
  "(\<And>e. e \<in> set es \<Longrightarrow> ent_path e = EnvPath k \<Longrightarrow> P e) \<Longrightarrow> ow_env (own (filter P es)) k = ow_env (own es) k"
  by (induction es rule: rev_induct) (auto simp: own_nothing_def own_snoc join_def own_single or_else_def split: key_path.split option.split)

lemma own_scalars_filter:
  "(\<And>e. e \<in> set es \<Longrightarrow> ent_path e = ScalarPath k \<Longrightarrow> P e) \<Longrightarrow> ow_scalars (own (filter P es)) k = ow_scalars (own es) k"
  by (induction es rule: rev_induct) (auto simp: own_nothing_def own_snoc join_def own_single or_else_def split: key_path.split option.split)

text \<open>The entries the installer makes.\<close>

definition entry_ok :: "settings_entry \<Rightarrow> bool" where
  "entry_ok e \<longleftrightarrow>
     (case ent_path e of
        HookPath _ \<Rightarrow> ent_id e = canonical (ent_value e) \<and> is_obj (ent_value e) \<and> truthy (ent_value e)
      | PermissionPath _ \<Rightarrow> ent_id e = ent_value e \<and> hashable (ent_value e)
      | EnvPath k \<Rightarrow> ent_id e = JStr k \<and> truthy (ent_value e)
      | ScalarPath k \<Rightarrow> ent_id e = JStr k \<and> k = ''statusLine'' \<and> ent_value e \<noteq> JNull \<and> jwf (ent_value e))"

definition without_hooks :: "owned \<Rightarrow> owned" where
  "without_hooks p = p\<lparr>ow_hooks := (\<lambda>_. {})\<rparr>"

lemma same_hook:
  "entry_ok e \<Longrightarrow> entry_ok e' \<Longrightarrow> ent_path e = HookPath t \<Longrightarrow> ent_path e' = HookPath t \<Longrightarrow> ent_id e' = ent_id e \<Longrightarrow>
     is_obj (ent_value e') \<and> canonical (ent_value e') = canonical (ent_value e)"
  by (simp add: entry_ok_def)

lemma same_permission:
  "entry_ok e \<Longrightarrow> entry_ok e' \<Longrightarrow> ent_path e = PermissionPath t \<Longrightarrow> ent_path e' = PermissionPath t \<Longrightarrow> ent_id e' = ent_id e \<Longrightarrow>
     py_value (ent_value e') = py_value (ent_value e)"
  by (simp add: entry_ok_def)

lemma same_id:
  "entry_ok e \<Longrightarrow> entry_ok e' \<Longrightarrow> ent_path e = p \<Longrightarrow> ent_path e' = p \<Longrightarrow> p = EnvPath k \<or> p = ScalarPath k \<Longrightarrow> entry_id e = entry_id e'"
  by (auto simp: entry_ok_def entry_id_def)

lemma own_drop_hooks: "own (filter (\<lambda>e. \<not> is_hook_entry e) es) = without_hooks (own es)"
  by (induction es rule: rev_induct)
    (auto simp: own_snoc own_nothing_def without_hooks_def join_def own_single is_hook_entry_def split: key_path.split)

text \<open>Entries that new ones replace own nothing that the new ones do not own.\<close>

lemma own_surviving:
  assumes "\<forall>e \<in> set old \<union> set new. entry_ok e"
  shows "own (new @ filter (\<lambda>e. entry_id e \<notin> entry_id ` set new) old) = join (own old) (own new)"
proof -
  let ?P = "\<lambda>e. entry_id e \<notin> entry_id ` set new"
  let ?s = "filter ?P old"
  have same: "\<exists>e' \<in> set new. ent_path e' = ent_path e \<and> ent_id e' = ent_id e" if "e \<in> set old" "\<not> ?P e" for e
    using that by (auto simp: entry_id_def)
  have "ow_hooks (own new) t \<union> ow_hooks (own ?s) t = ow_hooks (own old) t \<union> ow_hooks (own new) t" for t
  proof (rule set_eqI)
    fix c show "c \<in> ow_hooks (own new) t \<union> ow_hooks (own ?s) t \<longleftrightarrow> c \<in> ow_hooks (own old) t \<union> ow_hooks (own new) t"
    proof (cases "c \<in> ow_hooks (own new) t")
      case False
      have "?P e" if e: "e \<in> set old" "ent_path e = HookPath t" "is_obj (ent_value e)" "canonical (ent_value e) = c" for e
      proof (rule ccontr)
        assume "\<not> ?P e"
        with same e(1) obtain e' where "e' \<in> set new" "ent_path e' = HookPath t" "ent_id e' = ent_id e" using e(2) by metis
        with same_hook [of e e' t] assms e have "c \<in> ow_hooks (own new) t" unfolding own_hooks_iff by blast
        with False show False ..
      qed
      then have "c \<in> ow_hooks (own ?s) t \<longleftrightarrow> c \<in> ow_hooks (own old) t"
        unfolding own_hooks_iff set_filter by blast
      then show ?thesis using False by simp
    qed simp
  qed
  moreover have "ow_permissions (own new) t \<union> ow_permissions (own ?s) t = ow_permissions (own old) t \<union> ow_permissions (own new) t" for t
  proof (rule set_eqI)
    fix c show "c \<in> ow_permissions (own new) t \<union> ow_permissions (own ?s) t \<longleftrightarrow> c \<in> ow_permissions (own old) t \<union> ow_permissions (own new) t"
    proof (cases "c \<in> ow_permissions (own new) t")
      case False
      have "?P e" if e: "e \<in> set old" "ent_path e = PermissionPath t" "py_value (ent_value e) = c" for e
      proof (rule ccontr)
        assume "\<not> ?P e"
        with same e(1) obtain e' where "e' \<in> set new" "ent_path e' = PermissionPath t" "ent_id e' = ent_id e" using e(2) by metis
        with same_permission [of e e' t] assms e have "c \<in> ow_permissions (own new) t" unfolding own_permissions_iff by blast
        with False show False ..
      qed
      then have "c \<in> ow_permissions (own ?s) t \<longleftrightarrow> c \<in> ow_permissions (own old) t"
        unfolding own_permissions_iff set_filter by blast
      then show ?thesis using False by simp
    qed simp
  qed
  moreover have "or_else (ow_env (own ?s) k) (ow_env (own new) k) = or_else (ow_env (own new) k) (ow_env (own old) k)" for k
  proof (cases "ow_env (own new) k")
    case None
    have "ow_env (own ?s) k = ow_env (own old) k"
    proof (rule own_env_filter)
      fix e assume e: "e \<in> set old" "ent_path e = EnvPath k"
      from None have "\<forall>e \<in> set new. ent_path e \<noteq> EnvPath k" by (simp add: own_env_None)
      with same [OF e(1)] e(2) show "?P e" by metis
    qed
    with None show ?thesis by simp
  next
    case (Some v)
    then obtain e' where e': "e' \<in> set new" "ent_path e' = EnvPath k" using own_env_None [of new k] by auto
    have "\<not> ?P e" if "e \<in> set old" "ent_path e = EnvPath k" for e
      using same_id [of e e' "EnvPath k" k] that e' assms by simp
    then have "ow_env (own ?s) k = None" unfolding own_env_None set_filter by blast
    then show ?thesis using Some by simp
  qed
  moreover have "or_else (ow_scalars (own ?s) k) (ow_scalars (own new) k) = or_else (ow_scalars (own new) k) (ow_scalars (own old) k)" for k
  proof (cases "ow_scalars (own new) k")
    case None
    have "ow_scalars (own ?s) k = ow_scalars (own old) k"
    proof (rule own_scalars_filter)
      fix e assume e: "e \<in> set old" "ent_path e = ScalarPath k"
      from None have "\<forall>e \<in> set new. ent_path e \<noteq> ScalarPath k" by (simp add: own_scalars_None)
      with same [OF e(1)] e(2) show "?P e" by metis
    qed
    with None show ?thesis by simp
  next
    case (Some v)
    then obtain e' where e': "e' \<in> set new" "ent_path e' = ScalarPath k" using own_scalars_None [of new k] by auto
    have "\<not> ?P e" if "e \<in> set old" "ent_path e = ScalarPath k" for e
      using same_id [of e e' "ScalarPath k" k] that e' assms by simp
    then have "ow_scalars (own ?s) k = None" unfolding own_scalars_None set_filter by blast
    then show ?thesis using Some by simp
  qed
  ultimately show ?thesis unfolding own_append join_def by (simp only: owned.simps)
qed

section \<open>Merging owns what it adds\<close>

text \<open>Without what is owned, the settings are those of the baseline, up to empty values.\<close>

definition undone_hooks :: "jobj \<Rightarrow> owned \<Rightarrow> jobj \<Rightarrow> bool" where
  "undone_hooks B p d \<longleftrightarrow>
     (\<forall>t. filter (\<lambda>x. \<not> (is_obj x \<and> canonical x \<in> ow_hooks p t)) (items d t) = items (section_of B ''hooks'') t)"

definition undone_permissions :: "jobj \<Rightarrow> owned \<Rightarrow> jobj \<Rightarrow> bool" where
  "undone_permissions B p d \<longleftrightarrow>
     (\<forall>t. filter (\<lambda>x. py_value x \<notin> ow_permissions p t) (items d t) = items (section_of B ''permissions'') t)"

definition undone_env :: "jobj \<Rightarrow> owned \<Rightarrow> jobj \<Rightarrow> bool" where
  "undone_env B p d \<longleftrightarrow>
     (\<forall>k. case ow_env p k of
        Some v \<Rightarrow> dget d k = Some v \<and> truthy v
      | None \<Rightarrow> live (dget d k) = live (dget (section_of B ''env'') k))"

definition undone_scalars :: "jobj \<Rightarrow> owned \<Rightarrow> jobj \<Rightarrow> bool" where
  "undone_scalars B p c \<longleftrightarrow>
     (\<forall>k. \<not> is_section k \<longrightarrow>
       (case ow_scalars p k of
          Some v \<Rightarrow> dget c k = Some v \<and> v \<noteq> JNull \<and> jwf v
        | None \<Rightarrow> dget c k = dget B k))"

definition undone :: "jobj \<Rightarrow> owned \<Rightarrow> jobj \<Rightarrow> bool" where
  "undone B p c \<longleftrightarrow> shaped c \<and> undone_hooks B p (section_of c ''hooks'') \<and> undone_permissions B p (section_of c ''permissions'') \<and>
     undone_env B p (section_of c ''env'') \<and> undone_scalars B p c"

definition grows :: "jobj \<Rightarrow> merging \<Rightarrow> bool" where
  "grows B m \<longleftrightarrow> (\<forall>p c new c'. undone B p c \<longrightarrow> m c = Inr (new, c') \<longrightarrow>
     undone B (join p (own new)) c' \<and> (\<forall>e \<in> set new. entry_ok e))"

lemma grows_steps: "(\<And>m. m \<in> set ms \<Longrightarrow> grows B m) \<Longrightarrow> grows B (merge_steps ms)"
proof (induction ms)
  case Nil
  show ?case by (simp add: grows_def)
next
  case (Cons m ms)
  from Cons have m: "grows B m" and ms: "grows B (merge_steps ms)" by simp_all
  show ?case unfolding grows_def
  proof (intro allI impI)
    fix p c new c' assume u: "undone B p c" and r: "merge_steps (m # ms) c = Inr (new, c')"
    from r obtain es s es' where s: "m c = Inr (es, s)" "merge_steps ms s = Inr (es', c')" "new = es @ es'"
      by (auto split: sum.splits)
    with m u have "undone B (join p (own es)) s" "\<forall>e \<in> set es. entry_ok e" unfolding grows_def by blast+
    with ms s show "undone B (join p (own new)) c' \<and> (\<forall>e \<in> set new. entry_ok e)"
      unfolding grows_def by (auto simp: own_append join_assoc)
  qed
qed

lemma append_missing_set: "set (append_missing key seen es) \<subseteq> set es"
  by (induction key seen es rule: append_missing.induct) auto

lemma append_missing_new: "v \<in> set (append_missing key seen es) \<Longrightarrow> key v \<notin> set seen"
  by (induction key seen es rule: append_missing.induct) (auto split: if_splits)

lemma own_entries:
  "own (map (hook_entry t) vs) = own_nothing\<lparr>ow_hooks := (\<lambda>u. if u = t then canonical ` {v \<in> set vs. is_obj v} else {})\<rparr>"
  "own (map (permission_entry t) vs) = own_nothing\<lparr>ow_permissions := (\<lambda>u. if u = t then py_value ` set vs else {})\<rparr>"
  by (induction vs rule: rev_induct)
    (auto simp: own_snoc own_single hook_entry_def permission_entry_def own_nothing_def join_def fun_eq_iff)

lemma undone_join_hooks:
  assumes "undone_hooks B p d" "\<And>v. v \<in> set new \<Longrightarrow> is_obj v" "\<And>v. v \<in> set new \<Longrightarrow> canonical v \<notin> canonical ` set (filter is_obj (items d t))"
  shows "undone_hooks B (join p (own (map (hook_entry t) new))) (dset d t (JList (items d t @ new)))"
proof -
  have old: "filter (\<lambda>x. \<not> (is_obj x \<and> (canonical x \<in> ow_hooks p t \<or> canonical x \<in> canonical ` {v \<in> set new. is_obj v}))) (items d t) =
      filter (\<lambda>x. \<not> (is_obj x \<and> canonical x \<in> ow_hooks p t)) (items d t)"
  proof (rule filter_cong [OF refl])
    fix x assume x: "x \<in> set (items d t)"
    have "canonical x \<notin> canonical ` {v \<in> set new. is_obj v}" if "is_obj x"
    proof
      assume "canonical x \<in> canonical ` {v \<in> set new. is_obj v}"
      then obtain v where v: "v \<in> set new" "canonical x = canonical v" by blast
      have "canonical x \<in> canonical ` set (filter is_obj (items d t))" using x that by (intro imageI) simp
      with v assms(3) [OF v(1)] show False by simp
    qed
    then show "(\<not> (is_obj x \<and> (canonical x \<in> ow_hooks p t \<or> canonical x \<in> canonical ` {v \<in> set new. is_obj v}))) =
        (\<not> (is_obj x \<and> canonical x \<in> ow_hooks p t))" by blast
  qed
  have "filter (\<lambda>x. \<not> (is_obj x \<and> (canonical x \<in> ow_hooks p t \<or> canonical x \<in> canonical ` {v \<in> set new. is_obj v}))) new = []"
    using assms(2) by (auto simp: filter_empty_conv)
  with old assms(1) show ?thesis by (simp add: undone_hooks_def join_def own_entries own_nothing_def)
qed

lemma undone_join_permissions:
  assumes "undone_permissions B p d" "\<And>v. v \<in> set new \<Longrightarrow> py_value v \<notin> py_value ` set (items d t)"
  shows "undone_permissions B (join p (own (map (permission_entry t) new))) (dset d t (JList (items d t @ new)))"
proof -
  have "filter (\<lambda>x. py_value x \<notin> ow_permissions p t \<and> py_value x \<notin> py_value ` set new) (items d t) =
      filter (\<lambda>x. py_value x \<notin> ow_permissions p t) (items d t)"
  proof (rule filter_cong [OF refl])
    fix x assume x: "x \<in> set (items d t)"
    have "py_value x \<notin> py_value ` set new"
    proof
      assume "py_value x \<in> py_value ` set new"
      then obtain v where v: "v \<in> set new" "py_value x = py_value v" by blast
      have "py_value x \<in> py_value ` set (items d t)" using x by (rule imageI)
      with v assms(2) [OF v(1)] show False by simp
    qed
    then show "(py_value x \<notin> ow_permissions p t \<and> py_value x \<notin> py_value ` set new) = (py_value x \<notin> ow_permissions p t)" by simp
  qed
  moreover have "filter (\<lambda>x. py_value x \<notin> ow_permissions p t \<and> py_value x \<notin> py_value ` set new) new = []"
    by (auto simp: filter_empty_conv)
  ultimately show ?thesis using assms(1) by (simp add: undone_permissions_def join_def own_entries own_nothing_def)
qed

text \<open>The parts a step leaves alone.\<close>

lemma undone_hooks_only: "ow_hooks p = ow_hooks q \<Longrightarrow> undone_hooks B p = undone_hooks B q"
  by (simp add: undone_hooks_def fun_eq_iff)

lemma undone_permissions_only: "ow_permissions p = ow_permissions q \<Longrightarrow> undone_permissions B p = undone_permissions B q"
  by (simp add: undone_permissions_def fun_eq_iff)

lemma undone_env_only: "ow_env p = ow_env q \<Longrightarrow> undone_env B p = undone_env B q"
  by (simp add: undone_env_def fun_eq_iff)

lemma undone_scalars_only:
  assumes "ow_scalars p = ow_scalars q" "\<And>k. \<not> is_section k \<Longrightarrow> dget c k = dget c' k"
  shows "undone_scalars B p c = undone_scalars B q c'"
proof -
  have "undone_scalars B q c \<longleftrightarrow> undone_scalars B q c'"
    unfolding undone_scalars_def 
  proof (intro all_cong1 imp_cong refl)
    fix k assume "\<not> is_section k"
    then have "dget c k = dget c' k" by (rule assms(2))
    then show "(case ow_scalars q k of None \<Rightarrow> dget c k = dget B k | Some v \<Rightarrow> dget c k = Some v \<and> v \<noteq> JNull \<and> jwf v) =
        (case ow_scalars q k of None \<Rightarrow> dget c' k = dget B k | Some v \<Rightarrow> dget c' k = Some v \<and> v \<noteq> JNull \<and> jwf v)"
      by (simp only:)
  qed
  then show ?thesis by (simp add: undone_scalars_def assms(1))
qed

lemma grows_hooks:
  assumes "\<And>e. e \<in> set es \<Longrightarrow> is_obj e \<and> truthy e"
  shows "grows B (merge_hooks t es)"
  unfolding grows_def
proof (intro allI impI)
  fix p c new c' assume u: "undone B p c" and r: "merge_hooks t es c = Inr (new, c')"
  let ?d = "section_of c ''hooks''"
  let ?vs = "append_missing canonical (map canonical (filter is_obj (items ?d t))) es"
  have sh: "shaped c" using u by (simp add: undone_def)
  note l = section_shaped(1) [OF sh]
  have new: "new = map (hook_entry t) ?vs" "c' = dset c ''hooks'' (JObj (dset ?d t (JList (items ?d t @ ?vs))))"
    using r by (simp_all add: merge_hooks_def set_default_section [OF sh] set_default_list [OF l] Let_def)
  have obj: "is_obj v \<and> truthy v" if "v \<in> set ?vs" for v
    using assms [OF subsetD [OF append_missing_set that]] .
  have fresh: "canonical v \<notin> canonical ` set (filter is_obj (items ?d t))" if "v \<in> set ?vs" for v
    using append_missing_new [OF that] unfolding set_map .
  have d: "undone_hooks B p ?d" using u by (simp add: undone_def)
  have "undone_hooks B (join p (own new)) (dset ?d t (JList (items ?d t @ ?vs)))"
    unfolding new(1) using undone_join_hooks [OF d _ fresh] obj by blast
  moreover have "undone_permissions B (join p (own new)) = undone_permissions B p" "undone_env B (join p (own new)) = undone_env B p"
    by (rule undone_permissions_only undone_env_only; simp add: join_def own_entries own_nothing_def new(1))+
  moreover have "undone_scalars B (join p (own new)) c' = undone_scalars B p c"
    by (rule undone_scalars_only) (auto simp: join_def own_entries own_nothing_def new is_section_def)
  ultimately have "undone B (join p (own new)) c'"
    using u shaped_dset(1) [OF sh listing_dset [OF l]] by (simp add: undone_def new(2))
  moreover have "\<forall>e \<in> set new. entry_ok e"
  proof
    fix e assume "e \<in> set new"
    then obtain v where v: "v \<in> set ?vs" "e = hook_entry t v" unfolding new(1) set_map by blast
    with obj [OF v(1)] show "entry_ok e" by (simp add: entry_ok_def hook_entry_def)
  qed
  ultimately show "undone B (join p (own new)) c' \<and> (\<forall>e \<in> set new. entry_ok e)" ..
qed

lemma py_value_hash: "hashable v \<Longrightarrow> py_value v = hash_key v"
  by (cases v) simp_all

lemma set_of_list: "set_of_json (JList xs) = (if list_all hashable xs then Inr (fold set_add xs []) else Inl ''unhashable type'')"
  by (simp add: set_of_json_def)

lemma fold_dset_add: "hash_key ` set (fold set_add xs ys) = hash_key ` (set xs \<union> set ys)"
  by (induction xs arbitrary: ys) (auto simp: set_add_def image_iff)

lemma grows_permissions: "grows B (merge_permissions t es)"
  unfolding grows_def
proof (intro allI impI)
  fix p c new c' assume u: "undone B p c" and r: "merge_permissions t es c = Inr (new, c')"
  let ?d = "section_of c ''permissions''"
  let ?vs = "append_missing hash_key (map hash_key (fold set_add (items ?d t) [])) es"
  have sh: "shaped c" using u by (simp add: undone_def)
  note l = section_shaped(2) [OF sh]
  have h: "list_all hashable (items ?d t)" "list_all hashable es"
    and new: "new = map (permission_entry t) ?vs" "c' = dset c ''permissions'' (JObj (dset ?d t (JList (items ?d t @ ?vs))))"
    using r by (simp_all add: merge_permissions_def set_default_section [OF sh] set_default_list [OF l] Let_def set_of_list split: if_splits)
  have hash: "hashable v" if "v \<in> set ?vs" for v
    using that h(2) append_missing_set [of hash_key _ es] unfolding list_all_iff by blast
  have fresh: "py_value v \<notin> py_value ` set (items ?d t)" if v: "v \<in> set ?vs" for v
    proof -
      have "hash_key v \<notin> hash_key ` set (items ?d t)" using append_missing_new [OF v] fold_dset_add [of "items ?d t" "[]"] by simp
      moreover have "py_value ` set (items ?d t) = hash_key ` set (items ?d t)"
        using h(1) by (intro image_cong) (auto simp: list_all_iff py_value_hash)
      ultimately show ?thesis using py_value_hash [OF hash [OF v]] by simp
    qed
  have d: "undone_permissions B p ?d" using u by (simp add: undone_def)
  have "undone_permissions B (join p (own new)) (dset ?d t (JList (items ?d t @ ?vs)))"
    unfolding new(1) by (rule undone_join_permissions [OF d fresh])
  moreover have "undone_hooks B (join p (own new)) = undone_hooks B p" "undone_env B (join p (own new)) = undone_env B p"
    by (rule undone_hooks_only undone_env_only; simp add: join_def own_entries own_nothing_def new(1))+
  moreover have "undone_scalars B (join p (own new)) c' = undone_scalars B p c"
    by (rule undone_scalars_only) (auto simp: join_def own_entries own_nothing_def new is_section_def)
  ultimately have "undone B (join p (own new)) c'"
    using u shaped_dset(2) [OF sh listing_dset [OF l]] by (simp add: undone_def new(2))
  moreover have "\<forall>e \<in> set new. entry_ok e"
  proof
    fix e assume "e \<in> set new"
    then obtain v where v: "v \<in> set ?vs" "e = permission_entry t v" unfolding new(1) set_map by blast
    with hash [OF v(1)] show "entry_ok e" by (simp add: entry_ok_def permission_entry_def)
  qed
  ultimately show "undone B (join p (own new)) c' \<and> (\<forall>e \<in> set new. entry_ok e)" ..
qed

lemma own_env_entries: "own (map env_entry kvs) = own_nothing\<lparr>ow_env := map_of (rev kvs)\<rparr>"
proof (induction kvs rule: rev_induct)
  case (snoc p kvs)
  have "own [env_entry p] = own_nothing\<lparr>ow_env := [fst p \<mapsto> snd p]\<rparr>" by (simp add: own_single env_entry_def)
  then show ?case
    by (cases p) (auto simp: own_snoc snoc join_def own_nothing_def fun_eq_iff or_else_def split: option.split)
qed (simp add: own_nothing_def)

lemma grows_env:
  assumes "\<And>fe. v = JObj fe \<Longrightarrow> \<forall>x \<in> snd ` set fe. truthy x"
  shows "grows B (merge_env v)"
  unfolding grows_def
proof (intro allI impI)
  fix p c new c' assume u: "undone B p c" and r: "merge_env v c = Inr (new, c')"
  let ?d = "section_of c ''env''"
  have sh: "shaped c" using u by (simp add: undone_def)
  from r obtain fe where fe: "v = JObj fe" by (cases v) (auto simp: merge_env_def set_default_section [OF sh] split: list.splits)
  let ?kvs = "sort_key fst fe"
  let ?d' = "fold (\<lambda>(k, v) d. dset d k v) ?kvs ?d"
  have new: "new = map env_entry ?kvs" "c' = dset c ''env'' (JObj ?d')"
    using r by (simp_all add: merge_env_def set_default_section [OF sh] fe Let_def)
  have truthy: "truthy x" if "map_of (rev ?kvs) k = Some x" for k x
    using assms [OF fe] dget_mem [OF that] by force
  have "undone_env B p ?d" using u by (simp add: undone_def)
  then have "undone_env B (join p (own new)) ?d'"
    unfolding undone_env_def join_def new(1) own_env_entries pydict.get_fold_put
  proof (intro allI)
    fix k
    assume "\<forall>k. case ow_env p k of None \<Rightarrow> live (dget ?d k) = live (dget (section_of B ''env'') k)
      | Some v \<Rightarrow> dget ?d k = Some v \<and> truthy v"
    from this [rule_format, of k] truthy [of k]
    show "case ow_env \<lparr>ow_hooks = \<lambda>t. ow_hooks p t \<union> ow_hooks (own_nothing\<lparr>ow_env := map_of (rev ?kvs)\<rparr>) t,
        ow_permissions = \<lambda>t. ow_permissions p t \<union> ow_permissions (own_nothing\<lparr>ow_env := map_of (rev ?kvs)\<rparr>) t,
        ow_env = \<lambda>k. or_else (ow_env (own_nothing\<lparr>ow_env := map_of (rev ?kvs)\<rparr>) k) (ow_env p k),
        ow_scalars = \<lambda>k. or_else (ow_scalars (own_nothing\<lparr>ow_env := map_of (rev ?kvs)\<rparr>) k) (ow_scalars p k)\<rparr> k of
        None \<Rightarrow> live (case map_of (rev ?kvs) k of None \<Rightarrow> dget ?d k | Some v \<Rightarrow> Some v) = live (dget (section_of B ''env'') k)
      | Some v \<Rightarrow> (case map_of (rev ?kvs) k of None \<Rightarrow> dget ?d k | Some v \<Rightarrow> Some v) = Some v \<and> truthy v"
      by (cases "map_of (rev ?kvs) k"; cases "ow_env p k") simp_all
  qed
  moreover have "undone_hooks B (join p (own new)) = undone_hooks B p" "undone_permissions B (join p (own new)) = undone_permissions B p"
    by (rule undone_hooks_only undone_permissions_only; simp add: join_def own_env_entries own_nothing_def new(1))+
  moreover have "undone_scalars B (join p (own new)) c' = undone_scalars B p c"
    by (rule undone_scalars_only) (auto simp: join_def own_env_entries own_nothing_def new is_section_def)
  ultimately have "undone B (join p (own new)) c'"
    using u shaped_dset(3) [OF sh pydict.ok_fold_put [OF section_shaped(3) [OF sh]]] by (simp add: undone_def new(2))
  moreover have "\<forall>e \<in> set new. entry_ok e"
    using assms [OF fe] by (auto simp: new(1) entry_ok_def env_entry_def)
  ultimately show "undone B (join p (own new)) c' \<and> (\<forall>e \<in> set new. entry_ok e)" ..
qed

lemma grows_scalar:
  assumes "v \<noteq> JNull" "jwf v"
  shows "grows B (set_scalar ''statusLine'' v force)"
  unfolding grows_def
proof (intro allI impI)
  fix p c new c' assume u: "undone B p c" and r: "set_scalar ''statusLine'' v force c = Inr (new, c')"
  let ?e = "\<lparr>ent_path = ScalarPath ''statusLine'', ent_value = v, ent_id = JStr ''statusLine'', ent_module = ''status-line''\<rparr>"
  consider "new = []" "c' = c" | "new = [?e]" "c' = dset c ''statusLine'' v"
    using r by (auto simp: set_scalar_def Let_def split: if_splits)
  then show "undone B (join p (own new)) c' \<and> (\<forall>e \<in> set new. entry_ok e)"
  proof cases
    case 1
    with u show ?thesis by simp
  next
    case 2
    have own: "own new = own_nothing\<lparr>ow_scalars := [''statusLine'' \<mapsto> v]\<rparr>" by (simp add: 2(1) own_single)
    have "undone_hooks B (join p (own new)) = undone_hooks B p" "undone_permissions B (join p (own new)) = undone_permissions B p"
      "undone_env B (join p (own new)) = undone_env B p"
      by (rule undone_hooks_only undone_permissions_only undone_env_only; simp add: join_def own own_nothing_def)+
    moreover have "undone_scalars B p c" using u by (simp add: undone_def)
    then have "undone_scalars B (join p (own new)) c'"
      unfolding undone_scalars_def
    proof (intro allI impI)
      fix k
      assume old: "\<forall>k. \<not> is_section k \<longrightarrow> (case ow_scalars p k of None \<Rightarrow> dget c k = dget B k | Some v \<Rightarrow> dget c k = Some v \<and> v \<noteq> JNull \<and> jwf v)"
        and k: "\<not> is_section k"
      from old [rule_format, OF k]
      show "case ow_scalars (join p (own new)) k of None \<Rightarrow> dget c' k = dget B k | Some v \<Rightarrow> dget c' k = Some v \<and> v \<noteq> JNull \<and> jwf v"
        unfolding own 2(2) using assms
        by (cases "k = ''statusLine''"; cases "ow_scalars p k") (simp_all add: join_def own_nothing_def)
    qed
    ultimately have "undone B (join p (own new)) c'"
      using u shaped_dset(4) [of c "''statusLine''" v] by (simp add: undone_def 2(2) is_section_def)
    then show ?thesis using assms by (simp add: 2(1) entry_ok_def)
  qed
qed

definition template_ok :: "jobj \<Rightarrow> bool" where
  "template_ok forge \<longleftrightarrow>
     (\<forall>d. get_default forge ''hooks'' (JObj []) = JObj d \<longrightarrow>
       (\<forall>p \<in> set d. \<forall>es. iterated (snd p) = Some es \<longrightarrow> (\<forall>e \<in> set es. is_obj e \<and> truthy e))) \<and>
     (\<forall>v. dget forge ''statusLine'' = Some v \<longrightarrow> v \<noteq> JNull \<and> jwf v) \<and>
     (\<forall>fe. jget forge ''env'' = JObj fe \<longrightarrow> (\<forall>x \<in> snd ` set fe. truthy x))"

lemma grows_fail: "grows B (\<lambda>_. Inl Malformed)"
  by (simp add: grows_def)

lemma grows_over:
  assumes "\<And>es. iterated v = Some es \<Longrightarrow> grows B (f es)"
  shows "grows B (over f v)"
proof (cases "iterated v")
  case None
  then show ?thesis by (simp add: grows_def over_def)
next
  case (Some es)
  then have "over f v = f es" by (simp add: over_def fun_eq_iff)
  with assms [OF Some] show ?thesis by simp
qed

lemma grows_merge:
  assumes "template_ok forge"
  shows "grows B (merge_settings forge m force)"
proof -
  have "grows B f" if "f \<in> set (hook_steps forge)" for f
  proof (cases "get_default forge ''hooks'' (JObj [])")
    case (JObj d)
    with that obtain t v where f: "(t, v) \<in> set d" "f = over (merge_hooks t) v" by (auto simp: hook_steps_def)
    have "is_obj e \<and> truthy e" if "iterated v = Some es" "e \<in> set es" for es e
      using assms JObj f(1) that unfolding template_ok_def by fastforce
    then show ?thesis unfolding f(2) by (intro grows_over grows_hooks) blast
  qed (use that in \<open>simp_all add: hook_steps_def grows_fail\<close>)
  moreover have "grows B f" if "f \<in> set (permission_steps forge)" for f
    using that by (cases "get_default forge ''permissions'' (JObj [])")
      (auto simp: permission_steps_def grows_fail intro!: grows_over grows_permissions)
  moreover have "grows B f" if "f \<in> set (status_steps force forge)" for f
  proof (cases "dget forge ''statusLine''")
    case (Some v)
    with assms have "v \<noteq> JNull" "jwf v" unfolding template_ok_def by blast+
    with that Some show ?thesis by (simp add: status_steps_def grows_scalar)
  qed (use that in \<open>simp add: status_steps_def\<close>)
  moreover have "grows B f" if "f \<in> set (env_steps forge)" for f
    using that assms by (auto simp: env_steps_def template_ok_def intro!: grows_env split: if_splits)
  ultimately show ?thesis unfolding merge_settings_def
    by (intro grows_steps) (auto split: if_splits)
qed

section \<open>The template\<close>

text \<open>What a preset of the user must not hold: a null status line, empty variables.\<close>

definition preset_ok :: "state_file \<Rightarrow> bool" where
  "preset_ok f \<longleftrightarrow>
     (\<forall>d. f = Holds (JObj d) \<longrightarrow>
       (\<forall>v. dget d ''statusLine'' = Some v \<longrightarrow> v \<noteq> JNull \<and> jwf v) \<and>
       (\<forall>fe. jget d ''env'' = JObj fe \<longrightarrow> (\<forall>x \<in> snd ` set fe. truthy x)))"

lemma builtin_hooks_ok:
  "(t, v) \<in> set (builtin_hooks cmd) \<Longrightarrow> iterated v = Some es \<Longrightarrow> e \<in> set es \<Longrightarrow> is_obj e \<and> truthy e"
  by (auto simp: builtin_hooks_def builtin_hook_def iterated_def)

lemma load_template:
  assumes "preset_ok f" "load_forge_settings cmd f = Inr forge"
  shows "template_ok forge \<and> dget forge ''hooks'' = Some (JObj (builtin_hooks cmd))"
proof -
  obtain d where d: "load_preset cmd f = Inr d" using assms(2) by (auto simp: load_forge_settings_def split: sum.splits)
  have ok: "(\<forall>v. dget d ''statusLine'' = Some v \<longrightarrow> v \<noteq> JNull \<and> jwf v) \<and>
      (\<forall>fe. jget d ''env'' = JObj fe \<longrightarrow> (\<forall>x \<in> snd ` set fe. truthy x))"
  proof (cases "f = Missing")
    case True
    then show ?thesis using d by (auto simp: load_preset_def builtin_preset_def jget_def)
  next
    case False
    then have "f = Holds (JObj d)" using d by (auto simp: load_preset_def split: state_file.splits json.splits)
    with assms(1) show ?thesis by (simp add: preset_ok_def)
  qed
  obtain p where "forge = dset (dset d ''hooks'' (JObj (builtin_hooks cmd))) ''permissions'' p"
    using assms(2) d by (auto simp: load_forge_settings_def set_default_def split: sum.splits json.splits option.splits prod.splits)
  with ok builtin_hooks_ok show ?thesis unfolding template_ok_def by (fastforce simp: get_default_def)
qed

section \<open>Refreshing\<close>

lemma live_items: "dget d' t = live (dget d t) \<Longrightarrow> items d' t = items d t"
  by (auto simp: items_def live_def split: option.splits json.splits if_splits)

lemma undone_clean:
  assumes "undone B p c" "cleaned c c'"
  shows "undone B p c'"
proof -
  have sec: "dget (section_of c' n) k = live (dget (section_of c n) k)" if "is_section n" for n k
    using assms(2) that by (simp add: cleaned_def)
  have it: "items (section_of c' n) t = items (section_of c n) t" if "is_section n" for n t
    using sec [OF that] by (rule live_items)
  have "undone_env B p (section_of c' ''env'')"
    unfolding undone_env_def
  proof
    fix k
    have "case ow_env p k of Some v \<Rightarrow> dget (section_of c ''env'') k = Some v \<and> truthy v
        | None \<Rightarrow> live (dget (section_of c ''env'') k) = live (dget (section_of B ''env'') k)"
      using assms(1) by (simp add: undone_def undone_env_def)
    then show "case ow_env p k of Some v \<Rightarrow> dget (section_of c' ''env'') k = Some v \<and> truthy v
        | None \<Rightarrow> live (dget (section_of c' ''env'') k) = live (dget (section_of B ''env'') k)"
      by (cases "ow_env p k") (simp_all add: sec [of "''env''"], simp add: live_def)
  qed
  moreover have "undone_scalars B p c' = undone_scalars B p c"
    by (rule undone_scalars_only) (use assms(2) in \<open>simp_all add: cleaned_def\<close>)
  ultimately show ?thesis
    using assms it by (simp add: undone_def undone_hooks_def undone_permissions_def cleaned_def)
qed

lemma undone_hooksD:
  "undone B p s \<Longrightarrow> filter (\<lambda>x. \<not> (is_obj x \<and> canonical x \<in> ow_hooks p t)) (items (section_of s ''hooks'') t) = items (section_of B ''hooks'') t"
  by (simp add: undone_def undone_hooks_def)

lemma unmerge_hooks_view:
  assumes "shaped s"
  obtains d where "unmerge_hooks t es s = Inr (if dget s ''hooks'' = None then s else dset s ''hooks'' (JObj d))" "listing d"
    "\<And>u. items d u = (if u = t
       then filter (\<lambda>h. \<not> is_obj h \<or> canonical h \<notin> canonical ` ent_value ` {e \<in> set es. truthy (ent_value e) \<and> is_obj (ent_value e)})
         (items (section_of s ''hooks'') t)
       else items (section_of s ''hooks'') u)"
proof -
  let ?d = "section_of s ''hooks''"
  let ?R = "canonical ` ent_value ` {e \<in> set es. truthy (ent_value e) \<and> is_obj (ent_value e)}"
  let ?f = "filter (\<lambda>h. \<not> is_obj h \<or> canonical h \<notin> ?R)"
  have R: "set (map (canonical \<circ> ent_value) (filter (\<lambda>e. truthy (ent_value e) \<and> is_obj (ent_value e)) es)) = ?R"
    by (simp add: image_comp)
  have h: "get_default s ''hooks'' (JObj []) = JObj ?d"
    using shapedD [OF assms is_section(1)] by (cases "dget s ''hooks''") (auto simp: get_default_def section_of_def)
  note l = section_shaped(1) [OF assms]
  show ?thesis
  proof (cases "dget ?d t")
    case None
    have same: "dset s ''hooks'' (JObj ?d) = s" if "dget s ''hooks'' \<noteq> None"
      using that shapedD [OF assms is_section(1)] by (auto intro: dset_same)
    have "unmerge_hooks t es s = Inr s" by (simp add: unmerge_hooks_def h py_in_def None)
    moreover have "items ?d t = []" by (simp add: items_def None)
    ultimately show ?thesis using that [of ?d] l same by auto
  next
    case (Some v)
    then have v: "v = JList (items ?d t)" using l listingD by blast
    have ne: "dget s ''hooks'' \<noteq> None" using Some by (cases "dget s ''hooks''") (simp_all add: section_of_def)
    have "unmerge_hooks t es s = Inr (dset s ''hooks'' (JObj (dset ?d t (JList (?f (items ?d t))))))"
      unfolding unmerge_hooks_def Let_def h R by (simp add: py_in_def Some v jget_def iterated_def)
    then show ?thesis using that [of "dset ?d t (JList (?f (items ?d t)))"] l ne by simp
  qed
qed

lemma each_hooks_view:
  assumes "shaped s" "\<And>p. p \<in> set ps \<Longrightarrow> \<exists>t. p = HookPath t"
  shows "\<exists>s'. each (\<lambda>p s. case p of HookPath t \<Rightarrow> unmerge_hooks t (at_path es p) s | _ \<Rightarrow> Inr s) ps s = Inr s' \<and> shaped s' \<and>
    (\<forall>k. k \<noteq> ''hooks'' \<longrightarrow> dget s' k = dget s k) \<and>
    (\<forall>u. items (section_of s' ''hooks'') u = (if HookPath u \<in> set ps
       then filter (\<lambda>h. \<not> is_obj h \<or> canonical h \<notin> canonical ` ent_value ` {e \<in> set (at_path es (HookPath u)). truthy (ent_value e) \<and> is_obj (ent_value e)})
         (items (section_of s ''hooks'') u)
       else items (section_of s ''hooks'') u))"
  using assms
proof (induction ps arbitrary: s)
  case Nil
  then show ?case by simp
next
  case (Cons p ps)
  obtain t where p: "p = HookPath t" using Cons.prems(2) [of p] by auto
  let ?F = "\<lambda>u. filter (\<lambda>h. \<not> is_obj h \<or> canonical h \<notin> canonical ` ent_value ` {e \<in> set (at_path es (HookPath u)). truthy (ent_value e) \<and> is_obj (ent_value e)})"
  obtain d where d: "unmerge_hooks t (at_path es (HookPath t)) s = Inr (if dget s ''hooks'' = None then s else dset s ''hooks'' (JObj d))" "listing d"
    "\<And>u. items d u = (if u = t then ?F t (items (section_of s ''hooks'') t) else items (section_of s ''hooks'') u)"
    by (rule unmerge_hooks_view [OF Cons.prems(1), where t = t and es = "at_path es (HookPath t)"]) (rule that; assumption)
  let ?s = "if dget s ''hooks'' = None then s else dset s ''hooks'' (JObj d)"
  have sh: "shaped ?s" using Cons.prems(1) d(2) by (simp add: shaped_dset(1))
  have it: "items (section_of ?s ''hooks'') u = (if u = t then ?F t (items (section_of s ''hooks'') t) else items (section_of s ''hooks'') u)" for u
    using d(3) by (simp add: section_of_def)
  from Cons.IH [OF sh] Cons.prems(2) obtain s' where s':
    "each (\<lambda>p s. case p of HookPath t \<Rightarrow> unmerge_hooks t (at_path es p) s | _ \<Rightarrow> Inr s) ps ?s = Inr s'" "shaped s'"
    "\<And>k. k \<noteq> ''hooks'' \<Longrightarrow> dget s' k = dget ?s k"
    "\<And>u. items (section_of s' ''hooks'') u = (if HookPath u \<in> set ps then ?F u (items (section_of ?s ''hooks'') u) else items (section_of ?s ''hooks'') u)"
    by auto
  have "each (\<lambda>p s. case p of HookPath t \<Rightarrow> unmerge_hooks t (at_path es p) s | _ \<Rightarrow> Inr s) (p # ps) s = Inr s'"
    using d(1) s'(1) by (simp add: p)
  moreover have "dget s' k = dget s k" if "k \<noteq> ''hooks''" for k using s'(3) that by simp
  moreover have "items (section_of s' ''hooks'') u = (if HookPath u \<in> set (p # ps) then ?F u (items (section_of s ''hooks'') u) else items (section_of s ''hooks'') u)" for u
    unfolding s'(4) it by (simp add: p)
  ultimately show ?case using s'(2) by blast
qed

lemma each_skip: "(\<And>x s. x \<in> set xs \<Longrightarrow> f x s = Inr s) \<Longrightarrow> each f xs s = Inr s"
  by (induction xs) auto

lemma is_hook_entry_iff: "is_hook_entry e \<longleftrightarrow> (\<exists>t. ent_path e = HookPath t)"
  by (simp add: is_hook_entry_def split: key_path.split)

lemma paths_of_set: "set (paths_of es) = ent_path ` set es"
  by (simp add: paths_of_def)

text \<open>Taking the tracked hooks out leaves the lists of the baseline, and nothing else changes.\<close>

lemma unmerge_hook_entries:
  assumes "undone B (own es) s" "\<forall>e \<in> set es. entry_ok e"
  obtains s' where "unmerge (filter is_hook_entry es) s = Inr s'" "undone B (without_hooks (own es)) s'"
proof -
  let ?hs = "filter is_hook_entry es"
  have hp: "\<exists>t. p = HookPath t" if "p \<in> set (paths_of ?hs)" for p
    using that by (auto simp: paths_of_set is_hook_entry_iff)
  have sh: "shaped s" using assms(1) by (simp add: undone_def)
  from each_hooks_view [where ps = "paths_of ?hs" and es = ?hs, OF sh hp] obtain s1 where s1:
    "each (\<lambda>p s. case p of HookPath t \<Rightarrow> unmerge_hooks t (at_path ?hs p) s | _ \<Rightarrow> Inr s) (paths_of ?hs) s = Inr s1" "shaped s1"
    "\<And>k. k \<noteq> ''hooks'' \<Longrightarrow> dget s1 k = dget s k"
    "\<And>u. items (section_of s1 ''hooks'') u = (if HookPath u \<in> set (paths_of ?hs)
       then filter (\<lambda>h. \<not> is_obj h \<or> canonical h \<notin> canonical ` ent_value ` {e \<in> set (at_path ?hs (HookPath u)). truthy (ent_value e) \<and> is_obj (ent_value e)})
         (items (section_of s ''hooks'') u)
       else items (section_of s ''hooks'') u)"
    by blast
  have th: "truthy (ent_value e)" if "e \<in> set es" "ent_path e = HookPath u" for e u
    using assms(2) that by (auto simp: entry_ok_def)
  have R: "canonical ` ent_value ` {e \<in> set (at_path ?hs (HookPath u)). truthy (ent_value e) \<and> is_obj (ent_value e)} = ow_hooks (own es) u" for u
  proof (rule set_eqI)
    fix c show "c \<in> canonical ` ent_value ` {e \<in> set (at_path ?hs (HookPath u)). truthy (ent_value e) \<and> is_obj (ent_value e)} \<longleftrightarrow> c \<in> ow_hooks (own es) u"
      using th by (auto simp: own_hooks_iff at_path_def is_hook_entry_iff image_iff)
  qed
  have items1: "items (section_of s1 ''hooks'') u = items (section_of B ''hooks'') u" for u
  proof (cases "HookPath u \<in> set (paths_of ?hs)")
    case True
    then have "items (section_of s1 ''hooks'') u = filter (\<lambda>h. \<not> (is_obj h \<and> canonical h \<in> ow_hooks (own es) u)) (items (section_of s ''hooks'') u)"
      unfolding s1(4) R by simp
    then show ?thesis using undone_hooksD [OF assms(1), of u] by simp
  next
    case False
    have "ent_path e \<noteq> HookPath u" if "e \<in> set es" for e
    proof
      assume e: "ent_path e = HookPath u"
      with that have "ent_path e \<in> ent_path ` set ?hs" by (intro imageI) (simp add: is_hook_entry_def)
      with e False show False by (simp add: paths_of_set)
    qed
    then have "ow_hooks (own es) u = {}" by (auto simp: own_hooks_iff)
    then have "items (section_of s ''hooks'') u = items (section_of B ''hooks'') u"
      using undone_hooksD [OF assms(1), of u] by simp
    with False show ?thesis unfolding s1(4) by simp
  qed
  let ?s2 = "if dget s1 ''env'' \<noteq> None \<and> \<not> truthy (jget s1 ''env'') then ddel s1 ''env'' else s1"
  have skip: "each (\<lambda>p s. case p of PermissionPath t \<Rightarrow> unmerge_permissions t (at_path ?hs p) s | _ \<Rightarrow> Inr s) (paths_of ?hs) x = Inr x"
    "each (\<lambda>p s. case p of EnvPath k \<Rightarrow> unmerge_env k (at_path ?hs p) s | _ \<Rightarrow> Inr s) (paths_of ?hs) x = Inr x"
    "each (\<lambda>p s. case p of ScalarPath k \<Rightarrow> unmerge_scalar k (at_path ?hs p) s | _ \<Rightarrow> Inr s) (paths_of ?hs) x = Inr x" for x
    by (rule each_skip; use hp in fastforce)+
  have run: "unmerge ?hs s = Inr ?s2" by (simp add: unmerge_def Let_def s1(1) skip)
  have env: "section_of ?s2 ''env'' = section_of s ''env''"
  proof -
    have "section_of s1 ''env'' = section_of s ''env''" by (rule section_of_cong) (simp add: s1(3))
    moreover have "section_of s1 ''env'' = []" if "dget s1 ''env'' \<noteq> None" "\<not> truthy (jget s1 ''env'')"
      using that shapedD [OF s1(2) is_section(3)] by (auto simp: jget_def)
    ultimately show ?thesis by simp
  qed
  have perms: "section_of ?s2 ''permissions'' = section_of s ''permissions''"
    by (rule section_of_cong) (simp add: s1(3))
  have hooks: "section_of ?s2 ''hooks'' = section_of s1 ''hooks''" by (rule section_of_cong) simp
  have "undone_hooks B (without_hooks (own es)) (section_of ?s2 ''hooks'')"
    unfolding hooks by (simp add: undone_hooks_def without_hooks_def items1)
  moreover have "undone_scalars B (without_hooks (own es)) ?s2 = undone_scalars B (own es) s"
    by (rule undone_scalars_only) (auto simp: without_hooks_def s1(3) is_section_def)
  moreover have "undone_env B (without_hooks (own es)) = undone_env B (own es)"
    "undone_permissions B (without_hooks (own es)) = undone_permissions B (own es)"
    by (rule undone_env_only undone_permissions_only; simp add: without_hooks_def)+
  moreover have "shaped ?s2" using s1(2) by (simp add: shaped_ddel)
  ultimately have "undone B (without_hooks (own es)) ?s2"
    using assms(1) unfolding undone_def env perms by simp
  with run show ?thesis by (rule that)
qed

text \<open>No hook in the lists has the shape of an earlier release.\<close>

definition legacy_free :: "(string \<Rightarrow> string list option) \<Rightarrow> jobj \<Rightarrow> bool" where
  "legacy_free split s \<longleftrightarrow> (\<forall>t. \<forall>x \<in> set (items (section_of s ''hooks'') t). known_legacy_hook_shape split t x = None)"

lemma remove_legacy_undone:
  assumes "undone B p s" "ow_hooks p = (\<lambda>_. {})" "legacy_free split B" "remove_known_legacy_hook_entries split s = Inr s'"
  shows "undone B p s'"
proof (cases "dget s ''hooks''")
  case None
  with assms(1,4) show ?thesis by (simp add: remove_known_legacy_hook_entries_def)
next
  case (Some v)
  have sh: "shaped s" using assms(1) by (simp add: undone_def)
  let ?d = "section_of s ''hooks''"
  let ?g = "\<lambda>(event, v). (event, case v of JList es \<Rightarrow> JList (filter (\<lambda>e. known_legacy_hook_shape split event e = None) es) | _ \<Rightarrow> v)"
  have v: "v = JObj ?d" using shapedD [OF sh is_section(1) Some] .
  have l: "listing ?d" by (rule section_shaped(1) [OF sh])
  have "?g q = q" if "q \<in> set ?d" for q
  proof -
    obtain t w where q: "q = (t, w)" by (cases q)
    with that l have "dget ?d t = Some w" by (simp add: listing_def)
    with l have w: "w = JList (items ?d t)" by (rule listingD)
    have "items ?d t = items (section_of B ''hooks'') t"
      using undone_hooksD [OF assms(1), of t] assms(2) by simp
    then have "filter (\<lambda>e. known_legacy_hook_shape split t e = None) (items ?d t) = items ?d t"
      using assms(3) by (simp add: legacy_free_def filter_id_conv)
    then show ?thesis by (simp add: q) (simp add: w)
  qed
  then have "map ?g ?d = ?d" by (rule map_idI)
  then have "cleanup_empty_settings s = Inr s'"
    using assms(4) Some dset_same [OF Some] by (simp add: remove_known_legacy_hook_entries_def v)
  with sh have "cleaned s s'" by (rule cleanup_is_cleaned)
  with assms(1) show ?thesis by (rule undone_clean)
qed

lemma refresh_undone:
  assumes "undone B (own es) s" "\<forall>e \<in> set es. entry_ok e" "legacy_free (is_split u) B" "refresh_hooks u m es s = Inr s'"
  shows "undone B (if is_user u \<and> md_hooks m then without_hooks (own es) else own es) s'"
proof (cases "is_user u \<and> md_hooks m")
  case True
  obtain s1 where s1: "unmerge (filter is_hook_entry es) s = Inr s1" "undone B (without_hooks (own es)) s1"
    by (rule unmerge_hook_entries [OF assms(1,2)])
  have "undone B (without_hooks (own es)) s" if "filter is_hook_entry es = []"
  proof -
    have "ow_hooks (own es) = (\<lambda>_. {})"
      using that by (auto simp: fun_eq_iff own_hooks_iff filter_empty_conv is_hook_entry_iff)
    then have "without_hooks (own es) = own es" by (simp add: without_hooks_def)
    with assms(1) show ?thesis by simp
  qed
  then obtain s2 where s2: "undone B (without_hooks (own es)) s2" "remove_known_legacy_hook_entries (is_split u) s2 = Inr s'"
    using assms(4) True s1 by (auto simp: refresh_hooks_def split: if_splits sum.splits)
  have "undone B (without_hooks (own es)) s'"
    by (rule remove_legacy_undone [OF s2(1) _ assms(3) s2(2)]) (simp add: without_hooks_def)
  with True show ?thesis by simp
qed (use assms in \<open>auto simp: refresh_hooks_def\<close>)

section \<open>Installing keeps track\<close>

text \<open>The tracked entries after a run own what the settings hold beyond the baseline.\<close>

lemma own_after_run:
  assumes "\<forall>e \<in> set es \<union> set new. entry_ok e"
  shows "own (new @ surviving_entries u m new es) =
    join (if is_user u \<and> md_hooks m then without_hooks (own es) else own es) (own new)"
proof (cases "is_user u \<and> md_hooks m")
  case True
  have "(entry_id e \<in> entry_id ` set (filter is_hook_entry es)) = is_hook_entry e" if "e \<in> set es" for e
  proof
    assume "entry_id e \<in> entry_id ` set (filter is_hook_entry es)"
    then obtain e' where "is_hook_entry e'" "entry_id e = entry_id e'" by auto
    then show "is_hook_entry e" by (simp add: entry_id_def is_hook_entry_def)
  qed (use that in auto)
  then have "surviving_entries u m new es = filter (\<lambda>e. entry_id e \<notin> entry_id ` set new) (filter (\<lambda>e. \<not> is_hook_entry e) es)"
    unfolding surviving_entries_def filter_filter by (intro filter_cong refl) (use True in auto)
  then have "own (new @ surviving_entries u m new es) = join (own (filter (\<lambda>e. \<not> is_hook_entry e) es)) (own new)"
  proof (simp only:, intro own_surviving)
    show "\<forall>e \<in> set (filter (\<lambda>e. \<not> is_hook_entry e) es) \<union> set new. entry_ok e" using assms by auto
  qed
  with True show ?thesis by (simp add: own_drop_hooks)
next
  case False
  then have "surviving_entries u m new es = filter (\<lambda>e. entry_id e \<notin> entry_id ` set new) es"
    unfolding surviving_entries_def by (intro filter_cong refl) auto
  with own_surviving [OF assms] False show ?thesis by auto
qed

lemma last_of_sorted:
  fixes xs :: "(string \<times> 'v) list"
  assumes "sorted (map fst xs)" "xs \<noteq> []" "last xs = (k, b)" "(n, a) \<in> set xs"
  shows "n \<le> k"
proof -
  obtain ys where "xs = ys @ [(k, b)]" using assms(2,3) by (metis append_butlast_last_id)
  with assms(1,4) show ?thesis by (auto simp: sorted_append)
qed

lemma newest_sidecar_dset:
  assumes "dwf d" "\<And>k. k \<in> set (dkeys d) \<Longrightarrow> k \<le> now"
  shows "newest_sidecar (dset d now a) = a"
proof -
  let ?d = "dset d now a" and ?s = "sort_key fst (dset d now a)"
  have w: "dwf ?d" using assms(1) by (rule dwf_dset)
  have set: "set ?s = set ?d" by simp
  have mem: "(now, a) \<in> set ?s" using dset_mem_iff [OF assms(1), of now a now a] by simp
  then have ne: "?s \<noteq> []" by (metis empty_iff empty_set)
  obtain k b where kb: "last ?s = (k, b)" by (cases "last ?s")
  have "(k, b) \<in> set ?s" using last_in_set [OF ne] kb by simp
  then have k: "(k, b) \<in> set ?d" by (simp only: set)
  have "k \<le> now"
  proof (cases "k = now")
    case False
    with k assms(1) have "(k, b) \<in> set d" by (simp add: dset_mem_iff)
    then have "k \<in> set (dkeys d)" by force
    with assms(2) show ?thesis by blast
  qed simp
  moreover have "now \<le> k"
    by (rule last_of_sorted [OF _ ne kb mem]) simp
  ultimately have "b = a" using k assms(1) by (auto simp: dset_mem_iff)
  obtain r where "rev ?s = (k, b) # r" using ne kb by (metis hd_rev list.collapse rev_is_Nil_conv)
  with \<open>b = a\<close> show ?thesis by (simp add: newest_sidecar_def)
qed

definition tracks_settings :: "jobj \<Rightarrow> string \<Rightarrow> install_world \<Rightarrow> bool" where
  "tracks_settings B now w \<longleftrightarrow>
     (\<exists>c inst. iw_settings w = Holds (JObj c) \<and> iw_installed w = Some inst \<and> in_owner inst \<and>
       (\<forall>e \<in> set (in_entries inst). entry_ok e) \<and> undone B (own (in_entries inst)) c \<and>
       (case in_baseline inst of None \<Rightarrow> B = [] | Some b \<Rightarrow> read_settings b = Inr B) \<and>
       newest_sidecar (iw_sidecars w) = entries_to_added_structure (in_entries inst) \<and>
       iw_sidecars w \<noteq> [] \<and> dwf (iw_sidecars w) \<and> (\<forall>k \<in> set (dkeys (iw_sidecars w)). k \<le> now))"

lemma apply_tracks:
  assumes "apply_install_settings u m force now w = Inr (entries, w')" "settings_modules m" "preset_ok (is_preset u)"
    "legacy_free (is_split u) B" "read_settings (iw_settings w) = Inr s" "undone B (own (tracked_entries (iw_installed w))) s"
    "\<forall>e \<in> set (tracked_entries (iw_installed w)). entry_ok e"
    "dwf (iw_sidecars w)" "\<And>k. k \<in> set (dkeys (iw_sidecars w)) \<Longrightarrow> k \<le> now"
  obtains c where "iw_settings w' = Holds (JObj c)" "iw_installed w' = iw_installed w" "\<forall>e \<in> set entries. entry_ok e"
    "undone B (own entries) c" "newest_sidecar (iw_sidecars w') = entries_to_added_structure entries"
    "iw_sidecars w' \<noteq> []" "dwf (iw_sidecars w')" "\<And>k. k \<in> set (dkeys (iw_sidecars w')) \<Longrightarrow> k \<le> now"
proof -
  let ?es = "tracked_entries (iw_installed w)"
  obtain s1 forge new s2 where
    s1: "refresh_hooks u m ?es s = Inr s1" and forge: "load_forge_settings (is_command u) (is_preset u) = Inr forge"
    and new: "merge_settings forge m force s1 = Inr (new, s2)"
    and r: "entries = new @ surviving_entries u m new ?es"
      "w' = w\<lparr>iw_settings := Holds (JObj s2), iw_sidecars := dset (iw_sidecars w) now (entries_to_added_structure entries)\<rparr>"
    using assms(1,2,5) by (auto simp: apply_install_settings_def Let_def split: sum.splits prod.splits)
  let ?p = "if is_user u \<and> md_hooks m then without_hooks (own ?es) else own ?es"
  have "undone B ?p s1" by (rule refresh_undone [OF assms(6,7,4) s1])
  moreover have "grows B (merge_settings forge m force)"
    using load_template [OF assms(3) forge] by (intro grows_merge) simp
  ultimately have g: "undone B (join ?p (own new)) s2" "\<forall>e \<in> set new. entry_ok e"
    using new unfolding grows_def by blast+
  have ok: "\<forall>e \<in> set ?es \<union> set new. entry_ok e" using g(2) assms(7) by auto
  have "undone B (own entries) s2" using g(1) unfolding r(1) own_after_run [OF ok] .
  moreover have "\<forall>e \<in> set entries. entry_ok e" using ok by (auto simp: r(1) surviving_entries_def)
  moreover have "iw_sidecars w' \<noteq> []" by (simp add: r(2) dict_empty_iff) (metis option.distinct(1))
  moreover have "k \<le> now" if "k \<in> set (dkeys (iw_sidecars w'))" for k
    using that assms(9) by (auto simp: r(2) dkeys_dset split: if_splits)
  ultimately show ?thesis
    using that [of s2] newest_sidecar_dset [OF assms(8,9)] by (simp add: r(2) dwf_dset assms(8))
qed

lemma init_applies:
  assumes "init_settings u m force now w = Inr w1" "settings_modules m"
  obtains entries w' where "apply_install_settings u m force now w = Inr (entries, w')"
    "w1 = w'\<lparr>iw_installed := Some \<lparr>in_entries = entries,
       in_baseline = (if has_claude_settings_baseline (iw_installed w) then Option.bind (iw_installed w) in_baseline
         else if is_file (iw_settings w) then Some (iw_settings w) else None), in_owner = True\<rparr>\<rparr>"
  using assms by (auto simp: init_settings_def split: sum.splits if_splits prod.splits)

lemma init_first:
  assumes "init_settings u m force now w = Inr w1" "settings_modules m" "preset_ok (is_preset u)" "legacy_free (is_split u) s"
    "iw_installed w = None" "iw_sidecars w = []" "read_settings (iw_settings w) = Inr s" "shaped s"
  shows "tracks_settings s now w1"
proof -
  obtain entries w' where a: "apply_install_settings u m force now w = Inr (entries, w')"
    "w1 = w'\<lparr>iw_installed := Some \<lparr>in_entries = entries,
       in_baseline = (if is_file (iw_settings w) then Some (iw_settings w) else None), in_owner = True\<rparr>\<rparr>"
    using init_applies [OF assms(1,2)] assms(5) by (auto simp: has_claude_settings_baseline_def)
  have u: "undone s (own (tracked_entries (iw_installed w))) s"
    using assms(5,8) by (simp add: undone_def undone_hooks_def undone_permissions_def undone_env_def undone_scalars_def own_nothing_def tracked_entries_def)
  obtain c where c: "iw_settings w' = Holds (JObj c)" "\<forall>e \<in> set entries. entry_ok e"
    "undone s (own entries) c" "newest_sidecar (iw_sidecars w') = entries_to_added_structure entries"
    "iw_sidecars w' \<noteq> []" "dwf (iw_sidecars w')" "\<And>k. k \<in> set (dkeys (iw_sidecars w')) \<Longrightarrow> k \<le> now"
    using assms(5,6) by (auto simp: tracked_entries_def intro: apply_tracks [OF a(1) assms(2-4,7) u])
  have "s = []" if "\<not> is_file (iw_settings w)" using that assms(7) by (cases "iw_settings w") (auto simp: read_settings_def)
  then show ?thesis using c assms(7) by (auto simp: tracks_settings_def a(2))
qed

lemma init_again:
  assumes "init_settings u m force now w = Inr w1" "settings_modules m" "preset_ok (is_preset u)" "legacy_free (is_split u) s"
    "tracks_settings s before w" "before \<le> now"
  shows "tracks_settings s now w1"
proof -
  obtain c0 inst where w: "iw_settings w = Holds (JObj c0)" "iw_installed w = Some inst" "in_owner inst"
    "\<forall>e \<in> set (in_entries inst). entry_ok e" "undone s (own (in_entries inst)) c0"
    "case in_baseline inst of None \<Rightarrow> s = [] | Some b \<Rightarrow> read_settings b = Inr s"
    "dwf (iw_sidecars w)" "\<forall>k \<in> set (dkeys (iw_sidecars w)). k \<le> before"
    using assms(5) by (auto simp: tracks_settings_def)
  obtain entries w' where a: "apply_install_settings u m force now w = Inr (entries, w')"
    "w1 = w'\<lparr>iw_installed := Some \<lparr>in_entries = entries, in_baseline = in_baseline inst, in_owner = True\<rparr>\<rparr>"
    using init_applies [OF assms(1,2)] w(2,3) by (auto simp: has_claude_settings_baseline_def)
  have r: "read_settings (iw_settings w) = Inr c0" by (simp add: w(1) read_settings_def)
  have es: "tracked_entries (iw_installed w) = in_entries inst" by (simp add: w(2) tracked_entries_def)
  have k: "k \<le> now" if "k \<in> set (dkeys (iw_sidecars w))" for k using w(8) that assms(6) by fastforce
  obtain c where c: "iw_settings w' = Holds (JObj c)" "\<forall>e \<in> set entries. entry_ok e"
    "undone s (own entries) c" "newest_sidecar (iw_sidecars w') = entries_to_added_structure entries"
    "iw_sidecars w' \<noteq> []" "dwf (iw_sidecars w')" "\<And>k. k \<in> set (dkeys (iw_sidecars w')) \<Longrightarrow> k \<le> now"
    by (rule apply_tracks [OF a(1) assms(2-4) r, unfolded es, OF w(5,4,7) k]) (auto intro: that)
  then show ?thesis using w(6) by (auto simp: tracks_settings_def a(2))
qed

section \<open>Uninstalling\<close>

lemma dwf_added:
  "dwf (ad_hooks (entries_to_added_structure es)) \<and> dwf (ad_permissions (entries_to_added_structure es)) \<and>
   dwf (ad_env (entries_to_added_structure es)) \<and> dwf (ad_scalars (entries_to_added_structure es))"
  by (induction es rule: rev_induct)
    (auto simp: entries_to_added_structure_def nothing_added_def add_entry_def dwf_dset split: key_path.split)

text \<open>Taking lists out of a section, for a test that depends on the added list.\<close>

lemma fold_take:
  fixes F :: "json list \<Rightarrow> json \<Rightarrow> bool"
  assumes "listing d" "dwf added" "\<And>x. F [] x"
  defines "step \<equiv> \<lambda>(t, vs) d. case dget d t of Some (JList xs) \<Rightarrow> dset d t (JList (filter (F vs) xs)) | _ \<Rightarrow> d"
  shows "listing (fold step added d) \<and>
    (\<forall>t. items (fold step added d) t = filter (F (list_of added t)) (items d t))"
  using assms(1,2)
proof (induction added arbitrary: d)
  case Nil
  then show ?case by (simp add: assms(3))
next
  case (Cons p added)
  obtain t vs where p: "p = (t, vs)" by (cases p)
  have none: "dget added t = None" using Cons.prems(2) by (simp add: p dget_None_iff)
  have s: "step (t, vs) d = (if dget d t = None then d else dset d t (JList (filter (F vs) (items d t))))"
    using listingD [OF Cons.prems(1), of t] by (cases "dget d t") (auto simp: step_def)
  have l: "listing (step (t, vs) d)" using Cons.prems(1) by (simp add: s)
  have i: "items (step (t, vs) d) u = (if u = t then filter (F vs) (items d t) else items d u)" for u
    by (simp add: s) (simp add: items_def)
  from Cons.IH [OF l] Cons.prems(2) show ?case
    by (auto simp: p i none list_of_def assms(3))
qed

lemma own_entries_added:
  "ow_hooks (own es) t = canonical ` set (filter is_obj (list_of (ad_hooks (entries_to_added_structure es)) t))"
  "ow_permissions (own es) t = py_value ` set (list_of (ad_permissions (entries_to_added_structure es)) t)"
  "ow_env (own es) = dget (ad_env (entries_to_added_structure es))"
  "ow_scalars (own es) = dget (ad_scalars (entries_to_added_structure es))"
  by (simp_all add: own_def own_of_def)

lemma section_in:
  "shaped s \<Longrightarrow> is_section n \<Longrightarrow> dget s n \<noteq> None \<Longrightarrow> dget s n = Some (JObj (section_of s n))"
  using shapedD by auto

lemma take_hooks_items:
  assumes "shaped c"
  shows "shaped (take_hooks (ad_hooks (entries_to_added_structure es)) c)"
    and "\<And>k. k \<noteq> ''hooks'' \<Longrightarrow> dget (take_hooks (ad_hooks (entries_to_added_structure es)) c) k = dget c k"
    and "\<And>t. items (section_of (take_hooks (ad_hooks (entries_to_added_structure es)) c) ''hooks'') t =
      filter (\<lambda>x. \<not> (is_obj x \<and> canonical x \<in> ow_hooks (own es) t)) (items (section_of c ''hooks'') t)"
proof -
  let ?a = "ad_hooks (entries_to_added_structure es)"
  let ?F = "\<lambda>vs x. \<not> is_obj x \<or> canonical x \<notin> canonical ` set (filter is_obj vs)"
  let ?d = "fold (\<lambda>(t, vs) d. case dget d t of Some (JList xs) \<Rightarrow> dset d t (JList (filter (?F vs) xs)) | _ \<Rightarrow> d) ?a (section_of c ''hooks'')"
  have w: "dwf ?a" using dwf_added by blast
  have f: "listing ?d" "\<And>t. items ?d t = filter (?F (list_of ?a t)) (items (section_of c ''hooks'') t)"
    using fold_take [OF section_shaped(1) [OF assms] w, of ?F] by simp_all
  have none: "section_of c ''hooks'' = []" if "dget c ''hooks'' = None" using that by (simp add: section_of_def)
  have t: "take_hooks ?a c = (if dget c ''hooks'' = None then c else dset c ''hooks'' (JObj ?d))"
    using section_in [OF assms is_section(1)] by (cases "dget c ''hooks''") (simp_all add: take_hooks_def)
  show "shaped (take_hooks ?a c)" unfolding t using assms f(1) by (simp add: shaped_dset(1))
  show "dget (take_hooks ?a c) k = dget c k" if "k \<noteq> ''hooks''" for k unfolding t using that by simp
  show "items (section_of (take_hooks ?a c) ''hooks'') u =
    filter (\<lambda>x. \<not> (is_obj x \<and> canonical x \<in> ow_hooks (own es) u)) (items (section_of c ''hooks'') u)" for u
  proof (cases "dget c ''hooks'' = None")
    case False
    then have "section_of (take_hooks ?a c) ''hooks'' = ?d" by (auto simp: t)
    then show ?thesis unfolding own_entries_added(1) by (simp only: f(2) de_Morgan_conj)
  qed (simp add: t none)
qed

lemma take_permissions_items:
  assumes "shaped c"
  shows "shaped (take_permissions (ad_permissions (entries_to_added_structure es)) c)"
    and "\<And>k. k \<noteq> ''permissions'' \<Longrightarrow> dget (take_permissions (ad_permissions (entries_to_added_structure es)) c) k = dget c k"
    and "\<And>t. items (section_of (take_permissions (ad_permissions (entries_to_added_structure es)) c) ''permissions'') t =
      filter (\<lambda>x. py_value x \<notin> ow_permissions (own es) t) (items (section_of c ''permissions'') t)"
proof -
  let ?a = "ad_permissions (entries_to_added_structure es)"
  let ?F = "\<lambda>vs x. \<not> list_ex (py_eq x) vs"
  let ?d = "fold (\<lambda>(t, vs) d. case dget d t of Some (JList xs) \<Rightarrow> dset d t (JList (filter (?F vs) xs)) | _ \<Rightarrow> d) ?a (section_of c ''permissions'')"
  have w: "dwf ?a" using dwf_added by blast
  have f: "listing ?d" "\<And>t. items ?d t = filter (?F (list_of ?a t)) (items (section_of c ''permissions'') t)"
    using fold_take [OF section_shaped(2) [OF assms(1)] w, of ?F] by simp_all
  have none: "section_of c ''permissions'' = []" if "dget c ''permissions'' = None" using that by (simp add: section_of_def)
  have t: "take_permissions ?a c = (if dget c ''permissions'' = None then c else dset c ''permissions'' (JObj ?d))"
    using section_in [OF assms(1) is_section(2)] by (cases "dget c ''permissions''") (simp_all add: take_permissions_def)
  have F: "?F vs x \<longleftrightarrow> py_value x \<notin> py_value ` set vs" for vs x by (auto simp: list_ex_iff py_eq_def)
  show "shaped (take_permissions ?a c)" unfolding t using assms(1) f(1) by (simp add: shaped_dset(2))
  show "dget (take_permissions ?a c) k = dget c k" if "k \<noteq> ''permissions''" for k unfolding t using that by simp
  show "items (section_of (take_permissions ?a c) ''permissions'') u =
    filter (\<lambda>x. py_value x \<notin> ow_permissions (own es) u) (items (section_of c ''permissions'') u)" for u
  proof (cases "dget c ''permissions'' = None")
    case False
    then have "section_of (take_permissions ?a c) ''permissions'' = ?d" by (auto simp: t)
    then have "items (section_of (take_permissions ?a c) ''permissions'') u = filter (?F (list_of ?a u)) (items (section_of c ''permissions'') u)"
      by (simp only: f(2))
    then show ?thesis unfolding F own_entries_added(2) .
  qed (simp add: t none)
qed

lemma take_hooks_undone:
  assumes "undone B (own es) c"
  shows "items (section_of (take_hooks (ad_hooks (entries_to_added_structure es)) c) ''hooks'') t = items (section_of B ''hooks'') t"
  using take_hooks_items(3) [of c es t] undone_hooksD [OF assms, of t] assms by (simp add: undone_def)

lemma take_permissions_undone:
  assumes "shaped c" "undone_permissions B (own es) (section_of c ''permissions'')"
  shows "items (section_of (take_permissions (ad_permissions (entries_to_added_structure es)) c) ''permissions'') t = items (section_of B ''permissions'') t"
  using take_permissions_items(3) [OF assms(1), of es t] assms(2) by (simp add: undone_permissions_def)

lemma each_give_back:
  assumes "dwf added" "\<And>k v. dget added k = Some v \<Longrightarrow> dget d k = Some v" "dwf d"
  shows "\<exists>d'. each (\<lambda>(k, v) d. case dget d k of None \<Rightarrow> Inr d
      | Some x \<Rightarrow> (case JObj b of JObj b \<Rightarrow> Inr (if py_eq x v then give_back (jget b k) k d else d) | _ \<Rightarrow> Inl Malformed)) added d = Inr d' \<and>
    dwf d' \<and> (\<forall>k. dget d' k = (if dget added k = None then dget d k else if jget b k = JNull then None else Some (jget b k)))"
  using assms
proof (induction added arbitrary: d)
  case Nil
  then show ?case by simp
next
  case (Cons p added)
  obtain k v where p: "p = (k, v)" by (cases p)
  have dk: "dget d k = Some v" using Cons.prems(2) [of k v] by (simp add: p)
  have none: "dget added k = None" using Cons.prems(1) by (simp add: p dget_None_iff)
  let ?d = "give_back (jget b k) k d"
  have w: "dwf ?d" using Cons.prems(3) by (simp add: give_back_def dwf_dset dwf_ddel)
  have g: "dget ?d u = (if u = k then (if jget b k = JNull then None else Some (jget b k)) else dget d u)" for u
    by (simp add: give_back_def)
  have "dget ?d u = Some x" if "dget added u = Some x" for u x
    using that none Cons.prems(2) [of u x] by (auto simp: g p)
  with Cons.IH [of ?d] Cons.prems(1) w obtain d' where
    "each (\<lambda>(k, v) d. case dget d k of None \<Rightarrow> Inr d
      | Some x \<Rightarrow> (case JObj b of JObj b \<Rightarrow> Inr (if py_eq x v then give_back (jget b k) k d else d) | _ \<Rightarrow> Inl Malformed)) added ?d = Inr d'"
    "dwf d'" "\<forall>u. dget d' u = (if dget added u = None then dget ?d u else if jget b u = JNull then None else Some (jget b u))"
    by (auto simp: p)
  then show ?case by (auto simp: p dk g none py_eq_def)
qed

lemma take_scalars_undone:
  assumes "dwf added" "\<And>k v. dget added k = Some v \<Longrightarrow> dget s k = Some v \<and> jwf v \<and> \<not> is_section k" "shaped s"
  shows "shaped (take_scalars b added s) \<and>
    (\<forall>k. dget (take_scalars b added s) k = (if dget added k = None then dget s k else if jget b k = JNull then None else Some (jget b k)))"
  using assms
proof (induction added arbitrary: s)
  case Nil
  then show ?case by (simp add: take_scalars_def)
next
  case (Cons p added)
  obtain k v where p: "p = (k, v)" by (cases p)
  have dk: "dget s k = Some v" "jwf v" "\<not> is_section k" using Cons.prems(2) [of k v] by (simp_all add: p)
  have none: "dget added k = None" using Cons.prems(1) by (simp add: p dget_None_iff)
  let ?s = "give_back (jget b k) k s"
  have w: "shaped ?s" using Cons.prems(3) dk(3) by (simp add: give_back_def shaped_dset(4) shaped_ddel)
  have g: "dget ?s u = (if u = k then (if jget b k = JNull then None else Some (jget b k)) else dget s u)" for u
    by (simp add: give_back_def)
  have "dget ?s u = Some x \<and> jwf x \<and> \<not> is_section u" if "dget added u = Some x" for u x
    using that none Cons.prems(2) [of u x] by (auto simp: g p)
  with Cons.IH [of ?s] Cons.prems(1) w have
    "shaped (take_scalars b added ?s) \<and>
      (\<forall>u. dget (take_scalars b added ?s) u = (if dget added u = None then dget ?s u else if jget b u = JNull then None else Some (jget b u)))"
    by (simp add: p)
  moreover have "take_scalars b (p # added) s = take_scalars b added ?s"
    by (simp add: take_scalars_def p dk deep_equals_refl)
  ultimately show ?case by (auto simp: p g none)
qed

lemma listing_live: "listing d \<Longrightarrow> live (dget d k) = (if items d k = [] then None else Some (JList (items d k)))"
proof (cases "dget d k")
  case (Some v)
  moreover assume "listing d"
  ultimately have "v = JList (items d k)" by (auto dest: listingD)
  with Some show ?thesis by (simp add: live_def)
qed (simp add: live_def items_def)

lemma get_default_section: "shaped s \<Longrightarrow> is_section n \<Longrightarrow> get_default s n (JObj []) = JObj (section_of s n)"
  using shapedD [of s n] by (cases "dget s n") (auto simp: get_default_def section_of_def)

lemma own_scalar_status:
  "\<forall>e \<in> set es. entry_ok e \<Longrightarrow> ow_scalars (own es) k = Some v \<Longrightarrow> k = ''statusLine''"
  using own_scalars_None [of es k] by (fastforce simp: entry_ok_def)

lemma take_env_undone:
  assumes "shaped c" "undone_env B (own es) (section_of c ''env'')" "shaped B"
  obtains s where "take_env (get_default B ''env'' (JObj [])) (ad_env (entries_to_added_structure es)) c = Inr s" "shaped s"
    "\<And>k. k \<noteq> ''env'' \<Longrightarrow> dget s k = dget c k"
    "\<And>k. live (dget (section_of s ''env'') k) = live (dget (section_of B ''env'') k)"
proof (cases "dget c ''env''")
  case None
  then have e: "section_of c ''env'' = []" by (simp add: section_of_def)
  have "live (dget (section_of c ''env'') k) = live (dget (section_of B ''env'') k)" for k
    using assms(2) unfolding undone_env_def e by (auto split: option.splits dest: spec [of _ k])
  with None assms(1) show ?thesis by (intro that [of c]) (simp_all add: take_env_def)
next
  case (Some v)
  let ?a = "ad_env (entries_to_added_structure es)"
  let ?d = "section_of c ''env''"
  let ?b = "section_of B ''env''"
  have v: "v = JObj ?d" using shapedD [OF assms(1) is_section(3) Some] .
  have u: "case dget ?a k of Some v \<Rightarrow> dget ?d k = Some v \<and> truthy v | None \<Rightarrow> live (dget ?d k) = live (dget ?b k)" for k
    using assms(2) by (simp add: undone_env_def own_entries_added(3))
  have owned: "dget ?d k = Some x" if "dget ?a k = Some x" for k x using u [of k] that by simp
  obtain d' where d': "each (\<lambda>(k, v) d. case dget d k of None \<Rightarrow> Inr d
      | Some x \<Rightarrow> (case JObj ?b of JObj b \<Rightarrow> Inr (if py_eq x v then give_back (jget b k) k d else d) | _ \<Rightarrow> Inl Malformed)) ?a ?d = Inr d'"
    "dwf d'" "\<And>k. dget d' k = (if dget ?a k = None then dget ?d k else if jget ?b k = JNull then None else Some (jget ?b k))"
    using each_give_back [OF _ owned section_shaped(3) [OF assms(1)], of ?a ?b] dwf_added by blast
  have "live (dget d' k) = live (dget ?b k)" for k
    using u [of k] by (cases "dget ?a k"; cases "dget ?b k") (auto simp: d'(3) jget_def live_def)
  moreover have "take_env (get_default B ''env'' (JObj [])) ?a c = Inr (dset c ''env'' (JObj d'))"
    using d'(1) by (simp add: take_env_def Some v get_default_section [OF assms(3)])
  ultimately show ?thesis
    using that [of "dset c ''env'' (JObj d')"] shaped_dset(3) [OF assms(1) d'(2)] by simp
qed

lemma smart_unmerge_undone:
  assumes "undone B (own es) c" "\<forall>e \<in> set es. entry_ok e" "shaped B" "dget B ''statusLine'' \<noteq> Some JNull"
  obtains r where "smart_unmerge c B (entries_to_added_structure es) = Inr r" "shaped r" "same_views r B"
proof -
  let ?a = "entries_to_added_structure es"
  let ?h = "take_hooks (ad_hooks ?a) c"
  let ?p = "take_permissions (ad_permissions ?a) ?h"
  have "shaped c" using assms(1) by (simp add: undone_def)
  note h = take_hooks_items(1,2) [where es = es, OF this] take_hooks_undone [OF assms(1)]
  have "undone_permissions B (own es) (section_of ?h ''permissions'')"
    using assms(1) section_of_cong [OF h(2), of "''permissions''"] by (simp add: undone_def)
  note p = take_permissions_items(1,2) [where es = es, OF h(1)] take_permissions_undone [OF h(1) this]
  have "undone_env B (own es) (section_of ?p ''env'')"
    using assms(1) section_of_cong [of ?p "''env''" c] h(2) p(2) by (simp add: undone_def)
  then obtain s where s: "take_env (get_default B ''env'' (JObj [])) (ad_env ?a) ?p = Inr s" "shaped s"
    "\<And>k. k \<noteq> ''env'' \<Longrightarrow> dget s k = dget ?p k"
    "\<And>k. live (dget (section_of s ''env'') k) = live (dget (section_of B ''env'') k)"
    by (rule take_env_undone [OF p(1) _ assms(3)]) (rule that; assumption)
  have sc: "dget s k = dget c k" if "\<not> is_section k" for k using that s(3) h(2) p(2) by (simp add: is_section_def)
  have u: "case dget (ad_scalars ?a) k of Some v \<Rightarrow> dget c k = Some v \<and> v \<noteq> JNull \<and> jwf v | None \<Rightarrow> dget c k = dget B k"
    if "\<not> is_section k" for k
    using assms(1) that by (simp add: undone_def undone_scalars_def own_entries_added(4))
  have owned: "dget s k = Some v \<and> jwf v \<and> \<not> is_section k" if "dget (ad_scalars ?a) k = Some v" for k v
  proof -
    have "k = ''statusLine''" using own_scalar_status [OF assms(2)] that by (simp add: own_entries_added(4))
    then have "\<not> is_section k" by simp
    with u [OF this] that sc show ?thesis by simp
  qed
  have "dwf (ad_scalars ?a)" using dwf_added by blast
  note t = take_scalars_undone [OF this owned s(2), of B]
  let ?r = "take_scalars B (ad_scalars ?a) s"
  have none: "dget (ad_scalars ?a) n = None" if "is_section n" for n
    using own_scalar_status [OF assms(2), of n] that by (cases "dget (ad_scalars ?a) n") (auto simp: own_entries_added(4))
  have sec: "section_of ?r n = section_of s n" if "is_section n" for n
    by (rule section_of_cong) (use t none [OF that] in simp)
  have hooks: "section_of s ''hooks'' = section_of ?h ''hooks''" "section_of s ''permissions'' = section_of ?p ''permissions''"
    by (rule section_of_cong; simp add: s(3) p(2))+
  have "live (dget (section_of ?r n) k) = live (dget (section_of B n) k)" if "is_section n" for n k
  proof -
    consider "n = ''hooks''" | "n = ''permissions''" | "n = ''env''" using \<open>is_section n\<close> by (auto simp: is_section_def)
    then show ?thesis
    proof cases
      case 1
      then show ?thesis unfolding sec [OF that] using h(3) section_shaped(1) [OF s(2)] section_shaped(1) [OF assms(3)]
        by (simp add: listing_live hooks(1))
    next
      case 2
      then show ?thesis unfolding sec [OF that] using p(3) section_shaped(2) [OF s(2)] section_shaped(2) [OF assms(3)]
        by (simp add: listing_live hooks(2))
    next
      case 3
      then show ?thesis unfolding sec [OF that] using s(4) by simp
    qed
  qed
  moreover have "dget ?r k = dget B k" if k: "\<not> is_section k" for k
  proof (cases "dget (ad_scalars ?a) k")
    case None
    then show ?thesis using t u [OF k] sc [OF k] by simp
  next
    case (Some v)
    then have "k = ''statusLine''" using own_scalar_status [OF assms(2)] by (simp add: own_entries_added(4))
    then have "dget B k \<noteq> Some JNull" using assms(4) by simp
    then show ?thesis using t Some by (cases "dget B k") (auto simp: jget_def)
  qed
  ultimately have "same_views ?r B" by (simp add: same_views_def)
  moreover have "smart_unmerge c B ?a = Inr ?r" by (simp add: smart_unmerge_def s(1))
  ultimately show ?thesis using t that by blast
qed

lemma cleaned_jwf:
  assumes "cleaned s s'" "shaped s" "jwf (JObj s)"
  shows "jwf (JObj s')"
proof -
  have "jwf v" if kv: "(k, v) \<in> set s'" for k v
  proof -
    have d: "dget s' k = Some v" using assms(1) kv by (simp add: cleaned_def shaped_def)
    show ?thesis
    proof (cases "is_section k")
      case True
      then have v: "v = JObj (section_of s' k)" using assms(1) d by (simp add: cleaned_def split: if_splits)
      have w: "dwf (section_of s' k)" using assms(1) True by (simp add: cleaned_def section_dwf)
      have "jwf x" if "(m, x) \<in> set (section_of s' k)" for m x
      proof -
        have "dget (section_of s' k) m = Some x" using that w by simp
        then have x: "dget (section_of s k) m = Some x"
          using assms(1) True by (auto simp: cleaned_def live_def split: option.splits if_splits)
        have "dget s k \<noteq> None"
        proof
          assume "dget s k = None"
          then show False using x by (simp add: section_of_def)
        qed
        then have "dget s k = Some (JObj (section_of s k))" by (rule section_in [OF assms(2) True])
        with assms(3) have "jwf (JObj (section_of s k))" by (rule jwf_dget)
        then show ?thesis using x by (rule jwf_dget)
      qed
      with w show ?thesis by (auto simp: v)
    next
      case False
      then have "dget s k = Some v" using assms(1) d by (simp add: cleaned_def)
      with assms(3) show ?thesis by (rule jwf_dget)
    qed
  qed
  then show ?thesis using assms(1) by (auto simp: cleaned_def shaped_def)
qed

lemma cleaned_same_views: "cleaned s s' \<Longrightarrow> same_views s' s"
  by (simp add: cleaned_def same_views_def)

lemma same_views_trans: "same_views a b \<Longrightarrow> same_views b c \<Longrightarrow> same_views a c"
  by (simp add: same_views_def)

lemma same_views_sym: "same_views a b \<Longrightarrow> same_views b a"
  by (simp add: same_views_def)

lemma nothing_added_iff:
  assumes "\<forall>e \<in> set es. entry_ok e"
  shows "entries_to_added_structure es = nothing_added \<longleftrightarrow> es = []"
proof
  assume n: "entries_to_added_structure es = nothing_added"
  then have o: "own es = own_nothing" by (simp add: own_def own_of_def own_nothing_def nothing_added_def fun_eq_iff)
  show "es = []"
  proof (cases es)
    case (Cons e es')
    have e: "e \<in> set es" by (simp add: Cons)
    show ?thesis
    proof (cases "ent_path e")
      case (HookPath t)
      from bspec [OF assms e] have "is_obj (ent_value e)" by (simp add: entry_ok_def HookPath)
      with e HookPath have "canonical (ent_value e) \<in> ow_hooks (own es) t" unfolding own_hooks_iff by blast
      then show ?thesis by (simp add: o own_nothing_def)
    next
      case (PermissionPath t)
      with e have "py_value (ent_value e) \<in> ow_permissions (own es) t" by (auto simp: own_permissions_iff)
      then show ?thesis by (simp add: o own_nothing_def)
    next
      case (EnvPath k)
      with e have "ow_env (own es) k \<noteq> None" unfolding own_env_None by blast
      then show ?thesis by (simp add: o own_nothing_def)
    next
      case (ScalarPath k)
      with e have "ow_scalars (own es) k \<noteq> None" unfolding own_scalars_None by blast
      then show ?thesis by (simp add: o own_nothing_def)
    qed
  qed
qed (simp add: entries_to_added_structure_def)

lemma undone_nothing_views: "undone B own_nothing c \<Longrightarrow> shaped B \<Longrightarrow> same_views c B"
  using section_shaped(1,2) [of c] section_shaped(1,2) [of B]
  by (auto simp: undone_def same_views_def is_section_def own_nothing_def undone_hooks_def undone_permissions_def undone_env_def
      undone_scalars_def listing_live)


lemma unmerge_nothing:
  assumes "shaped c"
  obtains c' where "unmerge [] c = Inr c'" "shaped c'" "same_views c' c"
proof -
  let ?c = "if dget c ''env'' \<noteq> None \<and> \<not> truthy (jget c ''env'') then ddel c ''env'' else c"
  have "unmerge [] c = Inr ?c" by (simp add: unmerge_def paths_of_def distinct_first_def)
  moreover have "shaped ?c" using assms by (simp add: shaped_ddel)
  moreover have "section_of ?c n = section_of c n" if "is_section n" for n
  proof (cases "n = ''env'' \<and> dget c ''env'' \<noteq> None \<and> \<not> truthy (jget c ''env'')")
    case True
    then have "section_of c ''env'' = []" using shapedD [OF assms is_section(3)] by (auto simp: jget_def)
    with True show ?thesis by simp
  next
    case False
    then show ?thesis by (intro section_of_cong) auto
  qed
  then have "same_views ?c c" by (auto simp: same_views_def)
  ultimately show ?thesis by (rule that)
qed

lemma restore_settings_views:
  assumes "smart_unmerge c B a = Inr r" "shaped r" "same_views r B" "shaped B" "jwf (JObj B)" "f = None \<longrightarrow> B = []"
  obtains s' where "restore_settings f c B a = Inr (if f \<noteq> None \<and> s' \<noteq> [] then Holds (JObj s') else Missing)"
    "shaped s'" "same_views s' B"
proof -
  obtain r1 where r1: "cleanup_empty_settings r = Inr r1" "cleaned r r1" by (rule cleanup_cleaned [OF assms(2)])
  obtain b where b: "cleanup_empty_settings B = Inr b" "cleaned B b" by (rule cleanup_cleaned [OF assms(4)])
  have "same_views r1 b"
    using same_views_trans [OF cleaned_same_views [OF r1(2)] same_views_trans [OF assms(3) same_views_sym [OF cleaned_same_views [OF b(2)]]]] .
  then have "settings_equal r1 b = Inr True"
    using r1(2) b(2) cleaned_jwf [OF b(2) assms(4,5)] by (intro same_views_equal) (simp_all add: cleaned_def)
  then have "restore_settings f c B a = Inr (if f \<noteq> None \<and> b \<noteq> [] then Holds (JObj b) else Missing)"
    by (simp add: restore_settings_def assms(1) r1(1) b(1))
  then show ?thesis using cleaned_same_views [OF b(2)] b(2) by (intro that) (simp_all add: cleaned_def)
qed

lemma tracked_uninstall:
  assumes "tracks_settings B now w" "shaped B" "jwf (JObj B)" "dget B ''statusLine'' \<noteq> Some JNull"
  shows "\<exists>w' s'. uninstall_settings w = Inr w' \<and> iw_installed w' = None \<and> iw_sidecars w' = [] \<and>
    read_settings (iw_settings w') = Inr s' \<and> settings_equal s' B = Inr True"
proof -
  obtain c inst where w: "iw_settings w = Holds (JObj c)" "iw_installed w = Some inst"
    "\<forall>e \<in> set (in_entries inst). entry_ok e" "undone B (own (in_entries inst)) c"
    "case in_baseline inst of None \<Rightarrow> B = [] | Some b \<Rightarrow> read_settings b = Inr B"
    "newest_sidecar (iw_sidecars w) = entries_to_added_structure (in_entries inst)" "iw_sidecars w \<noteq> []"
    using assms(1) by (auto simp: tracks_settings_def)
  let ?es = "in_entries inst" and ?f = "in_baseline inst"
  have before: "(case ?f of None \<Rightarrow> Inr [] | Some b \<Rightarrow> read_settings b) = Inr B" and none: "?f = None \<longrightarrow> B = []"
    using w(5) by (simp_all split: option.splits)
  have run: "uninstall_settings w =
    (case (if entries_to_added_structure ?es \<noteq> nothing_added then restore_settings ?f c B (entries_to_added_structure ?es)
           else map_sum id (\<lambda>s. Holds (JObj s)) (unmerge ?es c)) of
       Inl e \<Rightarrow> Inl e | Inr f \<Rightarrow> Inr (w\<lparr>iw_settings := f, iw_sidecars := [], iw_installed := None\<rparr>))"
    by (simp add: uninstall_settings_def w(1,2,6,7) before read_settings_def Let_def)
  have fin: ?thesis if "uninstall_settings w = Inr (w\<lparr>iw_settings := g, iw_sidecars := [], iw_installed := None\<rparr>)"
    "read_settings g = Inr s'" "shaped s'" "same_views s' B" for g s'
    using that same_views_equal [OF that(3) assms(2) that(4) assms(3)] by auto
  show ?thesis
  proof (cases "?es = []")
    case True
    then have a: "entries_to_added_structure ?es = nothing_added" using nothing_added_iff [OF w(3)] by simp
    have u: "undone B own_nothing c" using w(4) True by simp
    then have sh: "shaped c" by (simp add: undone_def)
    obtain c' where c': "unmerge [] c = Inr c'" "shaped c'" "same_views c' c" by (rule unmerge_nothing [OF sh])
    have "same_views c' B" by (rule same_views_trans [OF c'(3) undone_nothing_views [OF u assms(2)]])
    moreover have "uninstall_settings w = Inr (w\<lparr>iw_settings := Holds (JObj c'), iw_sidecars := [], iw_installed := None\<rparr>)"
      by (simp add: run a) (simp add: True c'(1))
    ultimately show ?thesis using c'(2) by (intro fin [of "Holds (JObj c')" c']) (simp_all add: read_settings_def)
  next
    case False
    then have a: "entries_to_added_structure ?es \<noteq> nothing_added" using nothing_added_iff [OF w(3)] by simp
    obtain r where r: "smart_unmerge c B (entries_to_added_structure ?es) = Inr r" "shaped r" "same_views r B"
      by (rule smart_unmerge_undone [OF w(4,3) assms(2,4)])
    obtain s' where s': "restore_settings ?f c B (entries_to_added_structure ?es) =
        Inr (if ?f \<noteq> None \<and> s' \<noteq> [] then Holds (JObj s') else Missing)" "shaped s'" "same_views s' B"
      by (rule restore_settings_views [OF r assms(2,3) none])
    show ?thesis
    proof (cases "?f \<noteq> None \<and> s' \<noteq> []")
      case True
      then show ?thesis using s' a by (intro fin [of "Holds (JObj s')" s']) (simp_all add: run read_settings_def)
    next
      case gone: False
      have "same_views [] B"
      proof (cases "?f = None")
        case True
        with none show ?thesis by (simp add: same_views_def)
      next
        case False
        with gone s'(3) show ?thesis by simp
      qed
      moreover have "shaped []" by (simp add: shaped_def)
      ultimately show ?thesis using s'(1) a gone
        by (intro fin [of Missing "[]"]) (simp_all add: run read_settings_def)
    qed
  qed
qed

text \<open>Runs one after another, the time going on.\<close>

lemma runs_track:
  assumes "each (\<lambda>(u, m, force, now). init_settings u m force now) runs w = Inr w1" "tracks_settings s before w"
    "\<And>u m f t. (u, m, f, t) \<in> set runs \<Longrightarrow> settings_modules m \<and> preset_ok (is_preset u) \<and> legacy_free (is_split u) s"
    "sorted (before # map (\<lambda>(_, _, _, t). t) runs)"
  shows "\<exists>now. tracks_settings s now w1"
  using assms
proof (induction runs arbitrary: w before)
  case Nil
  then show ?case by auto
next
  case (Cons x runs)
  obtain u m f t where x: "x = (u, m, f, t)" by (cases x)
  obtain w' where w': "init_settings u m f t w = Inr w'" "each (\<lambda>(u, m, force, now). init_settings u m force now) runs w' = Inr w1"
    using Cons.prems(1) by (auto simp: x split: sum.splits)
  have "tracks_settings s t w'"
    using Cons.prems(3) [of u m f t] Cons.prems(4) by (intro init_again [OF w'(1) _ _ _ Cons.prems(2)]) (simp_all add: x)
  from w'(2) this show ?case
  proof (rule Cons.IH)
    show "settings_modules m \<and> preset_ok (is_preset u) \<and> legacy_free (is_split u) s" if "(u, m, f, t) \<in> set runs" for u m f t
      using Cons.prems(3) [of u m f t] that by simp
    show "sorted (t # map (\<lambda>(_, _, _, t). t) runs)" using Cons.prems(4) by (simp add: x)
  qed
qed

lemma installs_track:
  assumes "iw_installed w = None" "iw_sidecars w = []" "read_settings (iw_settings w) = Inr s" "shaped s" "runs \<noteq> []"
    "\<And>u m f t. (u, m, f, t) \<in> set runs \<Longrightarrow> settings_modules m \<and> preset_ok (is_preset u) \<and> legacy_free (is_split u) s"
    "sorted (map (\<lambda>(_, _, _, t). t) runs)"
    "each (\<lambda>(u, m, force, now). init_settings u m force now) runs w = Inr w1"
  obtains now where "tracks_settings s now w1"
proof -
  obtain u m f t rest where runs: "runs = (u, m, f, t) # rest" using assms(5) by (cases runs) auto
  obtain w' where w': "init_settings u m f t w = Inr w'" "each (\<lambda>(u, m, force, now). init_settings u m force now) rest w' = Inr w1"
    using assms(8) by (auto simp: runs split: sum.splits)
  have "settings_modules m \<and> preset_ok (is_preset u) \<and> legacy_free (is_split u) s" by (rule assms(6) [of u m f t]) (simp add: runs)
  then have "tracks_settings s t w'" using assms(1-4) by (intro init_first [OF w'(1)]) simp_all
  with w'(2) have "\<exists>now. tracks_settings s now w1"
  proof (rule runs_track)
    show "settings_modules n \<and> preset_ok (is_preset v) \<and> legacy_free (is_split v) s" if "(v, n, g, i) \<in> set rest" for v n g i
      by (rule assms(6) [of v n g i]) (use that in \<open>simp add: runs\<close>)
    show "sorted (t # map (\<lambda>(_, _, _, t). t) rest)" using assms(7) by (simp add: runs)
  qed
  then show ?thesis using that by blast
qed

section \<open>What the user added in between\<close>

lemma same_views_items:
  assumes "same_views s s'" "is_section n"
  shows "items (section_of s n) t = items (section_of s' n) t"
proof -
  have l: "items d t = (case live (dget d t) of Some (JList xs) \<Rightarrow> xs | _ \<Rightarrow> [])" for d
  proof (cases "dget d t")
    case (Some v)
    then show ?thesis by (cases v) (auto simp: items_def live_def)
  qed (simp add: items_def live_def)
  show ?thesis using assms unfolding l [of "section_of s n"] l [of "section_of s' n"] by (simp add: same_views_def)
qed

lemma deep_equals_dget:
  assumes "deep_equals (JObj a) (JObj b)" "dget a k = Some v"
  obtains w where "dget b k = Some w" "deep_equals v w"
proof -
  have all: "\<forall>p \<in> set a. case dget b (fst p) of Some w \<Rightarrow> deep_equals (snd p) w | None \<Rightarrow> False"
    using assms(1) by (simp add: list_all_iff)
  have "case dget b k of Some w \<Rightarrow> deep_equals v w | None \<Rightarrow> False"
    using bspec [OF all dget_mem [OF assms(2)]] by (simp only: prod.sel)
  then show ?thesis by (auto intro: that split: option.splits)
qed

lemma items_memE:
  assumes "x \<in> set (items d t)"
  obtains xs where "dget d t = Some (JList xs)" "x \<in> set xs"
proof (cases "dget d t")
  case (Some v)
  with assms that show ?thesis by (cases v) (auto simp: items_def)
qed (use assms in \<open>simp add: items_def\<close>)

lemma deep_equals_items:
  assumes "deep_equals (JObj s) (JObj s')" "x \<in> set (items (section_of s n) t)"
  obtains y where "y \<in> set (items (section_of s' n) t)" "deep_equals x y"
proof -
  obtain d where d: "dget s n = Some (JObj d)" "x \<in> set (items d t)"
    using assms(2) by (auto simp: section_of_def split: option.splits json.splits)
  obtain xs where xs: "dget d t = Some (JList xs)" "x \<in> set xs"
    using d(2) by (rule items_memE)
  obtain v where v: "dget s' n = Some v" "deep_equals (JObj d) v" by (rule deep_equals_dget [OF assms(1) d(1)])
  then obtain d' where d': "v = JObj d'" by (cases v) auto
  obtain u where u: "dget d' t = Some u" "deep_equals (JList xs) u" by (rule deep_equals_dget [OF v(2)[unfolded d'] xs(1)])
  then obtain ys where ys: "u = JList ys" "length xs = length ys" "\<And>p. p \<in> set (zip xs ys) \<Longrightarrow> deep_equals (fst p) (snd p)"
    by (cases u) (auto simp: list_all_iff)
  obtain i where i: "i < length xs" "xs ! i = x" using xs(2) by (auto simp: in_set_conv_nth)
  then have "(x, ys ! i) \<in> set (zip xs ys)" using ys(2) by (auto simp: set_zip)
  then have "deep_equals x (ys ! i)" using ys(3) by fastforce
  moreover have "ys ! i \<in> set (items (section_of s' n) t)" using i ys by (simp add: section_of_def items_def v(1) d' u(1))
  ultimately show ?thesis by (intro that)
qed

lemma take_env_total:
  assumes "shaped c" "shaped B"
  obtains s where "take_env (get_default B ''env'' (JObj [])) added c = Inr s" "shaped s"
    "\<And>k. k \<noteq> ''env'' \<Longrightarrow> dget s k = dget c k"
proof (cases "dget c ''env''")
  case None
  then show ?thesis using assms(1) by (intro that [of c]) (simp_all add: take_env_def)
next
  case (Some v)
  let ?d = "section_of c ''env''"
  let ?b = "section_of B ''env''"
  have v: "v = JObj ?d" using shapedD [OF assms(1) is_section(3) Some] .
  have "\<exists>d'. each (\<lambda>(k, v) d. case dget d k of None \<Rightarrow> Inr d
      | Some x \<Rightarrow> (case JObj ?b of JObj b \<Rightarrow> Inr (if py_eq x v then give_back (jget b k) k d else d) | _ \<Rightarrow> Inl Malformed)) added d = Inr d' \<and> dwf d'"
    if "dwf d" for d
    using that by (induction added arbitrary: d) (auto simp: give_back_def dwf_dset dwf_ddel split: option.split)
  from this [OF section_shaped(3) [OF assms(1)]] obtain d' where d':
    "each (\<lambda>(k, v) d. case dget d k of None \<Rightarrow> Inr d
      | Some x \<Rightarrow> (case JObj ?b of JObj b \<Rightarrow> Inr (if py_eq x v then give_back (jget b k) k d else d) | _ \<Rightarrow> Inl Malformed)) added ?d = Inr d'"
    "dwf d'" by blast
  have "take_env (get_default B ''env'' (JObj [])) added c = Inr (dset c ''env'' (JObj d'))"
    using d'(1) by (simp add: take_env_def Some v get_default_section [OF assms(2)])
  then show ?thesis using shaped_dset(3) [OF assms(1) d'(2)] by (intro that [of "dset c ''env'' (JObj d')"]) simp_all
qed

lemma take_scalars_sections:
  assumes "\<And>k. k \<in> set (dkeys sc) \<Longrightarrow> \<not> is_section k" "shaped s"
  shows "shaped (take_scalars B sc s) \<and> (\<forall>n. is_section n \<longrightarrow> dget (take_scalars B sc s) n = dget s n)"
  using assms
proof (induction sc arbitrary: s)
  case Nil
  then show ?case by (simp add: take_scalars_def)
next
  case (Cons p sc)
  obtain k v where p: "p = (k, v)" by (cases p)
  have k: "\<not> is_section k" using Cons.prems(1) by (simp add: p)
  let ?s = "case dget s k of Some x \<Rightarrow> if deep_equals x v then give_back (jget B k) k s else s | None \<Rightarrow> s"
  have "shaped ?s" using Cons.prems(2) k by (auto simp: give_back_def shaped_dset(4) shaped_ddel split: option.split)
  moreover have "dget ?s n = dget s n" if "is_section n" for n
    using that k by (auto simp: give_back_def split: option.split)
  moreover have "take_scalars B (p # sc) s = take_scalars B sc ?s" by (simp add: take_scalars_def p)
  ultimately show ?case using Cons.IH [of ?s] Cons.prems(1) by simp
qed

text \<open>The hooks and permissions of a list that no entry tracks.\<close>

definition untracked :: "settings_entry list \<Rightarrow> string \<Rightarrow> string \<Rightarrow> json \<Rightarrow> bool" where
  "untracked es n t x \<longleftrightarrow>
     n = ''hooks'' \<and> (\<forall>e \<in> set es. ent_path e = HookPath t \<longrightarrow> canonical (ent_value e) \<noteq> canonical x) \<or>
     n = ''permissions'' \<and> (\<forall>e \<in> set es. ent_path e = PermissionPath t \<longrightarrow> \<not> py_eq (ent_value e) x)"

lemma smart_unmerge_keeps:
  assumes "shaped c" "shaped B" "\<forall>e \<in> set es. entry_ok e"
  obtains r where "smart_unmerge c B (entries_to_added_structure es) = Inr r" "shaped r"
    "\<And>n t x. untracked es n t x \<Longrightarrow> x \<in> set (items (section_of c n) t) \<Longrightarrow> x \<in> set (items (section_of r n) t)"
proof -
  let ?a = "entries_to_added_structure es"
  let ?h = "take_hooks (ad_hooks ?a) c"
  let ?p = "take_permissions (ad_permissions ?a) ?h"
  note h = take_hooks_items [where es = es, OF assms(1)]
  note p = take_permissions_items [where es = es, OF h(1)]
  obtain s where s: "take_env (get_default B ''env'' (JObj [])) (ad_env ?a) ?p = Inr s" "shaped s"
    "\<And>k. k \<noteq> ''env'' \<Longrightarrow> dget s k = dget ?p k"
    by (rule take_env_total [OF p(1) assms(2)]) (rule that; assumption)
  let ?r = "take_scalars B (ad_scalars ?a) s"
  have "\<not> is_section k" if "k \<in> set (dkeys (ad_scalars ?a))" for k
  proof -
    have "dget (ad_scalars ?a) k \<noteq> None" using that by (simp add: dget_None_iff)
    then obtain v where "ow_scalars (own es) k = Some v" by (auto simp: own_entries_added(4))
    with assms(3) have "k = ''statusLine''" by (rule own_scalar_status)
    then show ?thesis by simp
  qed
  then have r: "shaped ?r" "\<And>n. is_section n \<Longrightarrow> dget ?r n = dget s n" using take_scalars_sections [OF _ s(2), of "ad_scalars ?a" B] by simp_all
  have sec: "section_of ?r ''hooks'' = section_of ?h ''hooks''" "section_of ?r ''permissions'' = section_of ?p ''permissions''"
    "section_of ?h ''permissions'' = section_of c ''permissions''"
    by (rule section_of_cong; simp add: r(2) s(3) p(2) h(2))+
  have sm: "smart_unmerge c B ?a = Inr ?r" by (simp add: smart_unmerge_def s(1))
  have "x \<in> set (items (section_of ?r n) t)" if u: "untracked es n t x" and x: "x \<in> set (items (section_of c n) t)" for n t x
  proof (cases "n = ''hooks''")
    case True
    then have "canonical x \<notin> ow_hooks (own es) t" using u unfolding untracked_def own_hooks_iff by auto
    with True x show ?thesis by (simp add: sec(1)) (simp add: h(3))
  next
    case False
    then have n: "n = ''permissions''" and "\<forall>e \<in> set es. ent_path e = PermissionPath t \<longrightarrow> \<not> py_eq (ent_value e) x"
      using u by (auto simp: untracked_def)
    then have "py_value x \<notin> ow_permissions (own es) t" unfolding own_permissions_iff by (auto simp: py_eq_def)
    with n x show ?thesis by (simp add: sec(2)) (simp add: p(3) sec(3))
  qed
  then show ?thesis using that [OF sm r(1)] by blast
qed

lemma restore_keeps:
  assumes "smart_unmerge c B a = Inr r" "shaped r" "shaped B" "f = None \<longrightarrow> B = []" "is_section n" "x \<in> set (items (section_of r n) t)"
  obtains g s' y where "restore_settings f c B a = Inr g" "read_settings g = Inr s'" "y \<in> set (items (section_of s' n) t)" "y = x \<or> deep_equals x y"
proof -
  obtain r1 where r1: "cleanup_empty_settings r = Inr r1" "cleaned r r1" by (rule cleanup_cleaned [OF assms(2)])
  obtain b where b: "cleanup_empty_settings B = Inr b" "cleaned B b" by (rule cleanup_cleaned [OF assms(3)])
  have "shaped r1" "shaped b" using r1(2) b(2) by (simp_all add: cleaned_def)
  then obtain r2 b2 where r2: "cleanup_empty_settings r1 = Inr r2" "cleaned r1 r2" and b2: "cleanup_empty_settings b = Inr b2" "cleaned b b2"
    by (metis cleanup_cleaned)
  have x1: "x \<in> set (items (section_of r1 n) t)"
    using assms(6) same_views_items [OF cleaned_same_views [OF r1(2)] assms(5)] by simp
  then have x2: "x \<in> set (items (section_of r2 n) t)"
    using same_views_items [OF cleaned_same_views [OF r2(2)] assms(5)] by simp
  show ?thesis
  proof (cases "deep_equals (JObj r2) (JObj b2)")
    case True
    then obtain y where y: "y \<in> set (items (section_of b2 n) t)" "deep_equals x y" using x2 by (rule deep_equals_items)
    then have yb: "y \<in> set (items (section_of b n) t)"
      using same_views_items [OF cleaned_same_views [OF b2(2)] assms(5)] by simp
    then have "b \<noteq> []" by (auto simp: section_of_def)
    moreover have "f \<noteq> None"
    proof
      assume "f = None"
      with assms(4) have "B = []" by simp
      then have "section_of B n = []" by (simp add: section_of_def)
      then show False using yb same_views_items [OF cleaned_same_views [OF b(2)] assms(5), of t] by simp
    qed
    ultimately have "restore_settings f c B a = Inr (Holds (JObj b))"
      using True by (simp add: restore_settings_def assms(1) r1(1) b(1) settings_equal_def r2(1) b2(1) del: deep_equals.simps)
    then show ?thesis using yb y(2) by (intro that [of "Holds (JObj b)" b y]) (simp_all add: read_settings_def)
  next
    case False
    then have "restore_settings f c B a = Inr (Holds (JObj r1))"
      by (simp add: restore_settings_def assms(1) r1(1) b(1) settings_equal_def r2(1) b2(1) del: deep_equals.simps)
    then show ?thesis using x1 by (intro that [of "Holds (JObj r1)" r1 x]) (simp_all add: read_settings_def)
  qed
qed

lemma tracked_keeps:
  assumes "tracks_settings B now w" "shaped B" "shaped c" "untracked (tracked_entries (iw_installed w)) n t x" "x \<in> set (items (section_of c n) t)"
  shows "\<exists>w' s' y. uninstall_settings (w\<lparr>iw_settings := Holds (JObj c)\<rparr>) = Inr w' \<and> read_settings (iw_settings w') = Inr s' \<and>
    y \<in> set (items (section_of s' n) t) \<and> (y = x \<or> deep_equals x y)"
proof -
  obtain inst where w: "iw_installed w = Some inst"
    "\<forall>e \<in> set (in_entries inst). entry_ok e"
    "case in_baseline inst of None \<Rightarrow> B = [] | Some b \<Rightarrow> read_settings b = Inr B"
    "newest_sidecar (iw_sidecars w) = entries_to_added_structure (in_entries inst)" "iw_sidecars w \<noteq> []"
    using assms(1) by (auto simp: tracks_settings_def)
  let ?es = "in_entries inst" and ?f = "in_baseline inst"
  have before: "(case ?f of None \<Rightarrow> Inr [] | Some b \<Rightarrow> read_settings b) = Inr B" and none: "?f = None \<longrightarrow> B = []"
    using w(3) by (simp_all split: option.splits)
  have u: "untracked ?es n t x" using assms(4) by (simp add: w(1) tracked_entries_def)
  then have n: "is_section n" by (auto simp: untracked_def)
  have run: "uninstall_settings (w\<lparr>iw_settings := Holds (JObj c)\<rparr>) =
    (case (if entries_to_added_structure ?es \<noteq> nothing_added then restore_settings ?f c B (entries_to_added_structure ?es)
           else map_sum id (\<lambda>s. Holds (JObj s)) (unmerge ?es c)) of
       Inl e \<Rightarrow> Inl e | Inr f \<Rightarrow> Inr (w\<lparr>iw_settings := Holds (JObj c), iw_settings := f, iw_sidecars := [], iw_installed := None\<rparr>))"
    by (simp add: uninstall_settings_def w(1,4,5) before read_settings_def Let_def)
  show ?thesis
  proof (cases "?es = []")
    case True
    then have a: "entries_to_added_structure ?es = nothing_added" using nothing_added_iff [OF w(2)] by simp
    obtain c' where c': "unmerge [] c = Inr c'" "shaped c'" "same_views c' c" by (rule unmerge_nothing [OF assms(3)])
    have "x \<in> set (items (section_of c' n) t)" using assms(5) same_views_items [OF c'(3) n] by simp
    then show ?thesis using c'(1) by (simp add: run a) (auto simp: True read_settings_def)
  next
    case False
    then have a: "entries_to_added_structure ?es \<noteq> nothing_added" using nothing_added_iff [OF w(2)] by simp
    obtain r where r: "smart_unmerge c B (entries_to_added_structure ?es) = Inr r" "shaped r"
      "\<And>n t x. untracked ?es n t x \<Longrightarrow> x \<in> set (items (section_of c n) t) \<Longrightarrow> x \<in> set (items (section_of r n) t)"
      by (rule smart_unmerge_keeps [OF assms(3,2) w(2)]) (rule that; assumption)
    obtain g s' y where "restore_settings ?f c B (entries_to_added_structure ?es) = Inr g" "read_settings g = Inr s'"
      "y \<in> set (items (section_of s' n) t)" "y = x \<or> deep_equals x y"
      by (rule restore_keeps [OF r(1,2) assms(2) none n r(3) [OF u assms(5)]])
    then show ?thesis using a by (auto simp: run)
  qed
qed



section \<open>A sample\<close>

definition settings_before :: jobj where
  "settings_before =
    [(''hooks'', JObj [(''Stop'', JList [JObj [(''hooks'', JList [JObj [(''type'', JStr ''command''), (''command'', JStr ''bell'')]])]])]),
     (''env'', JObj [(''LANG'', JStr ''C''), (''DEBUG'', JStr [])]),
     (''model'', JStr ''opus'')]"

definition user_hook :: json where
  "user_hook = JObj [(''hooks'', JList [JObj [(''type'', JStr ''command''), (''command'', JStr ''lint'')]])]"

definition settings_edited :: jobj where
  "settings_edited = [(''hooks'', JObj [(''Stop'', JList [user_hook])])]"

definition sample_world :: install_world where
  "sample_world = \<lparr>iw_settings = Holds (JObj settings_before), iw_sidecars = [], iw_installed = None\<rparr>"

definition sample_installer :: installer where
  "sample_installer = \<lparr>is_user = True, is_split = Some \<circ> split_on CHR '' '', is_command = (\<lambda>h. ''forge hook '' @ h), is_preset = Missing\<rparr>"

definition sample_runs :: "(installer \<times> modules \<times> bool \<times> string) list" where
  "sample_runs =
    [(sample_installer, \<lparr>md_hooks = True, md_permissions = True, md_status = False, md_preserved = False\<rparr>, False, ''1''),
     (sample_installer, \<lparr>md_hooks = False, md_permissions = True, md_status = True, md_preserved = False\<rparr>, True, ''2'')]"

lemma sample_shaped: "shaped settings_before" "shaped settings_edited"
  by (auto simp: shaped_def settings_before_def settings_edited_def listing_def)

lemma sample_legacy_free: "legacy_free (is_split sample_installer) settings_before"
proof -
  have "list_all (\<lambda>x. known_legacy_hook_shape (is_split sample_installer) ''Stop'' x = None) (items (section_of settings_before ''hooks'') ''Stop'')"
    by code_simp
  moreover have "items (section_of settings_before ''hooks'') t = []" if "t \<noteq> ''Stop''" for t
    using that by (simp add: settings_before_def section_of_def items_def)
  ultimately have "known_legacy_hook_shape (is_split sample_installer) t x = None"
    if "x \<in> set (items (section_of settings_before ''hooks'') t)" for t x
    using that by (cases "t = ''Stop''") (simp_all add: list_all_iff)
  then show ?thesis by (simp add: legacy_free_def)
qed

lemma sample_runs_ok:
  assumes "(u, m, f, t) \<in> set sample_runs"
  shows "settings_modules m \<and> preset_ok (is_preset u) \<and> legacy_free (is_split u) settings_before"
proof -
  have "u = sample_installer \<and> settings_modules m" using assms by (auto simp: sample_runs_def settings_modules_def)
  moreover have "preset_ok (is_preset sample_installer)" by (simp add: sample_installer_def preset_ok_def)
  ultimately show ?thesis using sample_legacy_free by simp
qed

lemma sample_world_simps: "iw_installed sample_world = None" "iw_sidecars sample_world = []"
  "read_settings (iw_settings sample_world) = Inr settings_before"
  by (simp_all add: sample_world_def read_settings_def)

lemma sample_runs_sorted: "sorted (map (\<lambda>(_, _, _, t). t) sample_runs)" "sample_runs \<noteq> []"
  by (code_simp, simp add: sample_runs_def)

lemma sample_jwf: "jwf (JObj settings_before)" "dget settings_before ''statusLine'' \<noteq> Some JNull"
  by code_simp+

lemma sample_installs: obtains w where "each (\<lambda>(u, m, force, now). init_settings u m force now) sample_runs sample_world = Inr w"
proof -
  have "\<not> isl (each (\<lambda>(u, m, force, now). init_settings u m force now) sample_runs sample_world)" by code_simp
  then show ?thesis using that by (cases "each (\<lambda>(u, m, force, now). init_settings u m force now) sample_runs sample_world") simp_all
qed


lemma user_hook_untracked:
  assumes "each (\<lambda>(u, m, force, now). init_settings u m force now) sample_runs sample_world = Inr w"
  shows "untracked (tracked_entries (iw_installed w)) ''hooks'' ''Stop'' user_hook"
proof -
  have "list_all (\<lambda>e. canonical (ent_value e) \<noteq> canonical user_hook) (tracked_entries (iw_installed w))"
    if "each (\<lambda>(u, m, force, now). init_settings u m force now) sample_runs sample_world = Inr w" for w
  proof -
    have "case each (\<lambda>(u, m, force, now). init_settings u m force now) sample_runs sample_world of Inl _ \<Rightarrow> False
      | Inr w \<Rightarrow> list_all (\<lambda>e. canonical (ent_value e) \<noteq> canonical user_hook) (tracked_entries (iw_installed w))" by code_simp
    with that show ?thesis by simp
  qed
  with assms show ?thesis by (simp add: untracked_def list_all_iff)
qed


text \<open>
  What a roundtrip takes along: an environment variable the user had set to the empty text is gone
  after an install and an uninstall, for \<open>cleanup_empty_settings\<close> takes every empty value for one of
  Forge's left-overs.
\<close>

lemma empty_variable_lost:
  "\<exists>w1 w2 s'. each (\<lambda>(u, m, force, now). init_settings u m force now) sample_runs sample_world = Inr w1 \<and>
    uninstall_settings w1 = Inr w2 \<and> read_settings (iw_settings w2) = Inr s' \<and>
    dget (section_of settings_before ''env'') ''DEBUG'' = Some (JStr []) \<and> dget (section_of s' ''env'') ''DEBUG'' = None"
proof -
  have "case each (\<lambda>(u, m, force, now). init_settings u m force now) sample_runs sample_world of Inl _ \<Rightarrow> False
    | Inr w1 \<Rightarrow> (case uninstall_settings w1 of Inl _ \<Rightarrow> False
      | Inr w2 \<Rightarrow> (case read_settings (iw_settings w2) of Inl _ \<Rightarrow> False
        | Inr s' \<Rightarrow> dget (section_of settings_before ''env'') ''DEBUG'' = Some (JStr []) \<and> dget (section_of s' ''env'') ''DEBUG'' = None))"
    by code_simp
  then show ?thesis by (auto split: sum.splits)
qed

text \<open>
  A settings file whose section is not an object stops the uninstall: \<open>smart_unmerge\<close> leaves such a
  section alone, the cleaning after it does not.
\<close>

lemma malformed_section_stops_uninstall:
  "\<exists>w1. each (\<lambda>(u, m, force, now). init_settings u m force now) sample_runs sample_world = Inr w1 \<and>
    uninstall_settings (w1\<lparr>iw_settings := Holds (JObj [(''hooks'', JNull)])\<rparr>) = Inl Malformed"
proof -
  have "case each (\<lambda>(u, m, force, now). init_settings u m force now) sample_runs sample_world of Inl _ \<Rightarrow> False
    | Inr w1 \<Rightarrow> uninstall_settings (w1\<lparr>iw_settings := Holds (JObj [(''hooks'', JNull)])\<rparr>) = Inl Malformed" by code_simp
  then show ?thesis by (auto split: sum.splits)
qed

text \<open>Every hook entry of an earlier release that the user-scope install takes out has its successor in the built-in preset.\<close>

lemma legacy_shapes_replaced:
  assumes "(event, matcher, handler, timeout) \<in> set known_legacy_shapes"
  shows "builtin_hook cmd matcher handler timeout \<in> set (items (builtin_hooks cmd) event)"
proof -
  have "\<forall>p \<in> set known_legacy_shapes. case p of (e, m, h, t) \<Rightarrow> builtin_hook cmd m h t \<in> set (items (builtin_hooks cmd) e)"
    unfolding known_legacy_shapes_def by (simp add: builtin_hooks_def items_def)
  with assms show ?thesis by blast
qed

section \<open>Conflicts\<close>

text \<open>The only setting two programs can disagree on is the status line, and planning looks at it first.\<close>

definition conflict :: "settings_error \<Rightarrow> bool" where
  "conflict e \<longleftrightarrow> (case e of Conflicting _ _ _ \<Rightarrow> True | _ \<Rightarrow> False)"

lemma conflict_simps [simp]: "conflict (Conflicting k a b)" "\<not> conflict Malformed" "\<not> conflict UnreadableFile"
  "\<not> conflict NotInstalled" "\<not> conflict Planned"
  by (simp_all add: conflict_def)

text \<open>A step that neither raises a conflict nor changes the status line.\<close>

definition stays :: "jobj \<Rightarrow> settings_error + jobj \<Rightarrow> bool" where
  "stays s r \<longleftrightarrow> (case r of Inl e \<Rightarrow> \<not> conflict e | Inr s' \<Rightarrow> dget s' ''statusLine'' = dget s ''statusLine'')"

lemma stays_simps [simp]: "stays s (Inl e) \<longleftrightarrow> \<not> conflict e" "stays s (Inr s') \<longleftrightarrow> dget s' ''statusLine'' = dget s ''statusLine''"
  by (simp_all add: stays_def)

lemma each_stays: "(\<And>x s. x \<in> set xs \<Longrightarrow> stays s (f x s)) \<Longrightarrow> stays s (each f xs s)"
proof (induction xs arbitrary: s)
  case (Cons x xs)
  have f: "stays s (f x s)" using Cons.prems by simp
  have e: "stays s' (each f xs s')" for s' using Cons by simp
  show ?case
  proof (cases "f x s")
    case (Inr s')
    with f have d: "dget s' ''statusLine'' = dget s ''statusLine''" by simp
    show ?thesis using e [of s'] by (cases "each f xs s'") (simp_all add: Inr d)
  qed (use f in simp)
qed simp

lemma cleanup_stays: "stays s (cleanup_empty_settings s)"
  unfolding cleanup_empty_settings_def
  by (rule each_stays) (auto simp: clean_section_def Let_def split: option.split json.split)

lemma remove_legacy_stays: "stays s (remove_known_legacy_hook_entries split s)"
proof (cases "dget s ''hooks''")
  case (Some v)
  have t: "stays s (cleanup_empty_settings (dset s ''hooks'' v))" for v
    using cleanup_stays [of "dset s ''hooks'' v"] by (simp add: stays_def split: sum.splits)
  show ?thesis by (cases v) (simp_all add: remove_known_legacy_hook_entries_def Some t)
qed (simp add: remove_known_legacy_hook_entries_def)

lemma unmerge_hooks_stays: "stays s (unmerge (filter is_hook_entry es) s)"
proof -
  have hp: "\<exists>t. p = HookPath t" if "p \<in> set (paths_of (filter is_hook_entry es))" for p
    using that by (auto simp: paths_of_set is_hook_entry_iff)
  have u: "stays s (unmerge_hooks t es s)" for t es s
    by (auto simp: unmerge_hooks_def Let_def split: option.split bool.split json.split)
  show ?thesis unfolding unmerge_def Let_def
    by (rule each_stays) (auto intro!: each_stays dest!: hp simp: u)
qed

lemma refresh_stays: "stays s (refresh_hooks u m es s)"
proof -
  have "stays s (each (\<lambda>f s. f s) [if filter is_hook_entry es = [] then Inr else unmerge (filter is_hook_entry es),
    remove_known_legacy_hook_entries (is_split u)] s)"
    by (rule each_stays) (auto simp: remove_legacy_stays unmerge_hooks_stays split: if_splits)
  then show ?thesis unfolding refresh_hooks_def by (simp del: each.simps)
qed

definition quiet :: "merging \<Rightarrow> bool" where
  "quiet m \<longleftrightarrow> (\<forall>s. stays s (map_sum id snd (m s)))"

lemma quiet_over: "(\<And>xs. quiet (f xs)) \<Longrightarrow> quiet (over f v)"
  unfolding quiet_def over_def by (auto split: option.split)

lemma quiet_hooks: "quiet (merge_hooks t xs)"
  unfolding quiet_def by (auto simp: merge_hooks_def set_default_def Let_def split: option.split json.split)

lemma quiet_permissions: "quiet (merge_permissions t xs)"
  unfolding quiet_def by (auto simp: merge_permissions_def set_default_def Let_def split: option.split json.split sum.split)

lemma quiet_env: "quiet (merge_env v)"
  unfolding quiet_def by (auto simp: merge_env_def set_default_def Let_def split: option.split json.split list.split)

lemma quiet_steps:
  "f \<in> set (hook_steps forge) \<Longrightarrow> quiet f" "f \<in> set (permission_steps forge) \<Longrightarrow> quiet f" "f \<in> set (env_steps forge) \<Longrightarrow> quiet f"
  by (auto simp: hook_steps_def permission_steps_def env_steps_def quiet_def [of "\<lambda>_. Inl Malformed"]
      intro!: quiet_over quiet_hooks quiet_permissions quiet_env split: json.splits if_splits)

lemma quiet_status:
  assumes "\<And>v. dget forge ''statusLine'' = Some v \<Longrightarrow> jget s ''statusLine'' = JNull \<or> py_eq (jget s ''statusLine'') v \<or> force"
    "f \<in> set (status_steps force forge)"
  shows "(\<forall>e. f s = Inl e \<longrightarrow> \<not> conflict e)"
  using assms by (auto simp: status_steps_def set_scalar_def Let_def split: option.splits if_splits)

text \<open>Quiet steps around one that raises no conflict on this status line raise none.\<close>

lemma merge_steps_conflict:
  assumes "\<And>f. f \<in> set fs \<Longrightarrow> quiet f" "\<And>s'. dget s' ''statusLine'' = dget s ''statusLine'' \<Longrightarrow> merge_steps gs s' = Inl e \<Longrightarrow> \<not> conflict e"
    "merge_steps (fs @ gs) s = Inl e"
  shows "\<not> conflict e"
  using assms
proof (induction fs arbitrary: s)
  case (Cons f fs)
  have q: "stays s (map_sum id snd (f s))" using Cons.prems(1) by (simp add: quiet_def)
  show ?case
  proof (cases "f s")
    case (Inl e')
    with q Cons.prems(3) show ?thesis by simp
  next
    case (Inr p)
    obtain es s1 where p: "p = (es, s1)" by (cases p)
    have d: "dget s1 ''statusLine'' = dget s ''statusLine''" using q by (simp add: Inr p)
    have "merge_steps (fs @ gs) s1 = Inl e" using Cons.prems(3) by (auto simp: Inr p split: sum.splits)
    then show ?thesis using Cons.IH [of s1] Cons.prems(1,2) d by simp
  qed
qed simp

lemma merge_conflict:
  assumes "md_status m \<Longrightarrow> (\<And>v. dget forge ''statusLine'' = Some v \<Longrightarrow> jget s ''statusLine'' = JNull \<or> py_eq (jget s ''statusLine'') v \<or> force)"
    "merge_settings forge m force s = Inl e"
  shows "\<not> conflict e"
proof -
  let ?a = "(if md_hooks m then hook_steps forge else []) @ (if md_permissions m then permission_steps forge else [])"
  let ?b = "if md_status m then status_steps force forge else []"
  let ?c = "if md_permissions m then env_steps forge else []"
  have "\<not> conflict e" if "merge_steps (?c @ []) s' = Inl e" for s'
    using that by (rule merge_steps_conflict [rotated 2]) (auto split: if_splits intro: quiet_steps)
  then have c: "\<not> conflict e" if "merge_steps ?c s' = Inl e" for s' using that by simp
  have b: "\<not> conflict e" if d: "dget s' ''statusLine'' = dget s ''statusLine''" and r: "merge_steps (?b @ ?c) s' = Inl e" for s'
  proof (cases "\<exists>v. md_status m \<and> dget forge ''statusLine'' = Some v")
    case True
    then obtain v where v: "md_status m" "dget forge ''statusLine'' = Some v" by blast
    have "jget s' ''statusLine'' = jget s ''statusLine''" using d by (simp add: jget_def)
    then have n: "\<not> (jget s' ''statusLine'' \<noteq> JNull \<and> \<not> py_eq (jget s' ''statusLine'') v \<and> \<not> force)" using assms(1) [OF v] by simp
    then obtain es s1 where "set_scalar ''statusLine'' v force s' = Inr (es, s1)"
      by (cases "set_scalar ''statusLine'' v force s'") (auto simp: set_scalar_def Let_def split: if_splits)
    moreover have "merge_steps cs s1 = Inl e" if "merge_steps (g # cs) s' = Inl e" "g s' = Inr (es, s1)" for g cs
      using that by (auto split: sum.splits)
    moreover have "merge_steps (set_scalar ''statusLine'' v force # ?c) s' = Inl e" using r v by (simp add: status_steps_def)
    ultimately have "merge_steps ?c s1 = Inl e" by blast
    then show ?thesis by (rule c)
  next
    case False
    then have "?b = []" by (auto simp: status_steps_def split: option.split)
    with r show ?thesis using c by simp
  qed
  show ?thesis
  proof (rule merge_steps_conflict)
    show "merge_steps (?a @ (?b @ ?c)) s = Inl e" using assms(2) by (simp add: merge_settings_def)
    show "quiet f" if "f \<in> set ?a" for f using that by (auto split: if_splits intro: quiet_steps)
  qed (rule b)
qed

lemma load_conflict: "load_forge_settings cmd f = Inl e \<Longrightarrow> \<not> conflict e"
proof -
  assume l: "load_forge_settings cmd f = Inl e"
  have b: "\<not> conflict e" if "each backfill xs v = Inl e" for xs v
    using that by (induction xs arbitrary: v) (auto simp: backfill_def split: option.splits bool.splits json.splits sum.splits)
  have p: "\<not> conflict e" if "load_preset cmd f = Inl e" using that by (auto simp: load_preset_def split: state_file.splits json.splits)
  show ?thesis using l b p
    by (auto simp: load_forge_settings_def simp del: each.simps split: sum.splits prod.splits json.splits)
qed

lemma read_conflict: "read_settings f = Inl e \<Longrightarrow> \<not> conflict e"
  by (auto simp: read_settings_def split: state_file.splits json.splits)

text \<open>A planning step adds to the plan, and raises no conflict.\<close>

definition plans :: "planning \<Rightarrow> bool" where
  "plans p \<longleftrightarrow> (\<forall>ps. case p ps of Inl e \<Rightarrow> \<not> conflict e | Inr qs \<Rightarrow> set ps \<subseteq> set qs)"

lemma plans_each: "(\<And>x. x \<in> set xs \<Longrightarrow> plans (f x)) \<Longrightarrow> plans (each f xs)"
proof (induction xs)
  case (Cons x xs)
  have f: "plans (f x)" and e: "plans (each f xs)" using Cons by simp_all
  show ?case unfolding plans_def
  proof
    fix ps
    show "case each f (x # xs) ps of Inl e \<Rightarrow> \<not> conflict e | Inr qs \<Rightarrow> set ps \<subseteq> set qs"
    proof (cases "f x ps")
      case (Inl e)
      with f show ?thesis by (simp add: plans_def) (metis sum.simps(5))
    next
      case (Inr qs)
      have "set ps \<subseteq> set qs" using f [unfolded plans_def, THEN spec, of ps] Inr by simp
      moreover have "case each f xs qs of Inl e \<Rightarrow> \<not> conflict e | Inr rs \<Rightarrow> set qs \<subseteq> set rs" using e by (simp add: plans_def)
      ultimately show ?thesis by (auto simp: Inr split: sum.splits)
    qed
  qed
qed (simp add: plans_def)

lemma present_conflict:
  "hooks_already_present c t es = Inl e \<Longrightarrow> \<not> conflict e" "permissions_already_present c t es = Inl e \<Longrightarrow> \<not> conflict e"
  by (auto simp: hooks_already_present_def permissions_already_present_def Let_def split: json.splits option.splits sum.splits if_splits)

lemma plans_steps: "plans (plan_status force forge c)" "plans (plan_hooks forge c)" "plans (plan_permissions forge c)" "plans (plan_env forge c)"
proof -
  show "plans (plan_status force forge c)" by (auto simp: plans_def plan_status_def split: option.split)
  have m: "plans (\<lambda>ps. map_sum id (\<lambda>b. ps @ [(skip_or_merge b, p)]) r)" if "\<And>e. r = Inl e \<Longrightarrow> \<not> conflict e" for p r
    using that by (cases r) (auto simp: plans_def)
  have i: "plans (\<lambda>ps. Inr ps)" "plans (\<lambda>ps. Inl Malformed)" by (simp_all add: plans_def)
  show "plans (plan_hooks forge c)"
  proof (cases "get_default forge ''hooks'' (JObj [])")
    case (JObj d)
    have "plans (\<lambda>ps. if \<not> truthy v then Inr ps else (case iterated v of None \<Rightarrow> Inl Malformed
      | Some es \<Rightarrow> map_sum id (\<lambda>b. ps @ [(skip_or_merge b, HookPath t)]) (hooks_already_present c t es)))" for t v
      by (cases "truthy v"; cases "iterated v") (simp_all add: i m present_conflict)
    then show ?thesis unfolding plan_hooks_def JObj json.case by (intro plans_each) auto
  qed (simp_all add: plan_hooks_def [abs_def] i)
  show "plans (plan_permissions forge c)"
  proof (cases "get_default forge ''permissions'' (JObj [])")
    case (JObj d)
    have "plans (\<lambda>ps. if \<not> truthy v then Inr ps else (case iterated v of None \<Rightarrow> Inl Malformed
      | Some es \<Rightarrow> map_sum id (\<lambda>b. ps @ [(skip_or_merge b, PermissionPath t)]) (permissions_already_present c t es)))" for t v
      by (cases "truthy v"; cases "iterated v") (simp_all add: i m present_conflict)
    then show ?thesis unfolding plan_permissions_def JObj json.case by (intro plans_each) auto
  qed (simp_all add: plan_permissions_def [abs_def] i)
  show "plans (plan_env forge c)"
    by (auto simp: plans_def plan_env_def split: json.split)
qed

lemma plans_status:
  assumes "plan_settings forge m force c = Inr ps" "ConflictIt \<notin> fst ` set ps" "md_status m" "dget forge ''statusLine'' = Some v"
  shows "jget c ''statusLine'' = JNull \<or> py_eq (jget c ''statusLine'') v \<or> force"
proof (rule ccontr)
  let ?rest = "(if md_hooks m then [plan_hooks forge c] else []) @ (if md_permissions m then [plan_permissions forge c, plan_env forge c] else [])"
  let ?p = "(ConflictIt, ScalarPath ''statusLine'')"
  assume n: "\<not> (jget c ''statusLine'' = JNull \<or> py_eq (jget c ''statusLine'') v \<or> force)"
  then have "plan_status force forge c [] = Inr [?p]" using assms(4) by (simp add: plan_status_def scalar_already_set_def)
  then have run: "each (\<lambda>f ps. f ps) ?rest [?p] = Inr ps" using assms(1,3) by (simp add: plan_settings_def del: each.simps(1))
  have "plans (each (\<lambda>f ps. f ps) ?rest)" by (rule plans_each) (auto simp: plans_steps split: if_splits)
  then have "set [?p] \<subseteq> set ps" unfolding plans_def by (metis run sum.simps(6))
  with assms(2) show False by force
qed

lemma plan_conflict:
  assumes "plan_settings forge m force c = Inl e"
  shows "\<not> conflict e"
proof -
  have "plans (each (\<lambda>f ps. f ps) ((if md_status m then [plan_status force forge c] else []) @
    (if md_hooks m then [plan_hooks forge c] else []) @ (if md_permissions m then [plan_permissions forge c, plan_env forge c] else [])))"
    by (rule plans_each) (auto simp: plans_steps split: if_splits)
  then have "case plan_settings forge m force c of Inl e \<Rightarrow> \<not> conflict e | Inr qs \<Rightarrow> set [] \<subseteq> set qs"
    unfolding plans_def plan_settings_def by blast
  with assms show ?thesis by simp
qed

lemma apply_conflict:
  assumes "read_settings (iw_settings w) = Inr s" "load_forge_settings (is_command u) (is_preset u) = Inr forge"
    "plan_settings forge m force s = Inr ps" "ConflictIt \<notin> fst ` set ps" "apply_install_settings u m force now w = Inl e"
  shows "\<not> conflict e"
proof (cases "settings_modules m")
  case True
  let ?es = "tracked_entries (iw_installed w)"
  have st: "stays s (refresh_hooks u m ?es s)" by (rule refresh_stays)
  show ?thesis
  proof (cases "refresh_hooks u m ?es s")
    case (Inl e')
    with st assms(1,5) True show ?thesis by (simp add: apply_install_settings_def)
  next
    case (Inr s1)
    with st have d: "jget s1 ''statusLine'' = jget s ''statusLine''" by (simp add: jget_def)
    have "merge_settings forge m force s1 = Inl e"
      using assms(1,2,5) True Inr by (auto simp: apply_install_settings_def Let_def split: sum.splits prod.splits)
    moreover have "jget s1 ''statusLine'' = JNull \<or> py_eq (jget s1 ''statusLine'') v \<or> force"
      if "md_status m" "dget forge ''statusLine'' = Some v" for v
      unfolding d by (rule plans_status [OF assms(3,4) that])
    ultimately show ?thesis by (intro merge_conflict)
  qed
qed (use assms(5) in \<open>simp add: apply_install_settings_def Let_def\<close>)


end
