(* ===== verification/Spec2Isabelle.thy ===== *)
theory Spec2Isabelle
  imports WorkQueue Overrides Spend Gate Verdict Patch Evidence StopReview Journal Relay Convert Translate Settings "HOL-Library.Multiset"
begin

text \<open>
  Multi-Forge (\<open>src/forge\<close>) is a control plane for coding agents: it keeps sessions of an agent in
  files, runs background work for them, proxies their model calls under spend caps, and judges what
  they are about to write against policies. This development models the parts where that can go
  wrong: the durable state of a session, the queue of deferred work, the caps, and the policy gate.

  Components and theories, with the files under \<open>src/forge\<close> they translate.

  \<^item> \<open>Prelude\<close>, \<open>Json\<close>, \<open>PyText\<close>: the Python data the rest uses: dicts as association lists in
    insertion order (the locale \<open>keyed_store\<close>, interpreted on them), JSON values, \<open>str\<close> operations,
    operations as functions from a state to the durable states they pass through and a result.
  \<^item> \<open>Names\<close>: \<open>session/validation.py\<close> and \<open>session/identity.py\<close>, the session name check and the
    scoped keys of the index with their resolvers.
  \<^item> \<open>Overrides\<close>: \<open>session/overrides.py\<close> and \<open>session/effective.py\<close>, editing the overrides of a
    session by dotted keys (validation, wildcards, set, reset) and merging them into the intent.
  \<^item> \<open>Manifest\<close>: the content half of \<open>session/store.py\<close>: validation, the upgrade of old versions on
    read, the choice of the version on write.
  \<^item> \<open>Store\<close>: the stateful half of \<open>session/store.py\<close>. The state is one session directory (manifest,
    owner file, lock); an operation is the list of durable directory states it leaves behind, so
    that a crash at any point is one of them. The locale \<open>reservation\<close> states exclusive creation.
  \<^item> \<open>Index\<close>: \<open>session/index.py\<close> on a world of index file and session directories: creation, deletion,
    listing, lookups and pruning, each with its failures, and a step relation over them.
  \<^item> \<open>Workers\<close>: \<open>session/workers.py\<close>, the leases that keep a session alive while a worker runs.
  \<^item> \<open>WorkQueue\<close>: \<open>core/workqueue/\<close>, markers on a desk of files: enqueueing, the bounded rotating
    scan, one marker under its lock. Handlers are parameters.
  \<^item> \<open>Spend\<close>: \<open>proxy/cost_tracker.py\<close> and \<open>core/telemetry/caps.py\<close>, the counters, the checkpoint and
    the bootstrap. The locale \<open>post_event_cap\<close> states how far a cap checked before an event and
    charged after it can be exceeded, and is interpreted for the daily and the monthly meter.
  \<^item> \<open>Rules\<close>: \<open>policy/types.py\<close> and \<open>policy/deterministic/\<close>, the policies of the bundles with their
    regular expressions, as values with functions that may raise.
  \<^item> \<open>Engine\<close>: \<open>policy/engine.py\<close>, \<open>policy/store.py\<close> and the decision part of \<open>policy_check\<close> and
    \<open>codex_policy_check\<close> in \<open>cli/hooks/commands.py\<close> and \<open>cli/hooks/policy.py\<close>.
  \<^item> \<open>Gate\<close>: the hooks of a session as a step relation: a hook reads the persisted policy states when
    it begins and merges its own into whatever is there when it ends, so hooks overlap freely.
  \<^item> \<open>Patch\<close>: \<open>cli/hooks/codex_patch.py\<close>, \<open>cli/hooks/codex_policy.py\<close> and \<open>policy/action_identity.py\<close>,
    from the text of a patch to the actions that are judged.
  \<^item> \<open>Verdict\<close>: \<open>policy/semantic/verdict.py\<close> and \<open>core/reactive/structured_output.py\<close>, from the text a
    supervising model returned to a decision.
  \<^item> \<open>Journal\<close>: \<open>session/events.py\<close>, the envelope of session events, the append of a journal, and the
    checkpoint of the review domain as a journal that is compacted under a lock.
  \<^item> \<open>Evidence\<close>: \<open>policy/semantic/turn_evidence.py\<close>, snapshots in a content-addressed storage, the
    comparison of two of them with the tool actions seen, and the rebase of pending work.
  \<^item> \<open>StopReview\<close>: \<open>policy/semantic/stop_review.py\<close> with the dispatch of \<open>cli/hooks/codex_stop.py\<close>: the
    state of a reviewed turn, the callbacks that prompts, tool hooks and Stop hooks run on it, and
    the processes that interleave as a step relation over the checkpoint.
  \<^item> \<open>Relay\<close>: \<open>proxy/sse_framing.py\<close>, \<open>proxy/stream_relay.py\<close>, \<open>proxy/response_headers.py\<close> and the two
    passthrough wires, from the bytes of an upstream to the headers and bytes of the client and to the
    usage that is accounted.
  \<^item> \<open>Convert\<close>: the stream conversion of \<open>proxy/converters.py\<close>, from the chunks of an OpenAI-compatible
    backend to the events of the Anthropic protocol, as actions of a generator that a client may leave
    at any yield. The protocol of the client is a function that accepts or rejects events.
  \<^item> \<open>Translate\<close>: the requests and whole answers of \<open>proxy/converters.py\<close>, with the models of
    \<open>proxy/data_models.py\<close>.
  \<^item> \<open>Settings\<close>: \<open>install/settings_merge.py\<close>, the settings half of \<open>install/installer.py\<close>, the built-in
    preset and the hooks of earlier releases in \<open>install/hook_migration.py\<close>: the settings file of the
    host, the sidecars with what was added, and the tracked installation, through installs and uninstall.

  How they interact: \<open>Index\<close> creates and deletes through \<open>Store\<close>, which writes what \<open>Manifest\<close>
  validates; \<open>Workers\<close> and \<open>WorkQueue\<close> run only for sessions \<open>Index\<close> and \<open>Store\<close> show alive;
  \<open>Manifest\<close> carries the overrides of \<open>Overrides\<close> and the policy section that \<open>Engine\<close> updates;
  \<open>Patch\<close> feeds \<open>Engine\<close>, which runs \<open>Rules\<close>; a verdict of \<open>Verdict\<close> is the answer of one of the
  semantic policies, which \<open>Engine\<close> takes as arguments. \<open>StopReview\<close> keeps its state in the checkpoint
  of \<open>Journal\<close>, which \<open>checkpoint_refines_cell\<close> shows to be one atomic cell: that is what its step
  relation works on; it freezes the evidence of \<open>Evidence\<close> and records the decision of \<open>Verdict\<close>. \<open>Convert\<close> and
  \<open>Translate\<close> share the sanitizing of tool arguments and the split of a prompt count, which the usage
  tap of \<open>Relay\<close> reads back (\<open>usage_conventions_agree\<close>). \<open>Settings\<close> puts the hooks that run \<open>Engine\<close> and
  \<open>StopReview\<close> into the host, and stands alone.

  What the groups of lemmas show. Names and overrides: the checks accept what they document (and one
  name they do not), edits keep the schema and the lifecycle, merging is path-wise. Manifest and
  store: what is written validates when read, old versions upgrade within bounds, a manifest never
  appears under another creation's owner, updates are fenced by it, deletion is final. Index: no
  manifest without a row survives, creations are decided before they change anything, conversations
  stay unique. Queue: no marker is lost or run without admission, every marker is visited, poison
  markers retire. Spend: overshoot by at most one request per meter, bounded loss at a crash. Policy:
  any deny blocks, review is not dropped, tests come before implementation under any interleaving of
  hooks, the patch parser accepts its grammar, a patch is judged file by file (below), and a
  supervisor blocks exactly on a confident, cited divergence. Stop review: well-typed checkpoints never
  get stuck on their validator, a turn is reviewed once at most and corrected only on a fresh, complete
  denial, pending work is carried exactly or recorded as excluded; the checkpoint refines a cell. Relay:
  framing ends and does not depend on the chunks, bytes pass unchanged, credentials do not pass. Translation: a
  stream follows the client's protocol and keeps its text, a conversation keeps its items in order, its
  system prompt stays a prefix, a forced tool stays forced, and an assistant's turn survives both ways. Settings: what the tracked
  entries own, taken away, is what the user had (\<open>undone\<close>), every install keeps that, so an uninstall
  gives the settings back and keeps what the user added since; a conflict shows in the plan.

  Bounds. No definition uses fuel: loops over finite data are structural or come with a measure (the
  override paths, the code fences, the binary search of the scan window); the framing loop, whose
  callback is arbitrary, is a partial function that \<open>framing_terminates\<close> shows to end. Numbers are unbounded as in
  Python; floats are exact rationals, so rounding is not modelled. Characters are the code points
  below 256; the content that regular expressions search is a list of code points.

  Parameters. Code outside the repository is an argument: \<open>json.loads\<close> on a model's answer, \<open>dacite\<close>,
  the SHA-256 digests, the character tables of Unicode, the handlers of the queue, the semantic
  policies, the captures of a worktree, the diff of two texts, the clock and the outcome of each write;
  for the translation also \<open>json.dumps\<close>, the capabilities of models in the catalogue, the patterns of
  ignored tools and the coercions of pydantic; for the settings \<open>shlex.split\<close> and the command line of the
  hook dispatcher. File locks are the atomicity of the operations
  they protect; a lock that cannot be taken is an outcome.

  Not modelled: the command line and its output (\<open>cli\<close> apart from the hooks above), the launch and
  supervision of agent processes (\<open>core/invoker\<close>, \<open>core/reactive\<close>, \<open>core/ops\<close>, \<open>sidecar\<close>), the
  HTTP server and its clients (\<open>proxy\<close> apart from the caps, the relay and the translation), the installation
  of files and skills, Codex and the rollback of a failed write (\<open>install\<close> apart from the settings), search and review runs, the transfer, rewind and memory features of \<open>session\<close>, the
  capture of a worktree (git), and the prompts of the semantic policies. They are process, network and
  text plumbing around the state above, or, like session deletion, orchestration over it.
\<close>

section \<open>From the text of a patch to the decision\<close>


definition sample_payload :: "patch_section list \<Rightarrow> jobj" where
  "sample_payload secs = [(''tool_input'', JObj [(''command'', JStr (render_patch secs))])]"


end
